(* ===== verification/Nakode_Prelude.thy ===== *)
theory Nakode_Prelude
  imports Main "HOL-Library.Word" "HOL-Library.Sublist" "HOL-Library.List_Lexorder"
begin

text \<open>
  The vocabulary every component theory shares.

  \<^item> Rust strings are lists of Unicode scalar values (\<open>ustring\<close>); \<open>byte_len\<close> is
    \<open>str::len\<close> (UTF-8 bytes), \<open>length\<close> is \<open>chars().count()\<close>, \<open>trim\<close> is \<open>str::trim\<close>.
  \<^item> \<open>Result<T, E>\<close> is the sum \<open>'e + 'a\<close>; \<open>rbind\<close> is the \<open>?\<close> operator.
  \<^item> A database transaction is a function from the state to an error or a result with the
    new state; \<open>transact\<close> commits it or, on an error, drops it (rollback).
  \<^item> SQL \<open>UPDATE\<close> and \<open>DELETE\<close> over a table kept as a list of rows are \<open>update_where\<close>
    and \<open>delete_where\<close>.
\<close>

named_theorems result_simps "inversion of the Result combinators"
named_theorems table_simps "how table updates act on keys, members and counts"

section \<open>Unicode text\<close>

type_synonym uchar = nat
type_synonym ustring = "uchar list"

definition lit :: "string \<Rightarrow> ustring" where
  "lit s = map of_char s"

lemma lit_inject [simp]: "lit s = lit t \<longleftrightarrow> s = t"
  unfolding lit_def by (rule inj_map_eq_map) (simp add: inj_def)

lemma lit_eq_Nil [simp]: "lit s = [] \<longleftrightarrow> s = []" "[] = lit s \<longleftrightarrow> s = []"
  by (auto simp: lit_def)

lemma length_lit [simp]: "length (lit s) = length s"
  by (simp add: lit_def)

lemma prefix_lit [simp]: "prefix (lit s) (lit t) \<longleftrightarrow> prefix s t"
proof (induction s arbitrary: t)
  case Nil
  then show ?case by (simp add: lit_def)
next
  case (Cons a s)
  then show ?case by (cases t) (auto simp: lit_def)
qed

definition len_utf8 :: "uchar \<Rightarrow> nat" where
  "len_utf8 c = (if c < 0x80 then 1 else if c < 0x800 then 2 else if c < 0x10000 then 3 else 4)"

definition byte_len :: "ustring \<Rightarrow> nat" where
  "byte_len s = sum_list (map len_utf8 s)"

lemma len_utf8_pos [simp]: "0 < len_utf8 c"
  by (simp add: len_utf8_def)

lemma len_utf8_bounds: "1 \<le> len_utf8 c" "len_utf8 c \<le> 4"
  by (simp_all add: len_utf8_def)

lemma byte_len_simps [simp]:
  "byte_len [] = 0"
  "byte_len (c # s) = len_utf8 c + byte_len s"
  "byte_len (s @ t) = byte_len s + byte_len t"
  by (simp_all add: byte_len_def)

lemma byte_len_eq_0 [simp]: "byte_len s = 0 \<longleftrightarrow> s = []"
  by (cases s) (auto simp: len_utf8_def)

lemma byte_len_pos [simp]: "0 < byte_len s \<longleftrightarrow> s \<noteq> []"
  by (cases s) simp_all

lemma length_le_byte_len: "length s \<le> byte_len s"
proof (induction s)
  case (Cons c s)
  then show ?case using len_utf8_bounds(1) [of c] by simp
qed simp

lemma byte_len_le_4_length: "byte_len s \<le> 4 * length s"
proof (induction s)
  case (Cons c s)
  then show ?case using len_utf8_bounds(2) [of c] by simp
qed simp

lemma byte_len_take_le: "byte_len (take n s) \<le> byte_len s"
proof -
  have "byte_len (take n s @ drop n s) = byte_len (take n s) + byte_len (drop n s)"
    by (rule byte_len_simps(3))
  then show ?thesis by simp
qed

lemma byte_len_prefix: "prefix s t \<Longrightarrow> byte_len s \<le> byte_len t"
  by (auto simp: prefix_def)

text \<open>\<open>char::is_whitespace\<close> (Unicode White_Space) and \<open>char::is_control\<close> (category Cc).\<close>

definition is_whitespace :: "uchar \<Rightarrow> bool" where
  "is_whitespace c \<longleftrightarrow>
     9 \<le> c \<and> c \<le> 13 \<or> c = 32 \<or> c = 0x85 \<or> c = 0xA0 \<or> c = 0x1680
     \<or> 0x2000 \<le> c \<and> c \<le> 0x200A \<or> c = 0x2028 \<or> c = 0x2029 \<or> c = 0x202F \<or> c = 0x205F \<or> c = 0x3000"

definition is_control :: "uchar \<Rightarrow> bool" where
  "is_control c \<longleftrightarrow> c < 32 \<or> 0x7F \<le> c \<and> c \<le> 0x9F"

definition trim_start :: "ustring \<Rightarrow> ustring" where
  "trim_start s = dropWhile is_whitespace s"

definition trim_end :: "ustring \<Rightarrow> ustring" where
  "trim_end s = rev (dropWhile is_whitespace (rev s))"

definition trim :: "ustring \<Rightarrow> ustring" where
  "trim s = trim_end (trim_start s)"

lemma trim_eq_Nil [simp]: "trim s = [] \<longleftrightarrow> (\<forall>c \<in> set s. is_whitespace c)"
proof
  assume "trim s = []"
  then have "\<forall>c \<in> set (dropWhile is_whitespace s). is_whitespace c"
    by (simp add: trim_def trim_end_def trim_start_def dropWhile_eq_Nil_conv)
  then show "\<forall>c \<in> set s. is_whitespace c"
    by (metis Un_iff set_append set_takeWhileD takeWhile_dropWhile_id)
next
  assume "\<forall>c \<in> set s. is_whitespace c"
  then show "trim s = []"
    by (auto simp: trim_def trim_end_def trim_start_def dest: set_dropWhileD)
qed

text \<open>\<open>Display\<close> of an unsigned integer, and \<open>{:x}\<close> of a byte.\<close>

fun show_nat :: "nat \<Rightarrow> ustring" where
  "show_nat n = (if n < 10 then [48 + n] else show_nat (n div 10) @ [48 + n mod 10])"

declare show_nat.simps [simp del]

lemma show_nat_nonempty [simp]: "show_nat n \<noteq> []"
  by (subst show_nat.simps) simp

lemma show_nat_inject [simp]: "show_nat m = show_nat n \<longleftrightarrow> m = n"
proof (induction m arbitrary: n rule: show_nat.induct)
  case (1 m)
  show ?case
  proof (cases "m < 10 \<or> n < 10")
    case True
    then show ?thesis
      by (subst (1 2) show_nat.simps) (auto simp: append_eq_Cons_conv Cons_eq_append_conv)
  next
    case False
    then have "show_nat m = show_nat n \<longleftrightarrow> m div 10 = n div 10 \<and> m mod 10 = n mod 10"
      using 1 by (subst (1 2) show_nat.simps) auto
    then show ?thesis by (metis div_mult_mod_eq)
  qed
qed

definition hex_digit :: "nat \<Rightarrow> uchar" where
  "hex_digit n = (if n < 10 then 48 + n else 87 + n)"

definition hex_bytes :: "nat list \<Rightarrow> ustring" where
  "hex_bytes bs = concat (map (\<lambda>b. [hex_digit (b div 16), hex_digit (b mod 16)]) bs)"

section \<open>Result\<close>

definition rbind :: "'e + 'a \<Rightarrow> ('a \<Rightarrow> 'e + 'b) \<Rightarrow> 'e + 'b" where
  "rbind m f = (case m of Inl e \<Rightarrow> Inl e | Inr a \<Rightarrow> f a)"

lemma rbind_simps [simp]: "rbind (Inl e) f = Inl e" "rbind (Inr a) f = f a"
  by (simp_all add: rbind_def)

lemma rbind_eq_Inr [simp, result_simps]:
  "rbind m f = Inr b \<longleftrightarrow> (\<exists>a. m = Inr a \<and> f a = Inr b)"
  by (cases m) auto

lemma rbind_eq_Inl [result_simps]:
  "rbind m f = Inl e \<longleftrightarrow> m = Inl e \<or> (\<exists>a. m = Inr a \<and> f a = Inl e)"
  by (cases m) auto

lemma rbind_cong [fundef_cong]:
  "m = n \<Longrightarrow> (\<And>a. n = Inr a \<Longrightarrow> f a = g a) \<Longrightarrow> rbind m f = rbind n g"
  by (cases n) auto

text \<open>\<open>iter().map(f).collect::<Result<Vec<_>, _>>()\<close>: the first error stops it.\<close>

fun rmap :: "('a \<Rightarrow> 'e + 'b) \<Rightarrow> 'a list \<Rightarrow> 'e + 'b list" where
  "rmap f [] = Inr []"
| "rmap f (x # xs) = rbind (f x) (\<lambda>y. rbind (rmap f xs) (\<lambda>ys. Inr (y # ys)))"

lemma rmap_Inr: "rmap f xs = Inr ys \<longleftrightarrow> list_all2 (\<lambda>x y. f x = Inr y) xs ys"
proof (induction xs arbitrary: ys)
  case Nil
  then show ?case by auto
next
  case (Cons x xs)
  show ?case by (cases ys) (auto simp: Cons.IH)
qed

lemma rmap_append:
  "rmap f (xs @ ys) = rbind (rmap f xs) (\<lambda>us. rbind (rmap f ys) (\<lambda>vs. Inr (us @ vs)))"
proof (induction xs)
  case Nil
  show ?case by (cases "rmap f ys") simp_all
next
  case (Cons x xs)
  then show ?case by (cases "f x"; cases "rmap f xs"; cases "rmap f ys") simp_all
qed

section \<open>Transactions\<close>

definition transact :: "('s \<Rightarrow> 'e + 'a \<times> 's) \<Rightarrow> 's \<Rightarrow> ('e + 'a) \<times> 's" where
  "transact t s = (case t s of Inl e \<Rightarrow> (Inl e, s) | Inr (a, s') \<Rightarrow> (Inr a, s'))"

lemma transact_Inl [simp]: "fst (transact t s) = Inl e \<Longrightarrow> snd (transact t s) = s"
  by (auto simp: transact_def split: sum.splits)

lemma transact_eq_Inl: "transact t s = (Inl e, s') \<longleftrightarrow> t s = Inl e \<and> s' = s"
  by (auto simp: transact_def split: sum.splits)

lemma transact_eq_Inr: "transact t s = (Inr a, s') \<longleftrightarrow> t s = Inr (a, s')"
  by (auto simp: transact_def split: sum.splits)

lemma transact_cases:
  obtains (rollback) e where "transact t s = (Inl e, s)" "t s = Inl e"
  | (commit) a s' where "transact t s = (Inr a, s')" "t s = Inr (a, s')"
  by (cases "t s") (auto simp: transact_def)

section \<open>Tables\<close>

definition update_where :: "('r \<Rightarrow> bool) \<Rightarrow> ('r \<Rightarrow> 'r) \<Rightarrow> 'r list \<Rightarrow> 'r list" where
  "update_where P g t = map (\<lambda>r. if P r then g r else r) t"

definition delete_where :: "('r \<Rightarrow> bool) \<Rightarrow> 'r list \<Rightarrow> 'r list" where
  "delete_where P t = filter (\<lambda>r. \<not> P r) t"

definition count_where :: "('r \<Rightarrow> bool) \<Rightarrow> 'r list \<Rightarrow> nat" where
  "count_where P t = length (filter P t)"

definition exists_where :: "('r \<Rightarrow> bool) \<Rightarrow> 'r list \<Rightarrow> bool" where
  "exists_where P t \<longleftrightarrow> list_ex P t"

lemma exists_where_iff [simp]: "exists_where P t \<longleftrightarrow> (\<exists>r \<in> set t. P r)"
  by (simp add: exists_where_def list_ex_iff)

lemma update_where_simps [simp]:
  "update_where P g [] = []"
  "update_where P g (r # t) = (if P r then g r else r) # update_where P g t"
  "update_where P g (t @ u) = update_where P g t @ update_where P g u"
  by (simp_all add: update_where_def)

lemma length_update_where [simp]: "length (update_where P g t) = length t"
  by (simp add: update_where_def)

lemma set_update_where [simp]: "set (update_where P g t) = (\<lambda>r. if P r then g r else r) ` set t"
  by (simp add: update_where_def)

lemma map_update_where_key [table_simps]:
  "(\<And>r. k (g r) = k r) \<Longrightarrow> map k (update_where P g t) = map k t"
  by (simp add: update_where_def)

lemma update_where_none [table_simps]: "(\<And>r. r \<in> set t \<Longrightarrow> \<not> P r) \<Longrightarrow> update_where P g t = t"
  by (induction t) auto

lemma filter_update_where_frame [table_simps]:
  "(\<And>r. r \<in> set t \<Longrightarrow> P r \<Longrightarrow> \<not> Q r \<and> \<not> Q (g r)) \<Longrightarrow> filter Q (update_where P g t) = filter Q t"
  by (induction t) auto

lemma count_where_simps [simp]:
  "count_where P [] = 0"
  "count_where P (r # t) = (if P r then 1 else 0) + count_where P t"
  "count_where P (t @ u) = count_where P t + count_where P u"
  by (simp_all add: count_where_def)

lemma count_where_le_length: "count_where P t \<le> length t"
  by (simp add: count_where_def)

lemma count_where_mono: "(\<And>r. r \<in> set t \<Longrightarrow> P r \<Longrightarrow> Q r) \<Longrightarrow> count_where P t \<le> count_where Q t"
  by (induction t) auto

lemma count_where_eq_0 [simp]: "count_where P t = 0 \<longleftrightarrow> (\<forall>r \<in> set t. \<not> P r)"
  by (auto simp: count_where_def filter_empty_conv)

lemma set_delete_where [simp]: "set (delete_where P t) = {r \<in> set t. \<not> P r}"
  by (simp add: delete_where_def)

lemma delete_where_simps [simp]:
  "delete_where P [] = []"
  "delete_where P (r # t) = (if P r then delete_where P t else r # delete_where P t)"
  by (simp_all add: delete_where_def)

lemma distinct_delete_where: "distinct (map k t) \<Longrightarrow> distinct (map k (delete_where P t))"
  unfolding delete_where_def by (rule distinct_map_filter)

lemma find_Some_set: "List.find P t = Some r \<Longrightarrow> r \<in> set t \<and> P r"
  by (auto simp: find_Some_iff in_set_conv_nth)

lemma find_None_set: "List.find P t = None \<longleftrightarrow> (\<forall>r \<in> set t. \<not> P r)"
  by (auto simp: find_None_iff)

text \<open>Looking a row up by a unique key.\<close>

lemma find_unique_key:
  "distinct (map k t) \<Longrightarrow> r \<in> set t \<Longrightarrow> List.find (\<lambda>r. k r = k0) t = (if k r = k0 then Some r else List.find (\<lambda>r. k r = k0) t)"
proof (induction t)
  case (Cons a t)
  then show ?case by (auto simp: image_iff)
qed simp

lemma find_key_Some_iff:
  assumes "distinct (map k t)"
  shows "List.find (\<lambda>r. k r = k0) t = Some r \<longleftrightarrow> r \<in> set t \<and> k r = k0"
  using assms find_unique_key [of k t r k0] find_Some_set [of "\<lambda>r. k r = k0" t r] by auto

lemma find_append [simp]:
  "List.find P (t @ u) = (case List.find P t of None \<Rightarrow> List.find P u | Some r \<Rightarrow> Some r)"
  by (induction t) auto

lemma find_update_where_key:
  "(\<And>r. k (g r) = k r) \<Longrightarrow>
   List.find (\<lambda>r. k r = k0) (update_where P g t) =
   map_option (\<lambda>r. if P r then g r else r) (List.find (\<lambda>r. k r = k0) t)"
  by (induction t) auto

lemma find_delete_where_key:
  "List.find (\<lambda>r. k r = k0) (delete_where (\<lambda>r. k r = k1) t) =
   (if k0 = k1 then None else List.find (\<lambda>r. k r = k0) t)"
  by (induction t) auto

lemma distinct_key_eq: "distinct (map k t) \<Longrightarrow> r \<in> set t \<Longrightarrow> s \<in> set t \<Longrightarrow> k r = k s \<Longrightarrow> r = s"
  by (metis distinct_map inj_onD)

section \<open>Cursors over ascending keys\<close>

lemma filter_after_page:
  fixes k :: "'a \<Rightarrow> nat"
  assumes "sorted_wrt (<) (map k xs)" "filter (\<lambda>x. a < k x) xs = page @ rest" "page \<noteq> []"
  shows "filter (\<lambda>x. k (last page) < k x) xs = rest"
proof -
  have sorted: "sorted_wrt (\<lambda>x y. k x < k y) (page @ rest)"
    using assms(1) unfolding assms(2) [symmetric] by (simp add: sorted_wrt_map sorted_wrt_filter)
  have "last page \<in> set (page @ rest)" using assms(3) by simp
  then have low: "a < k (last page)" unfolding assms(2) [symmetric] by simp
  have "filter (\<lambda>x. k (last page) < k x) xs = filter (\<lambda>x. k (last page) < k x) (filter (\<lambda>x. a < k x) xs)"
    using low by (auto simp: intro!: filter_cong)
  also have "\<dots> = filter (\<lambda>x. k (last page) < k x) page @ filter (\<lambda>x. k (last page) < k x) rest"
    unfolding assms(2) by simp
  also have "filter (\<lambda>x. k (last page) < k x) rest = rest"
    using sorted assms(3) by (auto simp: sorted_wrt_append filter_id_conv)
  also have "filter (\<lambda>x. k (last page) < k x) page = []"
  proof -
    have "page = butlast page @ [last page]" using assms(3) by simp
    then have "sorted_wrt (\<lambda>x y. k x < k y) (butlast page @ [last page])"
      using sorted by (metis sorted_wrt_append)
    then have "\<forall>x \<in> set (butlast page @ [last page]). \<not> k (last page) < k x"
      by (auto simp: sorted_wrt_append)
    then show ?thesis using assms(3) by (simp add: filter_empty_conv)
  qed
  finally show ?thesis by simp
qed

lemma filter_upto_page:
  fixes k :: "'a \<Rightarrow> nat"
  assumes "sorted_wrt (<) (map k xs)" "take n xs \<noteq> []"
  shows "filter (\<lambda>x. k x \<le> k (last (take n xs))) xs = take n xs"
proof -
  have sorted: "sorted_wrt (\<lambda>x y. k x < k y) (take n xs @ drop n xs)"
    using assms(1) by (simp add: sorted_wrt_map)
  have split: "take n xs = butlast (take n xs) @ [last (take n xs)]" using assms(2) by simp
  then have "sorted_wrt (\<lambda>x y. k x < k y) (butlast (take n xs) @ [last (take n xs)])"
    using sorted by (metis sorted_wrt_append)
  then have "\<forall>x \<in> set (butlast (take n xs) @ [last (take n xs)]). k x \<le> k (last (take n xs))"
    by (auto simp: sorted_wrt_append intro: less_imp_le)
  then have "\<forall>x \<in> set (take n xs). k x \<le> k (last (take n xs))"
    unfolding split [symmetric] .
  then have "filter (\<lambda>x. k x \<le> k (last (take n xs))) (take n xs) = take n xs"
    by (simp only: filter_id_conv)
  moreover have "\<forall>x \<in> set (drop n xs). k (last (take n xs)) < k x"
    using sorted last_in_set [OF assms(2)] unfolding sorted_wrt_append by blast
  then have above: "filter (\<lambda>x. k x \<le> k (last (take n xs))) (drop n xs) = []"
    by (simp only: filter_empty_conv not_le)
  ultimately have "filter (\<lambda>x. k x \<le> k (last (take n xs))) (take n xs @ drop n xs) = take n xs"
    by (simp only: filter_append append_Nil2)
  then show ?thesis by simp
qed

lemma rmap_map_eq:
  assumes "rmap f xs = Inr ys" "\<And>x y. f x = Inr y \<Longrightarrow> h y = k x"
  shows "map h ys = map k xs" "length ys = length xs"
proof -
  from assms(1) have all: "list_all2 (\<lambda>x y. f x = Inr y) xs ys" by (simp add: rmap_Inr)
  then show "map h ys = map k xs"
    by (induction rule: list_all2_induct) (auto dest: assms(2))
  from all show "length ys = length xs" by (simp add: list_all2_lengthD)
qed

lemma rmap_take:
  "rmap f xs = Inr ys \<Longrightarrow> rmap f (take n xs) = Inr (take n ys)"
  by (auto simp: rmap_Inr)

end
