(* ===== verification/Truncation.thy ===== *)
theory Truncation
  imports Nakode_Prelude
begin

text \<open>
  Bounded tool output: \<open>src/src/tools/truncate.rs\<close>.  \<open>truncate_head\<close> keeps whole lines of a
  tool's output within a line and a byte budget, \<open>truncate_line\<close> bounds one line by characters.
  \<open>str::split_inclusive('\n')\<close> is \<open>split_inclusive\<close>; \<open>str::lines\<close> has the same number of pieces.
\<close>

definition DEFAULT_MAX_LINES :: nat where "DEFAULT_MAX_LINES = 2000"
definition DEFAULT_MAX_BYTES :: nat where "DEFAULT_MAX_BYTES = 50 * 1024"
definition GREP_MAX_LINE_CHARS :: nat where "GREP_MAX_LINE_CHARS = 500"

datatype truncated_by = Lines | Bytes

record truncation =
  content :: ustring
  total_lines :: nat
  output_lines :: nat
  truncated_by :: "truncated_by option"
  first_line_exceeds_limit :: bool

fun split_inclusive :: "uchar \<Rightarrow> ustring \<Rightarrow> ustring list" where
  "split_inclusive sep [] = []"
| "split_inclusive sep (c # cs) =
     (if c = sep then [c] # split_inclusive sep cs
      else (case split_inclusive sep cs of [] \<Rightarrow> [[c]] | l # ls \<Rightarrow> (c # l) # ls))"

text \<open>The loop over the lines, with its accumulators and its two \<open>break\<close>s.\<close>

fun head_lines :: "nat \<Rightarrow> nat \<Rightarrow> ustring list \<Rightarrow> ustring \<Rightarrow> nat \<Rightarrow> ustring \<times> nat \<times> truncated_by option" where
  "head_lines max_lines max_bytes [] acc n = (acc, n, None)"
| "head_lines max_lines max_bytes (line # rest) acc n =
     (if n = max_lines then (acc, n, Some Lines)
      else if byte_len acc + byte_len line > max_bytes then (acc, n, Some Bytes)
      else head_lines max_lines max_bytes rest (acc @ line) (n + 1))"

definition truncate_head :: "ustring \<Rightarrow> nat \<Rightarrow> nat \<Rightarrow> truncation" where
  "truncate_head input max_lines max_bytes =
     (let total = max (length (split_inclusive 10 input)) (if input = [] then 0 else 1) in
      if byte_len input \<le> max_bytes \<and> total \<le> max_lines then
        \<lparr>content = input, total_lines = total, output_lines = total, truncated_by = None,
         first_line_exceeds_limit = False\<rparr>
      else
        let (text, n, by0) = head_lines max_lines max_bytes (split_inclusive 10 input) [] 0;
            by1 = (if by0 = None \<and> byte_len text < byte_len input then Some Bytes else by0) in
        \<lparr>content = text, total_lines = total, output_lines = n, truncated_by = by1,
         first_line_exceeds_limit = (n = 0 \<and> input \<noteq> [])\<rparr>)"

definition truncate_line :: "ustring \<Rightarrow> ustring \<times> bool" where
  "truncate_line line =
     (let retained = take GREP_MAX_LINE_CHARS line in
      if drop GREP_MAX_LINE_CHARS line \<noteq> [] then (retained @ lit ''... [truncated]'', True)
      else (retained, False))"

section \<open>Lines\<close>

lemma concat_split_inclusive [simp]: "concat (split_inclusive sep s) = s"
  by (induction s) (auto split: list.splits)

lemma split_inclusive_eq_Nil [simp]: "split_inclusive sep s = [] \<longleftrightarrow> s = []"
  by (cases s) (auto split: list.splits)

lemma split_inclusive_nonempty: "l \<in> set (split_inclusive sep s) \<Longrightarrow> l \<noteq> []"
  by (induction s arbitrary: l) (auto split: if_splits list.splits)

text \<open>\<open>fits\<close>: the first \<open>k\<close> lines are within both budgets.\<close>

definition fits :: "nat \<Rightarrow> nat \<Rightarrow> ustring list \<Rightarrow> nat \<Rightarrow> bool" where
  "fits max_lines max_bytes ls k \<longleftrightarrow>
     k \<le> length ls \<and> k \<le> max_lines \<and> byte_len (concat (take k ls)) \<le> max_bytes"

lemma head_lines_spec:
  assumes "head_lines ml mb rest (concat (take n ls)) n = (acc, k, b)"
    and "rest = drop n ls" "n \<le> length ls" "fits ml mb ls n"
  shows "acc = concat (take k ls) \<and> fits ml mb ls k \<and> n \<le> k \<and>
         (case b of None \<Rightarrow> k = length ls
          | Some Lines \<Rightarrow> k = ml \<and> k < length ls
          | Some Bytes \<Rightarrow> k < ml \<and> k < length ls \<and> mb < byte_len (concat (take (Suc k) ls)))"
  using assms
proof (induction rest arbitrary: n)
  case Nil
  then show ?case by auto
next
  case (Cons line rest)
  have n: "n < length ls" and line: "line = ls ! n" and rest: "rest = drop (Suc n) ls"
    using Cons.prems(2) by (metis drop_all leI list.distinct(1),
      metis Cons_nth_drop_Suc drop_all leI list.distinct(1) list.inject,
      metis drop_Suc list.sel(3) tl_drop)
  have step: "concat (take (Suc n) ls) = concat (take n ls) @ line"
    using n line by (simp add: take_Suc_conv_app_nth)
  show ?case
  proof (cases "n = ml \<or> byte_len (concat (take n ls)) + byte_len line > mb")
    case True
    then show ?thesis
      using Cons.prems(1,4) n step by (auto simp: fits_def split: if_splits)
  next
    case False
    then have "fits ml mb ls (Suc n)"
      using Cons.prems(4) n step by (simp add: fits_def)
    moreover have "head_lines ml mb rest (concat (take (Suc n) ls)) (Suc n) = (acc, k, b)"
      using Cons.prems(1) False step by simp
    ultimately show ?thesis using Cons.IH [of "Suc n"] rest n by auto
  qed
qed

lemma fits_all_iff: "fits ml mb ls (length ls) \<longleftrightarrow> length ls \<le> ml \<and> byte_len (concat ls) \<le> mb"
  by (simp add: fits_def)

lemma fits_mono:
  assumes "fits ml mb ls k" "j \<le> k"
  shows "fits ml mb ls j"
proof -
  have "take k ls = take j ls @ take (k - j) (drop j ls)"
    using take_add [of j "k - j" ls] assms(2) by simp
  then have "byte_len (concat (take j ls)) \<le> byte_len (concat (take k ls))" by simp
  then show ?thesis using assms by (simp add: fits_def)
qed

lemma proper_lines_shorter:
  assumes "k < length (split_inclusive sep s)"
  shows "concat (take k (split_inclusive sep s)) \<noteq> s"
proof
  let ?ls = "split_inclusive sep s"
  assume "concat (take k ?ls) = s"
  moreover have "concat (take k ?ls) @ concat (drop k ?ls) = s"
    by (simp flip: concat_append)
  ultimately have "concat (drop k ?ls) = []" by (metis append_self_conv)
  moreover have "?ls ! k \<in> set (drop k ?ls)"
    using assms by (metis Cons_nth_drop_Suc list.set_intros(1))
  ultimately have "?ls ! k = []" by simp
  then show False using split_inclusive_nonempty [OF nth_mem [OF assms]] by simp
qed

lemma total_lines_eq:
  "max (length (split_inclusive sep s)) (if s = [] then 0 else 1) = length (split_inclusive sep s)"
  by (cases "split_inclusive sep s") (auto simp: max_def)

lemma truncate_head_cases:
  obtains (whole) "fits ml mb (split_inclusive 10 input) (length (split_inclusive 10 input))"
      "content (truncate_head input ml mb) = input"
      "output_lines (truncate_head input ml mb) = length (split_inclusive 10 input)"
      "truncated_by (truncate_head input ml mb) = None"
  | (cut) k b where
      "\<not> fits ml mb (split_inclusive 10 input) (length (split_inclusive 10 input))"
      "head_lines ml mb (split_inclusive 10 input) [] 0 =
         (concat (take k (split_inclusive 10 input)), k, b)"
      "content (truncate_head input ml mb) = concat (take k (split_inclusive 10 input))"
      "output_lines (truncate_head input ml mb) = k"
      "truncated_by (truncate_head input ml mb) = b"
      "fits ml mb (split_inclusive 10 input) k" "k < length (split_inclusive 10 input)"
      "\<not> fits ml mb (split_inclusive 10 input) (Suc k)" "b \<noteq> None"
proof (cases "fits ml mb (split_inclusive 10 input) (length (split_inclusive 10 input))")
  case True
  then show ?thesis
    by (intro whole) (auto simp: truncate_head_def total_lines_eq fits_all_iff Let_def)
next
  case False
  obtain acc k b where h: "head_lines ml mb (split_inclusive 10 input) [] 0 = (acc, k, b)"
    by (cases "head_lines ml mb (split_inclusive 10 input) [] 0")
  have spec: "acc = concat (take k (split_inclusive 10 input)) \<and>
    fits ml mb (split_inclusive 10 input) k \<and>
         (case b of None \<Rightarrow> k = length (split_inclusive 10 input)
          | Some Lines \<Rightarrow> k = ml \<and> k < length (split_inclusive 10 input)
          | Some Bytes \<Rightarrow> k < ml \<and> k < length (split_inclusive 10 input) \<and>
              mb < byte_len (concat (take (Suc k) (split_inclusive 10 input))))"
    using head_lines_spec [of ml mb _ 0 "split_inclusive 10 input" acc k b] h by (auto simp: fits_def)
  then have "b \<noteq> None" using False by (cases b) auto
  with spec False h show ?thesis
    by (intro cut [of k b])
      (auto simp: truncate_head_def total_lines_eq fits_all_iff Let_def fits_def
        split: truncated_by.splits option.splits)
qed

text \<open>\<open>truncate_head\<close> keeps exactly the longest run of whole leading lines that fits both budgets:
  the content is the first \<open>output_lines\<close> lines, it fits, no longer run fits, and the output is
  reported as truncated precisely when something was left out.\<close>

theorem truncate_head_longest:
  "content (truncate_head input ml mb) =
       concat (take (output_lines (truncate_head input ml mb)) (split_inclusive 10 input)) \<and>
   {k. fits ml mb (split_inclusive 10 input) k} = {0..output_lines (truncate_head input ml mb)} \<and>
   (truncated_by (truncate_head input ml mb) = None \<longleftrightarrow> content (truncate_head input ml mb) = input)"
proof (cases rule: truncate_head_cases [of ml mb input])
  case whole
  then show ?thesis by (auto intro: fits_mono) (simp add: fits_def)
next
  case (cut k b)
  then have "{k. fits ml mb (split_inclusive 10 input) k} = {0..k}"
    by (auto intro: fits_mono dest: fits_mono [of _ _ _ _ "Suc k"] simp: not_le Suc_le_eq [symmetric])
  with cut proper_lines_shorter [of k 10 input] show ?thesis by auto
qed

end
