(* ===== verification/Protocol.thy ===== *)
theory Protocol
  imports Nakode_Prelude
begin

text \<open>
  The protocol values the session database and its stores exchange
  (\<open>src/crates/nakode-protocol/src/\<close>: \<open>error.rs\<close>, \<open>command.rs\<close>, \<open>followup.rs\<close>,
  \<open>child_report.rs\<close>).  Identifiers are strings; \<open>u64\<close> values are naturals, with the source's
  range checks written out where it makes them; timestamps (\<open>i64\<close>) are integers; byte vectors are
  lists of naturals.  Only the commands these stores execute are constructors here, every other
  command is \<open>OtherCommand\<close>.

  Third-party code (the SHA-256 and JSON crates, the image decoder, SQLite's error texts) is the
  record \<open>ext\<close>, an argument of the definitions that use it.
\<close>

section \<open>Errors\<close>

datatype error_code =
  InvalidRequest | UnsupportedVersion | NotFound | Conflict | PermissionDenied
  | ProviderUnavailable | CapabilityUnsupported | ResyncRequired | Internal

record service_error =
  code :: error_code
  message :: ustring
  retryable :: bool

section \<open>Prompts\<close>

type_synonym bytes = "nat list"

datatype prompt_attachment =
  Artifact (artifact_id: ustring) (att_label: ustring)
| LocalFile (att_label: ustring) (file_path: ustring)
| InlineImage (att_label: ustring) (media_type: ustring) (image_data: bytes)

record prompt_input =
  p_text :: ustring
  p_attachments :: "prompt_attachment list"

section \<open>Commands\<close>

datatype command =
  RelayAgentFollowup (session_id: ustring) (message_id: ustring) (source_session_id: ustring)
    (source_call_id: ustring) (prompt: prompt_input) (source_owner_chat: bool)
| EnqueueFollowup (session_id: ustring) (message_id: ustring) (prompt: prompt_input)
| AdmitExternalChildReport (session_id: ustring) (message_id: ustring) (child_session: ustring)
    (child_title: ustring) (report_id: ustring) (report_state: ustring) (report_body: ustring)
| RemoveFollowup (session_id: ustring) (message_id: ustring)
| SetFollowupPaused (session_id: ustring) (paused: bool)
| ReparentChildSession (source_session_id: ustring) (source_call_id: ustring)
    (child_session: ustring) (expected_parent: "ustring option") (expected_revision: nat)
    (transfer: bool)
| LinkChildSession (parent_session: ustring) (child_session: ustring)
| PublishChildReport (child_session: ustring) (report_id: ustring) (report_state: ustring)
    (report_body: ustring)
| OtherCommand ustring

section \<open>Views\<close>

record followup_item =
  i_sequence :: nat
  i_message_id :: ustring
  i_submitted_by :: ustring
  i_received_at_ms :: int
  i_text :: ustring
  i_attachment_labels :: "ustring list"
  i_state :: ustring
  i_batch_id :: "ustring option"

record followup_inbox =
  v_session_id :: ustring
  v_items :: "followup_item list"
  v_has_more :: bool
  v_pending_count :: nat
  v_paused :: bool
  v_unsettled_batch_id :: "ustring option"
  v_blocked_reason :: "ustring option"

record child_report =
  cr_sequence :: nat
  cr_report_id :: ustring
  cr_parent :: ustring
  cr_child :: ustring
  cr_title :: ustring
  cr_state :: ustring
  cr_body :: ustring
  cr_created_at_ms :: int

record child_report_page =
  reports_of :: "child_report list"
  page_has_more :: bool

section \<open>Code the repository only calls\<close>

datatype json = JNull | JBool bool | JNum int | JStr ustring | JArr "json list"
  | JObj "(ustring \<times> json) list"

datatype image_format = Png | Jpeg | Gif | WebP | OtherFormat ustring

text \<open>What SQLite can refuse a statement for; \<open>TriggerAbort\<close> carries the \<open>RAISE\<close> message.\<close>

datatype sql_fault = UniqueViolation | ForeignKeyViolation | CheckViolation | TriggerAbort ustring

record completion =
  version :: nat
  turn_id :: ustring
  final_text :: "ustring option"
  final_total_bytes :: nat
  truncated :: bool

record ext =
  sha256 :: "bytes \<Rightarrow> bytes"
  command_json :: "command \<Rightarrow> bytes option"
  json_text :: "json \<Rightarrow> ustring"
  completion_json :: "completion \<Rightarrow> ustring"
  parse_completion :: "ustring \<Rightarrow> completion option"
  guess_format :: "bytes \<Rightarrow> ustring + image_format option"
  header_dimensions :: "bytes \<Rightarrow> ustring + nat \<times> nat"
  mime_type :: "image_format \<Rightarrow> ustring"
  decode_image :: "bytes \<Rightarrow> ustring + unit"
  parse_json :: "ustring \<Rightarrow> json option"
  uuid_v5 :: "bytes \<Rightarrow> ustring"
  sqlite_text :: "sql_fault \<Rightarrow> ustring"

text \<open>\<open>serde_json::to_string\<close> of a string is the text of the string value.\<close>

definition json_string :: "ext \<Rightarrow> ustring \<Rightarrow> ustring" where
  "json_string X s = json_text X (JStr s)"

text \<open>\<open>Value::get\<close>, \<open>as_str\<close>, \<open>as_u64\<close> and \<open>as_array\<close>.\<close>

fun json_get :: "json \<Rightarrow> string \<Rightarrow> json option" where
  "json_get (JObj fs) k = map_of fs (lit k)"
| "json_get _ k = None"

fun as_str :: "json \<Rightarrow> ustring option" where
  "as_str (JStr s) = Some s"
| "as_str _ = None"

fun as_u64 :: "json \<Rightarrow> nat option" where
  "as_u64 (JNum i) = (if 0 \<le> i \<and> i < 2 ^ 64 then Some (nat i) else None)"
| "as_u64 _ = None"

fun as_array :: "json \<Rightarrow> json list option" where
  "as_array (JArr vs) = Some vs"
| "as_array _ = None"

text \<open>UTF-8, for the digests taken of text.\<close>

definition utf8_char :: "uchar \<Rightarrow> bytes" where
  "utf8_char c =
     (if c < 0x80 then [c]
      else if c < 0x800 then [0xC0 + c div 0x40, 0x80 + c mod 0x40]
      else if c < 0x10000 then [0xE0 + c div 0x1000, 0x80 + c div 0x40 mod 0x40, 0x80 + c mod 0x40]
      else [0xF0 + c div 0x40000, 0x80 + c div 0x1000 mod 0x40, 0x80 + c div 0x40 mod 0x40,
            0x80 + c mod 0x40])"

definition utf8 :: "ustring \<Rightarrow> bytes" where
  "utf8 s = concat (map utf8_char s)"

lemma length_utf8 [simp]: "length (utf8 s) = byte_len s"
  by (induction s) (auto simp: utf8_def utf8_char_def len_utf8_def)

text \<open>\<open>str::starts_with\<close>.\<close>

abbreviation starts_with :: "ustring \<Rightarrow> string \<Rightarrow> bool" where
  "starts_with s p \<equiv> prefix (lit p) s"

end
