(* ===== verification/Session_Db.thy ===== *)
theory Session_Db
  imports Protocol
begin

text \<open>
  The SQLite database the stores share: the tables \<open>src/src/session.rs\<close> creates in its schema
  batch (and the two schema files it includes for the follow-up inbox and for child relationships),
  reduced to the columns the modelled code reads or writes.

  A table is the list of its rows in insertion order.  A statement that can violate a constraint or
  trip a trigger is a function to \<open>sql_fault + db\<close>; an \<open>UPDATE\<close> or \<open>DELETE\<close> that cannot fail is
  a function on \<open>db\<close>.  \<open>AUTOINCREMENT\<close> sequences are the counters \<open>report_seq\<close> and
  \<open>message_seq\<close>: the largest sequence ever given out.  JSON columns the program writes and reads
  back through the same type hold the value itself (\<open>prompt_json\<close>, \<open>source_json\<close>); the prompt
  of a removed message, stored as the empty object, is \<open>None\<close>.  The clock SQLite reads
  (\<open>julianday('now')\<close>, milliseconds) is an argument.
\<close>

section \<open>Rows\<close>

record last_turn =
  lt_id :: ustring
  lt_model :: "ustring option"
  lt_effort :: "ustring option"
  lt_fast :: bool
  lt_outcome :: ustring

record session_row =
  s_id :: ustring
  s_provider :: ustring
  s_provider_session :: ustring
  s_workspace :: ustring
  s_title :: ustring
  s_owned :: "(ustring \<times> ustring) list"
  s_last_turn :: "last_turn option"
  s_updated_at :: int
  s_owner_activity :: "int option"

record profile_row =
  pr_session :: ustring
  pr_profile :: ustring

record bridge_row =
  br_session :: ustring
  br_kind :: ustring
  br_lifecycle :: ustring
  br_pending_inbound :: "ustring option"
  br_revision :: nat
  br_updated_at_ms :: int

record link_row =
  l_child :: ustring
  l_parent :: ustring
  l_title :: ustring

record revision_row =
  rv_child :: ustring
  rv_revision :: nat

record report_row =
  r_sequence :: nat
  r_child :: ustring
  r_report_id :: ustring
  r_state :: ustring
  r_body :: ustring
  r_created_at :: int

record report_receipt_row =
  rr_key :: ustring
  rr_child :: ustring
  rr_digest :: bytes

record transition_row =
  t_key :: ustring
  t_digest :: bytes
  t_child :: ustring
  t_previous :: "ustring option"
  t_parent :: ustring
  t_previous_revision :: nat
  t_revision :: nat
  t_call :: ustring
  t_changed_at :: int

record hold_row =
  h_child :: ustring
  h_parent :: "ustring option"
  h_expires_at :: int

datatype batch_state = Claimed | Dispatching | Consumed

record batch_row =
  bt_id :: ustring
  bt_session :: ustring
  bt_cutoff :: nat
  bt_state :: batch_state
  bt_turn :: "ustring option"
  bt_blocked :: "ustring option"

record message_row =
  m_sequence :: nat
  m_session :: ustring
  m_message_id :: ustring
  m_submitted_by :: ustring
  m_received_at :: int
  m_prompt :: "prompt_input option"
  m_display :: ustring
  m_labels :: "ustring list"
  m_digest :: bytes
  m_bytes :: nat
  m_batch :: "ustring option"

record receipt_row =
  rc_key :: ustring
  rc_session :: ustring
  rc_digest :: bytes
  rc_resource :: "ustring option"

text \<open>\<open>coordination::Source\<close>, the runtime-owned provenance of a message.\<close>

record source =
  src_kind :: ustring
  src_session :: ustring
  src_title :: ustring
  src_call :: "ustring option"
  src_status :: "ustring option"
  src_owner_chat :: bool

record db =
  sessions :: "session_row list"
  profiles :: "profile_row list"
  bridges :: "bridge_row list"
  links :: "link_row list"
  revisions :: "revision_row list"
  reports :: "report_row list"
  report_seq :: nat
  report_receipts :: "report_receipt_row list"
  transitions :: "transition_row list"
  holds :: "hold_row list"
  runs :: "(ustring \<times> ustring) list"
  inboxes :: "(ustring \<times> bool) list"
  batches :: "batch_row list"
  messages :: "message_row list"
  message_seq :: nat
  receipts :: "receipt_row list"
  deliveries :: "(nat \<times> nat) list"
  sources :: "(nat \<times> source) list"
  displays :: "(ustring \<times> ustring) list"
  removals :: "nat list"
  owner_turns :: "(ustring \<times> last_turn) list"
  native_sessions :: "(ustring \<times> ustring) list"
  inbound_events :: "ustring list"
  accepted_prompts :: "ustring list"

definition empty_db :: db where
  "empty_db = \<lparr>sessions = [], profiles = [], bridges = [], links = [], revisions = [], reports = [],
     report_seq = 0, report_receipts = [], transitions = [], holds = [], runs = [], inboxes = [],
     batches = [], messages = [], message_seq = 0, receipts = [], deliveries = [], sources = [],
     displays = [], removals = [], owner_turns = [], native_sessions = [], inbound_events = [],
     accepted_prompts = []\<rparr>"

text \<open>The stored order of a batch's life.\<close>

fun batch_rank :: "batch_state \<Rightarrow> nat" where
  "batch_rank Claimed = 0"
| "batch_rank Dispatching = 1"
| "batch_rank Consumed = 2"

fun batch_state_text :: "batch_state \<Rightarrow> ustring" where
  "batch_state_text Claimed = lit ''claimed''"
| "batch_state_text Dispatching = lit ''dispatching''"
| "batch_state_text Consumed = lit ''consumed''"

instantiation batch_state :: linorder
begin

definition less_eq_batch_state :: "batch_state \<Rightarrow> batch_state \<Rightarrow> bool" where
  "less_eq_batch_state a b \<longleftrightarrow> batch_rank a \<le> batch_rank b"

definition less_batch_state :: "batch_state \<Rightarrow> batch_state \<Rightarrow> bool" where
  "less_batch_state a b \<longleftrightarrow> batch_rank a < batch_rank b"

instance
proof
  fix a b :: batch_state
  show "a \<le> b \<Longrightarrow> b \<le> a \<Longrightarrow> a = b"
    by (cases a; cases b) (simp_all add: less_eq_batch_state_def)
qed (auto simp: less_eq_batch_state_def less_batch_state_def)

end

lemma batch_state_le_simps [simp]:
  "Claimed \<le> s" "s \<le> Consumed" "Dispatching \<le> s \<longleftrightarrow> s \<noteq> Claimed" "Consumed \<le> s \<longleftrightarrow> s = Consumed"
  by (cases s; simp add: less_eq_batch_state_def)+

section \<open>Queries the stores share\<close>

definition find_session :: "db \<Rightarrow> ustring \<Rightarrow> session_row option" where
  "find_session d sid = List.find (\<lambda>s. s_id s = sid) (sessions d)"

definition session_exists :: "db \<Rightarrow> ustring \<Rightarrow> bool" where
  "session_exists d sid = exists_where (\<lambda>s. s_id s = sid) (sessions d)"

definition profile_of :: "db \<Rightarrow> ustring \<Rightarrow> ustring option" where
  "profile_of d sid = map_option pr_profile (List.find (\<lambda>p. pr_session p = sid) (profiles d))"

definition closed :: "db \<Rightarrow> ustring \<Rightarrow> bool" where
  "closed d sid = exists_where (\<lambda>b. br_session b = sid \<and> br_lifecycle b \<noteq> lit ''open'') (bridges d)"

text \<open>The ownership test every relationship query repeats: the same bound profile, or both unbound
  and in the same workspace.\<close>

definition same_owner :: "db \<Rightarrow> session_row \<Rightarrow> session_row \<Rightarrow> bool" where
  "same_owner d c p =
     (case profile_of d (s_id c) of
        Some x \<Rightarrow> profile_of d (s_id p) = Some x
      | None \<Rightarrow> profile_of d (s_id p) = None \<and> s_workspace c = s_workspace p)"

definition parent_of :: "db \<Rightarrow> ustring \<Rightarrow> ustring option" where
  "parent_of d child = map_option l_parent (List.find (\<lambda>l. l_child l = child) (links d))"

definition linked :: "db \<Rightarrow> ustring \<Rightarrow> bool" where
  "linked d child = exists_where (\<lambda>l. l_child l = child) (links d)"

definition has_children :: "db \<Rightarrow> ustring \<Rightarrow> bool" where
  "has_children d parent = exists_where (\<lambda>l. l_parent l = parent) (links d)"

definition child_count :: "db \<Rightarrow> ustring \<Rightarrow> nat" where
  "child_count d parent = count_where (\<lambda>l. l_parent l = parent) (links d)"

definition revision_of :: "db \<Rightarrow> ustring \<Rightarrow> nat" where
  "revision_of d child =
     (case List.find (\<lambda>r. rv_child r = child) (revisions d) of None \<Rightarrow> 0 | Some r \<Rightarrow> rv_revision r)"

definition held :: "db \<Rightarrow> int \<Rightarrow> ustring \<Rightarrow> bool" where
  "held d clock child = exists_where (\<lambda>h. h_child h = child \<and> clock < h_expires_at h) (holds d)"

definition batch_of :: "db \<Rightarrow> message_row \<Rightarrow> batch_row option" where
  "batch_of d m = Option.bind (m_batch m) (\<lambda>k. List.find (\<lambda>b. bt_id b = k) (batches d))"

definition removed :: "db \<Rightarrow> message_row \<Rightarrow> bool" where
  "removed d m = List.member (removals d) (m_sequence m)"

definition source_of :: "db \<Rightarrow> message_row \<Rightarrow> source option" where
  "source_of d m = map_of (sources d) (m_sequence m)"

text \<open>\<open>b.state IS NULL OR b.state <> 'consumed'\<close>, for a message joined to its batch.\<close>

definition undelivered :: "db \<Rightarrow> message_row \<Rightarrow> bool" where
  "undelivered d m = (case batch_of d m of None \<Rightarrow> True | Some b \<Rightarrow> bt_state b \<noteq> Consumed)"

definition paused_inbox :: "db \<Rightarrow> ustring \<Rightarrow> bool" where
  "paused_inbox d s = (case map_of (inboxes d) s of None \<Rightarrow> False | Some p \<Rightarrow> p)"

definition unsettled_batch :: "db \<Rightarrow> ustring \<Rightarrow> batch_row option" where
  "unsettled_batch d s = List.find (\<lambda>b. bt_session b = s \<and> bt_state b \<noteq> Consumed) (batches d)"

section \<open>Statements that can be refused\<close>

definition held_abort :: ustring where
  "held_abort = lit ''its parent is stopping or deleting this session; relationship changes are refused''"

text \<open>The trigger \<open>child_link_insert_revision\<close>: a first link starts at revision 1.\<close>

definition bump_or_start :: "ustring \<Rightarrow> revision_row list \<Rightarrow> revision_row list" where
  "bump_or_start child t =
     (if exists_where (\<lambda>r. rv_child r = child) t
      then update_where (\<lambda>r. rv_child r = child) (rv_revision_update Suc) t
      else t @ [\<lparr>rv_child = child, rv_revision = 1\<rparr>])"

text \<open>The triggers \<open>child_link_update_revision\<close> and \<open>child_link_delete_revision\<close>.\<close>

definition bump :: "ustring \<Rightarrow> revision_row list \<Rightarrow> revision_row list" where
  "bump child t = update_where (\<lambda>r. rv_child r = child) (rv_revision_update Suc) t"

definition insert_link :: "int \<Rightarrow> link_row \<Rightarrow> db \<Rightarrow> sql_fault + db" where
  "insert_link clock l d =
     (if held d clock (l_child l) then Inl (TriggerAbort held_abort)
      else if l_child l = l_parent l then Inl CheckViolation
      else if linked d (l_child l) then Inl UniqueViolation
      else if \<not> session_exists d (l_child l) \<or> \<not> session_exists d (l_parent l) then Inl ForeignKeyViolation
      else Inr (d\<lparr>links := links d @ [l], revisions := bump_or_start (l_child l) (revisions d)\<rparr>))"

definition set_parent :: "int \<Rightarrow> ustring \<Rightarrow> ustring \<Rightarrow> db \<Rightarrow> sql_fault + db" where
  "set_parent clock child parent d =
     (case parent_of d child of
        None \<Rightarrow> Inr d
      | Some old \<Rightarrow>
          if old = parent then Inr d
          else if held d clock child then Inl (TriggerAbort held_abort)
          else if child = parent then Inl CheckViolation
          else if \<not> session_exists d parent then Inl ForeignKeyViolation
          else Inr (d\<lparr>links := update_where (\<lambda>l. l_child l = child) (l_parent_update (\<lambda>_. parent)) (links d),
                      revisions := bump child (revisions d)\<rparr>))"

definition insert_message :: "(nat \<Rightarrow> message_row) \<Rightarrow> db \<Rightarrow> sql_fault + db" where
  "insert_message row d =
     (let m = row (message_seq d + 1) in
      if exists_where (\<lambda>x. m_session x = m_session m \<and> m_message_id x = m_message_id m) (messages d)
      then Inl UniqueViolation
      else if \<not> session_exists d (m_session m) then Inl ForeignKeyViolation
      else Inr (d\<lparr>messages := messages d @ [m], message_seq := message_seq d + 1\<rparr>))"

text \<open>The unique index \<open>followup_source_call\<close>: one relayed message for each source call.\<close>

definition insert_source :: "nat \<Rightarrow> source \<Rightarrow> db \<Rightarrow> sql_fault + db" where
  "insert_source q s d =
     (if exists_where (\<lambda>(q', s'). q' = q) (sources d)
        \<or> (src_call s \<noteq> None \<and>
           exists_where (\<lambda>(_, s'). src_session s' = src_session s \<and> src_call s' = src_call s) (sources d))
      then Inl UniqueViolation
      else Inr (d\<lparr>sources := sources d @ [(q, s)]\<rparr>))"

definition insert_delivery :: "nat \<Rightarrow> nat \<Rightarrow> db \<Rightarrow> sql_fault + db" where
  "insert_delivery r q d =
     (if exists_where (\<lambda>(r', q'). r' = r \<or> q' = q) (deliveries d) then Inl UniqueViolation
      else Inr (d\<lparr>deliveries := deliveries d @ [(r, q)]\<rparr>))"

definition insert_receipt :: "receipt_row \<Rightarrow> db \<Rightarrow> sql_fault + db" where
  "insert_receipt r d =
     (if exists_where (\<lambda>x. rc_key x = rc_key r) (receipts d) then Inl UniqueViolation
      else if \<not> session_exists d (rc_session r) then Inl ForeignKeyViolation
      else Inr (d\<lparr>receipts := receipts d @ [r]\<rparr>))"

text \<open>The unique index \<open>one_unsettled_followup_batch\<close>.\<close>

definition insert_batch :: "batch_row \<Rightarrow> db \<Rightarrow> sql_fault + db" where
  "insert_batch b d =
     (if exists_where (\<lambda>x. bt_id x = bt_id b
           \<or> bt_session x = bt_session b \<and> bt_state x \<noteq> Consumed \<and> bt_state b \<noteq> Consumed) (batches d)
      then Inl UniqueViolation
      else if \<not> session_exists d (bt_session b) then Inl ForeignKeyViolation
      else Inr (d\<lparr>batches := batches d @ [b]\<rparr>))"

definition insert_display :: "ustring \<Rightarrow> ustring \<Rightarrow> db \<Rightarrow> sql_fault + db" where
  "insert_display b txt d =
     (if exists_where (\<lambda>(b', _). b' = b) (displays d) then Inl UniqueViolation
      else Inr (d\<lparr>displays := displays d @ [(b, txt)]\<rparr>))"

definition insert_report :: "(nat \<Rightarrow> report_row) \<Rightarrow> db \<Rightarrow> sql_fault + db" where
  "insert_report row d =
     (let r = row (report_seq d + 1) in
      if exists_where (\<lambda>x. r_child x = r_child r \<and> r_report_id x = r_report_id r) (reports d)
      then Inl UniqueViolation
      else if \<not> linked d (r_child r) then Inl ForeignKeyViolation
      else Inr (d\<lparr>reports := reports d @ [r], report_seq := report_seq d + 1\<rparr>))"

definition insert_report_receipt :: "report_receipt_row \<Rightarrow> db \<Rightarrow> sql_fault + db" where
  "insert_report_receipt r d =
     (if exists_where (\<lambda>x. rr_key x = rr_key r) (report_receipts d) then Inl UniqueViolation
      else if \<not> linked d (rr_child r) then Inl ForeignKeyViolation
      else Inr (d\<lparr>report_receipts := report_receipts d @ [r]\<rparr>))"

definition insert_transition :: "transition_row \<Rightarrow> db \<Rightarrow> sql_fault + db" where
  "insert_transition t d =
     (if exists_where (\<lambda>x. t_key x = t_key t \<or> t_parent x = t_parent t \<and> t_call x = t_call t) (transitions d)
      then Inl UniqueViolation
      else Inr (d\<lparr>transitions := transitions d @ [t]\<rparr>))"

text \<open>\<open>INSERT ... ON CONFLICT(session_id) DO UPDATE\<close> on the inbox row.\<close>

definition upsert_inbox :: "ustring \<Rightarrow> bool \<Rightarrow> db \<Rightarrow> db" where
  "upsert_inbox s p d = d\<lparr>inboxes := (s, p) # filter (\<lambda>(s', _). s' \<noteq> s) (inboxes d)\<rparr>"

text \<open>\<open>followups::refuse\<close>, the stores' refusal.\<close>

definition refuse :: "ustring \<Rightarrow> service_error" where
  "refuse msg = \<lparr>code = Conflict, message = msg, retryable = False\<rparr>"

text \<open>\<open>map_err\<close> of a statement.\<close>

definition sql :: "(sql_fault \<Rightarrow> service_error) \<Rightarrow> sql_fault + 'a \<Rightarrow> service_error + 'a" where
  "sql failure r = (case r of Inl f \<Rightarrow> Inl (failure f) | Inr a \<Rightarrow> Inr a)"

lemma sql_simps [simp]:
  "sql f (Inl e) = Inl (f e)" "sql f (Inr a) = Inr a"
  "sql f r = Inr a \<longleftrightarrow> r = Inr a"
  by (cases r; auto simp: sql_def)+

definition upsert_hold :: "hold_row \<Rightarrow> db \<Rightarrow> db" where
  "upsert_hold h d =
     d\<lparr>holds := (if exists_where (\<lambda>x. h_child x = h_child h) (holds d)
                 then update_where (\<lambda>x. h_child x = h_child h) (\<lambda>_. h) (holds d)
                 else holds d @ [h])\<rparr>"

end
