(* ===== verification/Link_Forest.thy ===== *)
theory Link_Forest
  imports Session_Db
begin

text \<open>
  What the relationship tables promise.  \<open>parent_of\<close> abstracts the link table to a partial map
  from children to parents; the abstract machine \<open>relink\<close> has one step that (re)parents an
  open one-level child and one that orphans it.  \<open>forest\<close> is the invariant of the tables, and
  every statement of \<open>Session_Db\<close> on them refines a step of the abstract machine and never lets a
  relationship change without raising the child's revision (the fence of claims and transfers).
\<close>

section \<open>The abstract relationship\<close>

type_synonym relationship = "ustring \<Rightarrow> ustring option"

definition children_of :: "relationship \<Rightarrow> ustring \<Rightarrow> ustring set" where
  "children_of f p = {c. f c = Some p}"

definition one_level :: "relationship \<Rightarrow> bool" where
  "one_level f \<longleftrightarrow> (\<forall>c p. f c = Some p \<longrightarrow> f p = None)"

definition bounded :: "relationship \<Rightarrow> bool" where
  "bounded f \<longleftrightarrow> (\<forall>p. finite (children_of f p) \<and> card (children_of f p) \<le> 32)"

inductive relink :: "relationship \<Rightarrow> relationship \<Rightarrow> bool" where
  stay: "relink f f"
| parent: "relink f (f(c \<mapsto> p))"
    if "c \<noteq> p" "f p = None" "children_of f c = {}" "card (children_of f p) < 32"
| orphan: "relink f (f(c := None))"

inductive_cases relinkE: "relink f g"

lemma children_of_upd:
  "children_of (f(c \<mapsto> p)) q = (if q = p then insert c (children_of f p) else children_of f q - {c})"
  by (auto simp: children_of_def)

lemma children_of_del: "children_of (f(c := None)) q = children_of f q - {c}"
  by (auto simp: children_of_def)

lemma relink_one_level: "relink f g \<Longrightarrow> one_level f \<Longrightarrow> one_level g"
proof (induction rule: relink.induct)
  case (parent c p f)
  then have "\<And>x. f x \<noteq> Some c" by (auto simp: children_of_def)
  with parent show ?case by (auto simp: one_level_def split: if_splits)
qed (auto simp: one_level_def)

lemma relink_bounded: "relink f g \<Longrightarrow> bounded f \<Longrightarrow> bounded g"
proof (induction rule: relink.induct)
  case (parent c p f)
  have fin: "finite (children_of f q)" and le: "card (children_of f q) \<le> 32" for q
    using parent.prems by (auto simp: bounded_def)
  have "card (insert c (children_of f p)) \<le> 32"
    using fin [of p] parent.hyps(4) by (simp add: card_insert_if)
  moreover have "card (children_of f q - {c}) \<le> 32" for q
    using le [of q] card_Diff1_le [of "children_of f q" c] by linarith
  ultimately show ?case
    using fin by (simp add: bounded_def children_of_upd del: fun_upd_apply)
next
  case (orphan f c)
  have "card (children_of f q - {c}) \<le> 32" for q
    using orphan card_Diff1_le [of "children_of f q" c] by (auto simp: bounded_def intro: le_trans)
  then show ?case using orphan by (simp add: bounded_def children_of_del del: fun_upd_apply)
qed auto

section \<open>The tables\<close>

definition link_keys :: "db \<Rightarrow> bool" where
  "link_keys d \<longleftrightarrow> distinct (map l_child (links d)) \<and> distinct (map rv_child (revisions d)) \<and>
     set (map l_child (links d)) \<subseteq> set (map rv_child (revisions d))"

definition forest :: "db \<Rightarrow> bool" where
  "forest d \<longleftrightarrow> link_keys d \<and>
     (\<forall>l \<in> set (links d). \<not> linked d (l_parent l) \<and> child_count d (l_parent l) \<le> 32)"

lemma linked_iff: "linked d c \<longleftrightarrow> parent_of d c \<noteq> None"
  by (auto simp: linked_def parent_of_def find_None_set dest: find_Some_set)

lemma parent_of_Some_iff:
  "link_keys d \<Longrightarrow> parent_of d c = Some p \<longleftrightarrow> (\<exists>l \<in> set (links d). l_child l = c \<and> l_parent l = p)"
  unfolding parent_of_def link_keys_def
  by (auto simp: find_key_Some_iff)

lemma children_of_parent_of:
  "link_keys d \<Longrightarrow> children_of (parent_of d) p = l_child ` {l \<in> set (links d). l_parent l = p}"
  by (auto simp: children_of_def parent_of_Some_iff)

lemma child_count_card:
  assumes "link_keys d"
  shows "child_count d p = card (children_of (parent_of d) p)"
proof -
  have "distinct (map l_child (filter (\<lambda>l. l_parent l = p) (links d)))"
    using assms by (simp add: link_keys_def distinct_map_filter)
  then show ?thesis
    using distinct_card [of "map l_child (filter (\<lambda>l. l_parent l = p) (links d))"]
    by (simp add: children_of_parent_of [OF assms] child_count_def count_where_def)
qed

lemma has_children_iff: "link_keys d \<Longrightarrow> has_children d p \<longleftrightarrow> children_of (parent_of d) p \<noteq> {}"
  by (auto simp: children_of_parent_of has_children_def)

lemma finite_children: "link_keys d \<Longrightarrow> finite (children_of (parent_of d) p)"
  by (simp add: children_of_parent_of)

text \<open>The table invariant is the abstract one.\<close>

lemma forest_iff: "forest d \<longleftrightarrow> link_keys d \<and> one_level (parent_of d) \<and> bounded (parent_of d)"
proof -
  have "(\<forall>l \<in> set (links d). \<not> linked d (l_parent l) \<and> child_count d (l_parent l) \<le> 32)
      \<longleftrightarrow> one_level (parent_of d) \<and> bounded (parent_of d)" if k: "link_keys d"
  proof -
    have "card (children_of (parent_of d) p) \<le> 32"
      if "\<forall>l \<in> set (links d). child_count d (l_parent l) \<le> 32" for p
    proof (cases "children_of (parent_of d) p = {}")
      case False
      then obtain l where "l \<in> set (links d)" "l_parent l = p"
        unfolding children_of_parent_of [OF k] by auto
      then show ?thesis using that child_count_card [OF k] by metis
    qed simp
    moreover have "(\<forall>l \<in> set (links d). \<not> linked d (l_parent l)) \<longleftrightarrow> one_level (parent_of d)"
      unfolding one_level_def linked_iff parent_of_Some_iff [OF k] by auto
    ultimately show ?thesis
      using finite_children [OF k] child_count_card [OF k] by (auto simp: bounded_def)
  qed
  then show ?thesis by (auto simp: forest_def)
qed

lemma forest_frame: "links d' = links d \<Longrightarrow> revisions d' = revisions d \<Longrightarrow> forest d' \<longleftrightarrow> forest d"
  by (simp add: forest_def link_keys_def linked_def child_count_def)

section \<open>Statements refine steps\<close>

lemma link_keys_frame: "links d' = links d \<Longrightarrow> revisions d' = revisions d \<Longrightarrow> link_keys d' \<longleftrightarrow> link_keys d"
  by (simp add: link_keys_def)

lemma revision_of_frame: "revisions d' = revisions d \<Longrightarrow> revision_of d' = revision_of d"
  by (rule ext) (simp add: revision_of_def)

lemma parent_of_frame: "links d' = links d \<Longrightarrow> parent_of d' = parent_of d"
  by (rule ext) (simp add: parent_of_def)

lemma find_bump:
  "List.find (\<lambda>r. rv_child r = c) (bump k t) =
   map_option (\<lambda>r. if rv_child r = k then rv_revision_update Suc r else r)
     (List.find (\<lambda>r. rv_child r = c) t)"
  unfolding bump_def by (rule find_update_where_key) simp

lemma revision_bump:
  assumes "revisions d' = bump k (revisions d)" "exists_where (\<lambda>r. rv_child r = k) (revisions d)"
  shows "revision_of d' = (revision_of d)(k := Suc (revision_of d k))"
proof
  fix c
  have "List.find (\<lambda>r. rv_child r = k) (revisions d) \<noteq> None"
    using assms(2) by (auto simp: find_None_set)
  then show "revision_of d' c = ((revision_of d)(k := Suc (revision_of d k))) c"
  proof (cases "List.find (\<lambda>r. rv_child r = c) (revisions d)")
    case (Some r)
    from find_Some_set [OF Some] have "rv_child r = c" by simp
    with Some show ?thesis by (auto simp: revision_of_def assms(1) find_bump)
  qed (auto simp: revision_of_def assms(1) find_bump)
qed

lemma revision_bump_or_start:
  assumes "revisions d' = bump_or_start k (revisions d)"
  shows "revision_of d' = (revision_of d)(k := Suc (revision_of d k))"
proof (cases "exists_where (\<lambda>r. rv_child r = k) (revisions d)")
  case True
  then show ?thesis
    using revision_bump [of d' k d] assms by (simp add: bump_or_start_def bump_def)
next
  case False
  then have "List.find (\<lambda>r. rv_child r = k) (revisions d) = None"
    by (auto simp: find_None_set)
  with False assms show ?thesis
    by (auto simp: bump_or_start_def revision_of_def fun_eq_iff split: option.splits)
qed

lemma map_rv_child_bump [simp]: "map rv_child (bump k t) = map rv_child t"
  unfolding bump_def by (rule map_update_where_key) simp

lemma bump_or_start_keys:
  "map rv_child (bump_or_start k t) = (if k \<in> rv_child ` set t then map rv_child t else map rv_child t @ [k])"
  by (auto simp: bump_or_start_def table_simps simp del: set_update_where)

lemma insert_link_effect:
  assumes "insert_link clock l d = Inr d'" "link_keys d"
  shows "parent_of d' = (parent_of d)(l_child l \<mapsto> l_parent l)" "link_keys d'"
    "revision_of d' = (revision_of d)(l_child l := Suc (revision_of d (l_child l)))"
    "parent_of d (l_child l) = None" "l_child l \<noteq> l_parent l"
    "sessions d' = sessions d"
proof -
  have new: "\<not> linked d (l_child l)" and d': "links d' = links d @ [l]"
      "revisions d' = bump_or_start (l_child l) (revisions d)" "sessions d' = sessions d"
      and ne: "l_child l \<noteq> l_parent l"
    using assms(1) by (auto simp: insert_link_def split: if_splits)
  show "parent_of d (l_child l) = None" "l_child l \<noteq> l_parent l" "sessions d' = sessions d"
    using new ne d' by (auto simp: linked_iff)
  show "parent_of d' = (parent_of d)(l_child l \<mapsto> l_parent l)"
    using new unfolding linked_iff by (auto simp: parent_of_def d' fun_eq_iff split: option.splits)
  have "set (map rv_child (bump_or_start (l_child l) (revisions d))) =
      insert (l_child l) (set (map rv_child (revisions d)))"
    unfolding bump_or_start_keys by auto
  then show "link_keys d'"
    using assms(2) new unfolding link_keys_def d' linked_def
    by (auto simp: bump_or_start_keys)
  show "revision_of d' = (revision_of d)(l_child l := Suc (revision_of d (l_child l)))"
    using d'(2) by (rule revision_bump_or_start)
qed

lemma set_parent_effect:
  assumes "set_parent clock c p d = Inr d'" "link_keys d" "parent_of d c = Some old" "old \<noteq> p"
  shows "parent_of d' = (parent_of d)(c \<mapsto> p)" "link_keys d'"
    "revision_of d' = (revision_of d)(c := Suc (revision_of d c))" "c \<noteq> p"
    "sessions d' = sessions d"
proof -
  have d': "links d' = update_where (\<lambda>l. l_child l = c) (l_parent_update (\<lambda>_. p)) (links d)"
      "revisions d' = bump c (revisions d)" and "c \<noteq> p" "sessions d' = sessions d"
    using assms by (auto simp: set_parent_def split: if_splits)
  then show "c \<noteq> p" "sessions d' = sessions d" by simp_all
  have key: "List.find (\<lambda>l. l_child l = x) (links d') =
      map_option (\<lambda>l. if l_child l = c then l_parent_update (\<lambda>_. p) l else l)
        (List.find (\<lambda>l. l_child l = x) (links d))" for x
    unfolding d' by (rule find_update_where_key) simp
  have "parent_of d' x = ((parent_of d)(c \<mapsto> p)) x" for x
  proof (cases "List.find (\<lambda>l. l_child l = x) (links d)")
    case None
    then show ?thesis using assms(3) by (auto simp: parent_of_def key)
  next
    case (Some l)
    from find_Some_set [OF Some] have "l_child l = x" by simp
    with Some show ?thesis by (simp add: parent_of_def key)
  qed
  then show "parent_of d' = (parent_of d)(c \<mapsto> p)" by blast
  have "\<exists>l \<in> set (links d). l_child l = c"
    using assms(2,3) by (auto simp: parent_of_Some_iff)
  with assms(2) have "exists_where (\<lambda>r. rv_child r = c) (revisions d)"
    by (fastforce simp: link_keys_def)
  then show "revision_of d' = (revision_of d)(c := Suc (revision_of d c))"
    by (rule revision_bump [OF d'(2)])
  have "map l_child (links d') = map l_child (links d)"
    unfolding d' by (rule map_update_where_key) simp
  then show "link_keys d'"
    using assms(2) unfolding link_keys_def by (simp only: d'(2) map_rv_child_bump)
qed

section \<open>Relationship steps of the database\<close>

text \<open>What an operation may do to relationships: from a forest it reaches a forest by steps of the
  abstract machine, revisions never fall, and the revision of every child whose parent changed
  rose.\<close>

definition relation_step :: "db \<Rightarrow> db \<Rightarrow> bool" where
  "relation_step d d' \<longleftrightarrow> (forest d \<longrightarrow> forest d' \<and> relink\<^sup>*\<^sup>* (parent_of d) (parent_of d') \<and>
     (\<forall>c. revision_of d c \<le> revision_of d' c \<and>
          (parent_of d' c \<noteq> parent_of d c \<longrightarrow> revision_of d c < revision_of d' c)))"

lemma relation_step_refl [simp, intro]: "relation_step d d"
  by (simp add: relation_step_def)

lemma relation_step_frame:
  assumes "links d' = links d" "revisions d' = revisions d"
  shows "relation_step d d'"
  unfolding relation_step_def forest_frame [OF assms] parent_of_frame [OF assms(1)]
    revision_of_frame [OF assms(2)] by simp

lemma relation_step_trans:
  assumes "relation_step d e" "relation_step e f"
  shows "relation_step d f"
  unfolding relation_step_def
proof (intro impI conjI allI)
  assume "forest d"
  with assms(1) have e: "forest e" "relink\<^sup>*\<^sup>* (parent_of d) (parent_of e)"
    "\<And>c. revision_of d c \<le> revision_of e c"
    "\<And>c. parent_of e c \<noteq> parent_of d c \<Longrightarrow> revision_of d c < revision_of e c"
    by (auto simp: relation_step_def)
  with assms(2) have f: "forest f" "relink\<^sup>*\<^sup>* (parent_of e) (parent_of f)"
    "\<And>c. revision_of e c \<le> revision_of f c"
    "\<And>c. parent_of f c \<noteq> parent_of e c \<Longrightarrow> revision_of e c < revision_of f c"
    by (auto simp: relation_step_def)
  show "forest f" by (rule f(1))
  show "relink\<^sup>*\<^sup>* (parent_of d) (parent_of f)"
    using e(2) f(2) by (rule rtranclp_trans)
  show "revision_of d c \<le> revision_of f c" for c
    using e(3) [of c] f(3) [of c] by simp
  show "revision_of d c < revision_of f c" if "parent_of f c \<noteq> parent_of d c" for c
    using that e(3,4) [of c] f(3,4) [of c] by (cases "parent_of f c = parent_of e c") auto
qed

lemma relation_step_reparent:
  assumes "parent_of d' = (parent_of d)(c \<mapsto> p)" "link_keys d'"
    "revision_of d' = (revision_of d)(c := Suc (revision_of d c))"
    "c \<noteq> p" "\<not> linked d p" "\<not> has_children d c" "child_count d p < 32"
  shows "relation_step d d'"
  unfolding relation_step_def
proof
  assume f: "forest d"
  then have k: "link_keys d" by (simp add: forest_def)
  have r: "relink (parent_of d) (parent_of d')"
    unfolding assms(1) using assms(4-) k
    by (intro relink.parent) (auto simp: linked_iff has_children_iff child_count_card)
  then have "forest d'"
    using f assms(2) by (auto simp: forest_iff intro: relink_one_level relink_bounded)
  then show "forest d' \<and> relink\<^sup>*\<^sup>* (parent_of d) (parent_of d') \<and>
      (\<forall>c. revision_of d c \<le> revision_of d' c \<and>
        (parent_of d' c \<noteq> parent_of d c \<longrightarrow> revision_of d c < revision_of d' c))"
    using r by (auto simp: assms(1,3))
qed

lemma insert_link_step:
  assumes "insert_link clock l d = Inr d'"
    "\<not> linked d (l_parent l)" "\<not> has_children d (l_child l)" "child_count d (l_parent l) < 32"
  shows "relation_step d d'"
proof (cases "forest d")
  case True
  then have "link_keys d" by (simp add: forest_def)
  from insert_link_effect [OF assms(1) this] assms(2-) show ?thesis
    by (intro relation_step_reparent)
qed (simp add: relation_step_def)

lemma set_parent_step:
  assumes "set_parent clock c p d = Inr d'"
    "\<not> linked d p" "\<not> has_children d c" "child_count d p < 32"
  shows "relation_step d d'"
proof (cases "forest d \<and> (\<exists>old. parent_of d c = Some old \<and> old \<noteq> p)")
  case True
  then obtain old where "link_keys d" "parent_of d c = Some old" "old \<noteq> p"
    by (auto simp: forest_def)
  from set_parent_effect [OF assms(1) this] assms(2-) show ?thesis
    by (intro relation_step_reparent)
next
  case False
  then have "\<not> forest d \<or> d' = d"
    using assms(1) by (auto simp: set_parent_def split: option.splits if_splits)
  then show ?thesis by (auto simp: relation_step_def)
qed

lemmas relation_intros = relation_step_refl relation_step_frame insert_link_step set_parent_step

end
