(* ===== verification/Command_Systems.thy ===== *)
theory Command_Systems
  imports Nakode_Prelude
begin

text \<open>
  The contracts the stores' command executors share, as locales over an executor
  \<open>step request state = (answer, new state)\<close>.

  \<^item> \<open>command_system\<close>: a reflexive, transitive relation every command respects, hence every
    history of commands respects.
  \<^item> \<open>receipt_ledger\<close>: an executor with durable idempotency receipts.  Its clients (retrying
    producers) get: a command that succeeded once answers the same for ever after without a second
    effect, and its key can never be used for anything else.
\<close>

fun run :: "('r \<Rightarrow> 'd \<Rightarrow> 'o \<times> 'd) \<Rightarrow> 'r list \<Rightarrow> 'd \<Rightarrow> 'd" where
  "run step [] d = d"
| "run step (r # rs) d = run step rs (snd (step r d))"

lemma run_append [simp]: "run step (rs @ ss) d = run step ss (run step rs d)"
  by (induction rs arbitrary: d) simp_all

locale command_system =
  fixes step :: "'r \<Rightarrow> 'd \<Rightarrow> 'o \<times> 'd"
    and rel :: "'d \<Rightarrow> 'd \<Rightarrow> bool"
  assumes rel_refl: "rel d d"
    and rel_trans: "rel d e \<Longrightarrow> rel e f \<Longrightarrow> rel d f"
    and rel_step: "rel d (snd (step r d))"
begin

lemma rel_run: "rel d (run step rs d)"
  by (induction rs arbitrary: d) (auto intro: rel_refl rel_trans rel_step)

end

locale receipt_ledger =
  fixes step :: "'r \<Rightarrow> 'd \<Rightarrow> ('e + 'a) \<times> 'd"
    and key :: "'r \<Rightarrow> 'k"
    and digest :: "'r \<Rightarrow> 'g"
    and admissible :: "'r \<Rightarrow> bool"
    and receipt :: "'d \<Rightarrow> 'k \<Rightarrow> ('g \<times> 'a) option"
  assumes atomic: "step r d = (Inl e, d') \<Longrightarrow> d' = d"
    and recorded: "step r d = (Inr a, d') \<Longrightarrow> admissible r \<and> receipt d' (key r) = Some (digest r, a)"
    and replayed: "admissible r \<Longrightarrow> receipt d (key r) = Some (digest r, a) \<Longrightarrow> step r d = (Inr a, d)"
    and clash: "receipt d (key r) = Some (g, a) \<Longrightarrow> g \<noteq> digest r \<Longrightarrow> isl (fst (step r d))"
    and kept: "step r d = (Inr a, d') \<Longrightarrow> receipt d k = Some v \<Longrightarrow> receipt d' k = Some v"
begin

lemma error_unchanged: "isl (fst (step r d)) \<Longrightarrow> snd (step r d) = d"
  using atomic by (cases "step r d") (auto simp: isl_def)

lemma receipt_step: "receipt d k = Some v \<Longrightarrow> receipt (snd (step r d)) k = Some v"
proof (cases "fst (step r d)")
  case (Inl e)
  assume "receipt d k = Some v"
  then show ?thesis using atomic [of r d e "snd (step r d)"] Inl by (cases "step r d") auto
next
  case (Inr a)
  assume "receipt d k = Some v"
  then show ?thesis using kept [of r d a "snd (step r d)"] Inr by (cases "step r d") auto
qed

lemma receipt_run: "receipt d k = Some v \<Longrightarrow> receipt (run step rs d) k = Some v"
  by (induction rs arbitrary: d) (auto simp: receipt_step)

lemma replay_after:
  assumes "step r d = (Inr a, d1)" "key r' = key r" "digest r' = digest r" "admissible r'"
  shows "step r' (run step rs d1) = (Inr a, run step rs d1)"
  using assms recorded [OF assms(1)] receipt_run [of d1 "key r" "(digest r, a)" rs]
  by (intro replayed) auto

lemma clash_after:
  assumes "step r d = (Inr a, d1)" "key r' = key r" "digest r' \<noteq> digest r"
  shows "\<exists>e. step r' (run step rs d1) = (Inl e, run step rs d1)"
proof -
  have "receipt (run step rs d1) (key r') = Some (digest r, a)"
    using recorded [OF assms(1)] receipt_run assms(2) by auto
  then have "isl (fst (step r' (run step rs d1)))"
    using clash assms(3) by metis
  with atomic show ?thesis
    by (metis isl_def prod.collapse)
qed

end

end
