(* ===== verification/Sample_World.thy ===== *)
theory Sample_World
  imports Session_Db
begin

text \<open>
  A small concrete world for the witnesses: an instance of the third-party functions, and a database
  with an open parent \<open>[1]\<close>, its linked child \<open>[2]\<close>, and an unlinked session \<open>[3]\<close>, all in one
  workspace.
\<close>

fun sample_json :: "json \<Rightarrow> ustring" where
  "sample_json (JStr s) = 34 # s @ [34]"
| "sample_json _ = [123, 125]"

fun sample_command :: "command \<Rightarrow> bytes" where
  "sample_command (PublishChildReport c r s b) = 1 # c @ 0 # r @ 0 # s @ 0 # b"
| "sample_command (LinkChildSession p c) = 2 # p @ 0 # c"
| "sample_command (EnqueueFollowup s m p) = 3 # s @ 0 # m @ 0 # p_text p"
| "sample_command (RemoveFollowup s m) = 4 # s @ 0 # m"
| "sample_command (SetFollowupPaused s p) = 5 # s @ [0, if p then 1 else 0]"
| "sample_command (RelayAgentFollowup s m a c p k) = 6 # s @ 0 # m @ 0 # a @ 0 # c @ 0 # p_text p"
| "sample_command (AdmitExternalChildReport s m c t r st b) = 7 # s @ 0 # m @ 0 # c @ 0 # r @ 0 # b"
| "sample_command (ReparentChildSession s c ch e r t) = 8 # s @ 0 # c @ 0 # ch @ [0, r]"
| "sample_command (OtherCommand s) = 9 # s"

definition sample_ext :: ext where
  "sample_ext = \<lparr>sha256 = (\<lambda>b. b), command_json = (\<lambda>c. Some (sample_command c)), json_text = sample_json,
     completion_json = (\<lambda>c. turn_id c), parse_completion = (\<lambda>_. None),
     guess_format = (\<lambda>_. Inr (Some Png)), header_dimensions = (\<lambda>_. Inr (1, 1)),
     mime_type = (\<lambda>_. [7]), decode_image = (\<lambda>_. Inr ()), parse_json = (\<lambda>_. None), uuid_v5 = (\<lambda>b. b), sqlite_text = (\<lambda>_. [])\<rparr>"

definition sample_session :: "ustring \<Rightarrow> session_row" where
  "sample_session i = \<lparr>s_id = i, s_provider = [], s_provider_session = i, s_workspace = [9], s_title = i,
     s_owned = [], s_last_turn = None, s_updated_at = 0, s_owner_activity = None\<rparr>"

definition sample_db :: db where
  "sample_db = empty_db\<lparr>sessions := map sample_session [[1], [2], [3]],
     links := [\<lparr>l_child = [2], l_parent = [1], l_title = [2]\<rparr>],
     revisions := [\<lparr>rv_child = [2], rv_revision = 1\<rparr>]\<rparr>"

lemmas sample_simps = sample_ext_def sample_session_def sample_db_def empty_db_def

end
