(* ===== verification/Child_Reports.thy ===== *)
theory Child_Reports
  imports Link_Forest Command_Systems Sample_World
begin

text \<open>
  The durable child-report ledger: \<open>src/src/child_reports.rs\<close> and
  \<open>src/src/child_reports/completion.rs\<close>.  A parent/child link is made once by
  \<open>link_in_transaction\<close>; a child publishes reports, asks questions (\<open>record_question\<close>) and finishes
  turns; \<open>execute_report\<close> commits a command together with its idempotency receipt; \<open>list\<close> pages a
  parent's reports.
\<close>

definition failure_report :: "ext \<Rightarrow> sql_fault \<Rightarrow> service_error" where
  "failure_report X e = \<lparr>code = Internal, message = lit ''child report persistence: '' @ sqlite_text X e,
                  retryable = True\<rparr>"

definition refuse_report :: "ustring \<Rightarrow> service_error" where
  "refuse_report msg = \<lparr>code = Conflict, message = msg, retryable = False\<rparr>"

section \<open>Terminal-turn evidence\<close>

definition FINAL_BYTES :: nat where "FINAL_BYTES = 12 * 1024"

text \<open>The bytes a character takes inside a JSON string.\<close>

definition encoded_len :: "ext \<Rightarrow> uchar \<Rightarrow> nat" where
  "encoded_len X c = byte_len (json_string X [c]) - 2"

fun capture_prefix :: "ext \<Rightarrow> nat \<Rightarrow> ustring \<Rightarrow> ustring" where
  "capture_prefix X encoded_bytes [] = []"
| "capture_prefix X encoded_bytes (c # cs) =
     (if encoded_bytes + encoded_len X c > FINAL_BYTES then []
      else c # capture_prefix X (encoded_bytes + encoded_len X c) cs)"

definition capture :: "ext \<Rightarrow> ustring \<Rightarrow> ustring option \<Rightarrow> completion" where
  "capture X turn text0 =
     (let text1 = (case text0 of Some t \<Rightarrow> if trim t = [] then None else Some t | None \<Rightarrow> None);
          total = (case text1 of None \<Rightarrow> 0 | Some t \<Rightarrow> byte_len t);
          final = map_option (capture_prefix X 0) text1;
          cut = (case final of None \<Rightarrow> False | Some t \<Rightarrow> byte_len t < total) in
      \<lparr>version = 1, turn_id = turn, final_text = final, final_total_bytes = total, truncated = cut\<rparr>)"

definition completion_display :: "ext \<Rightarrow> ustring \<Rightarrow> ustring" where
  "completion_display X body =
     (case parse_completion X body of
        None \<Rightarrow> body
      | Some c \<Rightarrow>
          (case final_text c of Some t \<Rightarrow> t
           | None \<Rightarrow> lit ''No final assistant response was captured for this turn. Inspect the child transcript for activity and failure details.'')
          @ (if truncated c then [10, 10] @ lit ''[Response truncated; the complete response remains in the child transcript.]'' else []))"

section \<open>Links\<close>

definition link_in_transaction :: "ext \<Rightarrow> int \<Rightarrow> ustring \<Rightarrow> ustring \<Rightarrow> db \<Rightarrow> service_error + db" where
  "link_in_transaction X clock parent child d =
     (if parent = child then Inl (refuse_report (lit ''a session cannot parent itself''))
      else if closed d parent \<or> closed d child then
        Inl (refuse_report (lit ''closed sessions cannot acquire parent relationships''))
      else case (find_session d child, find_session d parent) of
        (Some c, Some p) \<Rightarrow>
          if \<not> same_owner d c p then
            Inl (refuse_report (lit ''parent and child must exist on this runtime under the same profile; unbound sessions require the same workspace''))
          else (case parent_of d child of
            Some existing \<Rightarrow>
              if existing = parent then Inr d
              else Inl (refuse_report (lit ''child already has a different parent''))
          | None \<Rightarrow>
              if linked d parent \<or> has_children d child then
                Inl (refuse_report (lit ''nested logical-session parents are not supported''))
              else if child_count d parent \<ge> 32 then
                Inl (refuse_report (lit ''parent already has the maximum 32 linked children''))
              else sql (failure_report X)
                (insert_link clock \<lparr>l_child = child, l_parent = parent, l_title = s_title c\<rparr> d))
      | _ \<Rightarrow>
          Inl (refuse_report (lit ''parent and child must exist on this runtime under the same profile; unbound sessions require the same workspace'')))"

section \<open>Reports\<close>

definition find_report :: "db \<Rightarrow> ustring \<Rightarrow> ustring \<Rightarrow> report_row option" where
  "find_report d child rid = List.find (\<lambda>r. r_child r = child \<and> r_report_id r = rid) (reports d)"

definition report_count :: "db \<Rightarrow> ustring \<Rightarrow> nat" where
  "report_count d child = count_where (\<lambda>r. r_child r = child) (reports d)"

definition report_states :: "ustring list" where
  "report_states = map lit [''progress'', ''blocker'', ''question'', ''completed'', ''failed'', ''cancelled'']"

definition new_report :: "ustring \<Rightarrow> ustring \<Rightarrow> ustring \<Rightarrow> ustring \<Rightarrow> int \<Rightarrow> nat \<Rightarrow> report_row" where
  "new_report child rid st body now_ms q =
     \<lparr>r_sequence = q, r_child = child, r_report_id = rid, r_state = st, r_body = body, r_created_at = now_ms\<rparr>"

definition publish_in_transaction ::
  "ext \<Rightarrow> ustring \<Rightarrow> ustring \<Rightarrow> ustring \<Rightarrow> ustring \<Rightarrow> int \<Rightarrow> db \<Rightarrow> service_error + db" where
  "publish_in_transaction X child rid st body now_ms d =
     (if rid = [] \<or> starts_with rid ''turn:'' \<or> starts_with rid ''question:'' \<or> byte_len rid > 200
         \<or> body = [] \<or> byte_len body > 16 * 1024 \<or> \<not> List.member report_states st then
        Inl \<lparr>code = InvalidRequest,
             message = lit ''report requires an id (1'' @ [8211] @ lit ''200 bytes), body (1'' @ [8211] @ lit ''16384 bytes), and a supported state'',
             retryable = False\<rparr>
      else if \<not> linked d child then Inl (refuse_report (lit ''child has no existing parent link''))
      else case find_report d child rid of
        Some saved \<Rightarrow>
          if r_state saved = st \<and> r_body saved = body then Inr d
          else Inl (refuse_report (lit ''report id was already used with different content''))
      | None \<Rightarrow>
          if report_count d child \<ge> 4096 then
            Inl (refuse_report (lit ''child report retention limit reached; existing evidence is preserved''))
          else sql (failure_report X) (insert_report (new_report child rid st body now_ms) d))"

section \<open>Commands and their receipts\<close>

definition run_report_command ::
  "ext \<Rightarrow> int \<Rightarrow> command \<Rightarrow> int \<Rightarrow> db \<Rightarrow> service_error + ustring \<times> db" where
  "run_report_command X clock cmd now_ms d =
     (case cmd of
        LinkChildSession parent child \<Rightarrow>
          rbind (link_in_transaction X clock parent child d) (\<lambda>d'. Inr (child, d'))
      | PublishChildReport child rid st body \<Rightarrow>
          rbind (publish_in_transaction X child rid st body now_ms d) (\<lambda>d'. Inr (child, d'))
      | _ \<Rightarrow> Inl (refuse_report (lit ''not a report command'')))"

text \<open>The body of the transaction, after the key and the digest are known.\<close>

definition execute_in_transaction ::
  "ext \<Rightarrow> int \<Rightarrow> command \<Rightarrow> ustring \<Rightarrow> bytes \<Rightarrow> bool \<Rightarrow> nat option \<Rightarrow> int \<Rightarrow> db \<Rightarrow> service_error + unit \<times> db" where
  "execute_in_transaction X clock cmd key digest replay_only fence now_ms d =
     (case List.find (\<lambda>r. rr_key r = key) (report_receipts d) of
        Some saved \<Rightarrow>
          if rr_digest saved = digest then Inr ((), d)
          else Inl (refuse_report (lit ''idempotency key already used for a different report command''))
      | None \<Rightarrow>
          if replay_only then
            Inl (refuse_report (lit ''report command receipt is unavailable; no mutation was executed''))
          else if fence \<noteq> None then
            Inl \<lparr>code = InvalidRequest, message = lit ''report commands do not support revision fences'',
                 retryable = False\<rparr>
          else rbind (run_report_command X clock cmd now_ms d) (\<lambda>(child, d').
            rbind (sql (failure_report X) (insert_report_receipt \<lparr>rr_key = key, rr_child = child, rr_digest = digest\<rparr> d'))
              (\<lambda>d''. Inr ((), d''))))"

definition execute_report ::
  "ext \<Rightarrow> int \<Rightarrow> command \<Rightarrow> ustring \<Rightarrow> bool \<Rightarrow> nat option \<Rightarrow> int \<Rightarrow> db \<Rightarrow> (service_error + unit) \<times> db" where
  "execute_report X clock cmd key replay_only fence now_ms =
     (if key = [] \<or> byte_len key > 200 then
        Pair (Inl (refuse_report (lit ''report command key must be 1'' @ [8211] @ lit ''200 bytes'')))
      else case command_json X cmd of
        None \<Rightarrow> Pair (Inl (refuse_report (lit ''invalid report command'')))
      | Some encoded \<Rightarrow>
          transact (execute_in_transaction X clock cmd key (sha256 X encoded) replay_only fence now_ms))"

section \<open>Child questions as evidence\<close>

record question_option =
  opt_label :: ustring
  opt_description :: "ustring option"

record question_request =
  q_id :: ustring
  q_logical_id :: ustring
  q_group_id :: ustring
  q_order :: nat
  q_title :: ustring
  q_question :: ustring
  q_options :: "question_option list"
  q_multi :: bool
  q_recommended :: "nat option"

definition scoped_id :: "ext \<Rightarrow> ustring \<Rightarrow> ustring \<Rightarrow> ustring" where
  "scoped_id X kind val = uuid_v5 X (utf8 (kind @ lit '':'' @ val))"

definition question_interaction_id :: "ext \<Rightarrow> ustring \<Rightarrow> ustring \<Rightarrow> ustring" where
  "question_interaction_id X sid provider_id =
     scoped_id X (lit ''interaction'') (sid @ lit '':question:'' @ provider_id)"

definition question_options :: "question_request \<Rightarrow> json list" where
  "question_options q =
     map (\<lambda>(i, opt). JObj
       [(lit ''id'', JStr (show_nat i)), (lit ''label'', JStr (opt_label opt)),
        (lit ''description'', case opt_description opt of None \<Rightarrow> JNull | Some t \<Rightarrow> JStr t),
        (lit ''recommended'', JBool (q_recommended q = Some i))])
       (enumerate 0 (q_options q))"

definition interaction_question :: "question_request \<Rightarrow> json" where
  "interaction_question q = JObj
     [(lit ''id'', JStr (q_logical_id q)), (lit ''title'', JStr (q_title q)),
      (lit ''detail'', JStr (q_question q)), (lit ''options'', JArr (question_options q)),
      (lit ''multiple'', JBool (q_multi q))]"

definition question_body :: "ext \<Rightarrow> ustring \<Rightarrow> question_request \<Rightarrow> ustring" where
  "question_body X child q = json_text X (JObj
     [(lit ''schema_version'', JNum 1),
      (lit ''question_id'', JStr (q_id q)),
      (lit ''interaction_id'', JStr (question_interaction_id X child (q_group_id q))),
      (lit ''group_id'', JStr (q_group_id q)),
      (lit ''order'', JNum (int (q_order q))),
      (lit ''question'', interaction_question q),
      (lit ''status_at_observation'', JStr (lit ''pending'')),
      (lit ''detail'', JStr (lit ''Question evidence, not owner consent or an answer. Revalidate the original child interaction before resolving it; other questions may belong to the same group.''))])"

definition question_report_id :: "ext \<Rightarrow> question_request \<Rightarrow> ustring" where
  "question_report_id X q = lit ''question:'' @ hex_bytes (sha256 X (utf8 (q_id q)))"

definition question_unrecorded :: "db \<Rightarrow> ustring \<Rightarrow> ustring \<Rightarrow> bool" where
  "question_unrecorded d child rid \<longleftrightarrow> linked d child \<and> find_report d child rid = None"

text \<open>Three statements without a transaction around them: \<open>other\<close> is what other connections
  commit between the first check and the insert.\<close>

definition record_question ::
  "ext \<Rightarrow> (db \<Rightarrow> db) \<Rightarrow> ustring \<Rightarrow> question_request \<Rightarrow> int \<Rightarrow> db \<Rightarrow> (service_error + unit) \<times> db" where
  "record_question X other child q now_ms d0 =
     (let rid = question_report_id X q; body = question_body X child q in
      if \<not> question_unrecorded d0 child rid then (Inr (), d0)
      else if byte_len body > 16 * 1024 then
        (Inl (refuse_report (lit ''structured child question exceeds 16384-byte report limit; question remains pending'')), d0)
      else
        let d = other d0 in
        if question_unrecorded d child rid \<and> report_count d child < 4096 then
          (case insert_report (new_report child rid (lit ''question'') body now_ms) d of
             Inl e \<Rightarrow> (Inl (failure_report X e), d)
           | Inr d' \<Rightarrow> (Inr (), d'))
        else if question_unrecorded d child rid then
          (Inl (refuse_report (lit ''child report retention limit reached; question remains pending'')), d)
        else (Inr (), d))"

section \<open>Reading\<close>

text \<open>The children of an open parent, with whether each is closed; \<open>ORDER BY c.id LIMIT 32\<close>.\<close>

definition question_children :: "db \<Rightarrow> ustring \<Rightarrow> service_error + (ustring \<times> ustring \<times> bool) list" where
  "question_children d parent =
     (case find_session d parent of
        None \<Rightarrow> Inl \<lparr>code = NotFound, message = lit ''parent session not found'', retryable = False\<rparr>
      | Some p \<Rightarrow>
          if closed d parent then Inl (refuse_report (lit ''parent session is closed''))
          else Inr (map (\<lambda>c. (s_id c, s_title c, closed d (s_id c)))
            (take 32 (sort_key s_id
              (filter (\<lambda>c. same_owner d c p)
                (List.map_filter (\<lambda>l. find_session d (l_child l))
                  (filter (\<lambda>l. l_parent l = parent) (links d))))))))"

definition report_view :: "link_row \<Rightarrow> report_row \<Rightarrow> child_report" where
  "report_view l r =
     \<lparr>cr_sequence = r_sequence r, cr_report_id = r_report_id r, cr_parent = l_parent l,
      cr_child = l_child l, cr_title = l_title l, cr_state = r_state r, cr_body = r_body r,
      cr_created_at_ms = max 0 (r_created_at r)\<rparr>"

definition reports_after :: "db \<Rightarrow> ustring \<Rightarrow> nat \<Rightarrow> child_report list" where
  "reports_after d parent after =
     map (\<lambda>(r, l). report_view l r)
       (filter (\<lambda>(r, l). l_parent l = parent \<and> after < r_sequence r)
         (List.map_filter
           (\<lambda>r. map_option (Pair r) (List.find (\<lambda>l. l_child l = r_child r) (links d)))
           (sort_key r_sequence (reports d))))"

definition list_reports :: "db \<Rightarrow> ustring \<Rightarrow> nat \<Rightarrow> nat \<Rightarrow> service_error + child_report_page" where
  "list_reports d parent after limit =
     (if \<not> session_exists d parent then
        Inl \<lparr>code = NotFound, message = lit ''parent session not found'', retryable = False\<rparr>
      else let n = max 1 (min 64 limit) in
        if after \<ge> 2 ^ 63 then Inl (refuse_report (lit ''report cursor exceeds the sequence range''))
        else let rows = take (n + 1) (reports_after d parent after) in
          Inr \<lparr>reports_of = take n rows, page_has_more = (n < length rows)\<rparr>)"

section \<open>Links keep the forest\<close>

lemma link_step: "link_in_transaction X clock parent child d = Inr d' \<Longrightarrow> relation_step d d'"
  by (auto simp: link_in_transaction_def intro!: insert_link_step
      split: if_splits option.splits)

lemma link_sessions: "link_in_transaction X clock parent child d = Inr d' \<Longrightarrow> sessions d' = sessions d"
  by (auto simp: link_in_transaction_def insert_link_def split: if_splits option.splits)

lemma link_parent:
  assumes "link_in_transaction X clock parent child d = Inr d'" "forest d"
  shows "parent_of d' child = Some parent"
  using assms insert_link_effect(1) [of clock _ d d']
  by (auto simp: link_in_transaction_def forest_def split: if_splits option.splits)

lemma publish_frame:
  assumes "publish_in_transaction X child rid st body now_ms d = Inr d'"
  shows "links d' = links d" "revisions d' = revisions d" "sessions d' = sessions d"
    "report_receipts d' = report_receipts d"
  using assms
  by (auto simp: publish_in_transaction_def insert_report_def Let_def split: if_splits option.splits)

lemma link_receipts:
  "link_in_transaction X clock parent child d = Inr d' \<Longrightarrow> report_receipts d' = report_receipts d"
  by (auto simp: link_in_transaction_def insert_link_def split: if_splits option.splits)

lemma run_report_command_cases:
  assumes "run_report_command X clock cmd now_ms d = Inr (child, d')"
  obtains parent where "cmd = LinkChildSession parent child"
      "link_in_transaction X clock parent child d = Inr d'"
  | rid st body where "cmd = PublishChildReport child rid st body"
      "publish_in_transaction X child rid st body now_ms d = Inr d'"
  using assms by (auto simp: run_report_command_def split: command.splits)

lemma run_report_command_step: "run_report_command X clock cmd now_ms d = Inr (child, d') \<Longrightarrow> relation_step d d'"
  by (erule run_report_command_cases) (auto intro: link_step relation_step_frame dest: publish_frame)

lemma run_report_command_receipts:
  "run_report_command X clock cmd now_ms d = Inr (child, d') \<Longrightarrow> report_receipts d' = report_receipts d"
  by (erule run_report_command_cases) (auto dest: publish_frame link_receipts)

lemma insert_report_receipt_effect:
  "insert_report_receipt r d = Inr d' \<longleftrightarrow>
     (\<forall>x \<in> set (report_receipts d). rr_key x \<noteq> rr_key r) \<and> linked d (rr_child r) \<and>
     d' = d\<lparr>report_receipts := report_receipts d @ [r]\<rparr>"
  by (auto simp: insert_report_receipt_def)

section \<open>The executor is a receipt ledger\<close>

record report_request =
  rq_command :: command
  rq_key :: ustring
  rq_replay_only :: bool
  rq_fence :: "nat option"
  rq_now_ms :: int
  rq_clock :: int

definition report_step :: "ext \<Rightarrow> report_request \<Rightarrow> db \<Rightarrow> (service_error + unit) \<times> db" where
  "report_step X r =
     execute_report X (rq_clock r) (rq_command r) (rq_key r) (rq_replay_only r) (rq_fence r) (rq_now_ms r)"

definition report_admissible :: "ext \<Rightarrow> report_request \<Rightarrow> bool" where
  "report_admissible X r \<longleftrightarrow>
     rq_key r \<noteq> [] \<and> byte_len (rq_key r) \<le> 200 \<and> command_json X (rq_command r) \<noteq> None"

definition report_digest :: "ext \<Rightarrow> report_request \<Rightarrow> bytes option" where
  "report_digest X r = map_option (sha256 X) (command_json X (rq_command r))"

definition report_receipt :: "db \<Rightarrow> ustring \<Rightarrow> (bytes option \<times> unit) option" where
  "report_receipt d k =
     map_option (\<lambda>r. (Some (rr_digest r), ())) (List.find (\<lambda>r. rr_key r = k) (report_receipts d))"

lemma execute_report_cases:
  obtains (error) e where "report_step X r d = (Inl e, d)"
  | (replay) saved where "report_admissible X r" "report_step X r d = (Inr (), d)"
      "List.find (\<lambda>s. rr_key s = rq_key r) (report_receipts d) = Some saved"
      "report_digest X r = Some (rr_digest saved)"
  | (mutate) child d1 g d' where "report_admissible X r" "report_digest X r = Some g"
      "\<not> rq_replay_only r" "rq_fence r = None"
      "List.find (\<lambda>s. rr_key s = rq_key r) (report_receipts d) = None"
      "run_report_command X (rq_clock r) (rq_command r) (rq_now_ms r) d = Inr (child, d1)"
      "d' = d1\<lparr>report_receipts := report_receipts d @ [\<lparr>rr_key = rq_key r, rr_child = child, rr_digest = g\<rparr>]\<rparr>"
      "report_step X r d = (Inr (), d')"
proof (cases "report_step X r d")
  case (Pair res d')
  note step = Pair
  show thesis
  proof (cases "\<exists>e. res = Inl e")
    case True
    with step have "d' = d"
      by (auto simp: report_step_def execute_report_def transact_eq_Inl split: if_splits option.splits)
    with step True error show thesis by auto
  next
    case False
    then have res: "res = Inr ()" by (cases res) auto
    obtain enc where enc: "report_admissible X r" "command_json X (rq_command r) = Some enc"
      and body: "execute_in_transaction X (rq_clock r) (rq_command r) (rq_key r) (sha256 X enc)
        (rq_replay_only r) (rq_fence r) (rq_now_ms r) d = Inr ((), d')"
      using step res by (auto simp: report_step_def execute_report_def report_admissible_def transact_eq_Inr
          split: if_splits option.splits)
    then have digest: "report_digest X r = Some (sha256 X enc)" by (simp add: report_digest_def)
    show thesis
    proof (cases "List.find (\<lambda>s. rr_key s = rq_key r) (report_receipts d)")
      case (Some saved)
      with body step res enc digest replay show thesis
        by (auto simp: execute_in_transaction_def split: if_splits)
    next
      case None
      then obtain child d1 where run: "run_report_command X (rq_clock r) (rq_command r) (rq_now_ms r) d = Inr (child, d1)"
        and ins: "insert_report_receipt \<lparr>rr_key = rq_key r, rr_child = child, rr_digest = sha256 X enc\<rparr> d1 = Inr d'"
        and flags: "\<not> rq_replay_only r" "rq_fence r = None"
        using body by (auto simp: execute_in_transaction_def split: if_splits)
      have "d' = d1\<lparr>report_receipts := report_receipts d @ [\<lparr>rr_key = rq_key r, rr_child = child, rr_digest = sha256 X enc\<rparr>]\<rparr>"
        using ins run_report_command_receipts [OF run] by (simp add: insert_report_receipt_effect)
      with mutate [OF enc(1) digest flags None run] step res show thesis by simp
    qed
  qed
qed

interpretation report_ledger: receipt_ledger "report_step X" rq_key "report_digest X" "report_admissible X" report_receipt
  for X
proof
  fix r :: report_request and d d' and e :: service_error
  show "report_step X r d = (Inl e, d') \<Longrightarrow> d' = d"
    by (cases rule: execute_report_cases [of X r d]) auto
next
  fix r :: report_request and d d' and a :: unit
  show "report_step X r d = (Inr a, d') \<Longrightarrow>
      report_admissible X r \<and> report_receipt d' (rq_key r) = Some (report_digest X r, a)"
    by (cases rule: execute_report_cases [of X r d]) (auto simp: report_receipt_def)
next
  fix r :: report_request and d and a :: unit
  show "report_admissible X r \<Longrightarrow> report_receipt d (rq_key r) = Some (report_digest X r, a) \<Longrightarrow>
      report_step X r d = (Inr a, d)"
    by (auto simp: report_step_def execute_report_def report_admissible_def report_receipt_def
        report_digest_def transact_def execute_in_transaction_def)
next
  fix r :: report_request and d g and a :: unit
  show "report_receipt d (rq_key r) = Some (g, a) \<Longrightarrow> g \<noteq> report_digest X r \<Longrightarrow> isl (fst (report_step X r d))"
    by (cases rule: execute_report_cases [of X r d]) (auto simp: report_receipt_def)
next
  fix r :: report_request and d d' and a :: unit and k v
  show "report_step X r d = (Inr a, d') \<Longrightarrow> report_receipt d k = Some v \<Longrightarrow> report_receipt d' k = Some v"
    by (cases rule: execute_report_cases [of X r d]) (auto simp: report_receipt_def)
qed

interpretation report_relations: command_system "report_step X" relation_step for X
proof
  show "relation_step d (snd (report_step X r d))" for r d
  proof (cases rule: execute_report_cases [of X r d])
    case (mutate child d1 g d')
    have "relation_step d1 d'"
      by (rule relation_step_frame) (simp_all add: mutate(7))
    with run_report_command_step [OF mutate(6)] mutate(8) show ?thesis
      by (auto intro: relation_step_trans)
  qed auto
qed (auto intro: relation_step_trans)

section \<open>The report table\<close>

definition report_table :: "db \<Rightarrow> bool" where
  "report_table d \<longleftrightarrow>
     distinct (map (\<lambda>r. (r_child r, r_report_id r)) (reports d)) \<and>
     sorted_wrt (<) (map r_sequence (reports d)) \<and>
     (\<forall>r \<in> set (reports d). r_sequence r \<le> report_seq d \<and> linked d (r_child r))"

text \<open>Growth: every stored report stays as it was, a new one goes behind them.\<close>

definition reports_grow :: "db \<Rightarrow> db \<Rightarrow> bool" where
  "reports_grow d d' \<longleftrightarrow> prefix (reports d) (reports d') \<and> (\<forall>c. linked d c \<longrightarrow> linked d' c) \<and>
     (report_table d \<longrightarrow> report_table d')"

lemma reports_grow_refl [simp, intro]: "reports_grow d d"
  by (simp add: reports_grow_def)

lemma reports_grow_trans: "reports_grow d e \<Longrightarrow> reports_grow e f \<Longrightarrow> reports_grow d f"
  by (auto simp: reports_grow_def intro: prefix_order.trans)

lemma reports_grow_frame:
  assumes "reports d' = reports d" "report_seq d' = report_seq d" "\<And>c. linked d c \<Longrightarrow> linked d' c"
  shows "reports_grow d d'"
  using assms by (auto simp: reports_grow_def report_table_def)

lemma insert_report_grow:
  assumes "insert_report row d = Inr d'" "\<And>q. r_sequence (row q) = q"
  shows "reports_grow d d'"
proof -
  define m where "m = row (Suc (report_seq d))"
  have q: "r_sequence m = Suc (report_seq d)" by (simp add: m_def assms(2))
  have d': "d' = d\<lparr>reports := reports d @ [m], report_seq := Suc (report_seq d)\<rparr>"
    and new: "(r_child m, r_report_id m) \<notin> set (map (\<lambda>r. (r_child r, r_report_id r)) (reports d))"
    and link: "linked d (r_child m)"
    using assms(1) by (auto simp: insert_report_def Let_def m_def split: if_splits)
  have "report_table d'" if t: "report_table d"
    unfolding report_table_def
  proof (intro conjI)
    show "distinct (map (\<lambda>r. (r_child r, r_report_id r)) (reports d'))"
      using t new by (simp add: report_table_def d')
    show "sorted_wrt (<) (map r_sequence (reports d'))"
      using t q by (auto simp: report_table_def d' sorted_wrt_append less_Suc_eq_le)
    show "\<forall>r \<in> set (reports d'). r_sequence r \<le> report_seq d' \<and> linked d' (r_child r)"
      using t q link by (auto simp: report_table_def d' linked_def le_Suc_eq)
  qed
  then show ?thesis by (simp add: reports_grow_def d' linked_def)
qed

lemma publish_grow:
  "publish_in_transaction X child rid st body now_ms d = Inr d' \<Longrightarrow> reports_grow d d'"
  by (auto simp: publish_in_transaction_def new_report_def split: if_splits option.splits
      intro!: insert_report_grow)

lemma link_grow:
  assumes "link_in_transaction X clock parent child d = Inr d'"
  shows "reports_grow d d'"
  using assms
  by (auto simp: link_in_transaction_def insert_link_def linked_def split: if_splits option.splits
      intro!: reports_grow_frame)

lemma run_report_command_grow: "run_report_command X clock cmd now_ms d = Inr (child, d') \<Longrightarrow> reports_grow d d'"
  by (erule run_report_command_cases) (auto intro: link_grow publish_grow)

interpretation report_growth: command_system "report_step X" reports_grow for X
proof
  show "reports_grow d (snd (report_step X r d))" for r d
  proof (cases rule: execute_report_cases [of X r d])
    case (mutate child d1 g d')
    have "reports_grow d1 d'"
      by (rule reports_grow_frame) (simp_all add: mutate(7) linked_def)
    with run_report_command_grow [OF mutate(6)] mutate(8) show ?thesis
      by (auto intro: reports_grow_trans)
  qed auto
qed (auto intro: reports_grow_trans)

lemma find_report_iff:
  assumes "report_table d"
  shows "find_report d c rid = Some r \<longleftrightarrow> r \<in> set (reports d) \<and> r_child r = c \<and> r_report_id r = rid"
  using assms find_key_Some_iff [of "\<lambda>r. (r_child r, r_report_id r)" "reports d" "(c, rid)" r]
  by (auto simp: find_report_def report_table_def)

lemma find_prefix: "prefix xs ys \<Longrightarrow> List.find P xs = Some r \<Longrightarrow> List.find P ys = Some r"
  by (auto simp: prefix_def)

lemma publish_find:
  assumes "publish_in_transaction X child rid st body now_ms d = Inr d'"
  shows "\<exists>r. find_report d' child rid = Some r \<and> r_state r = st \<and> r_body r = body" "linked d' child"
proof -
  show "linked d' child"
    using assms by (auto simp: publish_in_transaction_def insert_report_def Let_def linked_def
        split: if_splits option.splits)
  show "\<exists>r. find_report d' child rid = Some r \<and> r_state r = st \<and> r_body r = body"
    using assms
    by (auto simp: publish_in_transaction_def insert_report_def Let_def find_report_def new_report_def
        split: if_splits option.splits)
qed

lemma publish_known:
  assumes "publish_in_transaction X child rid st body now_ms d = Inr d1"
    and "find_report e child rid = Some r" "linked e child" "r_state r = st" "r_body r = body"
  shows "publish_in_transaction X child rid st body now' e = Inr e"
    and "(st', body') \<noteq> (st, body) \<Longrightarrow> isl (publish_in_transaction X child rid st' body' now' e)"
  using assms by (auto simp: publish_in_transaction_def split: if_splits)

text \<open>C33: A published report is durable evidence.  After a successful publication every later history
  of report commands still holds exactly that state and body under that identity, publishing the
  same content again succeeds and stores nothing, and publishing other content under the same
  identity is refused.\<close>

theorem published_report_immutable:
  assumes "publish_in_transaction X child rid st body now_ms d = Inr d1"
    and "e = run (report_step X) rs d1"
    and "(st', body') \<noteq> (st, body)"
  shows "(\<exists>r. find_report e child rid = Some r \<and> r_state r = st \<and> r_body r = body) \<and>
    publish_in_transaction X child rid st body now' e = Inr e \<and>
    isl (publish_in_transaction X child rid st' body' now' e)"
proof -
  from publish_find [OF assms(1)] obtain r where
    r: "find_report d1 child rid = Some r" "r_state r = st" "r_body r = body" "linked d1 child"
    by auto
  have grow: "reports_grow d1 e" unfolding assms(2) by (rule report_growth.rel_run)
  then have "find_report e child rid = Some r" "linked e child"
    using r by (auto simp: reports_grow_def find_report_def intro: find_prefix)
  with r publish_known [OF assms(1)] assms(3) show ?thesis by auto
qed

lemma published_report_immutable_witness:
  "\<exists>d1. publish_in_transaction sample_ext [2] [5] (lit ''progress'') [6] 7 sample_db = Inr d1 \<and>
     isl (publish_in_transaction sample_ext [2] [5] (lit ''progress'') [7] 8
       (run (report_step sample_ext) [] d1))"
proof -
  have p: "\<not> prefix (lit s) [5]" if "1 < length s" for s
    using that prefix_length_le [of "lit s" "[5]"] by auto
  obtain d1 where "publish_in_transaction sample_ext [2] [5] (lit ''progress'') [6] 7 sample_db = Inr d1"
    by (simp add: publish_in_transaction_def insert_report_def sample_simps linked_def find_report_def
        report_count_def report_states_def p len_utf8_def Let_def new_report_def)
  from published_report_immutable [OF this refl, where st' = "lit ''progress''" and body' = "[7]" and rs = "[]"
      and now' = 8] this
  show ?thesis by auto
qed

section \<open>Terminal-turn evidence is bounded\<close>

fun encoded_total :: "ext \<Rightarrow> ustring \<Rightarrow> nat" where
  "encoded_total X [] = 0"
| "encoded_total X (c # cs) = encoded_len X c + encoded_total X cs"

lemma encoded_total_append [simp]: "encoded_total X (s @ t) = encoded_total X s + encoded_total X t"
  by (induction s) simp_all

lemma capture_prefix_spec:
  "u \<le> FINAL_BYTES \<Longrightarrow> \<exists>rest. s = capture_prefix X u s @ rest \<and>
     u + encoded_total X (capture_prefix X u s) \<le> FINAL_BYTES \<and>
     (rest \<noteq> [] \<longrightarrow> FINAL_BYTES < u + encoded_total X (capture_prefix X u s @ [hd rest]))"
proof (induction s arbitrary: u)
  case (Cons c cs)
  show ?case
  proof (cases "u + encoded_len X c > FINAL_BYTES")
    case False
    with Cons.IH [of "u + encoded_len X c"] show ?thesis by (auto simp: add.assoc)
  qed (use Cons.prems in auto)
qed auto

text \<open>The evidence of a finished turn carries the longest prefix of the final answer whose JSON
  encoding fits 12 KiB, cut at a character boundary, with the original size and a flag that is set
  exactly when something was cut; a blank answer is recorded as no answer.\<close>

theorem capture_longest_prefix:
  "if trim t = []
   then final_text (capture X turn (Some t)) = None \<and> final_total_bytes (capture X turn (Some t)) = 0
   else \<exists>kept rest. t = kept @ rest \<and>
     final_text (capture X turn (Some t)) = Some kept \<and>
     final_total_bytes (capture X turn (Some t)) = byte_len t \<and>
     encoded_total X kept \<le> FINAL_BYTES \<and>
     (rest = [] \<or> FINAL_BYTES < encoded_total X (kept @ [hd rest])) \<and>
     (truncated (capture X turn (Some t)) \<longleftrightarrow> rest \<noteq> [])"
proof (cases "trim t = []")
  case False
  obtain rest where rest: "t = capture_prefix X 0 t @ rest"
    "encoded_total X (capture_prefix X 0 t) \<le> FINAL_BYTES"
    "rest \<noteq> [] \<longrightarrow> FINAL_BYTES < encoded_total X (capture_prefix X 0 t @ [hd rest])"
    using capture_prefix_spec [of 0 t X] by auto
  have "byte_len t = byte_len (capture_prefix X 0 t) + byte_len rest"
    by (subst rest(1)) simp
  then have "byte_len (capture_prefix X 0 t) < byte_len t \<longleftrightarrow> rest \<noteq> []" by simp
  with False rest show ?thesis
    by (auto simp: capture_def Let_def simp del: trim_eq_Nil
        intro!: exI [of _ "capture_prefix X 0 t"] exI [of _ rest])
qed (simp add: capture_def Let_def del: trim_eq_Nil)

section \<open>Paging\<close>

lemma sorted_reports: "report_table d \<Longrightarrow> sort_key r_sequence (reports d) = reports d"
  by (rule sort_key_id_if_sorted, rule strict_sorted_imp_sorted) (simp add: report_table_def)

definition parent_reports :: "db \<Rightarrow> ustring \<Rightarrow> child_report list" where
  "parent_reports d parent = reports_after d parent 0"

lemma map_filter_filter_sorted:
  assumes "sorted_wrt (<) (map k xs)" "\<And>x y. f x = Some y \<Longrightarrow> g y = k x"
  shows "sorted_wrt (<) (map g (List.map_filter f xs))"
  using assms(1)
proof (induction xs)
  case (Cons x xs)
  have "g y \<in> k ` set xs" if "y \<in> set (List.map_filter f xs)" for y
    using that assms(2) by (force simp: List.map_filter_def)
  then have "k x < g y" if "y \<in> set (List.map_filter f xs)" for y
    using that Cons.prems by fastforce
  with Cons assms(2) [of x] show ?case
    by (cases "f x") (auto simp: List.map_filter_simps)
qed (simp add: List.map_filter_simps)

definition joined_reports :: "db \<Rightarrow> (report_row \<times> link_row) list" where
  "joined_reports d = List.map_filter
     (\<lambda>r. map_option (Pair r) (List.find (\<lambda>l. l_child l = r_child r) (links d))) (sort_key r_sequence (reports d))"

lemma joined_sorted:
  assumes "report_table d"
  shows "sorted_wrt (<) (map (r_sequence \<circ> fst) (joined_reports d))"
  unfolding joined_reports_def sorted_reports [OF assms]
  by (rule map_filter_filter_sorted [where k = r_sequence]) (use assms in \<open>auto simp: report_table_def\<close>)

lemma reports_after_filter:
  "reports_after d parent a =
     map (\<lambda>(r, l). report_view l r)
       (filter (\<lambda>x. a < (r_sequence \<circ> fst) x) (filter (\<lambda>(r, l). l_parent l = parent) (joined_reports d)))"
  unfolding reports_after_def joined_reports_def by (simp add: case_prod_beta conj_commute cong: filter_cong)

text \<open>Paging a parent's reports loses and repeats nothing.  A page holds the reports behind the
  cursor, at most the clamped limit of them and in sequence order; asking again behind the last
  report of a non-empty page answers exactly the rest, and \<open>has_more\<close> says whether there is any.\<close>

theorem report_pages_partition:
  assumes "report_table d" "list_reports d parent after limit = Inr page" "reports_of page \<noteq> []"
  shows "reports_after d parent after =
      reports_of page @ reports_after d parent (cr_sequence (last (reports_of page))) \<and>
    length (reports_of page) \<le> max 1 (min 64 limit) \<and>
    (page_has_more page \<longleftrightarrow> reports_after d parent (cr_sequence (last (reports_of page))) \<noteq> [])"
proof -
  let ?n = "max 1 (min 64 limit)"
  let ?xs = "filter (\<lambda>(r, l). l_parent l = parent) (joined_reports d)"
  let ?k = "r_sequence \<circ> fst"
  let ?ys = "filter (\<lambda>x. after < ?k x) ?xs"
  have page: "reports_of page = map (\<lambda>(r, l). report_view l r) (take ?n ?ys)"
      "page_has_more page \<longleftrightarrow> ?n < length ?ys"
    using assms(2) by (auto simp: list_reports_def reports_after_filter Let_def take_map min_def
        split: if_splits)
  have ne: "take ?n ?ys \<noteq> []" using assms(3) page(1) by auto
  have "sorted_wrt (<) (map ?k ?xs)"
    using joined_sorted [OF assms(1)] by (simp add: sorted_wrt_map sorted_wrt_filter)
  from filter_after_page [OF this, of after "take ?n ?ys" "drop ?n ?ys"] ne
  have rest: "filter (\<lambda>x. ?k (last (take ?n ?ys)) < ?k x) ?xs = drop ?n ?ys" by simp
  have last: "cr_sequence (last (reports_of page)) = ?k (last (take ?n ?ys))"
    unfolding page(1) last_map [OF ne] by (simp add: report_view_def case_prod_beta)
  have "reports_after d parent (cr_sequence (last (reports_of page))) = map (\<lambda>(r, l). report_view l r) (drop ?n ?ys)"
    by (simp only: last reports_after_filter rest)
  then show ?thesis
    unfolding page reports_after_filter [of d parent after]
    by (simp flip: map_append) (simp add: not_le)
qed

lemma report_pages_partition_witness:
  "report_table (sample_db\<lparr>reports := [new_report [2] [5] [6] [7] 8 1], report_seq := 1\<rparr>) \<and>
   length (reports_after (sample_db\<lparr>reports := [new_report [2] [5] [6] [7] 8 1], report_seq := 1\<rparr>) [1] 0) = 1"
proof -
  let ?d = "sample_db\<lparr>reports := [new_report [2] [5] [6] [7] 8 1], report_seq := 1\<rparr>"
  let ?v = "\<lparr>cr_sequence = 1, cr_report_id = [5], cr_parent = [1], cr_child = [2], cr_title = [2],
    cr_state = [6], cr_body = [7], cr_created_at_ms = 8\<rparr>"
  have t: "report_table ?d"
    by (simp add: report_table_def new_report_def sample_simps linked_def)
  have l: "list_reports ?d [1] 0 1 = Inr \<lparr>reports_of = [?v], page_has_more = False\<rparr>"
    by (simp add: list_reports_def reports_after_def sample_simps new_report_def session_exists_def
        report_view_def List.map_filter_simps)
  from report_pages_partition [OF t l] t show ?thesis by simp
qed

lemma insert_unrecorded:
  assumes "question_unrecorded d child rid"
  obtains d' where "insert_report (new_report child rid st body now_ms) d = Inr d'"
    "find_report d' child rid \<noteq> None"
proof -
  have "\<not> exists_where (\<lambda>x. r_child x = child \<and> r_report_id x = rid) (reports d)" "linked d child"
    using assms by (auto simp: question_unrecorded_def find_report_def find_None_set)
  then show ?thesis
    by (intro that [of "d\<lparr>reports := reports d @ [new_report child rid st body now_ms (report_seq d + 1)],
        report_seq := report_seq d + 1\<rparr>"])
      (auto simp: insert_report_def new_report_def find_report_def Let_def split: option.split)
qed

text \<open>Recording a child's question is evidence only.  Whatever other connections commit in
  between, the call appends at most this one report to what they left; on success the question is
  recorded unless the child has no parent, and on an error the question stays unrecorded.\<close>

theorem record_question_outcome:
  "case record_question X other child q now_ms d of
     (Inr _, d') \<Rightarrow>
        (d' = d \<or> d' = other d \<or>
         insert_report (new_report child (question_report_id X q) (lit ''question'') (question_body X child q) now_ms)
           (other d) = Inr d')
        \<and> (linked d' child \<longrightarrow> find_report d' child (question_report_id X q) \<noteq> None)
   | (Inl e, d') \<Rightarrow> (d' = d \<or> d' = other d) \<and> question_unrecorded d' child (question_report_id X q)"
proof -
  let ?rid = "question_report_id X q"
  have early: "\<not> question_unrecorded d0 child ?rid \<Longrightarrow> linked d0 child \<Longrightarrow> find_report d0 child ?rid \<noteq> None" for d0
    by (simp add: question_unrecorded_def)
  show ?thesis
  proof (cases "question_unrecorded (other d) child ?rid \<and> report_count (other d) child < 4096")
    case True
    then obtain d' where "insert_report (new_report child ?rid (lit ''question'') (question_body X child q) now_ms)
        (other d) = Inr d'" "find_report d' child ?rid \<noteq> None"
      using insert_unrecorded by blast
    with True early [of d] show ?thesis by (simp add: record_question_def Let_def)
  next
    case False
    with early [of d] early [of "other d"] show ?thesis
      by (auto simp: record_question_def Let_def)
  qed
qed

lemma record_question_outcome_witness:
  "\<exists>d'. record_question sample_ext (\<lambda>d. d) [2] \<lparr>q_id = [4], q_logical_id = [], q_group_id = [], q_order = 0,
       q_title = [], q_question = [], q_options = [], q_multi = False, q_recommended = None\<rparr> 1 sample_db = (Inr (), d') \<and>
     reports d' \<noteq> []"
proof -
  let ?q = "\<lparr>q_id = [4], q_logical_id = [], q_group_id = [], q_order = 0,
       q_title = [], q_question = [], q_options = [], q_multi = False, q_recommended = None\<rparr>"
  let ?r = "record_question sample_ext (\<lambda>d. d) [2] ?q 1 sample_db"
  have "fst ?r = Inr () \<and> linked (snd ?r) [2]"
    by (simp add: record_question_def Let_def question_unrecorded_def linked_def find_report_def report_count_def
        insert_report_def new_report_def question_body_def sample_simps len_utf8_def)
  then show ?thesis
    using record_question_outcome [where X = sample_ext and other = "\<lambda>d. d" and child = "[2]" and q = ?q
      and now_ms = 1 and d = sample_db]
    by (cases ?r) (auto simp: find_report_def)
qed

end
