(* ===== verification/Relationships.thy ===== *)
theory Relationships
  imports Child_Reports
begin

text \<open>
  Claiming and transferring an existing session: \<open>src/src/child_reports/relationships.rs\<close> and the
  authentication of the source call in \<open>src/src/server/runtime/relationships.rs\<close>.  A request names
  the parent it expects and the revision of the relationship it read; \<open>apply_reparent\<close> refuses
  when either has changed.
\<close>

record reparent_fields =
  rp_parent :: ustring
  rp_call :: ustring
  rp_child :: ustring
  rp_previous :: "ustring option"
  rp_revision :: nat
  rp_transfer :: bool

fun from_command :: "command \<Rightarrow> service_error + reparent_fields" where
  "from_command (ReparentChildSession src call child prev revno tr) =
     Inr \<lparr>rp_parent = src, rp_call = call, rp_child = child, rp_previous = prev, rp_revision = revno,
          rp_transfer = tr\<rparr>"
| "from_command _ = Inl (refuse_report (lit ''not a relationship command''))"

text \<open>Both sessions exist and are bound to one profile, neither is a native run, and the expected
  parent, when there is one, is bound to that profile too.\<close>

definition authorize_reparent :: "reparent_fields \<Rightarrow> db \<Rightarrow> service_error + unit" where
  "authorize_reparent r d =
     (if session_exists d (rp_child r) \<and> session_exists d (rp_parent r)
         \<and> profile_of d (rp_child r) \<noteq> None
         \<and> profile_of d (rp_parent r) = profile_of d (rp_child r)
         \<and> rp_child r \<noteq> rp_parent r
         \<and> \<not> exists_where (\<lambda>(_, i). i = rp_parent r \<or> i = rp_child r) (runs d)
         \<and> (case rp_previous r of None \<Rightarrow> True | Some p \<Rightarrow> profile_of d p = profile_of d (rp_child r))
      then Inr ()
      else Inl (refuse_report (lit ''claim/transfer requires exact durable sessions on this runtime with the same bound profile; native runs and unbound sessions are not eligible'')))"

definition message_unsettled_for :: "db \<Rightarrow> ustring \<Rightarrow> message_row \<Rightarrow> bool" where
  "message_unsettled_for d child m \<longleftrightarrow>
     \<not> removed d m \<and> undelivered d m \<and>
     (exists_where (\<lambda>(rq, mq). mq = m_sequence m \<and>
         exists_where (\<lambda>r. r_sequence r = rq \<and> r_child r = child) (reports d)) (deliveries d)
      \<or> (case source_of d m of None \<Rightarrow> False | Some s \<Rightarrow>
           src_kind s = lit ''durable_child_evidence'' \<and> src_session s = child
           \<or> m_session m = child \<and> src_kind s = lit ''delegated_instruction''))"

definition ensure_delivery_settled :: "reparent_fields \<Rightarrow> db \<Rightarrow> service_error + unit" where
  "ensure_delivery_settled r d =
     (if exists_where (message_unsettled_for d (rp_child r)) (messages d) then
        Inl (refuse_report (lit ''relationship has unsettled child reports or delegated instructions; drain or explicitly withdraw pending messages first; uncertain dispatch must not be replayed''))
      else Inr ())"

definition apply_reparent :: "ext \<Rightarrow> int \<Rightarrow> reparent_fields \<Rightarrow> db \<Rightarrow> service_error + db" where
  "apply_reparent X clock r d =
     (if rp_transfer r \<noteq> (rp_previous r \<noteq> None) \<or> rp_previous r = Some (rp_parent r) then
        Inl (refuse_report (lit ''claim requires an orphan; explicit transfer requires a different expected current parent''))
      else if parent_of d (rp_child r) \<noteq> rp_previous r \<or> revision_of d (rp_child r) \<noteq> rp_revision r then
        Inl (refuse_report (lit ''relationship changed; read authoritative parent and revision before a new explicit attempt''))
      else if linked d (rp_parent r) \<or> has_children d (rp_child r)
          \<or> closed d (rp_parent r) \<or> closed d (rp_child r) \<or> child_count d (rp_parent r) \<ge> 32 then
        Inl (refuse_report (lit ''claim/transfer requires open, one-level sessions and fewer than 32 children; cycles and nested parents are not supported''))
      else if held d clock (rp_child r) then
        Inl (refuse_report (lit ''its current parent is stopping or deleting this session; claim/transfer is refused''))
      else rbind (ensure_delivery_settled r d) (\<lambda>_.
        if rp_transfer r then sql (failure_report X) (set_parent clock (rp_child r) (rp_parent r) d)
        else link_in_transaction X clock (rp_parent r) (rp_child r) d))"

text \<open>The transition row a request matches: by its key, or by the source call.\<close>

definition saved_transition :: "db \<Rightarrow> ustring \<Rightarrow> reparent_fields \<Rightarrow> transition_row option" where
  "saved_transition d key r =
     List.find (\<lambda>t. t_key t = key \<or> t_parent t = rp_parent r \<and> t_call t = rp_call r) (transitions d)"

definition new_transition :: "ustring \<Rightarrow> bytes \<Rightarrow> reparent_fields \<Rightarrow> int \<Rightarrow> transition_row" where
  "new_transition key dig r now_ms =
     \<lparr>t_key = key, t_digest = dig, t_child = rp_child r, t_previous = rp_previous r, t_parent = rp_parent r,
      t_previous_revision = rp_revision r, t_revision = rp_revision r + 1, t_call = rp_call r,
      t_changed_at = now_ms\<rparr>"

definition reparent_in_transaction ::
  "ext \<Rightarrow> int \<Rightarrow> reparent_fields \<Rightarrow> ustring \<Rightarrow> bytes \<Rightarrow> bool \<Rightarrow> int \<Rightarrow> service_error + unit \<Rightarrow> db
     \<Rightarrow> service_error + unit \<times> db" where
  "reparent_in_transaction X clock r key dig replay_only now_ms authenticate d =
     rbind (authorize_reparent r d) (\<lambda>_.
       case saved_transition d key r of
         Some saved \<Rightarrow>
           if t_digest saved = dig then Inr ((), d)
           else Inl (refuse_report (lit ''relationship receipt already exists with different arguments''))
       | None \<Rightarrow>
           if replay_only then
             Inl (refuse_report (lit ''relationship receipt is unavailable; no mutation executed''))
           else rbind authenticate (\<lambda>_.
             rbind (apply_reparent X clock r d) (\<lambda>d'.
               rbind (sql (failure_report X) (insert_transition (new_transition key dig r now_ms) d'))
                 (\<lambda>d''. Inr ((), d'')))))"

definition reparent ::
  "ext \<Rightarrow> int \<Rightarrow> command \<Rightarrow> ustring \<Rightarrow> bool \<Rightarrow> int \<Rightarrow> service_error + unit \<Rightarrow> db
     \<Rightarrow> (service_error + unit) \<times> db" where
  "reparent X clock cmd key replay_only now_ms authenticate =
     (case from_command cmd of
        Inl e \<Rightarrow> Pair (Inl e)
      | Inr r \<Rightarrow>
          if rp_revision r \<ge> 2 ^ 63 - 1 then
            Pair (Inl (refuse_report (lit ''relationship revision is out of range'')))
          else if key = [] \<or> byte_len key > 200 \<or> rp_call r = [] \<or> byte_len (rp_call r) > 200 then
            Pair (Inl (refuse_report (lit ''relationship command and source call keys must be 1'' @ [8211] @ lit ''200 bytes'')))
          else case command_json X cmd of
            None \<Rightarrow> Pair (Inl (refuse_report (lit ''invalid relationship command'')))
          | Some encoded \<Rightarrow>
              transact (reparent_in_transaction X clock r key (sha256 X encoded) replay_only now_ms authenticate))"

section \<open>The source call\<close>

record tool_call =
  tc_id :: ustring
  tc_name :: ustring
  tc_arguments_json :: ustring

text \<open>\<open>pending\<close> are the external tool calls the source session is waiting for; a session without a
  running engine has none.\<close>

definition authenticate_reparent :: "ext \<Rightarrow> (ustring \<Rightarrow> tool_call list) \<Rightarrow> command \<Rightarrow> service_error + unit" where
  "authenticate_reparent X pending cmd =
     rbind (from_command cmd) (\<lambda>r.
       case List.find (\<lambda>c. tc_id c = rp_call r) (pending (rp_parent r)) of
         None \<Rightarrow> Inl (refuse (lit ''claim/transfer source call is not pending''))
       | Some c \<Rightarrow>
           (case parse_json X (tc_arguments_json c) of
              None \<Rightarrow> Inl (refuse (lit ''invalid source call arguments''))
            | Some args \<Rightarrow>
                if tc_name c \<noteq> (if rp_transfer r then lit ''TransferAgent'' else lit ''ClaimAgent'')
                   \<or> Option.bind (json_get args ''sessionId'') as_str \<noteq> Some (rp_child r)
                   \<or> Option.bind (json_get args ''expectedRelationshipRevision'') as_u64 \<noteq> Some (rp_revision r)
                   \<or> Option.bind (json_get args ''expectedParentSessionId'') as_str \<noteq> rp_previous r
                then Inl (refuse (lit ''relationship command differs from the exact pending source call''))
                else Inr ()))"

section \<open>What a claim or transfer does\<close>

lemma apply_reparent_guards:
  assumes "apply_reparent X clock r d = Inr d'"
  shows "parent_of d (rp_child r) = rp_previous r" "revision_of d (rp_child r) = rp_revision r"
    "\<not> linked d (rp_parent r)" "\<not> has_children d (rp_child r)" "child_count d (rp_parent r) < 32"
    "\<not> held d clock (rp_child r)" "rp_previous r \<noteq> Some (rp_parent r)"
    "\<not> exists_where (message_unsettled_for d (rp_child r)) (messages d)"
    "if rp_transfer r then set_parent clock (rp_child r) (rp_parent r) d = Inr d' \<and> rp_previous r \<noteq> None
     else link_in_transaction X clock (rp_parent r) (rp_child r) d = Inr d' \<and> rp_previous r = None"
  using assms by (auto simp: apply_reparent_def ensure_delivery_settled_def not_le split: if_splits)

lemma apply_reparent_step: "apply_reparent X clock r d = Inr d' \<Longrightarrow> relation_step d d'"
  using apply_reparent_guards [of X clock r d d']
  by (cases "rp_transfer r") (auto intro: set_parent_step link_step)

lemma link_revision:
  assumes "link_in_transaction X clock parent child d = Inr d'" "link_keys d" "parent_of d child = None"
  shows "parent_of d' = (parent_of d)(child \<mapsto> parent)"
    "revision_of d' = (revision_of d)(child := Suc (revision_of d child))"
  using assms insert_link_effect [of clock "\<lparr>l_child = child, l_parent = parent, l_title = _\<rparr>" d d']
  by (auto simp: link_in_transaction_def split: if_splits option.splits)

lemma apply_reparent_effect:
  assumes "apply_reparent X clock r d = Inr d'" "forest d"
  shows "parent_of d' = (parent_of d)(rp_child r \<mapsto> rp_parent r)"
    "revision_of d' = (revision_of d)(rp_child r := Suc (rp_revision r))"
proof -
  note g = apply_reparent_guards [OF assms(1)]
  have k: "link_keys d" using assms(2) by (simp add: forest_def)
  have "parent_of d' = (parent_of d)(rp_child r \<mapsto> rp_parent r) \<and>
      revision_of d' = (revision_of d)(rp_child r := Suc (rp_revision r))"
  proof (cases "rp_transfer r")
    case True
    with g(1,7,9) obtain old where "set_parent clock (rp_child r) (rp_parent r) d = Inr d'"
      "parent_of d (rp_child r) = Some old" "old \<noteq> rp_parent r" by auto
    from set_parent_effect [OF this(1) k this(2,3)] g(2) show ?thesis by simp
  next
    case False
    with link_revision [of X clock "rp_parent r" "rp_child r" d d'] k g(1,2,9) show ?thesis by auto
  qed
  then show "parent_of d' = (parent_of d)(rp_child r \<mapsto> rp_parent r)"
    "revision_of d' = (revision_of d)(rp_child r := Suc (rp_revision r))" by auto
qed

lemma link_transitions: "link_in_transaction X clock parent child d = Inr d' \<Longrightarrow> transitions d' = transitions d"
  by (auto simp: link_in_transaction_def insert_link_def split: if_splits option.splits)

lemma apply_reparent_transitions: "apply_reparent X clock r d = Inr d' \<Longrightarrow> transitions d' = transitions d"
  using apply_reparent_guards(9) [of X clock r d d']
  by (cases "rp_transfer r") (auto simp: set_parent_def dest: link_transitions split: option.splits if_splits)

lemma reparent_cases:
  obtains (error) e where "reparent X clock cmd key ro now_ms auth d = (Inl e, d)"
  | (replay) r saved enc where "from_command cmd = Inr r" "command_json X cmd = Some enc"
      "saved_transition d key r = Some saved" "t_digest saved = sha256 X enc"
      "reparent X clock cmd key ro now_ms auth d = (Inr (), d)"
  | (mutate) r d1 enc where "from_command cmd = Inr r" "command_json X cmd = Some enc"
      "saved_transition d key r = None" "\<not> ro" "auth = Inr ()"
      "authorize_reparent r d = Inr ()" "apply_reparent X clock r d = Inr d1"
      "reparent X clock cmd key ro now_ms auth d =
        (Inr (), d1\<lparr>transitions := transitions d @ [new_transition key (sha256 X enc) r now_ms]\<rparr>)"
proof (cases "reparent X clock cmd key ro now_ms auth d")
  case (Pair res d')
  note step = Pair
  show thesis
  proof (cases res)
    case (Inl e)
    with step have "d' = d"
      by (auto simp: reparent_def transact_eq_Inl split: if_splits option.splits sum.splits)
    with step Inl error show thesis by auto
  next
    case (Inr u)
    then obtain r enc where r: "from_command cmd = Inr r" "command_json X cmd = Some enc"
      and body: "reparent_in_transaction X clock r key (sha256 X enc) ro now_ms auth d = Inr ((), d')"
      using step by (auto simp: reparent_def transact_eq_Inr split: if_splits option.splits sum.splits)
    show thesis
    proof (cases "saved_transition d key r")
      case (Some saved)
      with body have "t_digest saved = sha256 X enc \<and> d' = d"
        by (auto simp: reparent_in_transaction_def split: if_splits)
      with step Inr show thesis by (intro replay [OF r Some]) simp_all
    next
      case None
      with body obtain d1 where d1: "apply_reparent X clock r d = Inr d1"
        "insert_transition (new_transition key (sha256 X enc) r now_ms) d1 = Inr d'"
        "\<not> ro" "auth = Inr ()" "authorize_reparent r d = Inr ()"
        by (auto simp: reparent_in_transaction_def split: if_splits)
      then have "d' = d1\<lparr>transitions := transitions d @ [new_transition key (sha256 X enc) r now_ms]\<rparr>"
        using apply_reparent_transitions [OF d1(1)] by (auto simp: insert_transition_def split: if_splits)
      with mutate [OF r None d1(3-5,1)] step Inr show thesis by simp
    qed
  qed
qed

record reparent_request =
  rr_command :: command
  rr_command_key :: ustring
  rr_replay_only :: bool
  rr_now_ms :: int
  rr_authenticate :: "service_error + unit"
  rr_clock :: int

definition reparent_step :: "ext \<Rightarrow> reparent_request \<Rightarrow> db \<Rightarrow> (service_error + unit) \<times> db" where
  "reparent_step X r = reparent X (rr_clock r) (rr_command r) (rr_command_key r) (rr_replay_only r)
     (rr_now_ms r) (rr_authenticate r)"

lemma reparent_relation_step: "relation_step d (snd (reparent X clock cmd key ro now_ms auth d))"
proof (cases rule: reparent_cases [of X clock cmd key ro now_ms auth d])
  case (mutate r d1 enc)
  have "relation_step d1 (d1\<lparr>transitions := transitions d @ [new_transition key (sha256 X enc) r now_ms]\<rparr>)"
    by (rule relation_step_frame) simp_all
  with apply_reparent_step [OF mutate(7)] mutate(8) show ?thesis
    by (auto intro: relation_step_trans)
qed auto

interpretation reparent_relations: command_system "reparent_step X" relation_step for X
  by unfold_locales (auto intro: relation_step_trans simp: reparent_step_def reparent_relation_step)


text \<open>The revision fences every stale request.  Once the child's parent has changed after the
  caller read its revision, a claim or transfer carrying that revision never mutates anything, in
  any later state, even when the parent has meanwhile been changed back.\<close>

theorem stale_reparent_refused:
  assumes "forest d" "relation_step d d1" "parent_of d1 (rp_child r) \<noteq> parent_of d (rp_child r)"
    and "relation_step d1 e" "from_command cmd = Inr r" "rp_revision r = revision_of d (rp_child r)"
  shows "snd (reparent X clock cmd key ro now_ms auth e) = e"
proof (cases rule: reparent_cases [of X clock cmd key ro now_ms auth e])
  case (mutate r' e1 enc)
  have "revision_of d (rp_child r) < revision_of d1 (rp_child r)"
    using assms(1-3) by (auto simp: relation_step_def)
  also have "\<dots> \<le> revision_of e (rp_child r)"
    using assms(1,2,4) by (auto simp: relation_step_def)
  finally have "rp_revision r < revision_of e (rp_child r)" using assms(6) by simp
  with apply_reparent_guards(2) [OF mutate(7)] mutate(1) assms(5) show ?thesis by simp
qed auto

definition claim_db :: db where
  "claim_db = sample_db\<lparr>profiles := [\<lparr>pr_session = [1], pr_profile = [7]\<rparr>, \<lparr>pr_session = [3], pr_profile = [7]\<rparr>]\<rparr>"

lemmas claim_simps = claim_db_def sample_simps forest_def link_keys_def linked_def child_count_def
  has_children_def parent_of_def revision_of_def session_exists_def profile_of_def held_def closed_def
  find_session_def

lemma claim_db_forest: "forest claim_db"
  by (simp add: claim_simps)



lemma stale_reparent_refused_witness:
  "\<exists>e. parent_of e [3] = Some [1] \<and>
     snd (reparent sample_ext 0 (ReparentChildSession [1] [5] [3] None 0 False) [9] False 6 (Inr ()) e) = e"
proof -
  let ?r = "\<lparr>rp_parent = [1], rp_call = [5], rp_child = [3], rp_previous = None, rp_revision = 0, rp_transfer = False\<rparr>"
  obtain d1 where d1: "apply_reparent sample_ext 0 ?r claim_db = Inr d1"
    by (simp add: claim_simps apply_reparent_def ensure_delivery_settled_def link_in_transaction_def
        same_owner_def insert_link_def)
  have p: "parent_of d1 [3] = Some [1]" "parent_of claim_db [3] = None" "revision_of claim_db [3] = 0"
    using apply_reparent_effect(1) [OF d1 claim_db_forest] by (auto simp: claim_simps)
  with stale_reparent_refused [OF claim_db_forest apply_reparent_step [OF d1], where r = ?r and e = d1
      and cmd = "ReparentChildSession [1] [5] [3] None 0 False"]
  show ?thesis by auto
qed

end
