(* ===== verification/Session_Store.thy ===== *)
theory Session_Store
  imports Relationships
begin

text \<open>
  What the session repository (\<open>src/src/session.rs\<close>) does to the shared tables: resolving an id,
  binding a profile, guarded deletion with its cascades, deletion holds, and the terminal-turn
  report a finished turn leaves for the parent.  \<open>unix_timestamp()\<close> is the argument \<open>now\<close> (seconds).
\<close>

datatype session_error =
  Ambiguous ustring | SessionNotFound ustring | LinkedChildren | ParentFenceMismatch | SelfClearNotReady
  | InvalidStoredValue ustring ustring | Database sql_fault

text \<open>An exact id, or the only session whose id starts with it.\<close>

definition find_record :: "db \<Rightarrow> ustring \<Rightarrow> session_error + session_row option" where
  "find_record d i =
     (case find_session d i of
        Some s \<Rightarrow> Inr (Some s)
      | None \<Rightarrow>
          (case filter (\<lambda>s. prefix i (s_id s)) (sessions d) of
             [] \<Rightarrow> Inr None
           | [s] \<Rightarrow> Inr (Some s)
           | _ \<Rightarrow> Inl (Ambiguous i)))"

section \<open>Profiles\<close>

definition bind_session_skill_profile :: "ustring \<Rightarrow> ustring \<Rightarrow> db \<Rightarrow> (session_error + unit) \<times> db" where
  "bind_session_skill_profile sid profile d =
     (case profile_of d sid of
        None \<Rightarrow>
          if session_exists d sid
          then (Inr (), d\<lparr>profiles := profiles d @ [\<lparr>pr_session = sid, pr_profile = profile\<rparr>]\<rparr>)
          else (Inl (Database ForeignKeyViolation), d)
      | Some persisted \<Rightarrow>
          if persisted = profile then (Inr (), d)
          else (Inl (InvalidStoredValue (lit ''session_skill_profiles.profile_id'') persisted), d))"

section \<open>Deletion\<close>

definition ensure_self_clear_ready :: "db \<Rightarrow> ustring \<Rightarrow> session_error + unit" where
  "ensure_self_clear_ready d i =
     (if session_exists d i \<and> profile_of d i \<noteq> None
         \<and> exists_where (\<lambda>b. br_session b = i \<and> br_kind b = lit ''chat'' \<and> br_lifecycle b = lit ''open''
              \<and> br_pending_inbound b = None) (bridges d)
         \<and> \<not> has_children d i
         \<and> \<not> exists_where (\<lambda>m.
              (m_session m = i \<or> (case source_of d m of None \<Rightarrow> False | Some s \<Rightarrow> src_session s = i))
              \<and> undelivered d m \<and> \<not> removed d m) (messages d)
         \<and> unsettled_batch d i = None
      then Inr () else Inl SelfClearNotReady)"

datatype deletion_guard = Owner | SelfClear | Child "ustring option"

definition CHILD_DELETION_HOLD_SECONDS :: int where "CHILD_DELETION_HOLD_SECONDS = 120"

definition message_owned :: "db \<Rightarrow> ustring \<Rightarrow> nat \<Rightarrow> bool" where
  "message_owned d i q = exists_where (\<lambda>m. m_sequence m = q \<and> m_session m = i) (messages d)"

definition batch_owned :: "db \<Rightarrow> ustring \<Rightarrow> ustring \<Rightarrow> bool" where
  "batch_owned d i k = exists_where (\<lambda>b. bt_id b = k \<and> bt_session b = i) (batches d)"

text \<open>\<open>DELETE FROM sessions\<close> with its cascades: everything that references the session, and the
  trigger that refuses to drop a held link and raises the revision of a retained child.\<close>

definition delete_session :: "int \<Rightarrow> ustring \<Rightarrow> db \<Rightarrow> sql_fault + db" where
  "delete_session clock i d =
     (let gone = filter (\<lambda>l. l_child l = i \<or> l_parent l = i) (links d);
          kids = map l_child gone in
      if list_ex (held d clock) kids then Inl (TriggerAbort held_abort)
      else Inr (d\<lparr>sessions := delete_where (\<lambda>s. s_id s = i) (sessions d),
        profiles := delete_where (\<lambda>p. pr_session p = i) (profiles d),
        links := delete_where (\<lambda>l. l_child l = i \<or> l_parent l = i) (links d),
        revisions := delete_where (\<lambda>r. rv_child r = i) (fold bump kids (revisions d)),
        reports := delete_where (\<lambda>r. r_child r \<in> set kids) (reports d),
        report_receipts := delete_where (\<lambda>r. rr_child r \<in> set kids) (report_receipts d),
        holds := delete_where (\<lambda>h. h_child h = i) (holds d),
        runs := delete_where (\<lambda>(p, _). p = i) (runs d),
        inboxes := delete_where (\<lambda>(s, _). s = i) (inboxes d),
        batches := delete_where (\<lambda>b. bt_session b = i) (batches d),
        messages := delete_where (\<lambda>m. m_session m = i) (messages d),
        receipts := delete_where (\<lambda>r. rc_session r = i) (receipts d),
        deliveries := delete_where (\<lambda>(_, q). message_owned d i q) (deliveries d),
        sources := delete_where (\<lambda>(q, _). message_owned d i q) (sources d),
        displays := delete_where (\<lambda>(k, _). batch_owned d i k) (displays d),
        removals := delete_where (message_owned d i) (removals d),
        owner_turns := delete_where (\<lambda>(s, _). s = i) (owner_turns d)\<rparr>))"

definition check_guard :: "deletion_guard \<Rightarrow> ustring \<Rightarrow> session_row option \<Rightarrow> ustring \<Rightarrow> db \<Rightarrow> session_error + unit" where
  "check_guard guard i rec resolved d =
     (case guard of
        Owner \<Rightarrow> Inr ()
      | SelfClear \<Rightarrow> ensure_self_clear_ready d resolved
      | Child parent \<Rightarrow>
          if (case rec of None \<Rightarrow> True | Some s \<Rightarrow> s_id s \<noteq> i) then Inl (SessionNotFound i)
          else if parent_of d resolved \<noteq> parent then Inl ParentFenceMismatch
          else Inr ())"

definition archive_bridge :: "int \<Rightarrow> ustring \<Rightarrow> db \<Rightarrow> db" where
  "archive_bridge now i d = d\<lparr>bridges := update_where
     (\<lambda>b. br_session b = i \<and> br_lifecycle b \<noteq> lit ''archived'')
     (\<lambda>b. b\<lparr>br_lifecycle := lit ''archived'', br_revision := br_revision b + 1, br_updated_at_ms := now * 1000\<rparr>)
     (bridges d)\<rparr>"

definition delete_records :: "int \<Rightarrow> session_row \<Rightarrow> db \<Rightarrow> sql_fault + db" where
  "delete_records clock rec d =
     delete_session clock (s_id rec)
       (d\<lparr>native_sessions := delete_where
             (\<lambda>n. n = (s_provider rec, s_provider_session rec) \<or> n \<in> set (s_owned rec)) (native_sessions d),
          inbound_events := delete_where (\<lambda>s. s = s_id rec) (inbound_events d),
          accepted_prompts := delete_where (\<lambda>s. s = s_id rec) (accepted_prompts d),
          holds := delete_where (\<lambda>h. h_child h = s_id rec) (holds d)\<rparr>)"

text \<open>The id is resolved before the transaction opens: \<open>other\<close> is what other connections commit in
  between.\<close>

definition delete_guarded ::
  "(db \<Rightarrow> db) \<Rightarrow> int \<Rightarrow> int \<Rightarrow> ustring \<Rightarrow> deletion_guard \<Rightarrow> db \<Rightarrow> (session_error + unit) \<times> db" where
  "delete_guarded other clock now i guard d0 =
     (case find_record d0 i of
        Inl e \<Rightarrow> (Inl e, d0)
      | Inr rec \<Rightarrow>
          let resolved = (case rec of None \<Rightarrow> i | Some s \<Rightarrow> s_id s) in
          transact (\<lambda>d.
            if has_children d resolved then Inl LinkedChildren
            else rbind (check_guard guard i rec resolved d) (\<lambda>_.
              let d1 = archive_bridge now resolved d in
              case rec of
                None \<Rightarrow> Inr ((), d1)
              | Some s \<Rightarrow>
                  (case delete_records clock s d1 of
                     Inl f \<Rightarrow> Inl (Database f)
                   | Inr d2 \<Rightarrow> Inr ((), d2)))) (other d0))"

section \<open>Deletion holds\<close>

definition hold_child_deletion :: "int \<Rightarrow> ustring \<Rightarrow> ustring option \<Rightarrow> db \<Rightarrow> (session_error + bool) \<times> db" where
  "hold_child_deletion now i parent =
     transact (\<lambda>d.
       if \<not> session_exists d i then Inl (SessionNotFound i)
       else if parent_of d i \<noteq> parent then Inl ParentFenceMismatch
       else let now_ms = now * 1000;
                already_held = exists_where (\<lambda>h. h_child h = i \<and> now_ms < h_expires_at h) (holds d) in
         Inr (\<not> already_held, upsert_hold
           \<lparr>h_child = i, h_parent = parent, h_expires_at = now_ms + CHILD_DELETION_HOLD_SECONDS * 1000\<rparr> d))"

definition release_child_deletion_hold :: "ustring \<Rightarrow> db \<Rightarrow> db" where
  "release_child_deletion_hold i d = d\<lparr>holds := delete_where (\<lambda>h. h_child h = i) (holds d)\<rparr>"

section \<open>Finished turns\<close>

datatype turn_outcome = Completed | Interrupted | Failed

record persisted_turn =
  pt_completion :: "completion option"
  pt_id :: ustring
  pt_model :: "ustring option"
  pt_effort :: "ustring option"
  pt_fast :: bool
  pt_outcome :: turn_outcome

fun outcome_text :: "turn_outcome \<Rightarrow> ustring" where
  "outcome_text Completed = lit ''completed''"
| "outcome_text Interrupted = lit ''interrupted''"
| "outcome_text Failed = lit ''failed''"

definition turn_report_id :: "persisted_turn \<Rightarrow> ustring" where
  "turn_report_id t = lit ''turn:'' @ pt_id t"

definition turn_report :: "ext \<Rightarrow> int \<Rightarrow> ustring \<Rightarrow> persisted_turn \<Rightarrow> nat \<Rightarrow> report_row" where
  "turn_report X now i t = new_report i (turn_report_id t)
     (if pt_outcome t = Interrupted then lit ''cancelled'' else outcome_text (pt_outcome t))
     (completion_json X (case pt_completion t of Some c \<Rightarrow> c | None \<Rightarrow> capture X (pt_id t) None))
     (now * 1000)"

definition update_last_turn :: "ext \<Rightarrow> int \<Rightarrow> ustring \<Rightarrow> persisted_turn \<Rightarrow> db \<Rightarrow> (session_error + unit) \<times> db" where
  "update_last_turn X now i t =
     transact (\<lambda>d.
       if \<not> session_exists d i then Inl (SessionNotFound i)
       else
         let lt = \<lparr>lt_id = pt_id t, lt_model = pt_model t, lt_effort = pt_effort t, lt_fast = pt_fast t,
                   lt_outcome = outcome_text (pt_outcome t)\<rparr>;
             d1 = d\<lparr>sessions := update_where (\<lambda>s. s_id s = i)
               (\<lambda>s. s\<lparr>s_last_turn := Some lt, s_updated_at := now,
                      s_owner_activity := Some (max (case s_owner_activity s of None \<Rightarrow> 0 | Some a \<Rightarrow> a) now)\<rparr>)
               (sessions d)\<rparr>;
             d2 = (if exists_where (\<lambda>(s, x). s = i \<and> lt_id x = pt_id t) (owner_turns d1) then d1
                   else d1\<lparr>owner_turns := owner_turns d1 @ [(i, lt)]\<rparr>) in
         if linked d2 i \<and> find_report d2 i (turn_report_id t) = None then
           (case insert_report (turn_report X now i t) d2 of
              Inl f \<Rightarrow> Inl (Database f)
            | Inr d3 \<Rightarrow> Inr ((), d3))
         else Inr ((), d2))"

section \<open>Deletion removes one childless session\<close>

lemma delete_bump: "delete_where (\<lambda>r. rv_child r = i) (bump i t) = delete_where (\<lambda>r. rv_child r = i) t"
  unfolding bump_def by (induction t) auto

lemma delete_fold_bump:
  "set kids \<subseteq> {i} \<Longrightarrow>
   delete_where (\<lambda>r. rv_child r = i) (fold bump kids t) = delete_where (\<lambda>r. rv_child r = i) t"
  by (induction kids arbitrary: t) (auto simp: delete_bump)

lemma find_delete_other:
  "c \<noteq> i \<Longrightarrow> List.find (\<lambda>r. k r = c) (delete_where (\<lambda>r. k r = i) t) = List.find (\<lambda>r. k r = c) t"
  by (simp add: find_delete_where_key)

lemma delete_session_tables:
  assumes "delete_session clock i d = Inr d'" "\<not> has_children d i"
  shows "links d' = delete_where (\<lambda>l. l_child l = i) (links d)"
    "revisions d' = delete_where (\<lambda>r. rv_child r = i) (revisions d)"
    "sessions d' = delete_where (\<lambda>s. s_id s = i) (sessions d)"
    "messages d' = delete_where (\<lambda>m. m_session m = i) (messages d)"
    "batches d' = delete_where (\<lambda>b. bt_session b = i) (batches d)"
    "receipts d' = delete_where (\<lambda>r. rc_session r = i) (receipts d)"
    "reports d' = delete_where (\<lambda>r. linked d i \<and> r_child r = i) (reports d)"
proof -
  let ?gone = "filter (\<lambda>l. l_child l = i \<or> l_parent l = i) (links d)"
  have no: "l_parent l \<noteq> i" if "l \<in> set (links d)" for l
    using assms(2) that by (auto simp: has_children_def)
  have kids: "set (map l_child ?gone) \<subseteq> {i}" using no by auto
  have linkset: "delete_where (\<lambda>l. l_child l = i \<or> l_parent l = i) (links d) = delete_where (\<lambda>l. l_child l = i) (links d)"
    using no by (auto simp: delete_where_def intro!: filter_cong)
  note d' = assms(1) [unfolded delete_session_def Let_def]
  show "links d' = delete_where (\<lambda>l. l_child l = i) (links d)"
    using d' linkset by (auto split: if_splits)
  show "revisions d' = delete_where (\<lambda>r. rv_child r = i) (revisions d)"
    using d' delete_fold_bump [OF kids, of "revisions d"] by (auto split: if_splits)
  show "sessions d' = delete_where (\<lambda>s. s_id s = i) (sessions d)"
    "messages d' = delete_where (\<lambda>m. m_session m = i) (messages d)"
    "batches d' = delete_where (\<lambda>b. bt_session b = i) (batches d)"
    "receipts d' = delete_where (\<lambda>r. rc_session r = i) (receipts d)"
    using d' by (auto split: if_splits)
  have "set (map l_child ?gone) = (if linked d i then {i} else {})"
    using no by (auto simp: linked_def)
  then have "(\<lambda>r :: report_row. r_child r \<in> set (map l_child ?gone)) = (\<lambda>r. linked d i \<and> r_child r = i)"
    by (intro ext) auto
  moreover have "reports d' = delete_where (\<lambda>r. r_child r \<in> set (map l_child ?gone)) (reports d)"
    using d' by (auto split: if_splits)
  ultimately show "reports d' = delete_where (\<lambda>r. linked d i \<and> r_child r = i) (reports d)" by (simp only:)
qed

lemma delete_session_relations:
  assumes "delete_session clock i d = Inr d'" "\<not> has_children d i" "forest d"
  shows "forest d'" "parent_of d' = (parent_of d)(i := None)" "c \<noteq> i \<Longrightarrow> revision_of d' c = revision_of d c"
proof -
  note t = delete_session_tables [OF assms(1,2)]
  show p: "parent_of d' = (parent_of d)(i := None)"
    by (rule ext) (simp add: parent_of_def t(1) find_delete_where_key)
  show "c \<noteq> i \<Longrightarrow> revision_of d' c = revision_of d c"
    by (simp add: revision_of_def t(2) find_delete_where_key)
  have "link_keys d" using assms(3) by (simp add: forest_def)
  then have "link_keys d'"
    unfolding link_keys_def t(1,2) by (auto intro: distinct_delete_where)
  moreover have "relink (parent_of d) (parent_of d')" unfolding p by (rule relink.orphan)
  ultimately show "forest d'"
    using assms(3) by (auto simp: forest_iff intro: relink_one_level relink_bounded)
qed

text \<open>C35: Deleting a session never takes a parent away from its children and, when the caller named
  the parent it expects, happens only under that parent at commit time.  Afterwards the sessions, links,
  inbox messages, batches and receipts are exactly the others', the reports of the deleted child are
  gone and no others, every other session keeps its parent and its revision, and the relationships
  still form a one-level forest.\<close>

theorem delete_guarded_outcome:
  assumes "forest (other d0)" "find_record d0 i = Inr (Some s)"
    and "delete_guarded other clock now i guard d0 = (Inr (), d')"
  shows "\<not> has_children (other d0) (s_id s) \<and>
    (case guard of Child p \<Rightarrow> s_id s = i \<and> parent_of (other d0) i = p
                 | SelfClear \<Rightarrow> ensure_self_clear_ready (other d0) (s_id s) = Inr () | Owner \<Rightarrow> True) \<and>
    sessions d' = filter (\<lambda>x. s_id x \<noteq> s_id s) (sessions (other d0)) \<and>
    links d' = filter (\<lambda>l. l_child l \<noteq> s_id s) (links (other d0)) \<and>
    messages d' = filter (\<lambda>m. m_session m \<noteq> s_id s) (messages (other d0)) \<and>
    batches d' = filter (\<lambda>b. bt_session b \<noteq> s_id s) (batches (other d0)) \<and>
    receipts d' = filter (\<lambda>r. rc_session r \<noteq> s_id s) (receipts (other d0)) \<and>
    reports d' = filter (\<lambda>r. \<not> (linked (other d0) (s_id s) \<and> r_child r = s_id s)) (reports (other d0)) \<and>
    forest d' \<and> parent_of d' = (parent_of (other d0))(s_id s := None) \<and>
    {c. c \<noteq> s_id s \<and> revision_of d' c \<noteq> revision_of (other d0) c} = {}"
proof -
  let ?d = "other d0" and ?i = "s_id s"
  let ?e = "(archive_bridge now ?i ?d)\<lparr>native_sessions := delete_where
      (\<lambda>n. n = (s_provider s, s_provider_session s) \<or> n \<in> set (s_owned s)) (native_sessions ?d),
    inbound_events := delete_where (\<lambda>x. x = ?i) (inbound_events ?d),
    accepted_prompts := delete_where (\<lambda>x. x = ?i) (accepted_prompts ?d),
    holds := delete_where (\<lambda>h. h_child h = ?i) (holds ?d)\<rparr>"
  have no: "\<not> has_children ?d ?i" and guard: "check_guard guard i (Some s) ?i ?d = Inr ()"
    and del: "delete_session clock ?i ?e = Inr d'"
    using assms(2,3)
    by (auto simp: delete_guarded_def delete_records_def archive_bridge_def transact_eq_Inr Let_def
        split: if_splits sum.splits)
  have e: "\<not> has_children ?e ?i" "forest ?e" "parent_of ?e = parent_of ?d" "revision_of ?e = revision_of ?d"
    using no assms(1) forest_frame [of ?e ?d] parent_of_frame [of ?e ?d] revision_of_frame [of ?e ?d]
    by (simp_all add: has_children_def archive_bridge_def)
  note tables = delete_session_tables [OF del e(1)] and rel = delete_session_relations [OF del e(1,2)]
  show ?thesis
    using no guard rel tables e(3,4)
    by (auto simp: check_guard_def delete_where_def comp_def archive_bridge_def linked_def
        split: deletion_guard.splits if_splits)
qed

lemma delete_guarded_outcome_witness:
  "find_record sample_db [2] = Inr (Some (sample_session [2])) \<and>
   \<not> session_exists (snd (delete_guarded (\<lambda>d. d) 0 0 [2] (Child (Some [1])) sample_db)) [2]"
proof -
  have f: "forest sample_db" and s: "find_record sample_db [2] = Inr (Some (sample_session [2]))"
    by (simp_all add: find_record_def claim_simps)
  obtain d' where d': "delete_guarded (\<lambda>d. d) 0 0 [2] (Child (Some [1])) sample_db = (Inr (), d')"
    by (simp add: delete_guarded_def find_record_def claim_simps transact_def check_guard_def Let_def
        delete_records_def delete_session_def archive_bridge_def)
  from delete_guarded_outcome [OF _ s d'] f s d' show ?thesis by (auto simp: sample_session_def session_exists_def)
qed

section \<open>Deletion holds freeze the relationship\<close>

lemma insert_link_held: "held d clock (l_child l) \<Longrightarrow> insert_link clock l d = Inl (TriggerAbort held_abort)"
  by (simp add: insert_link_def)

lemma link_other_child:
  assumes "link_in_transaction X clock parent child d = Inr d'" "held d clock c" "link_keys d"
  shows "parent_of d' c = parent_of d c"
proof (cases "d' = d")
  case False
  then obtain l where "insert_link clock l d = Inr d'" "l_child l = child"
    using assms(1) by (auto simp: link_in_transaction_def split: if_splits option.splits)
  moreover from this have "c \<noteq> child" using assms(2) insert_link_held by auto
  ultimately show ?thesis using insert_link_effect(1) [OF _ assms(3)] by auto
qed simp

lemma set_parent_other_child:
  assumes "set_parent clock child parent d = Inr d'" "held d clock c" "link_keys d"
  shows "parent_of d' c = parent_of d c"
proof (cases "\<exists>old. parent_of d child = Some old \<and> old \<noteq> parent")
  case True
  then obtain old where old: "parent_of d child = Some old" "old \<noteq> parent" by auto
  have "c \<noteq> child" using assms(1,2) old by (auto simp: set_parent_def split: if_splits)
  with set_parent_effect(1) [OF assms(1,3) old] show ?thesis by simp
qed (use assms(1) in \<open>auto simp: set_parent_def split: option.splits if_splits\<close>)

lemma hold_effect:
  assumes "hold_child_deletion now i parent d = (Inr fresh, d')"
  shows "parent_of d i = parent" "parent_of d' = parent_of d"
    "clock < (now + CHILD_DELETION_HOLD_SECONDS) * 1000 \<Longrightarrow> held d' clock i"
proof -
  have d': "d' = upsert_hold \<lparr>h_child = i, h_parent = parent,
        h_expires_at = now * 1000 + CHILD_DELETION_HOLD_SECONDS * 1000\<rparr> d" and p: "parent_of d i = parent"
    using assms by (auto simp: hold_child_deletion_def transact_eq_Inr Let_def split: if_splits)
  show "parent_of d i = parent" by (rule p)
  show "parent_of d' = parent_of d" by (rule parent_of_frame) (simp add: d' upsert_hold_def)
  show "clock < (now + CHILD_DELETION_HOLD_SECONDS) * 1000 \<Longrightarrow> held d' clock i"
  proof -
    assume c: "clock < (now + CHILD_DELETION_HOLD_SECONDS) * 1000"
    let ?h = "\<lparr>h_child = i, h_parent = parent, h_expires_at = now * 1000 + CHILD_DELETION_HOLD_SECONDS * 1000\<rparr>"
    have "?h \<in> set (holds d')"
      unfolding d' upsert_hold_def by (auto simp del: set_update_where simp: update_where_def image_iff)
    with c show "held d' clock i"
      unfolding held_def exists_where_iff by (intro bexI [of _ ?h]) (simp_all add: algebra_simps)
  qed
qed

section \<open>One report for each finished turn\<close>

lemma starts_with_append [simp]: "starts_with (lit p @ s) p"
  by simp

lemma update_last_turn_body:
  assumes "session_exists d i"
  obtains d2 where "links d2 = links d" "revisions d2 = revisions d" "reports d2 = reports d"
    "report_seq d2 = report_seq d" "map s_id (sessions d2) = map s_id (sessions d)"
    "messages d2 = messages d \<and> message_seq d2 = message_seq d \<and> batches d2 = batches d \<and> removals d2 = removals d
      \<and> sources d2 = sources d \<and> deliveries d2 = deliveries d"
    "update_last_turn X now i t d =
      (if linked d i \<and> find_report d i (turn_report_id t) = None
       then (case insert_report (turn_report X now i t) d2 of
               Inl f \<Rightarrow> (Inl (Database f), d) | Inr d3 \<Rightarrow> (Inr (), d3))
       else (Inr (), d2))"
proof -
  define lt where "lt = \<lparr>lt_id = pt_id t, lt_model = pt_model t, lt_effort = pt_effort t, lt_fast = pt_fast t,
                   lt_outcome = outcome_text (pt_outcome t)\<rparr>"
  define d1 where "d1 = d\<lparr>sessions := update_where (\<lambda>s. s_id s = i)
      (\<lambda>s. s\<lparr>s_last_turn := Some lt, s_updated_at := now,
             s_owner_activity := Some (max (case s_owner_activity s of None \<Rightarrow> 0 | Some a \<Rightarrow> a) now)\<rparr>) (sessions d)\<rparr>"
  define d2 where "d2 = (if exists_where (\<lambda>(s, x). s = i \<and> lt_id x = pt_id t) (owner_turns d1) then d1
                   else d1\<lparr>owner_turns := owner_turns d1 @ [(i, lt)]\<rparr>)"
  have frame: "links d2 = links d" "revisions d2 = revisions d" "reports d2 = reports d" "report_seq d2 = report_seq d"
    "map s_id (sessions d2) = map s_id (sessions d)"
    "messages d2 = messages d \<and> message_seq d2 = message_seq d \<and> batches d2 = batches d \<and> removals d2 = removals d
      \<and> sources d2 = sources d \<and> deliveries d2 = deliveries d"
    by (simp_all add: d2_def d1_def map_update_where_key)
  from frame have same: "linked d2 i = linked d i" "find_report d2 i (turn_report_id t) = find_report d i (turn_report_id t)"
    by (simp_all add: linked_def find_report_def)
  have "update_last_turn X now i t d =
      (if linked d2 i \<and> find_report d2 i (turn_report_id t) = None
       then (case insert_report (turn_report X now i t) d2 of
               Inl f \<Rightarrow> (Inl (Database f), d) | Inr d3 \<Rightarrow> (Inr (), d3))
       else (Inr (), d2))"
    using assms unfolding update_last_turn_def transact_def Let_def lt_def [symmetric] d1_def [symmetric]
      d2_def [symmetric] by (simp split: sum.split)
  with that frame same show thesis by auto
qed

lemma update_last_turn_cases:
  assumes "update_last_turn X now i t d = (Inr (), d')"
  shows "session_exists d i" "session_exists d' i" "links d' = links d" "revisions d' = revisions d"
    "reports d' = (if linked d i \<and> find_report d i (turn_report_id t) = None
                   then reports d @ [turn_report X now i t (report_seq d + 1)] else reports d)"
    "messages d' = messages d \<and> message_seq d' = message_seq d \<and> batches d' = batches d \<and> removals d' = removals d
      \<and> sources d' = sources d \<and> deliveries d' = deliveries d"
proof -
  show s: "session_exists d i"
    using assms by (auto simp: update_last_turn_def transact_def split: if_splits)
  from s obtain d2 where frame: "links d2 = links d" "revisions d2 = revisions d" "reports d2 = reports d"
      "report_seq d2 = report_seq d" "map s_id (sessions d2) = map s_id (sessions d)"
      "messages d2 = messages d \<and> message_seq d2 = message_seq d \<and> batches d2 = batches d \<and> removals d2 = removals d
      \<and> sources d2 = sources d \<and> deliveries d2 = deliveries d"
    and body: "update_last_turn X now i t d =
      (if linked d i \<and> find_report d i (turn_report_id t) = None
       then (case insert_report (turn_report X now i t) d2 of
               Inl f \<Rightarrow> (Inl (Database f), d) | Inr d3 \<Rightarrow> (Inr (), d3))
       else (Inr (), d2))"
    by (rule update_last_turn_body)
  have eq: "sessions d' = sessions d2"
    using body assms by (auto simp: insert_report_def Let_def split: if_splits sum.splits)
  have "s_id ` set (sessions d') = s_id ` set (sessions d)"
    using frame(5) unfolding eq by (metis list.set_map)
  then show "session_exists d' i"
    using s by (auto simp: session_exists_def image_iff) (metis imageE imageI)
  show "links d' = links d" "revisions d' = revisions d"
    "reports d' = (if linked d i \<and> find_report d i (turn_report_id t) = None
                   then reports d @ [turn_report X now i t (report_seq d + 1)] else reports d)"
    "messages d' = messages d \<and> message_seq d' = message_seq d \<and> batches d' = batches d \<and> removals d' = removals d
      \<and> sources d' = sources d \<and> deliveries d' = deliveries d"
    using body assms frame by (auto simp: insert_report_def Let_def split: if_splits sum.splits)
qed

lemma update_last_turn_total:
  assumes "session_exists d i"
  shows "\<exists>d'. update_last_turn X now i t d = (Inr (), d')"
  using assms
proof (rule update_last_turn_body [of d i X now t])
  fix d2
  assume frame: "links d2 = links d" "reports d2 = reports d" and
    eq: "update_last_turn X now i t d =
      (if linked d i \<and> find_report d i (turn_report_id t) = None
       then (case insert_report (turn_report X now i t) d2 of
               Inl f \<Rightarrow> (Inl (Database f), d) | Inr d3 \<Rightarrow> (Inr (), d3))
       else (Inr (), d2))"
  have "question_unrecorded d2 i (turn_report_id t)" if "linked d i \<and> find_report d i (turn_report_id t) = None"
    using that frame by (simp add: question_unrecorded_def linked_def find_report_def)
  then obtain d3 where "insert_report (turn_report X now i t) d2 = Inr d3"
    if "linked d i \<and> find_report d i (turn_report_id t) = None"
    using insert_unrecorded [of d2 i "turn_report_id t"] unfolding turn_report_def by metis
  then show ?thesis unfolding eq by auto
qed

text \<open>C38: The terminal event of a linked child's turn and its report are one commit, and the turn has
  one report however often it is reported: after the first success the report is there, and
  reporting the turn again, in any database that still has it, changes no report.\<close>

theorem turn_reported_once:
  assumes "update_last_turn X now i t d = (Inr (), d')" "linked d i"
    and "update_last_turn X now' i t e = (Inr (), e')" "prefix (reports d') (reports e)"
  shows "(\<exists>r. find_report d' i (turn_report_id t) = Some r) \<and> prefix (reports d) (reports d') \<and>
    length (reports d') \<le> length (reports d) + 1 \<and> reports e' = reports e"
proof -
  have r: "\<exists>r. find_report d' i (turn_report_id t) = Some r"
    using update_last_turn_cases(5) [OF assms(1)] assms(2)
    by (auto simp: find_report_def turn_report_def new_report_def split: if_splits option.splits)
  then have "\<exists>r. find_report e i (turn_report_id t) = Some r"
    using assms(4) by (auto simp: find_report_def intro: find_prefix)
  with r show ?thesis
    using update_last_turn_cases(5) [OF assms(1)] update_last_turn_cases(5) [OF assms(3)] by auto
qed

lemma turn_reported_once_witness:
  "length (reports (snd (update_last_turn sample_ext 5 [2]
     \<lparr>pt_completion = None, pt_id = [8], pt_model = None, pt_effort = None, pt_fast = False, pt_outcome = Completed\<rparr> sample_db))) = 1"
proof -
  let ?t = "\<lparr>pt_completion = None, pt_id = [8], pt_model = None, pt_effort = None, pt_fast = False, pt_outcome = Completed\<rparr>"
  have l: "linked sample_db [2]" by (simp add: claim_simps)
  have u: "\<exists>d'. update_last_turn sample_ext 5 [2] ?t sample_db = (Inr (), d')"
    by (rule update_last_turn_total) (simp add: claim_simps)
  then obtain d' where d': "update_last_turn sample_ext 5 [2] ?t sample_db = (Inr (), d')" by auto
  obtain e' where e': "update_last_turn sample_ext 6 [2] ?t d' = (Inr (), e')"
    using update_last_turn_total [OF update_last_turn_cases(2) [OF d']] by metis
  from turn_reported_once [OF d' l e'] d' show ?thesis
    by (cases "reports d'") (auto simp: sample_simps find_report_def)
qed

end
