(* ===== verification/Images.thy ===== *)
theory Images
  imports Protocol
begin

text \<open>
  The image bounds of \<open>src/src/image_handoff.rs\<close>.  The decoder crate is the fields
  \<open>guess_format\<close>, \<open>header_dimensions\<close>, \<open>mime_type\<close> and \<open>decode_image\<close> of \<open>ext\<close>; the
  limits handed to it are part of what it is asked and are not repeated here.
\<close>

definition MAX_IMAGE_BYTES :: nat where "MAX_IMAGE_BYTES = 5 * 1024 * 1024"
definition MAX_IMAGE_PIXELS :: nat where "MAX_IMAGE_PIXELS = 40000000"
definition MAX_IMAGE_DIMENSION :: nat where "MAX_IMAGE_DIMENSION = 16384"

text \<open>\<open>reader\<close> answers the format it guessed.\<close>

definition image_reader :: "ext \<Rightarrow> bytes \<Rightarrow> ustring + image_format" where
  "image_reader X data =
     (if data = [] \<or> length data > MAX_IMAGE_BYTES then Inl (lit ''image must contain 1 byte to 5 MiB'')
      else rbind (guess_format X data) (\<lambda>fmt.
        case fmt of
          Some Png \<Rightarrow> Inr Png | Some Jpeg \<Rightarrow> Inr Jpeg | Some Gif \<Rightarrow> Inr Gif | Some WebP \<Rightarrow> Inr WebP
        | _ \<Rightarrow> Inl (lit ''supported images are PNG, JPEG, GIF and WebP'')))"

definition dimensions :: "ext \<Rightarrow> bytes \<Rightarrow> ustring + nat \<times> nat" where
  "dimensions X data =
     rbind (image_reader X data) (\<lambda>_.
     rbind (header_dimensions X data) (\<lambda>(width, height).
       if width = 0 \<or> height = 0 \<or> width > MAX_IMAGE_DIMENSION \<or> height > MAX_IMAGE_DIMENSION
          \<or> width * height > MAX_IMAGE_PIXELS
       then Inl (lit ''image exceeds 16384 pixels per side or 40 megapixels'')
       else Inr (width, height)))"

definition validate_image :: "ext \<Rightarrow> bytes \<Rightarrow> ustring \<Rightarrow> ustring + nat \<times> nat" where
  "validate_image X data media =
     rbind (dimensions X data) (\<lambda>dims.
     rbind (image_reader X data) (\<lambda>fmt.
       if mime_type X fmt \<noteq> media then Inl (lit ''image media type does not match its encoded format'')
       else case decode_image X data of
         Inl e \<Rightarrow> Inl (lit ''invalid image: '' @ e)
       | Inr _ \<Rightarrow> Inr dims))"

lemma image_reader_bounds:
  "image_reader X data = Inr fmt \<Longrightarrow> data \<noteq> [] \<and> length data \<le> MAX_IMAGE_BYTES"
  by (auto simp: image_reader_def not_less split: if_splits)

lemma validate_image_bounds:
  assumes "validate_image X data media = Inr (w, h)"
  shows "data \<noteq> []" "length data \<le> MAX_IMAGE_BYTES"
    "0 < w" "0 < h" "w \<le> MAX_IMAGE_DIMENSION" "h \<le> MAX_IMAGE_DIMENSION" "w * h \<le> MAX_IMAGE_PIXELS"
proof -
  from assms obtain fmt where "image_reader X data = Inr fmt" and d: "dimensions X data = Inr (w, h)"
    by (auto simp: validate_image_def split: if_splits sum.splits)
  then show "data \<noteq> []" "length data \<le> MAX_IMAGE_BYTES"
    using image_reader_bounds by auto
  show "0 < w" "0 < h" "w \<le> MAX_IMAGE_DIMENSION" "h \<le> MAX_IMAGE_DIMENSION" "w * h \<le> MAX_IMAGE_PIXELS"
    using d by (auto simp: dimensions_def split: if_splits)
qed

end
