(* ===== verification/Followup_Admission.thy ===== *)
theory Followup_Admission
  imports Session_Store Images
begin

text \<open>
  Validation, admission, removal and pausing of follow-ups: the free functions of
  \<open>src/src/followups.rs\<close>, \<open>src/src/followups/admission.rs\<close> and
  \<open>src/src/followups/removal.rs\<close>.  Everything here runs inside the IMMEDIATE transaction of its
  caller.
\<close>

definition MAX_TEXT_BYTES :: nat where "MAX_TEXT_BYTES = 64 * 1024"
definition MAX_PENDING_BYTES :: nat where "MAX_PENDING_BYTES = 64 * 1024 * 1024"

record inbox_request =
  ir_command :: command
  ir_key :: ustring
  ir_sender :: ustring
  ir_replay_only :: bool
  ir_now_ms :: int

definition failure :: "ext \<Rightarrow> sql_fault \<Rightarrow> service_error" where
  "failure X e = \<lparr>code = Internal, message = lit ''follow-up persistence: '' @ sqlite_text X e, retryable = True\<rparr>"

definition valid_id :: "ustring \<Rightarrow> bool" where
  "valid_id v \<longleftrightarrow> v \<noteq> [] \<and> byte_len v \<le> 200 \<and> trim v = v"

definition authorize :: "db \<Rightarrow> ustring \<Rightarrow> bool \<Rightarrow> service_error + unit" where
  "authorize d s require_open =
     (if \<not> valid_id s then Inl (refuse (lit ''invalid follow-up session identity''))
      else if \<not> session_exists d s then
        Inl \<lparr>code = NotFound, message = lit ''follow-up session not found'', retryable = False\<rparr>
      else if require_open \<and> closed d s then
        Inl (refuse (lit ''closed sessions cannot accept or dispatch follow-ups''))
      else Inr ())"

section \<open>Validation\<close>

text \<open>The loop over the attachments; \<open>bytes\<close> is the running size.\<close>

fun attachment_bytes :: "ext \<Rightarrow> prompt_attachment list \<Rightarrow> nat \<Rightarrow> service_error + nat" where
  "attachment_bytes X [] bytes = Inr bytes"
| "attachment_bytes X (InlineImage label media data # rest) bytes =
     (if byte_len label > 512 then Inl (refuse (lit ''attachment label exceeds 512 bytes''))
      else case validate_image X data media of
        Inl e \<Rightarrow> Inl (refuse e)
      | Inr _ \<Rightarrow> attachment_bytes X rest (bytes + length data))"
| "attachment_bytes X (Artifact _ _ # rest) bytes =
     Inl (refuse (lit ''follow-up artifact must be materialized before admission''))"
| "attachment_bytes X (LocalFile label path # rest) bytes =
     (if byte_len label > 512 \<or> byte_len path > 4096
      then Inl (refuse (lit ''follow-up file metadata exceeds bounds''))
      else attachment_bytes X rest (bytes + byte_len label + byte_len path))"

definition validate_prompt :: "ext \<Rightarrow> prompt_input \<Rightarrow> service_error + nat" where
  "validate_prompt X p =
     (if byte_len (p_text p) > MAX_TEXT_BYTES \<or> (trim (p_text p) = [] \<and> p_attachments p = []) then
        Inl (refuse (lit ''follow-up requires content and at most 64 KiB of text; nothing was enqueued''))
      else if byte_len (json_string X (p_text p)) > 96 * 1024 then
        Inl (refuse (lit ''escaped follow-up text exceeds 96 KiB''))
      else if length (p_attachments p) > 8 then
        Inl (refuse (lit ''follow-up supports at most eight attachments''))
      else rbind (attachment_bytes X (p_attachments p) (byte_len (p_text p))) (\<lambda>bytes.
        if bytes > 20 * 1024 * 1024 + MAX_TEXT_BYTES then
          Inl (refuse (lit ''follow-up attachments exceed 20 MiB''))
        else Inr bytes))"

definition validate_request_identities :: "ustring \<Rightarrow> ustring \<Rightarrow> service_error + unit" where
  "validate_request_identities key sender =
     (if valid_id key \<and> valid_id sender then Inr ()
      else Inl (refuse (lit ''follow-up command/client identity must be 1'' @ [8211] @ lit ''200 bytes'')))"

definition validate_message_identity :: "ustring \<Rightarrow> service_error + unit" where
  "validate_message_identity mid =
     (if starts_with mid ''nakode-child-event:'' then
        Inl (refuse (lit ''child event identities are reserved for the runtime''))
      else if \<not> valid_id mid then Inl (refuse (lit ''invalid follow-up message identity''))
      else Inr ())"

definition validate_page :: "nat \<Rightarrow> nat \<Rightarrow> ustring \<Rightarrow> service_error + unit" where
  "validate_page after limit view =
     (if \<not> (1 \<le> limit \<and> limit \<le> 64) \<or> after \<ge> 2 ^ 63 then
        Inl (refuse (lit ''follow-up page limit must be 1'' @ [8211] @ lit ''64; cursor must be nonnegative i64''))
      else if \<not> List.member (map lit ['''', ''all'', ''active'', ''consumed'']) view then
        Inl (refuse (lit ''follow-up view must be all, active or consumed''))
      else Inr ())"

section \<open>Admission\<close>

definition find_message :: "db \<Rightarrow> ustring \<Rightarrow> ustring \<Rightarrow> message_row option" where
  "find_message d s mid = List.find (\<lambda>m. m_session m = s \<and> m_message_id m = mid) (messages d)"

definition message_exists :: "db \<Rightarrow> ustring \<Rightarrow> ustring \<Rightarrow> bytes \<Rightarrow> service_error + bool" where
  "message_exists d s mid dig =
     (case find_message d s mid of
        None \<Rightarrow> Inr False
      | Some m \<Rightarrow>
          if m_digest m = dig then Inr True
          else Inl (refuse (lit ''follow-up message identity reused for different content'')))"

text \<open>The messages that count against an inbox's capacity.\<close>

definition occupying :: "db \<Rightarrow> ustring \<Rightarrow> message_row \<Rightarrow> bool" where
  "occupying d s m \<longleftrightarrow> m_session m = s \<and> \<not> removed d m \<and> undelivered d m"

definition inbox_count :: "db \<Rightarrow> ustring \<Rightarrow> nat" where
  "inbox_count d s = count_where (occupying d s) (messages d)"

definition inbox_bytes :: "db \<Rightarrow> ustring \<Rightarrow> nat" where
  "inbox_bytes d s = sum_list (map m_bytes (filter (occupying d s) (messages d)))"

definition new_message :: "ustring \<Rightarrow> ustring \<Rightarrow> prompt_input \<Rightarrow> inbox_request \<Rightarrow> bytes \<Rightarrow> nat \<Rightarrow> nat \<Rightarrow> message_row" where
  "new_message s mid p req dig bytes q =
     \<lparr>m_sequence = q, m_session = s, m_message_id = mid, m_submitted_by = ir_sender req,
      m_received_at = ir_now_ms req, m_prompt = Some p, m_display = p_text p,
      m_labels = map att_label (p_attachments p), m_digest = dig, m_bytes = bytes, m_batch = None\<rparr>"

definition admit_message ::
  "ext \<Rightarrow> ustring \<Rightarrow> ustring \<Rightarrow> prompt_input \<Rightarrow> inbox_request \<Rightarrow> bytes \<Rightarrow> db \<Rightarrow> service_error + db" where
  "admit_message X s mid p req dig d =
     rbind (validate_prompt X p) (\<lambda>bytes.
       if inbox_count d s \<ge> 256 \<or> inbox_bytes d s + bytes > MAX_PENDING_BYTES then
         Inl (refuse (lit ''follow-up inbox is full (256 items / 64 MiB); nothing was enqueued''))
       else sql (failure X) (insert_message (new_message s mid p req dig bytes) d))"

section \<open>Removal and pausing\<close>

definition empty_message :: "message_row \<Rightarrow> message_row" where
  "empty_message m = m\<lparr>m_prompt := None, m_display := [], m_labels := [], m_bytes := 0\<rparr>"

definition remove_pending :: "ustring \<Rightarrow> ustring \<Rightarrow> db \<Rightarrow> service_error + db" where
  "remove_pending s mid d =
     rbind (authorize d s False) (\<lambda>_.
       if \<not> valid_id mid then Inl (refuse (lit ''invalid follow-up message identity''))
       else case find_message d s mid of
         None \<Rightarrow> Inl \<lparr>code = NotFound, message = lit ''follow-up message not found in this session'', retryable = False\<rparr>
       | Some m \<Rightarrow>
           (case batch_of d m of
              Some b \<Rightarrow> Inl (refuse (lit ''Update is already '' @ batch_state_text (bt_state b) @ lit ''; it cannot be removed or recalled.''))
            | None \<Rightarrow>
                Inr (d\<lparr>removals := (if removed d m then removals d else removals d @ [m_sequence m]),
                       messages := update_where (\<lambda>x. m_sequence x = m_sequence m) empty_message (messages d)\<rparr>)))"

definition set_followup_paused :: "ustring \<Rightarrow> bool \<Rightarrow> db \<Rightarrow> service_error + db" where
  "set_followup_paused s p d =
     rbind (authorize d s True) (\<lambda>_.
       let d1 = upsert_inbox s p d in
       Inr (if p then d1
            else d1\<lparr>batches := update_where (\<lambda>b. bt_session b = s \<and> bt_state b = Claimed)
                               (bt_blocked_update (\<lambda>_. None)) (batches d1)\<rparr>))"

end
