(* ===== verification/Coordination.thy ===== *)
theory Coordination
  imports Followup_Admission
begin

text \<open>
  Runtime-owned provenance (\<open>src/src/followups/coordination.rs\<close>): which relayed messages may
  instruct, and the adoption of an instructed agent by the owner's Chat.
\<close>

definition relay_source :: "db \<Rightarrow> ustring \<Rightarrow> ustring \<Rightarrow> ustring \<Rightarrow> bool \<Rightarrow> service_error + source" where
  "relay_source d src target call owner_chat =
     rbind (authorize d src True) (\<lambda>_.
       case (find_session d src, find_session d target) of
         (Some s, Some t) \<Rightarrow>
           if s_id s = s_id t \<or> \<not> same_owner d s t then
             Inl (refuse (lit ''relay sessions must share current runtime ownership''))
           else
             let downward = exists_where (\<lambda>l. l_parent l = src \<and> l_child l = target) (links d) in
             Inr \<lparr>src_kind = (if downward \<or> owner_chat then lit ''delegated_instruction'' else lit ''peer_context''),
                  src_session = src, src_title = take 120 (s_title s), src_call = Some call,
                  src_status = None, src_owner_chat = owner_chat\<rparr>
       | _ \<Rightarrow> Inl (refuse (lit ''relay sessions must share current runtime ownership'')))"

definition adopt :: "ext \<Rightarrow> int \<Rightarrow> ustring \<Rightarrow> ustring \<Rightarrow> db \<Rightarrow> service_error + db" where
  "adopt X clock chat agent d =
     (let current = parent_of d agent in
      if current = Some chat then Inr d
      else if (linked d chat \<or> has_children d agent) \<or> child_count d chat \<ge> 32 \<or> held d clock agent then Inr d
      else if current \<noteq> None then sql (failure X) (set_parent clock agent chat d)
      else case find_session d agent of
        None \<Rightarrow> Inr d
      | Some s \<Rightarrow> sql (failure X) (insert_link clock \<lparr>l_child = agent, l_parent = chat, l_title = s_title s\<rparr> d))"

definition authenticate_source :: "db \<Rightarrow> command \<Rightarrow> service_error + unit \<Rightarrow> service_error + source option" where
  "authenticate_source d cmd auth =
     (case cmd of
        RelayAgentFollowup target _ src call _ owner_chat \<Rightarrow>
          rbind auth (\<lambda>_. rbind (relay_source d src target call owner_chat) (\<lambda>s. Inr (Some s)))
      | _ \<Rightarrow> Inr None)"

definition save_source :: "ext \<Rightarrow> ustring \<Rightarrow> ustring \<Rightarrow> source \<Rightarrow> db \<Rightarrow> service_error + db" where
  "save_source X s mid src d =
     (case find_message d s mid of
        None \<Rightarrow> Inr d
      | Some m \<Rightarrow> sql (failure X) (insert_source (m_sequence m) src d))"

section \<open>Adoption keeps the forest\<close>

lemma adopt_step: "adopt X clock chat agent d = Inr d' \<Longrightarrow> relation_step d d'"
  by (auto simp: adopt_def Let_def not_le intro: set_parent_step insert_link_step
      split: if_splits option.splits)

text \<open>Every branch of \<open>adopt\<close> that changes nothing answers success: adoption never costs the message.\<close>

lemma adopt_total:
  assumes "session_exists d chat" "session_exists d agent" "chat \<noteq> agent"
  shows "\<exists>d'. adopt X clock chat agent d = Inr d'"
  using assms
  by (auto simp: adopt_def Let_def set_parent_def insert_link_def linked_iff
      find_session_def session_exists_def dest: find_Some_set split: option.splits)

lemma adopt_effect:
  assumes "adopt X clock chat agent d = Inr d'" "forest d" "session_exists d agent"
  shows "parent_of d' = (if parent_of d agent \<noteq> Some chat \<and> \<not> linked d chat \<and> \<not> has_children d agent
             \<and> child_count d chat < 32 \<and> \<not> held d clock agent
           then (parent_of d)(agent \<mapsto> chat) else parent_of d)"
proof (cases "parent_of d agent \<noteq> Some chat \<and> \<not> linked d chat \<and> \<not> has_children d agent
             \<and> child_count d chat < 32 \<and> \<not> held d clock agent")
  case False
  then have "d' = d" using assms(1) by (auto simp: adopt_def Let_def not_less split: if_splits)
  with False show ?thesis by auto
next
  case True
  have k: "link_keys d" using assms(2) by (simp add: forest_def)
  show ?thesis
  proof (cases "parent_of d agent")
    case None
    obtain s where s: "find_session d agent = Some s"
      using assms(3) by (cases "find_session d agent") (auto simp: find_session_def session_exists_def find_None_set)
    have "insert_link clock \<lparr>l_child = agent, l_parent = chat, l_title = s_title s\<rparr> d = Inr d'"
      using True None assms(1) by (simp add: adopt_def s)
    from insert_link_effect(1) [OF this k] True show ?thesis by simp
  next
    case (Some old)
    with True assms(1) have "set_parent clock agent chat d = Inr d'" "old \<noteq> chat"
      by (auto simp: adopt_def Let_def)
    with set_parent_effect(1) [OF _ k Some] True show ?thesis by simp
  qed
qed

lemma relay_source_authority:
  assumes "relay_source d src target call owner_chat = Inr s"
  shows "src_session s = src" "src_call s = Some call" "src_owner_chat s = owner_chat" "src \<noteq> target"
    "src_kind s = lit ''delegated_instruction'' \<longleftrightarrow> owner_chat \<or> (\<exists>l \<in> set (links d). l_parent l = src \<and> l_child l = target)"
    "src_kind s = lit ''delegated_instruction'' \<or> src_kind s = lit ''peer_context''"
  using assms
  by (auto simp: relay_source_def Let_def find_session_def dest: find_Some_set split: if_splits option.splits)

end
