(* ===== verification/Child_Events.thy ===== *)
theory Child_Events
  imports Coordination
begin

text \<open>
  Admission of durable child evidence (\<open>src/src/followups/child_events.rs\<close>): a parent's inbox
  receives each report of its children at most once, as inert evidence.
\<close>

record child_event =
  ev_sequence :: nat
  ev_parent :: ustring
  ev_child :: ustring
  ev_report :: ustring
  ev_state :: ustring
  ev_body :: ustring
  ev_created :: int
  ev_title :: ustring

definition evidence_json :: "ustring \<Rightarrow> ustring \<Rightarrow> ustring \<Rightarrow> ustring \<Rightarrow> json \<Rightarrow> (ustring \<times> json) list" where
  "evidence_json parent child report st body =
     [(lit ''parent_session_id'', JStr parent), (lit ''child_session_id'', JStr child),
      (lit ''report_id'', JStr report), (lit ''state'', JStr st), (lit ''body'', body)]"

definition evidence_prompt :: "ext \<Rightarrow> ustring \<Rightarrow> ustring \<Rightarrow> ustring \<Rightarrow> ustring \<Rightarrow> ustring \<Rightarrow> prompt_input" where
  "evidence_prompt X parent child report st body =
     (let text0 = json_text X (JObj (evidence_json parent child report st (JStr body)));
          text1 = (if byte_len text0 > MAX_TEXT_BYTES
                   then json_text X (JObj (evidence_json parent child report st JNull
                          @ [(lit ''body_retained_in_report_history'', JBool True)]))
                   else text0) in
      \<lparr>p_text = text1, p_attachments = []\<rparr>)"

definition evidence_source :: "ustring \<Rightarrow> ustring \<Rightarrow> ustring \<Rightarrow> source" where
  "evidence_source child title st =
     \<lparr>src_kind = lit ''durable_child_evidence'', src_session = child, src_title = take 120 title,
      src_call = None, src_status = Some st, src_owner_chat = False\<rparr>"

definition evidence_display :: "ext \<Rightarrow> ustring \<Rightarrow> ustring \<Rightarrow> ustring" where
  "evidence_display X report body = (if starts_with report ''turn:'' then completion_display X body else body)"

definition evidence_states :: "ustring list" where
  "evidence_states = map lit [''completed'', ''failed'', ''blocker'', ''question'']"

definition external_report ::
  "ext \<Rightarrow> ustring \<Rightarrow> ustring \<Rightarrow> ustring \<Rightarrow> ustring \<Rightarrow> ustring \<Rightarrow> ustring
     \<Rightarrow> service_error + prompt_input \<times> source \<times> ustring" where
  "external_report X parent child title report st body =
     (if \<not> valid_id child \<or> \<not> valid_id report \<or> child = parent then
        Inl (refuse (lit ''external child report requires stable child and report identities''))
      else if \<not> List.member evidence_states st then
        Inl (refuse (lit ''external child report state must be completed, failed, blocker or question''))
      else if byte_len body > 16 * 1024 then
        Inl (refuse (lit ''external child report exceeds the 16384-byte report limit''))
      else Inr (evidence_prompt X parent child report st body, evidence_source child title st,
                evidence_display X report body))"

definition set_display :: "ustring \<Rightarrow> ustring \<Rightarrow> ustring \<Rightarrow> db \<Rightarrow> db" where
  "set_display s mid txt d = d\<lparr>messages := update_where
     (\<lambda>m. m_session m = s \<and> m_message_id m = mid) (m_display_update (\<lambda>_. txt)) (messages d)\<rparr>"

section \<open>One page of events\<close>

definition event_of :: "report_row \<Rightarrow> link_row \<Rightarrow> child_event" where
  "event_of r l = \<lparr>ev_sequence = r_sequence r, ev_parent = l_parent l, ev_child = r_child r,
     ev_report = r_report_id r, ev_state = r_state r, ev_body = r_body r, ev_created = r_created_at r,
     ev_title = l_title l\<rparr>"

definition event_ready :: "db \<Rightarrow> report_row \<Rightarrow> link_row \<Rightarrow> bool" where
  "event_ready d r l =
     (case (find_session d (l_parent l), find_session d (l_child l)) of
        (Some p, Some c) \<Rightarrow>
          List.member evidence_states (r_state r)
          \<and> \<not> exists_where (\<lambda>(rq, _). rq = r_sequence r) (deliveries d)
          \<and> inbox_count d (s_id p) < 256
          \<and> inbox_bytes d (s_id p) \<le> MAX_PENDING_BYTES - MAX_TEXT_BYTES
          \<and> \<not> closed d (s_id p)
          \<and> same_owner d c p
      | _ \<Rightarrow> False)"

definition pending_events :: "db \<Rightarrow> child_event list" where
  "pending_events d =
     take 64 (map (\<lambda>(r, l). event_of r l) (filter (\<lambda>(r, l). event_ready d r l) (joined_reports d)))"

definition event_message_id :: "child_event \<Rightarrow> ustring" where
  "event_message_id e = lit ''nakode-child-event:'' @ show_nat (ev_sequence e)"

definition event_prompt :: "ext \<Rightarrow> child_event \<Rightarrow> prompt_input" where
  "event_prompt X e = evidence_prompt X (ev_parent e) (ev_child e) (ev_report e) (ev_state e) (ev_body e)"

definition event_request :: "ext \<Rightarrow> child_event \<Rightarrow> inbox_request" where
  "event_request X e =
     \<lparr>ir_command = EnqueueFollowup (ev_parent e) (event_message_id e) (event_prompt X e),
      ir_key = event_message_id e, ir_sender = lit ''nakode:durable-child'', ir_replay_only = False,
      ir_now_ms = ev_created e\<rparr>"

text \<open>\<open>INSERT INTO child_followup_deliveries ... SELECT\<close>.\<close>

definition save_delivery :: "ext \<Rightarrow> child_event \<Rightarrow> db \<Rightarrow> service_error + db" where
  "save_delivery X e d =
     (case find_message d (ev_parent e) (event_message_id e) of
        None \<Rightarrow> Inr d
      | Some m \<Rightarrow> sql (failure X) (insert_delivery (ev_sequence e) (m_sequence m) d))"

text \<open>One turn of the loop; \<open>admitted\<close> is its flag.  A conflict (a full inbox) skips the event.\<close>

definition admit_event :: "ext \<Rightarrow> child_event \<Rightarrow> bool \<times> db \<Rightarrow> service_error + bool \<times> db" where
  "admit_event X e st =
     (case st of (admitted, d) \<Rightarrow>
       (case admit_message X (ev_parent e) (event_message_id e) (event_prompt X e) (event_request X e)
               (sha256 X (utf8 (p_text (event_prompt X e)))) d of
          Inl err \<Rightarrow> if code err = Conflict then Inr (admitted, d) else Inl err
        | Inr d1 \<Rightarrow>
            rbind (save_source X (ev_parent e) (event_message_id e)
                     (evidence_source (ev_child e) (ev_title e) (ev_state e)) d1) (\<lambda>d2.
            rbind (save_delivery X e (set_display (ev_parent e) (event_message_id e)
                     (evidence_display X (ev_report e) (ev_body e)) d2)) (\<lambda>d3.
            Inr (True, d3)))))"

fun admit_events :: "ext \<Rightarrow> child_event list \<Rightarrow> bool \<times> db \<Rightarrow> service_error + bool \<times> db" where
  "admit_events X [] st = Inr st"
| "admit_events X (e # es) st = rbind (admit_event X e st) (admit_events X es)"

definition admit_child_events :: "ext \<Rightarrow> db \<Rightarrow> (service_error + bool) \<times> db" where
  "admit_child_events X = transact (\<lambda>d. admit_events X (pending_events d) (False, d))"

section \<open>Revalidation before a claim\<close>

definition evidence_unowned :: "db \<Rightarrow> ustring \<Rightarrow> message_row \<Rightarrow> bool" where
  "evidence_unowned d parent m =
     (case source_of d m of
        None \<Rightarrow> True
      | Some s \<Rightarrow>
          src_kind s \<noteq> lit ''durable_child_evidence'' \<or> src_session s = []
          \<or> (case find_session d (src_session s) of
               None \<Rightarrow> False
             | Some c \<Rightarrow>
                 \<not> exists_where (\<lambda>l. l_child l = s_id c \<and> l_parent l = parent) (links d)
                 \<or> (case find_session d parent of None \<Rightarrow> profile_of d (s_id c) \<noteq> None | Some p \<Rightarrow> \<not> same_owner d c p)))"

definition authorized_child_messages :: "db \<Rightarrow> ustring \<Rightarrow> bool" where
  "authorized_child_messages d parent \<longleftrightarrow>
     \<not> exists_where (\<lambda>m.
        m_session m = parent \<and> exists_where (\<lambda>(_, q). q = m_sequence m) (deliveries d)
        \<and> \<not> removed d m
        \<and> (case m_batch m of None \<Rightarrow> True
             | Some k \<Rightarrow> exists_where (\<lambda>b. bt_id b = k \<and> bt_state b \<noteq> Consumed) (batches d))
        \<and> evidence_unowned d parent m) (messages d)"

end
