(* ===== verification/Followup_Inbox.thy ===== *)
theory Followup_Inbox
  imports Followup_Batches
begin

text \<open>
  The inbox store of \<open>src/src/followups.rs\<close>: the receipted command executor
  (\<open>execute_authenticated\<close>) and the list view.  \<open>materialize\<close> and \<open>authenticate\<close> are the
  closures its caller passes in; the request's digest is of the original command.
\<close>

section \<open>Commands\<close>

definition admit_followup ::
  "ext \<Rightarrow> int \<Rightarrow> inbox_request \<Rightarrow> bytes \<Rightarrow> (prompt_input \<Rightarrow> service_error + prompt_input) \<Rightarrow> service_error + unit
     \<Rightarrow> ustring \<Rightarrow> ustring \<Rightarrow> prompt_input \<Rightarrow> db \<Rightarrow> service_error + db" where
  "admit_followup X clock req dig materialize auth session mid p d =
     rbind (validate_message_identity mid) (\<lambda>_.
     rbind (authorize d session True) (\<lambda>_.
     rbind (message_exists d session mid dig) (\<lambda>known.
       if known then Inr d
       else
         rbind (authenticate_source d (ir_command req) auth) (\<lambda>src.
         rbind (materialize p) (\<lambda>p'.
         rbind (admit_message X session mid p' req dig d) (\<lambda>d1.
           case src of
             None \<Rightarrow> Inr d1
           | Some s \<Rightarrow>
               rbind (save_source X session mid s d1) (\<lambda>d2.
                 if src_owner_chat s then adopt X clock (src_session s) session d2 else Inr d2)))))))"

definition admit_external_report ::
  "ext \<Rightarrow> inbox_request \<Rightarrow> bytes \<Rightarrow> ustring \<Rightarrow> ustring \<Rightarrow> ustring \<Rightarrow> ustring \<Rightarrow> ustring \<Rightarrow> ustring \<Rightarrow> ustring
     \<Rightarrow> db \<Rightarrow> service_error + db" where
  "admit_external_report X req dig session mid child title report st body d =
     rbind (validate_message_identity mid) (\<lambda>_.
     rbind (authorize d session True) (\<lambda>_.
     rbind (external_report X session child title report st body) (\<lambda>(p, src, display).
     rbind (message_exists d session mid dig) (\<lambda>known.
       if known then Inr d
       else
         rbind (admit_message X session mid p req dig d) (\<lambda>d1.
         rbind (save_source X session mid src d1) (\<lambda>d2.
         Inr (set_display session mid display d2)))))))"

definition run_inbox_command ::
  "ext \<Rightarrow> int \<Rightarrow> inbox_request \<Rightarrow> bytes \<Rightarrow> (prompt_input \<Rightarrow> service_error + prompt_input) \<Rightarrow> service_error + unit
     \<Rightarrow> db \<Rightarrow> service_error + (ustring \<times> ustring option) \<times> db" where
  "run_inbox_command X clock req dig materialize auth d =
     (case ir_command req of
        EnqueueFollowup session mid p \<Rightarrow>
          rbind (admit_followup X clock req dig materialize auth session mid p d) (\<lambda>d'. Inr ((session, Some mid), d'))
      | RelayAgentFollowup session mid _ _ p _ \<Rightarrow>
          rbind (admit_followup X clock req dig materialize auth session mid p d) (\<lambda>d'. Inr ((session, Some mid), d'))
      | AdmitExternalChildReport session mid child title report st body \<Rightarrow>
          rbind (admit_external_report X req dig session mid child title report st body d)
            (\<lambda>d'. Inr ((session, Some mid), d'))
      | RemoveFollowup session mid \<Rightarrow>
          rbind (remove_pending session mid d) (\<lambda>d'. Inr ((session, Some mid), d'))
      | SetFollowupPaused session p \<Rightarrow>
          rbind (set_followup_paused session p d) (\<lambda>d'. Inr ((session, None), d'))
      | _ \<Rightarrow> Inl (refuse (lit ''not a follow-up command'')))"

definition execute_inbox_transaction ::
  "ext \<Rightarrow> int \<Rightarrow> inbox_request \<Rightarrow> bytes \<Rightarrow> (prompt_input \<Rightarrow> service_error + prompt_input) \<Rightarrow> service_error + unit
     \<Rightarrow> db \<Rightarrow> service_error + ustring option \<times> db" where
  "execute_inbox_transaction X clock req dig materialize auth d =
     (case List.find (\<lambda>r. rc_key r = ir_key req) (receipts d) of
        Some saved \<Rightarrow>
          if rc_digest saved = dig then Inr (rc_resource saved, d)
          else Inl (refuse (lit ''follow-up idempotency key reused for different content''))
      | None \<Rightarrow>
          if ir_replay_only req then Inl (refuse (lit ''follow-up receipt missing; no mutation executed''))
          else rbind (run_inbox_command X clock req dig materialize auth d) (\<lambda>((session, resource), d').
            rbind (sql (failure X) (insert_receipt
                     \<lparr>rc_key = ir_key req, rc_session = session, rc_digest = dig, rc_resource = resource\<rparr> d'))
              (\<lambda>d''. Inr (resource, d''))))"

definition execute_authenticated ::
  "ext \<Rightarrow> int \<Rightarrow> inbox_request \<Rightarrow> (prompt_input \<Rightarrow> service_error + prompt_input) \<Rightarrow> service_error + unit
     \<Rightarrow> db \<Rightarrow> (service_error + ustring option) \<times> db" where
  "execute_authenticated X clock req materialize auth =
     (case validate_request_identities (ir_key req) (ir_sender req) of
        Inl e \<Rightarrow> Pair (Inl e)
      | Inr _ \<Rightarrow>
          (case command_json X (ir_command req) of
             None \<Rightarrow> Pair (Inl (refuse (lit ''invalid follow-up command'')))
           | Some encoded \<Rightarrow>
               transact (execute_inbox_transaction X clock req (sha256 X encoded) materialize auth)))"

section \<open>The list view\<close>

definition has_messages :: "db \<Rightarrow> bool" where
  "has_messages d \<longleftrightarrow> messages d \<noteq> []"

definition view_row :: "db \<Rightarrow> ustring \<Rightarrow> nat \<Rightarrow> ustring \<Rightarrow> message_row \<Rightarrow> bool" where
  "view_row d session after view m \<longleftrightarrow>
     m_session m = session \<and> \<not> removed d m \<and>
     (if view = lit ''consumed''
      then \<not> undelivered d m \<and> (after = 0 \<or> m_sequence m < after)
      else after < m_sequence m \<and> (view \<noteq> lit ''active'' \<or> undelivered d m))"

definition view_rows :: "db \<Rightarrow> ustring \<Rightarrow> nat \<Rightarrow> ustring \<Rightarrow> message_row list" where
  "view_rows d session after view =
     (let rows = sort_key m_sequence (filter (view_row d session after view) (messages d)) in
      if view = lit ''consumed'' then rev rows else rows)"

definition followup_item_of :: "db \<Rightarrow> message_row \<Rightarrow> followup_item" where
  "followup_item_of d m =
     \<lparr>i_sequence = m_sequence m, i_message_id = m_message_id m, i_submitted_by = m_submitted_by m,
      i_received_at_ms = m_received_at m, i_text = m_display m, i_attachment_labels = m_labels m,
      i_state = (case batch_of d m of None \<Rightarrow> lit ''pending'' | Some b \<Rightarrow> batch_state_text (bt_state b)),
      i_batch_id = m_batch m\<rparr>"

fun list_items :: "db \<Rightarrow> nat \<Rightarrow> message_row list \<Rightarrow> nat \<Rightarrow> nat \<Rightarrow> followup_item list \<times> bool" where
  "list_items d limit [] count text_bytes = ([], False)"
| "list_items d limit (m # ms) count text_bytes =
     (if count \<ge> limit \<or> text_bytes + byte_len (m_display m) > 256 * 1024 then ([], True)
      else let (items, more) = list_items d limit ms (count + 1) (text_bytes + byte_len (m_display m)) in
        (followup_item_of d m # items, more))"

definition blocked_reason :: "db \<Rightarrow> ustring \<Rightarrow> ustring option" where
  "blocked_reason d session =
     (let reason = (case unsettled_batch d session of
          None \<Rightarrow> None
        | Some b \<Rightarrow>
            (case bt_blocked b of
               Some r \<Rightarrow> Some r
             | None \<Rightarrow> if bt_state b = Dispatching
                 then Some (lit ''Provider dispatch is unacknowledged; automatic replay is disabled.'') else None)) in
      if reason = None \<and> \<not> authorized_child_messages d session
      then Some (lit ''child evidence ownership is unavailable; explicit recovery required'') else reason)"

definition list_view :: "db \<Rightarrow> ustring \<Rightarrow> nat \<Rightarrow> nat \<Rightarrow> ustring \<Rightarrow> service_error + followup_inbox" where
  "list_view d session after limit view =
     rbind (authorize d session False) (\<lambda>_.
     rbind (validate_page after limit view) (\<lambda>_.
       let (items, more) = list_items d limit (take (limit + 1) (view_rows d session after view)) 0 0 in
       Inr \<lparr>v_session_id = session, v_items = items, v_has_more = more,
            v_pending_count = length (pending_rows d session), v_paused = paused_inbox d session,
            v_unsettled_batch_id = map_option bt_id (unsettled_batch d session),
            v_blocked_reason = blocked_reason d session\<rparr>))"

end
