(* ===== verification/Inbox_Safety.thy ===== *)
theory Inbox_Safety
  imports Followup_Inbox
begin

text \<open>
  What every operation on the follow-up inbox keeps (\<open>inbox_ok\<close>) and what no operation undoes
  (\<open>inbox_grows\<close>): a message stays, a claimed message stays in its batch with its content, no later
  arrival joins a batch, a batch only moves forward.  \<open>inbox_step\<close> is the conjunction; it is
  reflexive and transitive, and each statement below is one.
\<close>

section \<open>The invariant\<close>

definition unsettled :: "batch_row \<Rightarrow> bool" where
  "unsettled b \<longleftrightarrow> bt_state b \<noteq> Consumed"

definition assigned_ok :: "db \<Rightarrow> message_row \<Rightarrow> bool" where
  "assigned_ok d m \<longleftrightarrow> (case m_batch m of None \<Rightarrow> True
     | Some k \<Rightarrow> \<not> removed d m \<and>
         exists_where (\<lambda>b. bt_id b = k \<and> bt_session b = m_session m \<and> m_sequence m \<le> bt_cutoff b) (batches d))"

definition message_key :: "message_row \<Rightarrow> ustring \<times> ustring" where
  "message_key m = (m_session m, m_message_id m)"

definition inbox_ok :: "db \<Rightarrow> bool" where
  "inbox_ok d \<longleftrightarrow>
     sorted_wrt (<) (map m_sequence (messages d)) \<and>
     (\<forall>m \<in> set (messages d). m_sequence m \<le> message_seq d \<and> assigned_ok d m \<and>
        (m_prompt m = None \<longrightarrow> removed d m) \<and> (removed d m \<longrightarrow> m_bytes m = 0)) \<and>
     (\<forall>q \<in> set (removals d). q \<le> message_seq d) \<and>
     distinct (map message_key (messages d)) \<and>
     distinct (map bt_id (batches d)) \<and>
     distinct (map bt_session (filter unsettled (batches d)))"

text \<open>The invariant mentions neither the relationship tables nor the receipts.\<close>

definition members :: "db \<Rightarrow> ustring \<Rightarrow> message_row list" where
  "members d k = filter (\<lambda>m. m_batch m = Some k) (messages d)"

definition same_message :: "message_row \<Rightarrow> message_row \<Rightarrow> bool" where
  "same_message m m' \<longleftrightarrow> m_sequence m' = m_sequence m \<and> m_session m' = m_session m \<and>
     m_message_id m' = m_message_id m \<and> m_digest m' = m_digest m \<and>
     m_submitted_by m' = m_submitted_by m \<and> m_received_at m' = m_received_at m \<and>
     (m_batch m \<noteq> None \<longrightarrow> m' = m)"

definition later_batch :: "batch_row \<Rightarrow> batch_row \<Rightarrow> bool" where
  "later_batch b b' \<longleftrightarrow> bt_id b' = bt_id b \<and> bt_session b' = bt_session b \<and> bt_cutoff b' = bt_cutoff b \<and>
     bt_state b \<le> bt_state b' \<and> (bt_state b = Consumed \<longrightarrow> b' = b)"

definition inbox_grows :: "db \<Rightarrow> db \<Rightarrow> bool" where
  "inbox_grows d d' \<longleftrightarrow>
     (\<forall>m \<in> set (messages d). \<exists>m' \<in> set (messages d'). same_message m m') \<and>
     (\<forall>b \<in> set (batches d). \<exists>b' \<in> set (batches d'). later_batch b b') \<and>
     (\<forall>b \<in> set (batches d). members d' (bt_id b) = members d (bt_id b)) \<and>
     set (removals d) \<subseteq> set (removals d') \<and>
     prefix (sources d) (sources d') \<and> prefix (deliveries d) (deliveries d')"

definition inbox_step :: "db \<Rightarrow> db \<Rightarrow> bool" where
  "inbox_step d d' \<longleftrightarrow> (inbox_ok d \<longrightarrow> inbox_ok d' \<and> inbox_grows d d')"

lemma same_message_refl [simp]: "same_message m m"
  by (simp add: same_message_def)

lemma same_message_trans: "same_message a b \<Longrightarrow> same_message b c \<Longrightarrow> same_message a c"
  by (auto simp: same_message_def)

lemma later_batch_refl [simp]: "later_batch b b"
  by (simp add: later_batch_def)

lemma later_batch_trans: "later_batch a b \<Longrightarrow> later_batch b c \<Longrightarrow> later_batch a c"
  by (auto simp: later_batch_def)

lemma bex_same: "m \<in> A \<Longrightarrow> \<exists>m' \<in> A. same_message m m'"
  using same_message_refl by blast

lemma bex_later: "b \<in> A \<Longrightarrow> \<exists>b' \<in> A. later_batch b b'"
  using later_batch_refl by blast

lemmas bex_intros = bex_same bex_later

lemma inbox_grows_refl: "inbox_grows d d"
  unfolding inbox_grows_def using same_message_refl later_batch_refl by blast

lemma inbox_grows_trans:
  assumes "inbox_grows d e" "inbox_grows e f"
  shows "inbox_grows d f"
  unfolding inbox_grows_def
proof (intro conjI ballI)
  fix m assume "m \<in> set (messages d)"
  with assms show "\<exists>m' \<in> set (messages f). same_message m m'"
    unfolding inbox_grows_def by (metis same_message_trans)
next
  fix b assume b: "b \<in> set (batches d)"
  with assms(1) obtain b' where b': "b' \<in> set (batches e)" "later_batch b b'"
    unfolding inbox_grows_def by blast
  with assms(2) show "\<exists>b' \<in> set (batches f). later_batch b b'"
    unfolding inbox_grows_def by (metis later_batch_trans)
  have "members e (bt_id b) = members d (bt_id b)" "members f (bt_id b') = members e (bt_id b')"
    using assms b b'(1) unfolding inbox_grows_def by blast+
  with b'(2) show "members f (bt_id b) = members d (bt_id b)" by (simp add: later_batch_def)
qed (use assms in \<open>auto simp: inbox_grows_def intro: prefix_order.trans\<close>)

lemma inbox_step_refl [simp, intro]: "inbox_step d d"
  by (simp add: inbox_step_def inbox_grows_refl)

lemma inbox_step_trans: "inbox_step d e \<Longrightarrow> inbox_step e f \<Longrightarrow> inbox_step d f"
  by (auto simp: inbox_step_def intro: inbox_grows_trans)

section \<open>Frames\<close>

text \<open>Statements that touch no message, batch or removal.\<close>

lemma inbox_ok_frame:
  assumes "messages d' = messages d" "message_seq d' = message_seq d" "batches d' = batches d" "removals d' = removals d"
  shows "inbox_ok d' \<longleftrightarrow> inbox_ok d"
proof -
  have r: "removed d' = removed d" by (rule ext) (simp add: removed_def assms)
  then have "assigned_ok d' = assigned_ok d"
    by (intro ext) (simp add: assigned_ok_def assms split: option.split)
  with r show ?thesis unfolding inbox_ok_def assms by simp
qed

lemma inbox_step_frame:
  assumes "messages d' = messages d" "message_seq d' = message_seq d" "batches d' = batches d" "removals d' = removals d"
    "prefix (sources d) (sources d')" "prefix (deliveries d) (deliveries d')"
  shows "inbox_step d d'"
  unfolding inbox_step_def inbox_ok_frame [OF assms(1-4)] inbox_grows_def members_def assms(1,3,4)
  using assms(5,6) same_message_refl later_batch_refl by blast

text \<open>Statements that move batches forward.\<close>

lemma inbox_step_batches:
  assumes "d' = d\<lparr>batches := update_where P g (batches d)\<rparr>" "\<And>b. P b \<Longrightarrow> later_batch b (g b)"
  shows "inbox_step d d'"
  unfolding inbox_step_def
proof
  assume ok: "inbox_ok d"
  define h where "h b = (if P b then g b else b)" for b
  have d': "d' = d\<lparr>batches := map h (batches d)\<rparr>"
    unfolding assms(1) update_where_def h_def ..
  have later: "later_batch b (h b)" for b
    using assms(2) [of b] by (simp add: h_def)
  then have keep: "bt_id (h b) = bt_id b" "bt_session (h b) = bt_session b" "bt_cutoff (h b) = bt_cutoff b"
      and settled: "unsettled (h b) \<Longrightarrow> unsettled b" for b
    by (force simp: later_batch_def unsettled_def)+
  have "map bt_session (filter unsettled (batches d')) =
      map bt_session (filter (\<lambda>b. unsettled (h b)) (batches d))"
    by (simp add: d' filter_map o_def keep)
  also have "filter (\<lambda>b. unsettled (h b)) (batches d) =
      filter (\<lambda>b. unsettled (h b)) (filter unsettled (batches d))"
    using settled by (auto intro!: filter_cong)
  finally have uns: "distinct (map bt_session (filter unsettled (batches d')))"
    using ok by (simp add: inbox_ok_def distinct_map_filter del: filter_filter)
  have asg: "assigned_ok d' m" if "assigned_ok d m" for m
    using that by (auto simp: assigned_ok_def removed_def d' keep split: option.splits)
  have "inbox_ok d'"
    using ok uns asg by (auto simp: inbox_ok_def d' removed_def o_def keep)
  moreover have "inbox_grows d d'"
    unfolding inbox_grows_def members_def d' using later
    by (auto intro: bex_same)
  ultimately show "inbox_ok d' \<and> inbox_grows d d'" by blast
qed

section \<open>Messages\<close>

lemma insert_message_step:
  assumes "insert_message row d = Inr d'" "\<And>q. m_sequence (row q) = q"
    "\<And>q. m_batch (row q) = None" "\<And>q. m_prompt (row q) \<noteq> None"
  shows "inbox_step d d'"
  unfolding inbox_step_def
proof
  assume ok: "inbox_ok d"
  define m where "m = row (Suc (message_seq d))"
  have m: "m_sequence m = Suc (message_seq d)" "m_batch m = None" "m_prompt m \<noteq> None"
    unfolding m_def using assms(2-4) by blast+
  have d': "d' = d\<lparr>messages := messages d @ [m], message_seq := Suc (message_seq d)\<rparr>"
    using assms(1) by (auto simp: insert_message_def Let_def m_def split: if_splits)
  have unique: "message_key m \<notin> message_key ` set (messages d)"
    using assms(1) by (auto simp: insert_message_def Let_def m_def message_key_def split: if_splits)
  have fresh: "Suc (message_seq d) \<notin> set (removals d)"
    using ok by (auto simp: inbox_ok_def)
  have old: "assigned_ok d' x = assigned_ok d x" "removed d' x = removed d x" for x
    by (simp_all add: assigned_ok_def removed_def d' split: option.split)
  have new: "assigned_ok d' m" "\<not> removed d' m"
    using fresh by (simp_all add: assigned_ok_def m removed_def d')
  have "inbox_ok d'"
    unfolding inbox_ok_def
  proof (intro conjI)
    show "sorted_wrt (<) (map m_sequence (messages d'))"
      using ok by (auto simp: inbox_ok_def d' m sorted_wrt_append less_Suc_eq_le)
    show "\<forall>x \<in> set (messages d'). m_sequence x \<le> message_seq d' \<and> assigned_ok d' x \<and>
        (m_prompt x = None \<longrightarrow> removed d' x) \<and> (removed d' x \<longrightarrow> m_bytes x = 0)"
    proof
      fix x assume "x \<in> set (messages d')"
      then consider "x = m" | "x \<in> set (messages d)" by (auto simp: d')
      then show "m_sequence x \<le> message_seq d' \<and> assigned_ok d' x \<and>
          (m_prompt x = None \<longrightarrow> removed d' x) \<and> (removed d' x \<longrightarrow> m_bytes x = 0)"
      proof cases
        case 1
        with new m show ?thesis by (simp add: d')
      next
        case 2
        with ok have "m_sequence x \<le> message_seq d" "assigned_ok d x"
          "m_prompt x = None \<longrightarrow> removed d x" "removed d x \<longrightarrow> m_bytes x = 0"
          by (auto simp: inbox_ok_def)
        then show ?thesis unfolding old by (simp add: d')
      qed
    qed
    show "\<forall>q \<in> set (removals d'). q \<le> message_seq d'"
      using ok by (auto simp: inbox_ok_def d')
    show "distinct (map message_key (messages d'))"
      using ok unique by (simp add: inbox_ok_def d')
  qed (use ok in \<open>simp_all add: inbox_ok_def d'\<close>)
  moreover have "inbox_grows d d'"
    unfolding inbox_grows_def members_def d' using m(2)
    by (auto intro: bex_intros)
  ultimately show "inbox_ok d' \<and> inbox_grows d d'" by blast
qed

text \<open>A change to rows outside every batch that keeps their identity.\<close>

lemma inbox_step_pending_rows:
  assumes "d' = d\<lparr>messages := update_where P g (messages d), removals := R\<rparr>"
    "\<And>m. m \<in> set (messages d) \<Longrightarrow> P m \<Longrightarrow> m_batch m = None"
    "\<And>m. m_batch (g m) = m_batch m \<and> m_sequence (g m) = m_sequence m \<and> m_session (g m) = m_session m \<and>
       m_message_id (g m) = m_message_id m \<and> m_digest (g m) = m_digest m \<and>
       m_submitted_by (g m) = m_submitted_by m \<and> m_received_at (g m) = m_received_at m"
    "set (removals d) \<subseteq> set R"
    "\<And>q. q \<in> set R \<Longrightarrow> q \<in> set (removals d) \<or> (\<exists>m \<in> set (messages d). m_sequence m = q \<and> P m)"
    "\<And>m. m \<in> set (messages d) \<Longrightarrow> P m \<Longrightarrow>
       (m_prompt m = None \<longrightarrow> m_sequence m \<in> set (removals d)) \<and> (m_sequence m \<in> set (removals d) \<longrightarrow> m_bytes m = 0) \<Longrightarrow>
       (m_prompt (g m) = None \<longrightarrow> m_sequence m \<in> set R) \<and> (m_sequence m \<in> set R \<longrightarrow> m_bytes (g m) = 0)"
  shows "inbox_step d d'"
  unfolding inbox_step_def
proof
  assume ok: "inbox_ok d"
  define h where "h m = (if P m then g m else m)" for m
  have d': "d' = d\<lparr>messages := map h (messages d), removals := R\<rparr>"
    unfolding assms(1) update_where_def h_def ..
  have h: "m_batch (h m) = m_batch m" "m_sequence (h m) = m_sequence m" "m_session (h m) = m_session m"
    "m_message_id (h m) = m_message_id m" "m_digest (h m) = m_digest m"
    "m_submitted_by (h m) = m_submitted_by m" "m_received_at (h m) = m_received_at m" for m
    using assms(3) [of m] by (simp_all add: h_def)
  have claimed: "h m = m" if "m \<in> set (messages d)" "m_batch m \<noteq> None" for m
    using assms(2) [OF that(1)] that(2) by (auto simp: h_def)
  have "distinct (map m_sequence (messages d))"
    using ok by (simp add: inbox_ok_def strict_sorted_iff)
  then have inj: "m = m'" if "m \<in> set (messages d)" "m' \<in> set (messages d)" "m_sequence m = m_sequence m'" for m m'
    using that by (rule distinct_key_eq)
  have inR: "m_sequence m \<in> set R \<longleftrightarrow> m_sequence m \<in> set (removals d)"
    if "m \<in> set (messages d)" "\<not> P m" for m
    using assms(4) assms(5) [of "m_sequence m"] inj [OF that(1) _ sym] that(2) by blast
  have row: "m_sequence (h m) \<le> message_seq d \<and> assigned_ok d' (h m) \<and>
      (m_prompt (h m) = None \<longrightarrow> removed d' (h m)) \<and> (removed d' (h m) \<longrightarrow> m_bytes (h m) = 0)"
    if m: "m \<in> set (messages d)" for m
  proof -
    have old: "m_sequence m \<le> message_seq d" "assigned_ok d m"
      "m_prompt m = None \<longrightarrow> m_sequence m \<in> set (removals d)" "m_sequence m \<in> set (removals d) \<longrightarrow> m_bytes m = 0"
      using ok m by (auto simp: inbox_ok_def removed_def)
    have "assigned_ok d' (h m)"
    proof (cases "m_batch m")
      case None
      then show ?thesis by (simp add: assigned_ok_def h)
    next
      case (Some k)
      with assms(2) [OF m] have np: "\<not> P m" by auto
      with Some old(2) inR [OF m np] claimed [OF m] show ?thesis
        by (simp add: assigned_ok_def removed_def d')
    qed
    moreover have "(m_prompt (h m) = None \<longrightarrow> m_sequence m \<in> set R) \<and> (m_sequence m \<in> set R \<longrightarrow> m_bytes (h m) = 0)"
    proof (cases "P m")
      case True
      then show ?thesis using assms(6) [OF m True] old(3,4) by (simp add: h_def)
    next
      case False
      then show ?thesis using inR [OF m False] old(3,4) by (simp add: h_def)
    qed
    ultimately show ?thesis using old(1) by (simp add: h removed_def d')
  qed
  have "inbox_ok d'"
    unfolding inbox_ok_def
  proof (intro conjI)
    show "sorted_wrt (<) (map m_sequence (messages d'))"
      using ok by (simp add: inbox_ok_def d' o_def h)
    show "\<forall>q \<in> set (removals d'). q \<le> message_seq d'"
      using ok assms(5) by (auto simp: inbox_ok_def d')
    show "distinct (map message_key (messages d'))"
      using ok by (simp add: inbox_ok_def d' o_def message_key_def [abs_def] h)
  qed (use ok row in \<open>auto simp: inbox_ok_def d'\<close>)
  moreover have "inbox_grows d d'"
  proof -
    have "same_message m (h m)" if "m \<in> set (messages d)" for m
      using claimed [OF that] h by (auto simp: same_message_def)
    moreover have "filter (\<lambda>m. m_batch m = Some k) (map h (messages d)) = filter (\<lambda>m. m_batch m = Some k) (messages d)" for k
      using claimed by (induction "messages d") (auto simp: filter_map o_def h intro: map_idI)
    ultimately show ?thesis
      using assms(4) by (auto simp: inbox_grows_def members_def d' intro: bex_later)
  qed
  ultimately show "inbox_ok d' \<and> inbox_grows d d'" by blast
qed

section \<open>Admission, removal and pausing\<close>

lemma admit_message_step: "admit_message X s mid p req dig d = Inr d' \<Longrightarrow> inbox_step d d'"
  by (auto simp: admit_message_def new_message_def split: if_splits intro!: insert_message_step)

text \<open>The admitted message is the only one of its identity and in no batch.\<close>

lemma admit_message_cases:
  assumes "admit_message X s mid p req dig d = Inr d'"
  obtains bytes where "validate_prompt X p = Inr bytes" "inbox_count d s < 256" "inbox_bytes d s + bytes \<le> MAX_PENDING_BYTES"
    "d' = d\<lparr>messages := messages d @ [new_message s mid p req dig bytes (message_seq d + 1)],
            message_seq := message_seq d + 1\<rparr>"
    "find_message d s mid = None"
proof -
  from assms obtain bytes where v: "validate_prompt X p = Inr bytes"
      "inbox_count d s < 256" "inbox_bytes d s + bytes \<le> MAX_PENDING_BYTES"
    and i: "insert_message (new_message s mid p req dig bytes) d = Inr d'"
    by (auto simp: admit_message_def not_le not_less split: if_splits)
  have "\<not> exists_where (\<lambda>x. m_session x = s \<and> m_message_id x = mid) (messages d)"
    using i by (auto simp: insert_message_def new_message_def Let_def split: if_splits)
  then have "find_message d s mid = None" by (auto simp: find_message_def find_None_set)
  with v i show thesis
    by (intro that [of bytes]) (auto simp: insert_message_def Let_def split: if_splits)
qed

lemma new_message_simps [simp]:
  "m_sequence (new_message s mid p req dig bytes q) = q" "m_session (new_message s mid p req dig bytes q) = s"
  "m_message_id (new_message s mid p req dig bytes q) = mid" "m_batch (new_message s mid p req dig bytes q) = None"
  "m_prompt (new_message s mid p req dig bytes q) = Some p" "m_bytes (new_message s mid p req dig bytes q) = bytes"
  "m_display (new_message s mid p req dig bytes q) = p_text p" "m_digest (new_message s mid p req dig bytes q) = dig"
  by (simp_all add: new_message_def)

lemma admit_message_fresh:
  assumes "admit_message X s mid p req dig d = Inr d'"
  shows "\<forall>m \<in> set (messages d'). m_session m = s \<and> m_message_id m = mid \<longrightarrow> m_batch m = None"
    "sources d' = sources d" "deliveries d' = deliveries d" "links d' = links d" "revisions d' = revisions d"
    "receipts d' = receipts d" "sessions d' = sessions d"
proof -
  from assms obtain bytes where d': "d' = d\<lparr>messages := messages d @ [new_message s mid p req dig bytes (message_seq d + 1)],
            message_seq := message_seq d + 1\<rparr>"
    and "find_message d s mid = None"
    by (rule admit_message_cases)
  then have none: "\<forall>m \<in> set (messages d). \<not> (m_session m = s \<and> m_message_id m = mid)"
    by (simp only: find_message_def find_None_set)
  show "sources d' = sources d" "deliveries d' = deliveries d" "links d' = links d" "revisions d' = revisions d"
    "receipts d' = receipts d" "sessions d' = sessions d"
    by (simp_all add: d')
  show "\<forall>m \<in> set (messages d'). m_session m = s \<and> m_message_id m = mid \<longrightarrow> m_batch m = None"
  proof
    fix m assume "m \<in> set (messages d')"
    then have "m = new_message s mid p req dig bytes (message_seq d + 1) \<or> m \<in> set (messages d)"
      by (auto simp: d')
    with none show "m_session m = s \<and> m_message_id m = mid \<longrightarrow> m_batch m = None"
      by (elim disjE) (simp, blast)
  qed
qed

lemma insert_source_step: "insert_source q src d = Inr d' \<Longrightarrow> inbox_step d d'"
  by (rule inbox_step_frame) (auto simp: insert_source_def split: if_splits)

lemma insert_delivery_step: "insert_delivery r q d = Inr d' \<Longrightarrow> inbox_step d d'"
  by (rule inbox_step_frame) (auto simp: insert_delivery_def split: if_splits)

lemma save_source_step: "save_source X s mid src d = Inr d' \<Longrightarrow> inbox_step d d' \<and> messages d' = messages d"
  by (auto simp: save_source_def dest: insert_source_step split: option.splits)
    (auto simp: insert_source_def split: if_splits)

lemma set_display_step:
  assumes "\<forall>m \<in> set (messages d). m_session m = s \<and> m_message_id m = mid \<longrightarrow> m_batch m = None"
  shows "inbox_step d (set_display s mid txt d)"
  by (rule inbox_step_pending_rows [where R = "removals d" and P = "\<lambda>m. m_session m = s \<and> m_message_id m = mid"
        and g = "m_display_update (\<lambda>_. txt)"]) (use assms in \<open>auto simp: set_display_def\<close>)

lemma find_message_Some: "find_message d s mid = Some m \<Longrightarrow> m \<in> set (messages d) \<and> m_session m = s \<and> m_message_id m = mid"
  by (auto simp: find_message_def dest: find_Some_set)

text \<open>Under the invariant a message without a joined batch row is in no batch.\<close>

lemma batch_of_None: "inbox_ok d \<Longrightarrow> m \<in> set (messages d) \<Longrightarrow> batch_of d m = None \<longleftrightarrow> m_batch m = None"
proof -
  assume "inbox_ok d" "m \<in> set (messages d)"
  then have "assigned_ok d m" by (simp add: inbox_ok_def)
  then show ?thesis
    by (cases "m_batch m") (auto simp: batch_of_def assigned_ok_def find_None_set)
qed

lemma remove_pending_step:
  assumes "remove_pending s mid d = Inr d'"
  shows "inbox_step d d'"
proof (cases "inbox_ok d")
  case True
  obtain m where m: "m \<in> set (messages d)" "batch_of d m = None"
    and d': "d' = d\<lparr>messages := update_where (\<lambda>x. m_sequence x = m_sequence m) empty_message (messages d),
      removals := (if removed d m then removals d else removals d @ [m_sequence m])\<rparr>"
    using assms by (auto simp: remove_pending_def dest: find_message_Some split: option.splits if_splits)
  from m True have none: "m_batch m = None" by (simp add: batch_of_None)
  have "distinct (map m_sequence (messages d))"
    using True by (simp add: inbox_ok_def strict_sorted_iff)
  then have only: "x = m" if "x \<in> set (messages d)" "m_sequence x = m_sequence m" for x
    using that m(1) distinct_key_eq by metis
  show ?thesis
    by (rule inbox_step_pending_rows [OF d'])
      (use none m in \<open>auto simp: empty_message_def removed_def dest: only split: if_splits\<close>)
qed (simp add: inbox_step_def)

lemma upsert_inbox_step: "inbox_step d (upsert_inbox s p d)"
  by (rule inbox_step_frame) (simp_all add: upsert_inbox_def)

lemma set_followup_paused_step: "set_followup_paused s p d = Inr d' \<Longrightarrow> inbox_step d d'"
  by (auto simp: set_followup_paused_def Let_def later_batch_def
      intro!: upsert_inbox_step inbox_step_trans [OF upsert_inbox_step inbox_step_batches] split: if_splits)

lemma insert_link_inbox: "insert_link clock l d = Inr d' \<Longrightarrow> inbox_step d d'"
  by (rule inbox_step_frame) (auto simp: insert_link_def split: if_splits)

lemma set_parent_inbox: "set_parent clock c p d = Inr d' \<Longrightarrow> inbox_step d d'"
  by (rule inbox_step_frame) (auto simp: set_parent_def split: if_splits option.splits)

lemma adopt_inbox: "adopt X clock chat agent d = Inr d' \<Longrightarrow> inbox_step d d'"
  by (auto simp: adopt_def Let_def intro: insert_link_inbox set_parent_inbox split: if_splits option.splits)

lemma insert_receipt_inbox: "insert_receipt r d = Inr d' \<Longrightarrow> inbox_step d d'"
  by (rule inbox_step_frame) (auto simp: insert_receipt_def split: if_splits)

section \<open>The executor\<close>

lemma admit_followup_step:
  assumes "admit_followup X clock req dig materialize auth session mid p d = Inr d'"
  shows "inbox_step d d'"
  using assms
  by (auto simp: admit_followup_def dest!: admit_message_step save_source_step adopt_inbox
      intro: inbox_step_trans split: if_splits option.splits)

lemma admit_external_step:
  assumes "admit_external_report X req dig session mid child title report st body d = Inr d'"
  shows "inbox_step d d'"
proof -
  from assms consider "d' = d"
    | p src display d1 d2 where "admit_message X session mid p req dig d = Inr d1"
      "save_source X session mid src d1 = Inr d2" "d' = set_display session mid display d2"
    by (auto simp: admit_external_report_def split: if_splits)
  then show ?thesis
  proof cases
    case 2
    from save_source_step [OF 2(2)] have s: "inbox_step d1 d2" "messages d2 = messages d1" by auto
    with admit_message_fresh(1) [OF 2(1)] have "inbox_step d2 d'"
      unfolding 2(3) by (intro set_display_step) simp
    with admit_message_step [OF 2(1)] s(1) show ?thesis by (blast intro: inbox_step_trans)
  qed simp
qed

lemma run_inbox_command_step:
  "run_inbox_command X clock req dig materialize auth d = Inr (r, d') \<Longrightarrow> inbox_step d d'"
  by (auto simp: run_inbox_command_def
      intro: admit_followup_step admit_external_step remove_pending_step set_followup_paused_step
      split: command.splits)

text \<open>What the executor can do: refuse or replay without a change, or run the command and record it.\<close>

lemma execute_inbox_cases:
  obtains (error) e where "execute_authenticated X clock req materialize auth d = (Inl e, d)"
  | (replay) saved enc where "command_json X (ir_command req) = Some enc"
      "validate_request_identities (ir_key req) (ir_sender req) = Inr ()"
      "List.find (\<lambda>r. rc_key r = ir_key req) (receipts d) = Some saved" "rc_digest saved = sha256 X enc"
      "execute_authenticated X clock req materialize auth d = (Inr (rc_resource saved), d)"
  | (mutate) enc session resource d1 d' where "command_json X (ir_command req) = Some enc"
      "validate_request_identities (ir_key req) (ir_sender req) = Inr ()"
      "List.find (\<lambda>r. rc_key r = ir_key req) (receipts d) = None" "\<not> ir_replay_only req"
      "run_inbox_command X clock req (sha256 X enc) materialize auth d = Inr ((session, resource), d1)"
      "insert_receipt \<lparr>rc_key = ir_key req, rc_session = session, rc_digest = sha256 X enc, rc_resource = resource\<rparr> d1
         = Inr d'"
      "execute_authenticated X clock req materialize auth d = (Inr resource, d')"
proof (cases "execute_authenticated X clock req materialize auth d")
  case (Pair res d')
  show thesis
  proof (cases res)
    case (Inl e)
    with Pair have "d' = d"
      by (auto simp: execute_authenticated_def transact_eq_Inl split: sum.splits option.splits)
    with Pair Inl error show thesis by auto
  next
    case (Inr a)
    with Pair obtain enc where enc: "command_json X (ir_command req) = Some enc"
      "validate_request_identities (ir_key req) (ir_sender req) = Inr ()"
      and body: "execute_inbox_transaction X clock req (sha256 X enc) materialize auth d = Inr (a, d')"
      by (auto simp: execute_authenticated_def transact_eq_Inr split: sum.splits option.splits)
    show thesis
    proof (cases "List.find (\<lambda>r. rc_key r = ir_key req) (receipts d)")
      case (Some saved)
      with body have "rc_digest saved = sha256 X enc \<and> a = rc_resource saved \<and> d' = d"
        by (auto simp: execute_inbox_transaction_def split: if_splits)
      with Pair Inr show thesis by (intro replay [OF enc Some]) simp_all
    next
      case None
      with body obtain session d1 where m: "\<not> ir_replay_only req"
        "run_inbox_command X clock req (sha256 X enc) materialize auth d = Inr ((session, a), d1)"
        "insert_receipt \<lparr>rc_key = ir_key req, rc_session = session, rc_digest = sha256 X enc, rc_resource = a\<rparr> d1
         = Inr d'"
        by (auto simp: execute_inbox_transaction_def split: if_splits)
      from mutate [OF enc None m] Pair Inr show thesis by simp
    qed
  qed
qed

lemma execute_inbox_step: "inbox_step d (snd (execute_authenticated X clock req materialize auth d))"
  by (cases rule: execute_inbox_cases [of X clock req materialize auth d])
    (auto intro: inbox_step_trans [OF run_inbox_command_step insert_receipt_inbox])

section \<open>Dispatch and settlement\<close>

lemma fence_step: "inbox_step d (snd (fence_dispatch session batch d))"
  by (simp add: fence_dispatch_def) (rule inbox_step_batches [OF refl], auto simp: fenceable_def later_batch_def)

lemma observe_step: "inbox_step d (snd (observe_accepted session batch turn d))"
  by (simp add: observe_accepted_def) (intro impI inbox_step_batches [OF refl], auto simp: later_batch_def)

lemma acknowledge_step: "inbox_step d (acknowledge session turn d)"
  unfolding acknowledge_def by (rule inbox_step_batches [OF refl]) (auto simp: later_batch_def)

lemma block_step: "inbox_step d (block batch reason d)"
  unfolding block_def by (rule inbox_step_batches [OF refl]) (auto simp: later_batch_def)

lemma pause_step: "inbox_step d (pause session d)"
  by (simp add: pause_def upsert_inbox_step)

section \<open>Claim\<close>

lemma insert_batch_cases:
  assumes "insert_batch b d = Inr d'"
  shows "d' = d\<lparr>batches := batches d @ [b]\<rparr>" "bt_id b \<notin> set (map bt_id (batches d))"
    "unsettled b \<Longrightarrow> bt_session b \<notin> set (map bt_session (filter unsettled (batches d)))"
  using assms by (auto simp: insert_batch_def unsettled_def split: if_splits)

text \<open>The two writes of a new claim, as one change.\<close>

lemma claim_writes_step:
  assumes "insert_batch (new_batch k session cutoff) d = Inr d1"
    and "insert_display k txt (assign_batch k session cutoff d1) = Inr d'"
  shows "inbox_step d d'"
  unfolding inbox_step_def
proof
  assume ok: "inbox_ok d"
  note b = insert_batch_cases [OF assms(1)]
  define h where "h m = (if m_session m = session \<and> m_batch m = None \<and> m_sequence m \<le> cutoff \<and> \<not> removed d m
      then m\<lparr>m_batch := Some k\<rparr> else m)" for m
  have rem: "removed d1 = removed d" by (rule ext) (simp add: b(1) removed_def)
  have d': "d' = d\<lparr>batches := batches d @ [new_batch k session cutoff], messages := map h (messages d),
      displays := displays d @ [(k, txt)]\<rparr>"
    using assms(2) by (auto simp: insert_display_def assign_batch_def update_where_def h_def [abs_def] b(1) rem [unfolded b(1)]
        split: if_splits)
  have h: "m_sequence (h m) = m_sequence m" "m_session (h m) = m_session m" "m_prompt (h m) = m_prompt m"
    "m_bytes (h m) = m_bytes m" "same_message m (h m)" and key: "message_key (h m) = message_key m" for m
    by (simp_all add: h_def same_message_def message_key_def)
  have row: "assigned_ok d' (h m)" if "assigned_ok d m" for m
    using that by (auto simp: assigned_ok_def removed_def h_def d' new_batch_def split: option.splits)
  have "inbox_ok d'"
    unfolding inbox_ok_def
  proof (intro conjI)
    show "sorted_wrt (<) (map m_sequence (messages d'))"
      using ok by (simp add: inbox_ok_def d' o_def h)
    show "distinct (map message_key (messages d'))"
      using ok by (simp add: inbox_ok_def d' o_def key)
    show "distinct (map bt_id (batches d'))"
      using ok b(2) by (simp add: inbox_ok_def d')
    show "distinct (map bt_session (filter unsettled (batches d')))"
      using ok b(3) by (auto simp: inbox_ok_def d' unsettled_def new_batch_def)
    show "\<forall>m \<in> set (messages d'). m_sequence m \<le> message_seq d' \<and> assigned_ok d' m \<and>
        (m_prompt m = None \<longrightarrow> removed d' m) \<and> (removed d' m \<longrightarrow> m_bytes m = 0)"
      using ok row by (auto simp: inbox_ok_def d' h removed_def)
  qed (use ok in \<open>simp add: inbox_ok_def d'\<close>)
  moreover have "inbox_grows d d'"
  proof -
    have same: "filter (\<lambda>m. m_batch m = Some x) (map h ms) = filter (\<lambda>m. m_batch m = Some x) ms"
      if "x \<noteq> k" for x ms
      using that by (induction ms) (auto simp: h_def)
    have "members d' (bt_id x) = members d (bt_id x)" if "x \<in> set (batches d)" for x
    proof -
      have "bt_id x \<noteq> k" using b(2) that by (auto simp: new_batch_def)
      from same [OF this] show ?thesis by (simp add: members_def d')
    qed
    then show ?thesis
      using h(5) by (auto simp: inbox_grows_def d' intro: bex_later)
  qed
  ultimately show "inbox_ok d' \<and> inbox_grows d d'" by blast
qed

lemma claim_cases:
  obtains (unchanged) r where "claim X fresh session d = (r, d)"
  | (fresh) pending selected d1 b d' where "unsettled_batch d session = None"
      "authorize d session True = Inr ()" "authorized_child_messages d session" "\<not> paused_inbox d session"
      "read_messages d session None = Inr pending" "selected = bounded_prefix X pending" "selected \<noteq> []"
      "b = claimed X (lit ''followup-'' @ fresh) selected"
      "insert_batch (new_batch (lit ''followup-'' @ fresh) session (sm_sequence (last selected))) d = Inr d1"
      "insert_display (lit ''followup-'' @ fresh) (cb_coordination_json b)
         (assign_batch (lit ''followup-'' @ fresh) session (sm_sequence (last selected)) d1) = Inr d'"
      "claim X fresh session d = (Inr (Some b), d')"
proof (cases "claim X fresh session d")
  case (Pair r d')
  show thesis
  proof (cases "d' = d")
    case True
    with Pair unchanged show thesis by blast
  next
    case False
    from Pair False obtain a where "r = Inr a" "claim_in_transaction X fresh session d = Inr (a, d')"
      by (cases r) (auto simp: claim_def transact_eq_Inl transact_eq_Inr)
    with Pair False fresh show thesis
      by (auto simp: claim_in_transaction_def claim_new_def Let_def split: if_splits option.splits)
  qed
qed

lemma claim_step: "inbox_step d (snd (claim X fresh session d))"
  by (cases rule: claim_cases [of X fresh session d]) (auto intro: claim_writes_step)

end
