(* ===== verification/Batch_Delivery.thy ===== *)
theory Batch_Delivery
  imports Inbox_Safety
begin

text \<open>
  What a claimed batch contains and how often it can be dispatched: the FIFO cutoff, its bounds, its
  exact reconstruction, and the dispatch fence.
\<close>

section \<open>The claimed prefix\<close>

lemma queue_rows_eq:
  assumes "inbox_ok d"
  shows "queue_rows d session batch =
    filter (\<lambda>m. m_session m = session \<and> m_batch m = batch \<and> \<not> removed d m) (messages d)"
    "sorted_wrt (<) (map m_sequence (queue_rows d session batch))"
proof -
  let ?rows = "filter (\<lambda>m. m_session m = session \<and> m_batch m = batch \<and> \<not> removed d m) (messages d)"
  have "sorted_wrt (<) (map m_sequence ?rows)"
    using assms by (auto simp: inbox_ok_def sorted_wrt_map sorted_wrt_filter)
  moreover from this have "sort_key m_sequence ?rows = ?rows"
    by (intro sort_key_id_if_sorted strict_sorted_imp_sorted)
  ultimately show "queue_rows d session batch = ?rows"
    "sorted_wrt (<) (map m_sequence (queue_rows d session batch))"
    by (simp_all add: queue_rows_def)
qed

lemma read_message_sequence: "read_message d session m = Inr x \<Longrightarrow> sm_sequence x = m_sequence m"
  by (auto simp: read_message_def split: option.splits)

lemma bounded_from_take: "\<exists>n. bounded_from X ms t i a = take n ms"
proof (induction ms arbitrary: t i a)
  case (Cons m ms)
  show ?case
  proof (cases "bounded_from X (m # ms) t i a = []")
    case True
    then show ?thesis by (intro exI [of _ 0]) simp
  next
    case False
    then obtain t' i' a' where "bounded_from X (m # ms) t i a = m # bounded_from X ms t' i' a'"
      by (auto simp: Let_def split: if_splits)
    moreover obtain n where "bounded_from X ms t' i' a' = take n ms" using Cons by blast
    ultimately show ?thesis by (intro exI [of _ "Suc n"]) simp
  qed
qed simp

lemma bounded_prefix_take: "\<exists>n. bounded_prefix X ms = take n ms"
  unfolding bounded_prefix_def by (rule bounded_from_take)

section \<open>Bounds of a batch\<close>

definition image_total :: "stored_message list \<Rightarrow> nat" where
  "image_total ms = sum_list (map (\<lambda>m. sum_list (map image_size (p_attachments (sm_input m)))) ms)"

definition attachment_total :: "stored_message list \<Rightarrow> nat" where
  "attachment_total ms = sum_list (map (\<lambda>m. length (p_attachments (sm_input m))) ms)"

lemma combine_onto_attachments:
  "p_attachments (combine_onto X ms p) = p_attachments p @ concat (map (\<lambda>m. p_attachments (sm_input m)) ms)"
  by (induction ms arbitrary: p) auto

lemma bounded_from_bounds:
  assumes "t \<le> 128 * 1024" "i \<le> 20 * 1024 * 1024" "a \<le> 8" "byte_len (p_text p) = t" "length (p_attachments p) = a"
  shows "byte_len (p_text (combine_onto X (bounded_from X ms t i a) p)) \<le> 128 * 1024 \<and>
    i + image_total (bounded_from X ms t i a) \<le> 20 * 1024 * 1024 \<and>
    a + attachment_total (bounded_from X ms t i a) \<le> 8"
  using assms
proof (induction ms arbitrary: t i a p)
  case Nil
  then show ?case by (simp add: image_total_def attachment_total_def)
next
  case (Cons m ms)
  let ?t = "t + text_size X m a" and ?i = "i + sum_list (map image_size (p_attachments (sm_input m)))"
    and ?a = "a + length (p_attachments (sm_input m))"
  let ?p = "\<lparr>p_text = p_text p @ header X m (length (p_attachments p)) @ json_string X (p_text (sm_input m)) @ [10],
      p_attachments = p_attachments p @ p_attachments (sm_input m)\<rparr>"
  show ?case
  proof (cases "?t > 128 * 1024 \<or> ?i > 20 * 1024 * 1024 \<or> ?a > 8")
    case True
    then show ?thesis
      using Cons.prems by (simp add: Let_def image_total_def attachment_total_def)
  next
    case False
    have "byte_len (p_text ?p) = ?t" "length (p_attachments ?p) = ?a"
      using Cons.prems(4,5) by (simp_all add: text_size_def len_utf8_def)
    with False Cons.IH [of ?t ?i ?a ?p] show ?thesis
      by (simp add: Let_def image_total_def attachment_total_def)
  qed
qed

lemma preamble_fits: "byte_len BATCH_PREAMBLE \<le> 128 * 1024"
proof -
  have "byte_len BATCH_PREAMBLE \<le> 4 * length BATCH_PREAMBLE" by (rule byte_len_le_4_length)
  also have "\<dots> \<le> 128 * 1024" by (simp add: BATCH_PREAMBLE_def)
  finally show ?thesis .
qed

lemma image_total_concat:
  "image_total ms = sum_list (map image_size (concat (map (\<lambda>m. p_attachments (sm_input m)) ms)))"
  by (induction ms) (simp_all add: image_total_def)

lemma attachment_total_concat:
  "attachment_total ms = length (concat (map (\<lambda>m. p_attachments (sm_input m)) ms))"
  by (induction ms) (simp_all add: attachment_total_def)

text \<open>A batch handed to a provider is bounded whatever the inbox holds: its combined text with the
  preamble and every attribution header fits 128 KiB, its images 20 MiB, and it carries at most
  eight attachments.\<close>

theorem claimed_batch_bounded:
  "let p = combine X (bounded_prefix X pending) in
     byte_len (p_text p) \<le> 128 * 1024 \<and>
     sum_list (map image_size (p_attachments p)) \<le> 20 * 1024 * 1024 \<and>
     length (p_attachments p) \<le> 8"
  using bounded_from_bounds [of "byte_len BATCH_PREAMBLE" 0 0 "\<lparr>p_text = BATCH_PREAMBLE, p_attachments = []\<rparr>" X pending]
    preamble_fits
  by (simp add: Let_def combine_def bounded_prefix_def combine_onto_attachments image_total_concat
      attachment_total_concat)

section \<open>A claim takes the queue up to its cutoff\<close>

lemma last_map_eq: "map f xs = map g ys \<Longrightarrow> xs \<noteq> [] \<Longrightarrow> f (last xs) = g (last ys)"
  by (metis last_map map_is_Nil_conv)

lemma selected_rows:
  assumes "read_messages d session None = Inr pending" "selected = bounded_prefix X pending" "selected \<noteq> []"
  obtains n where "n \<le> 32" "take n (queue_rows d session None) \<noteq> []"
    "rmap (read_message d session) (take n (queue_rows d session None)) = Inr selected"
    "length selected = length (take n (queue_rows d session None))"
    "sm_sequence (last selected) = m_sequence (last (take n (queue_rows d session None)))"
proof -
  let ?rows = "queue_rows d session None"
  obtain n where n: "selected = take n pending" using bounded_prefix_take assms(2) by metis
  have "rmap (read_message d session) (take n (take 32 ?rows)) = Inr selected"
    using rmap_take assms(1) unfolding read_messages_def n by blast
  then have r: "rmap (read_message d session) (take (min n 32) ?rows) = Inr selected"
    by (simp add: min.commute)
  from rmap_map_eq [OF r, of sm_sequence m_sequence] read_message_sequence
  have eq: "map sm_sequence selected = map m_sequence (take (min n 32) ?rows)"
    and len: "length selected = length (take (min n 32) ?rows)" by blast+
  show thesis
  proof (rule that [of "min n 32"])
    show "take (min n 32) ?rows \<noteq> []"
    proof
      assume "take (min n 32) ?rows = []"
      then have "map sm_sequence selected = []" unfolding eq by simp
      with assms(3) show False by simp
    qed
    show "sm_sequence (last selected) = m_sequence (last (take (min n 32) ?rows))"
      using last_map_eq [OF eq assms(3)] .
  qed (use r len in auto)
qed

lemma claim_writes_members:
  assumes "inbox_ok d" "insert_batch (new_batch k session cutoff) d = Inr d1"
    and "insert_display k txt (assign_batch k session cutoff d1) = Inr d'"
  shows "members d' k = map (m_batch_update (\<lambda>_. Some k))
      (filter (\<lambda>m. m_sequence m \<le> cutoff) (queue_rows d session None))"
proof -
  note b = insert_batch_cases [OF assms(2)]
  have d1: "messages d1 = messages d" "removed d1 = removed d"
    by (simp_all add: b(1) removed_def fun_eq_iff)
  have other: "m_batch m \<noteq> Some k" if "m \<in> set (messages d)" for m
  proof
    assume k: "m_batch m = Some k"
    from assms(1) that have "assigned_ok d m" by (simp add: inbox_ok_def)
    with k b(2) show False by (auto simp: assigned_ok_def new_batch_def)
  qed
  have "messages d' = messages (assign_batch k session cutoff d1)"
    using assms(3) by (auto simp: insert_display_def split: if_splits)
  then have m: "messages d' = map (\<lambda>m. if m_session m = session \<and> m_batch m = None \<and> m_sequence m \<le> cutoff \<and> \<not> removed d m
      then m\<lparr>m_batch := Some k\<rparr> else m) (messages d)"
    by (simp add: assign_batch_def update_where_def d1)
  have "filter (\<lambda>m. m_batch m = Some k) (map (\<lambda>m. if m_session m = session \<and> m_batch m = None \<and> m_sequence m \<le> cutoff \<and> \<not> removed d m
      then m\<lparr>m_batch := Some k\<rparr> else m) ms) =
    map (m_batch_update (\<lambda>_. Some k)) (filter (\<lambda>m. m_sequence m \<le> cutoff)
      (filter (\<lambda>m. m_session m = session \<and> m_batch m = None \<and> \<not> removed d m) ms))"
    if "set ms \<subseteq> set (messages d)" for ms
    using that other by (induction ms) auto
  then show ?thesis
    by (simp add: members_def m queue_rows_eq(1) [OF assms(1)])
qed

lemma profile_of_frame: "profiles d' = profiles d \<Longrightarrow> profile_of d' = profile_of d"
  by (rule ext) (simp add: profile_of_def)

lemma find_session_frame: "sessions d' = sessions d \<Longrightarrow> find_session d' = find_session d"
  by (rule ext) (simp add: find_session_def)

lemma session_exists_frame: "sessions d' = sessions d \<Longrightarrow> session_exists d' = session_exists d"
  by (rule ext) (simp add: session_exists_def)

lemma closed_frame: "bridges d' = bridges d \<Longrightarrow> closed d' = closed d"
  by (rule ext) (simp add: closed_def)

lemma same_owner_frame:
  assumes "profiles d' = profiles d"
  shows "same_owner d' = same_owner d"
  by (intro ext) (simp add: same_owner_def profile_of_frame [OF assms] split: option.split)

lemma authorize_frame:
  assumes "sessions d' = sessions d" "bridges d' = bridges d"
  shows "authorize d' = authorize d"
  by (intro ext) (simp only: authorize_def session_exists_frame [OF assms(1)] closed_frame [OF assms(2)])

lemma read_message_frame:
  assumes "sources d' = sources d" "links d' = links d" "sessions d' = sessions d" "profiles d' = profiles d"
    "bridges d' = bridges d"
  shows "read_message d' session (m_batch_update f m) = read_message d session m"
proof -
  have "relay_source d' src target call chat = relay_source d src target call chat" for src target call chat
    unfolding relay_source_def authorize_frame [OF assms(3,5)] find_session_frame [OF assms(3)]
    by (rule rbind_cong) (simp_all add: same_owner_frame [OF assms(4)] assms(2) split: option.split)
  then have "relay_source d' = relay_source d" by (intro ext)
  then have "revalidate d' session src = revalidate d session src" for src
    by (simp add: revalidate_def)
  moreover have "source_of d' (m_batch_update f m) = source_of d m"
    by (simp add: source_of_def assms)
  ultimately show ?thesis
    by (simp add: read_message_def split: option.split)
qed

lemma rmap_map: "rmap f (map g xs) = rmap (\<lambda>x. f (g x)) xs"
  by (induction xs) simp_all

text \<open>What the writes of a fresh claim leave for the next claim to read.\<close>

lemma claim_again:
  assumes ok: "inbox_ok d" and none: "unsettled_batch d session = None"
    and auth: "authorize d session True = Inr ()" "authorized_child_messages d session" "\<not> paused_inbox d session"
    and w: "insert_batch (new_batch k session cutoff) d = Inr d1"
      "insert_display k txt (assign_batch k session cutoff d1) = Inr d'"
    and read: "rmap (read_message d session)
      (filter (\<lambda>m. m_sequence m \<le> cutoff) (queue_rows d session None)) = Inr selected" "length selected \<le> 32"
  shows "claim X fresh' session d' = (Inr (Some (claimed X k selected)), d')"
proof -
  note b = insert_batch_cases [OF w(1)]
  have d': "batches d' = batches d @ [new_batch k session cutoff]" "removals d' = removals d" "sessions d' = sessions d"
    "bridges d' = bridges d" "profiles d' = profiles d" "links d' = links d" "sources d' = sources d"
    "inboxes d' = inboxes d" "deliveries d' = deliveries d"
    using w(2) by (auto simp: insert_display_def assign_batch_def b(1) split: if_splits)
  have ok': "inbox_ok d'" using claim_writes_step [OF w] ok by (simp add: inbox_step_def)
  have mem: "members d' k = map (m_batch_update (\<lambda>_. Some k))
      (filter (\<lambda>m. m_sequence m \<le> cutoff) (queue_rows d session None))"
    by (rule claim_writes_members [OF ok w])
  have rem: "removed d' = removed d" by (rule ext) (simp add: removed_def d'(2))
  have sess: "m_session m = session \<and> \<not> removed d' m" if "m \<in> set (members d' k)" for m
    using that unfolding mem rem by (auto simp: queue_rows_eq(1) [OF ok] removed_def)
  have rows: "queue_rows d' session (Some k) = members d' k"
    unfolding queue_rows_eq(1) [OF ok'] using sess by (auto simp: members_def intro!: filter_cong)
  have "rmap (read_message d' session) (members d' k) = Inr selected"
    using read(1) read_message_frame [of d' d session] d' unfolding mem rmap_map by simp
  moreover have "length (members d' k) \<le> 32"
    using rmap_map_eq(2) [OF read(1), of sm_sequence m_sequence] read_message_sequence read(2) unfolding mem by simp
  ultimately have r: "read_messages d' session (Some k) = Inr selected"
    by (simp add: read_messages_def rows)
  have u: "unsettled_batch d' session = Some (new_batch k session cutoff)"
    using none by (simp add: unsettled_batch_def d'(1) new_batch_def)
  have a: "authorize d' session True = Inr ()"
    using auth(1) authorize_frame [OF d'(3,4)] by simp
  have p: "\<not> paused_inbox d' session" using auth(3) by (simp add: paused_inbox_def d')
  have "authorized_child_messages d' session"
  proof -
    have un': "evidence_unowned d' s m = evidence_unowned d s m" for s m
      by (simp add: evidence_unowned_def source_of_def d' find_session_frame [OF d'(3)]
          profile_of_frame [OF d'(5)] same_owner_frame [OF d'(5)] split: option.split)
    have un: "evidence_unowned d s (m_batch_update f m) = evidence_unowned d s m" for s f m
      by (simp add: evidence_unowned_def source_of_def)
    have keep: "exists_where (\<lambda>b. bt_id b = x \<and> bt_state b \<noteq> Consumed) (batches d') \<longleftrightarrow>
        exists_where (\<lambda>b. bt_id b = x \<and> bt_state b \<noteq> Consumed) (batches d) \<or> x = k" for x
      by (auto simp: d'(1) new_batch_def)
    define h where "h m = (if m_session m = session \<and> m_batch m = None \<and> m_sequence m \<le> cutoff \<and> \<not> removed d1 m
        then m_batch_update (\<lambda>_. Some k) m else m)" for m
    have msgs: "messages d' = map h (messages d)"
      using w(2) by (auto simp: insert_display_def assign_batch_def update_where_def b(1) h_def [abs_def] split: if_splits)
    have other: "m_batch m \<noteq> Some k" if "m \<in> set (messages d)" for m
    proof
      assume "m_batch m = Some k"
      moreover have "assigned_ok d m" using ok that by (simp add: inbox_ok_def)
      ultimately show False using b(2) by (auto simp: assigned_ok_def new_batch_def)
    qed
    define bad where "bad d m \<longleftrightarrow> m_session m = session \<and> exists_where (\<lambda>(_, q). q = m_sequence m) (deliveries d)
        \<and> \<not> removed d m
        \<and> (case m_batch m of None \<Rightarrow> True
             | Some k \<Rightarrow> exists_where (\<lambda>b. bt_id b = k \<and> bt_state b \<noteq> Consumed) (batches d))
        \<and> evidence_unowned d session m" for d m
    have "bad d m" if "m \<in> set (messages d)" "bad d' (h m)" for m
      using that other [OF that(1)]
      by (cases "m_batch m") (auto simp: bad_def h_def keep un un' d'(9) rem removed_def simp del: exists_where_iff
          split: if_splits)
    moreover have "authorized_child_messages e session \<longleftrightarrow> (\<forall>m \<in> set (messages e). \<not> bad e m)" for e
      unfolding authorized_child_messages_def bad_def exists_where_iff by blast
    ultimately show ?thesis
      using auth(2) by (force simp: msgs)
  qed
  with u a p r show ?thesis
    by (simp add: claim_def transact_def claim_in_transaction_def new_batch_def)
qed

text \<open>C4: A fresh claim takes the oldest pending messages of the session, in order and without a gap,
  at most 32 of them and at least one; and it is durable: claiming again after it returns exactly
  the same batch, prompt and display record, and changes nothing.\<close>

theorem claim_fifo_exact:
  assumes "inbox_ok d" "unsettled_batch d session = None"
    and "claim X fresh session d = (Inr (Some b), d')"
  shows "(\<exists>n \<le> 32. map m_sequence (members d' (cb_id b)) = map m_sequence (take n (queue_rows d session None))
      \<and> members d' (cb_id b) \<noteq> []) \<and>
    claim X fresh' session d' = (Inr (Some b), d')"
proof (cases rule: claim_cases [of X fresh session d])
  case (unchanged r)
  have "\<not> (\<exists>b. claim_in_transaction X fresh session d = Inr (Some b, d))"
    using assms(2)
    by (auto simp: claim_in_transaction_def claim_new_def Let_def insert_display_def insert_batch_def assign_batch_def
        dest: arg_cong [where f = "\<lambda>d. length (batches d)"] split: if_splits option.splits)
  with unchanged assms(3) show ?thesis by (auto simp: claim_def transact_eq_Inr)
next
  case (fresh pending selected d1 b' e)
  let ?k = "lit ''followup-'' @ fresh" and ?rows = "queue_rows d session None"
  from assms(3) fresh(11) have [simp]: "b' = b" "e = d'" by auto
  obtain n where n: "n \<le> 32" "take n ?rows \<noteq> []" "rmap (read_message d session) (take n ?rows) = Inr selected"
    "length selected = length (take n ?rows)" "sm_sequence (last selected) = m_sequence (last (take n ?rows))"
    using selected_rows [OF fresh(5,6,7)] by metis
  have upto: "filter (\<lambda>m. m_sequence m \<le> sm_sequence (last selected)) ?rows = take n ?rows"
    unfolding n(5) by (rule filter_upto_page [OF queue_rows_eq(2) [OF assms(1)] n(2)])
  have id: "cb_id b = ?k" using fresh(8) by (simp add: claimed_def)
  have mem: "members d' ?k = map (m_batch_update (\<lambda>_. Some ?k)) (take n ?rows)"
    using claim_writes_members [OF assms(1) fresh(9,10)] upto by simp
  have "claim X fresh' session d' = (Inr (Some (claimed X ?k selected)), d')"
    using claim_again [OF assms(1,2) fresh(2-4) fresh(9,10)] upto n(1,3,4) by simp
  then have "claim X fresh' session d' = (Inr (Some b), d')" using fresh(8) by simp
  with n(1,2) show ?thesis
    unfolding id mem by (auto simp: o_def intro!: exI [of _ n])
qed

definition queued :: "nat \<Rightarrow> ustring \<Rightarrow> ustring option \<Rightarrow> message_row" where
  "queued q mid batch = \<lparr>m_sequence = q, m_session = [1], m_message_id = mid, m_submitted_by = [3], m_received_at = 0,
     m_prompt = Some \<lparr>p_text = [65], p_attachments = []\<rparr>, m_display = [65], m_labels = [], m_digest = [],
     m_bytes = 1, m_batch = batch\<rparr>"

definition queued_world :: db where
  "queued_world = sample_db\<lparr>messages := [queued 1 [4] None], message_seq := 1\<rparr>"

lemmas id_simps = valid_id_def trim_def trim_end_def trim_start_def is_whitespace_def len_utf8_def

lemma preamble_small: "byte_len BATCH_PREAMBLE \<le> 16 * 1024"
proof -
  have "byte_len BATCH_PREAMBLE \<le> 4 * length BATCH_PREAMBLE" by (rule byte_len_le_4_length)
  also have "\<dots> \<le> 16 * 1024" by (simp add: BATCH_PREAMBLE_def)
  finally show ?thesis .
qed

lemma queued_world_ok: "inbox_ok queued_world" "unsettled_batch queued_world [1] = None"
  by (simp_all add: inbox_ok_def assigned_ok_def removed_def unsettled_batch_def queued_world_def queued_def
      message_key_def claim_simps)

lemma queued_world_pending: "\<exists>m. read_messages queued_world [1] None = Inr [m] \<and> p_text (sm_input m) = [65] \<and>
    p_attachments (sm_input m) = []"
  by (simp add: read_messages_def queue_rows_def read_message_def source_of_def removed_def queued_world_def queued_def
      sample_simps)

lemma sample_fits:
  "p_text (sm_input m) = [65] \<Longrightarrow> p_attachments (sm_input m) = [] \<Longrightarrow> bounded_prefix sample_ext [m] = [m]"
  using preamble_small byte_len_le_4_length [of "lit ''--- Follow-up ''"] byte_len_le_4_length [of "lit '' ---''"]
  by (simp add: bounded_prefix_def text_size_def header_def json_string_def sample_ext_def len_utf8_def Let_def)

lemma queued_world_claim: "\<exists>b d'. claim sample_ext [8] [1] queued_world = (Inr (Some b), d')"
proof -
  obtain m where m: "read_messages queued_world [1] None = Inr [m]" "bounded_prefix sample_ext [m] = [m]"
    using queued_world_pending sample_fits by blast
  have "authorize queued_world [1] True = Inr ()" "authorized_child_messages queued_world [1]"
    "\<not> paused_inbox queued_world [1]"
    by (simp_all add: authorize_def authorized_child_messages_def paused_inbox_def queued_world_def claim_simps id_simps)
  moreover have "session_exists queued_world [1]" "batches queued_world = []" "displays queued_world = []"
    by (simp_all add: queued_world_def claim_simps)
  ultimately show ?thesis
    using m queued_world_ok(2)
    by (simp add: claim_def transact_def claim_in_transaction_def claim_new_def insert_batch_def insert_display_def
        assign_batch_def Let_def new_batch_def)
qed

lemma claim_fifo_exact_witness:
  "\<exists>b d'. claim sample_ext [8] [1] queued_world = (Inr (Some b), d') \<and> members d' (cb_id b) \<noteq> [] \<and>
     claim sample_ext [9] [1] d' = (Inr (Some b), d')"
proof -
  obtain b d' where "claim sample_ext [8] [1] queued_world = (Inr (Some b), d')" using queued_world_claim by blast
  with claim_fifo_exact [OF queued_world_ok this] show ?thesis by blast
qed

end
