(* ===== verification/Coordination_Machine.thy ===== *)
theory Coordination_Machine
  imports Batch_Delivery
begin

text \<open>
  The stores together as one state machine: every committed operation of the session repository's
  coordination part, the report ledger, the relationship store and the follow-up inbox is one
  transition of \<open>coord_step\<close>, in any interleaving (each runs in its own IMMEDIATE transaction).
  Deletion of a session is a transition too; \<open>live_step\<close> leaves it out, for what only deletion ends.
\<close>

section \<open>Evidence admission as a step\<close>

lemma save_delivery_step: "save_delivery X e d = Inr d' \<Longrightarrow> inbox_step d d'"
  by (auto simp: save_delivery_def intro: insert_delivery_step split: option.splits)

lemma admit_event_cases:
  assumes "admit_event X e (f, d) = Inr (f', d')"
  obtains (skip) "f' = f" "d' = d"
  | (admit) d1 d2 where "f'"
      "admit_message X (ev_parent e) (event_message_id e) (event_prompt X e) (event_request X e)
         (sha256 X (utf8 (p_text (event_prompt X e)))) d = Inr d1"
      "save_source X (ev_parent e) (event_message_id e) (evidence_source (ev_child e) (ev_title e) (ev_state e)) d1 = Inr d2"
      "save_delivery X e (set_display (ev_parent e) (event_message_id e)
         (evidence_display X (ev_report e) (ev_body e)) d2) = Inr d'"
  using assms by (auto simp: admit_event_def split: sum.splits if_splits)

lemma admit_event_step: "admit_event X e (f, d) = Inr (f', d') \<Longrightarrow> inbox_step d d'"
proof (erule admit_event_cases)
  fix d1 d2
  assume a: "admit_message X (ev_parent e) (event_message_id e) (event_prompt X e) (event_request X e)
         (sha256 X (utf8 (p_text (event_prompt X e)))) d = Inr d1"
    and s: "save_source X (ev_parent e) (event_message_id e) (evidence_source (ev_child e) (ev_title e) (ev_state e)) d1 = Inr d2"
    and v: "save_delivery X e (set_display (ev_parent e) (event_message_id e)
         (evidence_display X (ev_report e) (ev_body e)) d2) = Inr d'"
  from save_source_step [OF s] have s': "inbox_step d1 d2" "messages d2 = messages d1" by auto
  with admit_message_fresh(1) [OF a] have "inbox_step d2 (set_display (ev_parent e) (event_message_id e)
         (evidence_display X (ev_report e) (ev_body e)) d2)"
    by (intro set_display_step) simp
  with admit_message_step [OF a] s'(1) save_delivery_step [OF v] show "inbox_step d d'"
    by (blast intro: inbox_step_trans)
qed simp

lemma admit_events_step: "admit_events X es (f, d) = Inr (f', d') \<Longrightarrow> inbox_step d d'"
proof (induction es arbitrary: f d)
  case (Cons e es)
  then obtain f1 d1 where "admit_event X e (f, d) = Inr (f1, d1)" "admit_events X es (f1, d1) = Inr (f', d')"
    by auto
  with Cons.IH admit_event_step show ?case by (blast intro: inbox_step_trans)
qed simp

lemma admit_child_events_step: "inbox_step d (snd (admit_child_events X d))"
  by (rule transact_cases [of "\<lambda>d. admit_events X (pending_events d) (False, d)" d])
    (auto simp: admit_child_events_def intro: admit_events_step)

section \<open>At most one message for each report\<close>

definition deliveries_ok :: "db \<Rightarrow> bool" where
  "deliveries_ok d \<longleftrightarrow> distinct (map fst (deliveries d)) \<and> distinct (map snd (deliveries d))"

lemma insert_delivery_ok:
  assumes "insert_delivery r q d = Inr d'" "deliveries_ok d"
  shows "deliveries_ok d'"
proof -
  have "r \<notin> fst ` set (deliveries d)" "q \<notin> snd ` set (deliveries d)"
    and d': "d' = d\<lparr>deliveries := deliveries d @ [(r, q)]\<rparr>"
    using assms(1) by (force simp: insert_delivery_def split: if_splits)+
  then show ?thesis using assms(2) by (simp add: deliveries_ok_def)
qed

definition delivered :: "db \<Rightarrow> nat \<Rightarrow> bool" where
  "delivered d r \<longleftrightarrow> r \<in> fst ` set (deliveries d)"

lemma save_source_deliveries: "save_source X s mid src d = Inr d' \<Longrightarrow> deliveries d' = deliveries d \<and> messages d' = messages d"
  by (auto simp: save_source_def insert_source_def split: option.splits if_splits)

lemma save_delivery_known:
  assumes "save_delivery X e d = Inr d'" "find_message d (ev_parent e) (event_message_id e) = Some m"
  shows "deliveries d' = deliveries d @ [(ev_sequence e, m_sequence m)] \<and> \<not> delivered d (ev_sequence e)
    \<and> messages d' = messages d"
  using assms by (force simp: save_delivery_def insert_delivery_def delivered_def split: if_splits)

lemma find_message_set_display:
  "find_message (set_display s mid txt d) s' mid' = map_option
     (\<lambda>m. if m_session m = s \<and> m_message_id m = mid then m_display_update (\<lambda>_. txt) m else m)
     (find_message d s' mid')"
proof -
  have "List.find (\<lambda>m. m_session m = s' \<and> m_message_id m = mid')
      (update_where (\<lambda>m. m_session m = s \<and> m_message_id m = mid) (m_display_update (\<lambda>_. txt)) ms) =
    map_option (\<lambda>m. if m_session m = s \<and> m_message_id m = mid then m_display_update (\<lambda>_. txt) m else m)
      (List.find (\<lambda>m. m_session m = s' \<and> m_message_id m = mid') ms)" for ms
    by (induction ms) auto
  then show ?thesis by (simp add: find_message_def set_display_def)
qed

lemma admit_message_found:
  assumes "admit_message X s mid p req dig d = Inr d'"
  shows "\<exists>bytes. find_message d' s mid = Some (new_message s mid p req dig bytes (message_seq d + 1))"
proof -
  from assms obtain bytes where "d' = d\<lparr>messages := messages d @ [new_message s mid p req dig bytes (message_seq d + 1)],
            message_seq := message_seq d + 1\<rparr>" "find_message d s mid = None"
    by (rule admit_message_cases)
  then show ?thesis by (auto simp: find_message_def)
qed

text \<open>An admitted event was undelivered before and is delivered after, and adds one message.\<close>

lemma admit_event_delivers:
  assumes "admit_event X e (f, d) = Inr (f', d')"
  shows "d' = d \<and> f' = f \<or> \<not> delivered d (ev_sequence e) \<and> f' \<and>
    deliveries d' = deliveries d @ [(ev_sequence e, message_seq d + 1)] \<and>
    length (messages d') = length (messages d) + 1"
  using assms
proof (cases rule: admit_event_cases)
  case (admit d1 d2)
  from save_source_deliveries [OF admit(3)] have s: "deliveries d2 = deliveries d1" "messages d2 = messages d1" by auto
  obtain bytes where f: "find_message d1 (ev_parent e) (event_message_id e) =
      Some (new_message (ev_parent e) (event_message_id e) (event_prompt X e) (event_request X e)
        (sha256 X (utf8 (p_text (event_prompt X e)))) bytes (message_seq d + 1))"
    using admit_message_found [OF admit(2)] by blast
  then have "find_message d2 (ev_parent e) (event_message_id e) = find_message d1 (ev_parent e) (event_message_id e)"
    by (simp add: find_message_def s)
  with f have "\<exists>m. find_message (set_display (ev_parent e) (event_message_id e)
         (evidence_display X (ev_report e) (ev_body e)) d2) (ev_parent e) (event_message_id e) = Some m \<and>
         m_sequence m = message_seq d + 1"
    by (simp add: find_message_set_display)
  with save_delivery_known [OF admit(4)] s admit_message_fresh(3) [OF admit(2)]
  have "deliveries d' = deliveries d @ [(ev_sequence e, message_seq d + 1)]" "\<not> delivered d (ev_sequence e)"
    "length (messages d') = length (messages d1)"
    by (auto simp: delivered_def set_display_def)
  moreover have "length (messages d1) = length (messages d) + 1"
    using admit(2) by (rule admit_message_cases) simp
  ultimately show ?thesis using admit(1) by simp
qed simp

section \<open>Steps of the other stores\<close>

lemma link_inbox: "link_in_transaction X clock parent child d = Inr d' \<Longrightarrow> inbox_step d d'"
  by (auto simp: link_in_transaction_def intro: insert_link_inbox split: if_splits option.splits)

lemma insert_report_inbox: "insert_report row d = Inr d' \<Longrightarrow> inbox_step d d'"
  by (rule inbox_step_frame) (auto simp: insert_report_def Let_def split: if_splits)

lemma publish_inbox: "publish_in_transaction X child rid st body now_ms d = Inr d' \<Longrightarrow> inbox_step d d'"
  by (auto simp: publish_in_transaction_def intro: insert_report_inbox split: if_splits option.splits)

lemma report_step_inbox: "inbox_step d (snd (report_step X r d))"
proof (cases rule: execute_report_cases [of X r d])
  case (mutate child d1 g d')
  have "inbox_step d d1"
    using mutate(6) by (rule run_report_command_cases) (auto intro: link_inbox publish_inbox)
  moreover have "inbox_step d1 d'"
    by (rule inbox_step_frame) (simp_all add: mutate(7))
  ultimately show ?thesis using mutate(8) by (auto intro: inbox_step_trans)
qed auto

lemma reparent_inbox: "inbox_step d (snd (reparent X clock cmd key ro now_ms auth d))"
proof (cases rule: reparent_cases [of X clock cmd key ro now_ms auth d])
  case (mutate r d1 enc)
  have "inbox_step d d1"
    using apply_reparent_guards(9) [OF mutate(7)]
    by (cases "rp_transfer r") (auto intro: link_inbox set_parent_inbox)
  moreover have "inbox_step d1 (d1\<lparr>transitions := transitions d @ [new_transition key (sha256 X enc) r now_ms]\<rparr>)"
    by (rule inbox_step_frame) simp_all
  ultimately show ?thesis using mutate(8) by (auto intro: inbox_step_trans)
qed auto

lemma record_question_steps:
  "inbox_step d (snd (record_question X (\<lambda>d. d) child q now_ms d)) \<and>
   relation_step d (snd (record_question X (\<lambda>d. d) child q now_ms d))"
proof -
  have r: "relation_step d e" if "insert_report row d = Inr e" for row e
    using that by (intro relation_step_frame) (auto simp: insert_report_def Let_def split: if_splits)
  show ?thesis
    by (auto simp: record_question_def Let_def intro: insert_report_inbox r split: sum.splits)
qed

lemma update_last_turn_steps:
  "inbox_step d (snd (update_last_turn X now i t d)) \<and> relation_step d (snd (update_last_turn X now i t d))"
proof (cases "update_last_turn X now i t d")
  case (Pair res d')
  show ?thesis
  proof (cases res)
    case (Inl e)
    with Pair have "d' = d" by (auto simp: update_last_turn_def transact_eq_Inl)
    with Pair show ?thesis by simp
  next
    case (Inr u)
    with Pair have u: "update_last_turn X now i t d = (Inr (), d')" by simp
    note c = update_last_turn_cases [OF u]
    show ?thesis unfolding u using c(3,4,6) by (auto intro: inbox_step_frame relation_step_frame)
  qed
qed

lemma hold_frame: "hold_child_deletion now i parent d = (r, d') \<Longrightarrow>
    d' = d \<or> (\<exists>h. d' = d\<lparr>holds := h\<rparr>)"
  by (auto simp: hold_child_deletion_def transact_def upsert_hold_def Let_def split: if_splits)

lemma bind_frame: "bind_session_skill_profile sid p d = (r, d') \<Longrightarrow> d' = d \<or> (\<exists>ps. d' = d\<lparr>profiles := ps\<rparr>)"
  by (auto simp: bind_session_skill_profile_def split: option.splits if_splits)

section \<open>What every operation keeps\<close>

definition coord_keeps :: "db \<Rightarrow> db \<Rightarrow> bool" where
  "coord_keeps d d' \<longleftrightarrow> relation_step d d' \<and> inbox_step d d' \<and> reports_grow d d' \<and>
     (deliveries_ok d \<longrightarrow> deliveries_ok d')"

lemma coord_keeps_refl [simp, intro]: "coord_keeps d d"
  by (simp add: coord_keeps_def)

lemma coord_keeps_trans: "coord_keeps d e \<Longrightarrow> coord_keeps e f \<Longrightarrow> coord_keeps d f"
  unfolding coord_keeps_def using relation_step_trans inbox_step_trans reports_grow_trans by blast

text \<open>Operations of the inbox that leave the ledger, the relationships, the receipts and the record of
  deliveries alone.\<close>

definition inbox_only :: "db \<Rightarrow> db \<Rightarrow> bool" where
  "inbox_only d d' \<longleftrightarrow> links d' = links d \<and> revisions d' = revisions d \<and> reports d' = reports d \<and>
     report_seq d' = report_seq d \<and> deliveries d' = deliveries d \<and> receipts d' = receipts d \<and>
     sessions d' = sessions d \<and> holds d' = holds d"

lemma inbox_only_refl [simp]: "inbox_only d d"
  by (simp add: inbox_only_def)

lemma inbox_only_trans: "inbox_only d e \<Longrightarrow> inbox_only e f \<Longrightarrow> inbox_only d f"
  by (simp add: inbox_only_def)

lemma linked_frame: "links d' = links d \<Longrightarrow> linked d' = linked d"
  by (rule ext) (simp add: linked_def)

lemma keeps_frame:
  assumes "links d' = links d" "revisions d' = revisions d" "reports d' = reports d" "report_seq d' = report_seq d"
    "deliveries d' = deliveries d" "inbox_step d d'"
  shows "coord_keeps d d'"
  unfolding coord_keeps_def deliveries_ok_def assms(5)
  using relation_step_frame [OF assms(1,2)] assms(6)
    reports_grow_frame [OF assms(3,4)] linked_frame [OF assms(1)] by simp

lemma inbox_only_keeps: "inbox_only d d' \<Longrightarrow> inbox_step d d' \<Longrightarrow> coord_keeps d d'"
  unfolding inbox_only_def by (elim conjE) (rule keeps_frame)

lemma admit_message_only: "admit_message X s mid p req dig d = Inr d' \<Longrightarrow> inbox_only d d'"
  by (erule admit_message_cases) (simp add: inbox_only_def)

lemma save_source_only: "save_source X s mid src d = Inr d' \<Longrightarrow> inbox_only d d'"
  by (auto simp: save_source_def insert_source_def inbox_only_def split: option.splits if_splits)

lemma set_display_only: "inbox_only d (set_display s mid txt d)"
  by (simp add: set_display_def inbox_only_def)

lemma remove_pending_only: "remove_pending s mid d = Inr d' \<Longrightarrow> inbox_only d d'"
  by (auto simp: remove_pending_def inbox_only_def split: option.splits if_splits)

lemma set_followup_paused_only: "set_followup_paused s p d = Inr d' \<Longrightarrow> inbox_only d d'"
  by (auto simp: set_followup_paused_def upsert_inbox_def Let_def inbox_only_def split: if_splits)

lemma linked_keys: "linked d c \<longleftrightarrow> c \<in> set (map l_child (links d))"
  by (auto simp: linked_def)

lemma set_parent_linked: "set_parent clock c p d = Inr d' \<Longrightarrow> linked d' = linked d"
proof -
  assume "set_parent clock c p d = Inr d'"
  then have "map l_child (links d') = map l_child (links d)"
    by (auto simp: set_parent_def map_update_where_key split: if_splits option.splits)
  then show ?thesis by (intro ext) (simp only: linked_keys)
qed

lemma insert_link_linked: "insert_link clock l d = Inr d' \<Longrightarrow> linked d c \<Longrightarrow> linked d' c"
  by (auto simp: insert_link_def linked_def split: if_splits)

lemma insert_link_rest: "insert_link clock l d = Inr d' \<Longrightarrow>
    reports d' = reports d \<and> report_seq d' = report_seq d \<and> deliveries d' = deliveries d \<and> receipts d' = receipts d
    \<and> messages d' = messages d \<and> sessions d' = sessions d"
  by (auto simp: insert_link_def split: if_splits)

lemma set_parent_rest: "set_parent clock c p d = Inr d' \<Longrightarrow>
    reports d' = reports d \<and> report_seq d' = report_seq d \<and> deliveries d' = deliveries d \<and> receipts d' = receipts d
    \<and> messages d' = messages d \<and> sessions d' = sessions d"
  by (auto simp: set_parent_def split: if_splits option.splits)

lemma adopt_cases:
  assumes "adopt X clock chat agent d = Inr d'"
  obtains (same) "d' = d"
  | (transfer) "set_parent clock agent chat d = Inr d'"
  | (claim) l where "insert_link clock l d = Inr d'" "l_child l = agent"
  using assms by (auto simp: adopt_def Let_def split: if_splits option.splits intro: that)

lemma adopt_frame: "adopt X clock chat agent d = Inr d' \<Longrightarrow>
    reports d' = reports d \<and> report_seq d' = report_seq d \<and> deliveries d' = deliveries d \<and> receipts d' = receipts d
    \<and> messages d' = messages d \<and> sessions d' = sessions d"
  by (erule adopt_cases) (simp, erule set_parent_rest, erule insert_link_rest)

lemma adopt_linked: "adopt X clock chat agent d = Inr d' \<Longrightarrow> linked d c \<Longrightarrow> linked d' c"
  by (erule adopt_cases) (simp, simp add: set_parent_linked, erule insert_link_linked)

lemma adopt_keeps:
  assumes "adopt X clock chat agent d = Inr d'"
  shows "coord_keeps d d'"
  unfolding coord_keeps_def deliveries_ok_def
  using adopt_frame [OF assms] adopt_step [OF assms] adopt_inbox [OF assms] adopt_linked [OF assms]
  by (simp add: reports_grow_frame)

text \<open>A new message's way into the inbox: the row, its provenance, the adoption it may trigger.\<close>

lemma admit_followup_parts:
  assumes "admit_followup X clock req dig materialize auth session mid p d = Inr d'"
  obtains (known) "d' = d" "message_exists d session mid dig = Inr True"
  | (plain) p' where "admit_message X session mid p' req dig d = Inr d'" "materialize p = Inr p'"
      "authenticate_source d (ir_command req) auth = Inr None" "authorize d session True = Inr ()"
  | (relayed) p' s d1 d2 where "admit_message X session mid p' req dig d = Inr d1" "materialize p = Inr p'"
      "authenticate_source d (ir_command req) auth = Inr (Some s)" "save_source X session mid s d1 = Inr d2"
      "authorize d session True = Inr ()"
      "if src_owner_chat s then adopt X clock (src_session s) session d2 = Inr d' else d' = d2"
proof (cases "message_exists d session mid dig")
  case (Inl e)
  then show thesis using assms by (simp add: admit_followup_def)
next
  case (Inr k)
  show thesis
  proof (cases k)
    case True
    then show thesis using known Inr assms by (auto simp: admit_followup_def)
  next
    case False
    then obtain src p' d1 where a: "authenticate_source d (ir_command req) auth = Inr src" "materialize p = Inr p'"
      "admit_message X session mid p' req dig d = Inr d1" "authorize d session True = Inr ()"
      and r: "(case src of None \<Rightarrow> Inr d1 | Some s \<Rightarrow>
               rbind (save_source X session mid s d1) (\<lambda>d2.
                 if src_owner_chat s then adopt X clock (src_session s) session d2 else Inr d2)) = Inr d'"
      using assms Inr by (auto simp: admit_followup_def)
    show thesis
    proof (cases src)
      case None
      then show thesis using plain a r by auto
    next
      case (Some s)
      then obtain d2 where "save_source X session mid s d1 = Inr d2"
        "(if src_owner_chat s then adopt X clock (src_session s) session d2 else Inr d2) = Inr d'"
        using r by auto
      with relayed [OF a(3,2)] a Some show thesis by (auto split: if_splits)
    qed
  qed
qed

lemma admit_message_keeps: "admit_message X s mid p req dig d = Inr d' \<Longrightarrow> coord_keeps d d'"
  by (blast intro: inbox_only_keeps admit_message_only admit_message_step)

lemma save_source_keeps: "save_source X s mid src d = Inr d' \<Longrightarrow> coord_keeps d d'"
  by (blast intro: inbox_only_keeps save_source_only dest: save_source_step)

lemma admit_followup_keeps:
  assumes "admit_followup X clock req dig materialize auth session mid p d = Inr d'"
  shows "coord_keeps d d'"
  using assms
proof (cases rule: admit_followup_parts)
  case (relayed p' s d1 d2)
  then have "coord_keeps d2 d'" by (auto intro: adopt_keeps split: if_splits)
  with relayed(1,4) show ?thesis
    by (blast intro: coord_keeps_trans admit_message_keeps save_source_keeps)
qed (auto intro: admit_message_keeps)

lemma admit_external_keeps:
  assumes "admit_external_report X req dig session mid child title report st body d = Inr d'"
  shows "coord_keeps d d'"
proof (rule inbox_only_keeps)
  show "inbox_only d d'"
    using assms
    by (auto simp: admit_external_report_def dest!: admit_message_only save_source_only
        intro: inbox_only_trans set_display_only split: if_splits)
qed (rule admit_external_step [OF assms])

lemma run_inbox_command_keeps:
  "run_inbox_command X clock req dig materialize auth d = Inr (r, d') \<Longrightarrow> coord_keeps d d'"
  by (auto simp: run_inbox_command_def
      intro: admit_followup_keeps admit_external_keeps inbox_only_keeps remove_pending_step remove_pending_only
        set_followup_paused_step set_followup_paused_only
      split: command.splits)

lemma insert_receipt_keeps: "insert_receipt r d = Inr d' \<Longrightarrow> coord_keeps d d'"
  by (rule keeps_frame) (auto simp: insert_receipt_def intro: insert_receipt_inbox split: if_splits)

lemma execute_keeps: "coord_keeps d (snd (execute_authenticated X clock req materialize auth d))"
  by (cases rule: execute_inbox_cases [of X clock req materialize auth d])
    (auto intro: coord_keeps_trans [OF run_inbox_command_keeps insert_receipt_keeps])

end
