(* ===== verification/Reachable_States.thy ===== *)
theory Reachable_States
  imports Coordination_Machine
begin

text \<open>
  The stores together as one state machine.  \<open>live_step\<close> is the commit of one operation of the
  coordination stores, in any order and with any arguments: each runs in an IMMEDIATE transaction or
  is a single statement, so concurrent callers are a sequence of these steps.  \<open>coord_step\<close> adds the
  deletion of a session.  Every state reachable from the empty database satisfies \<open>coord_ok\<close>.
\<close>

section \<open>The remaining operations keep the invariants\<close>

lemma report_keeps: "coord_keeps d (snd (report_step X r d))"
proof -
  have "deliveries (snd (report_step X r d)) = deliveries d"
  proof (cases rule: execute_report_cases [of X r d])
    case (mutate child d1 g d')
    have "deliveries d1 = deliveries d"
      using mutate(6)
    proof (cases rule: run_report_command_cases)
      case (1 parent)
      then show ?thesis
        by (auto simp: link_in_transaction_def dest: insert_link_rest split: if_splits option.splits)
    qed (auto simp: publish_in_transaction_def insert_report_def Let_def split: if_splits option.splits)
    with mutate(7,8) show ?thesis by simp
  qed auto
  then show ?thesis
    using report_relations.rel_step report_growth.rel_step report_step_inbox
    by (auto simp: coord_keeps_def deliveries_ok_def)
qed

lemma insert_report_keeps:
  assumes "insert_report row d = Inr d'" "\<And>q. r_sequence (row q) = q"
  shows "coord_keeps d d'"
  using insert_report_inbox [OF assms(1)] insert_report_grow [OF assms]
    relation_step_frame [of d' d] assms(1)
  by (auto simp: coord_keeps_def deliveries_ok_def insert_report_def Let_def split: if_splits)

lemma question_keeps: "coord_keeps d (snd (record_question X (\<lambda>d. d) child q now_ms d))"
  by (auto simp: record_question_def Let_def new_report_def intro: insert_report_keeps split: sum.splits)

lemma transact_keeps:
  assumes "\<And>a d'. f d = Inr (a, d') \<Longrightarrow> coord_keeps d d'"
  shows "coord_keeps d (snd (transact f d))"
  using assms by (cases "f d") (auto simp: transact_def)

lemma reparent_keeps: "coord_keeps d (snd (reparent X clock cmd key ro now_ms auth d))"
proof -
  let ?d' = "snd (reparent X clock cmd key ro now_ms auth d)"
  have "deliveries ?d' = deliveries d \<and> reports_grow d ?d'"
  proof (cases rule: reparent_cases [of X clock cmd key ro now_ms auth d])
    case (mutate r d1 enc)
    have "deliveries d1 = deliveries d \<and> reports_grow d d1"
    proof (cases "rp_transfer r")
      case True
      then have s: "set_parent clock (rp_child r) (rp_parent r) d = Inr d1"
        using apply_reparent_guards(9) [OF mutate(7)] by simp
      from set_parent_rest [OF s] set_parent_linked [OF s] show ?thesis by (simp add: reports_grow_frame)
    next
      case False
      then have s: "link_in_transaction X clock (rp_parent r) (rp_child r) d = Inr d1"
        using apply_reparent_guards(9) [OF mutate(7)] by simp
      from link_grow [OF s] s show ?thesis
        by (auto simp: link_in_transaction_def dest: insert_link_rest split: if_splits option.splits)
    qed
    moreover have "reports_grow d1 (d1\<lparr>transitions := t\<rparr>)" for t
      by (rule reports_grow_frame) (simp_all add: linked_def)
    ultimately show ?thesis using mutate(8) by (auto intro: reports_grow_trans)
  qed auto
  then show ?thesis
    using reparent_relation_step [of d X clock cmd key ro now_ms auth]
      reparent_inbox [of d X clock cmd key ro now_ms auth]
    by (auto simp: coord_keeps_def deliveries_ok_def)
qed

lemma update_last_turn_keeps: "coord_keeps d (snd (update_last_turn X now i t d))"
proof (cases "session_exists d i")
  case False
  then show ?thesis by (simp add: update_last_turn_def transact_def)
next
  case True
  then show ?thesis
  proof (rule update_last_turn_body [of d i X now t])
    fix d2
    assume f: "links d2 = links d" "revisions d2 = revisions d" "reports d2 = reports d" "report_seq d2 = report_seq d"
        "messages d2 = messages d \<and> message_seq d2 = message_seq d \<and> batches d2 = batches d \<and> removals d2 = removals d
        \<and> sources d2 = sources d \<and> deliveries d2 = deliveries d"
      and u: "update_last_turn X now i t d =
        (if linked d i \<and> find_report d i (turn_report_id t) = None
         then (case insert_report (turn_report X now i t) d2 of
                 Inl f \<Rightarrow> (Inl (Database f), d) | Inr d3 \<Rightarrow> (Inr (), d3))
         else (Inr (), d2))"
    have d2: "coord_keeps d d2"
      using f by (intro keeps_frame inbox_step_frame) simp_all
    show ?thesis
      unfolding u using d2
      by (auto simp: turn_report_def new_report_def intro: coord_keeps_trans [OF d2 insert_report_keeps] split: sum.split)
  qed
qed

lemma inert_keeps:
  assumes "d' = d\<lparr>sessions := ss, profiles := ps, bridges := bs, holds := hs\<rparr>"
  shows "coord_keeps d d'"
  using assms by (intro keeps_frame inbox_step_frame) simp_all

lemma hold_keeps: "coord_keeps d (snd (hold_child_deletion now i parent d))"
  using hold_frame [of now i parent d] by (cases "hold_child_deletion now i parent d")
    (auto intro!: keeps_frame inbox_step_frame)

lemma bind_keeps: "coord_keeps d (snd (bind_session_skill_profile sid p d))"
  using bind_frame [of sid p d] by (cases "bind_session_skill_profile sid p d")
    (auto intro!: keeps_frame inbox_step_frame)

lemma release_keeps: "coord_keeps d (release_child_deletion_hold i d)"
  unfolding release_child_deletion_hold_def by (intro keeps_frame inbox_step_frame) simp_all

lemma save_delivery_cases:
  assumes "save_delivery X e d = Inr d'"
  obtains "d' = d" | q where "insert_delivery (ev_sequence e) q d = Inr d'"
  using assms by (auto simp: save_delivery_def split: option.splits)

lemma save_delivery_keeps:
  assumes "save_delivery X e d = Inr d'"
  shows "coord_keeps d d'"
  using assms
proof (cases rule: save_delivery_cases)
  case (2 q)
  have "deliveries_ok d \<longrightarrow> deliveries_ok d'" using insert_delivery_ok [OF 2] by blast
  moreover have "links d' = links d" "revisions d' = revisions d" "reports d' = reports d" "report_seq d' = report_seq d"
    using 2 by (auto simp: insert_delivery_def split: if_splits)
  ultimately show ?thesis
    using save_delivery_step [OF assms]
    by (auto simp: coord_keeps_def linked_frame [of d' d] intro: relation_step_frame reports_grow_frame)
qed simp

lemma admit_event_keeps: "admit_event X e (f, d) = Inr (f', d') \<Longrightarrow> coord_keeps d d'"
proof (erule admit_event_cases)
  fix d1 d2
  assume a: "admit_message X (ev_parent e) (event_message_id e) (event_prompt X e) (event_request X e)
         (sha256 X (utf8 (p_text (event_prompt X e)))) d = Inr d1"
    and s: "save_source X (ev_parent e) (event_message_id e) (evidence_source (ev_child e) (ev_title e) (ev_state e)) d1 = Inr d2"
    and v: "save_delivery X e (set_display (ev_parent e) (event_message_id e)
         (evidence_display X (ev_report e) (ev_body e)) d2) = Inr d'"
  from save_source_step [OF s] have "messages d2 = messages d1" by auto
  with admit_message_fresh(1) [OF a] have "coord_keeps d2 (set_display (ev_parent e) (event_message_id e)
         (evidence_display X (ev_report e) (ev_body e)) d2)"
    by (intro inbox_only_keeps set_display_only set_display_step) simp
  with admit_message_keeps [OF a] save_source_keeps [OF s] save_delivery_keeps [OF v] show "coord_keeps d d'"
    by (blast intro: coord_keeps_trans)
qed simp

lemma admit_events_keeps: "admit_events X es (f, d) = Inr (f', d') \<Longrightarrow> coord_keeps d d'"
proof (induction es arbitrary: f d)
  case (Cons e es)
  then obtain f1 d1 where "admit_event X e (f, d) = Inr (f1, d1)" "admit_events X es (f1, d1) = Inr (f', d')"
    by auto
  with Cons.IH admit_event_keeps show ?case by (blast intro: coord_keeps_trans)
qed simp

lemma evidence_keeps: "coord_keeps d (snd (admit_child_events X d))"
  unfolding admit_child_events_def by (rule transact_keeps) (rule admit_events_keeps)

lemma claim_keeps: "coord_keeps d (snd (claim X fresh session d))"
proof (rule inbox_only_keeps [OF _ claim_step])
  show "inbox_only d (snd (claim X fresh session d))"
  proof (cases rule: claim_cases [of X fresh session d])
    case (fresh pending selected d1 b d')
    have "inbox_only d d1"
      using fresh(9) by (auto simp: insert_batch_def inbox_only_def split: if_splits)
    moreover have "inbox_only d1 d'"
      using fresh(10) by (auto simp: insert_display_def assign_batch_def inbox_only_def split: if_splits)
    ultimately show ?thesis using fresh(11) by (auto intro: inbox_only_trans)
  qed simp
qed

lemma fence_keeps: "coord_keeps d (snd (fence_dispatch session batch d))"
  by (rule inbox_only_keeps [OF _ fence_step]) (simp add: fence_dispatch_def inbox_only_def)

lemma observe_keeps: "coord_keeps d (snd (observe_accepted session batch turn d))"
  by (rule inbox_only_keeps [OF _ observe_step]) (simp add: observe_accepted_def inbox_only_def)

lemma acknowledge_keeps: "coord_keeps d (acknowledge session turn d)"
  by (rule inbox_only_keeps [OF _ acknowledge_step]) (simp add: acknowledge_def inbox_only_def)

lemma block_keeps: "coord_keeps d (block batch reason d)"
  by (rule inbox_only_keeps [OF _ block_step]) (simp add: block_def inbox_only_def)

lemma pause_keeps: "coord_keeps d (pause session d)"
  by (rule inbox_only_keeps [OF _ pause_step]) (simp add: pause_def upsert_inbox_def inbox_only_def)

lemmas store_keeps = report_keeps question_keeps reparent_keeps update_last_turn_keeps hold_keeps bind_keeps
  release_keeps evidence_keeps execute_keeps claim_keeps fence_keeps observe_keeps acknowledge_keeps block_keeps
  pause_keeps

section \<open>The machine\<close>

text \<open>\<open>live_bridge\<close> stands for the bridge lifecycle of the session repository, which these stores only
  read; \<open>live_open\<close> for the insertion of a session row.\<close>

inductive live_step :: "ext \<Rightarrow> db \<Rightarrow> db \<Rightarrow> bool" for X :: ext where
  live_open: "\<not> session_exists d (s_id s) \<Longrightarrow> live_step X d (d\<lparr>sessions := sessions d @ [s]\<rparr>)"
| live_bridge: "live_step X d (d\<lparr>bridges := bs\<rparr>)"
| live_bind: "live_step X d (snd (bind_session_skill_profile sid p d))"
| live_report: "live_step X d (snd (report_step X r d))"
| live_question: "live_step X d (snd (record_question X (\<lambda>d. d) child q now_ms d))"
| live_reparent: "live_step X d (snd (reparent X clock cmd key ro now_ms auth d))"
| live_turn: "live_step X d (snd (update_last_turn X now i t d))"
| live_hold: "live_step X d (snd (hold_child_deletion now i parent d))"
| live_release: "live_step X d (release_child_deletion_hold i d)"
| live_evidence: "live_step X d (snd (admit_child_events X d))"
| live_command: "live_step X d (snd (execute_authenticated X clock req materialize auth d))"
| live_claim: "live_step X d (snd (claim X fresh session d))"
| live_fence: "live_step X d (snd (fence_dispatch session batch d))"
| live_accepted: "live_step X d (snd (observe_accepted session batch turn d))"
| live_acknowledge: "live_step X d (acknowledge session turn d)"
| live_block: "live_step X d (block batch reason d)"
| live_pause: "live_step X d (pause session d)"

inductive coord_step :: "ext \<Rightarrow> db \<Rightarrow> db \<Rightarrow> bool" for X :: ext where
  coord_live: "live_step X d d' \<Longrightarrow> coord_step X d d'"
| coord_delete: "coord_step X d (snd (delete_guarded (\<lambda>d. d) clock now i guard d))"

inductive_cases coord_stepE: "coord_step X d d'"

lemma live_keeps: "live_step X d d' \<Longrightarrow> coord_keeps d d'"
proof (induction rule: live_step.induct)
  case (live_open d s)
  show ?case by (rule inert_keeps [where ss = "sessions d @ [s]" and ps = "profiles d" and bs = "bridges d" and hs = "holds d"]) simp
next
  case (live_bridge d bs)
  show ?case by (rule inert_keeps [where ss = "sessions d" and ps = "profiles d" and bs = bs and hs = "holds d"]) simp
qed (rule store_keeps)+

lemma live_run_keeps: "(live_step X)\<^sup>*\<^sup>* d d' \<Longrightarrow> coord_keeps d d'"
  by (induction rule: rtranclp_induct) (auto intro: coord_keeps_trans live_keeps)

section \<open>The invariant of every reachable state\<close>

definition coord_ok :: "db \<Rightarrow> bool" where
  "coord_ok d \<longleftrightarrow> forest d \<and> inbox_ok d \<and> report_table d \<and> deliveries_ok d"

lemma coord_ok_keeps: "coord_keeps d d' \<Longrightarrow> coord_ok d \<Longrightarrow> coord_ok d'"
  by (auto simp: coord_keeps_def coord_ok_def relation_step_def inbox_step_def reports_grow_def)

section \<open>Deletion\<close>

lemma sorted_wrt_delete: "sorted_wrt R (map k xs) \<Longrightarrow> sorted_wrt R (map k (delete_where P xs))"
  unfolding delete_where_def by (simp add: sorted_wrt_map sorted_wrt_filter)

lemma delete_session_inbox:
  assumes "delete_session clock i d = Inr d'" "inbox_ok d"
  shows "inbox_ok d'"
proof -
  have d': "messages d' = delete_where (\<lambda>m. m_session m = i) (messages d)" "message_seq d' = message_seq d"
    "batches d' = delete_where (\<lambda>b. bt_session b = i) (batches d)" "removals d' = delete_where (message_owned d i) (removals d)"
    using assms(1) by (auto simp: delete_session_def Let_def split: if_splits)
  have "distinct (map m_sequence (messages d))"
    using assms(2) by (simp add: inbox_ok_def strict_sorted_iff)
  then have other: "\<not> message_owned d i (m_sequence m)" if "m \<in> set (messages d)" "m_session m \<noteq> i" for m
    using that distinct_key_eq unfolding message_owned_def exists_where_iff by metis
  have rem: "removed d' m = removed d m" if "m \<in> set (messages d)" "m_session m \<noteq> i" for m
    using other [OF that] by (auto simp: removed_def d'(4))
  have row: "m_sequence m \<le> message_seq d' \<and> assigned_ok d' m \<and>
        (m_prompt m = None \<longrightarrow> removed d' m) \<and> (removed d' m \<longrightarrow> m_bytes m = 0)"
    if "m \<in> set (messages d)" "m_session m \<noteq> i" for m
  proof -
    from assms(2) that(1) have ok: "m_sequence m \<le> message_seq d" "assigned_ok d m"
        "m_prompt m = None \<longrightarrow> removed d m" "removed d m \<longrightarrow> m_bytes m = 0"
      by (auto simp: inbox_ok_def)
    from ok(2) have "assigned_ok d' m"
      using that(2) by (auto simp: assigned_ok_def rem [OF that] d'(3) split: option.splits)
    with ok show ?thesis by (simp add: rem [OF that] d'(2))
  qed
  have "filter unsettled (batches d') = delete_where (\<lambda>b. bt_session b = i) (filter unsettled (batches d))"
    unfolding d'(3) by (simp add: delete_where_def conj_commute)
  then have "distinct (map bt_session (filter unsettled (batches d')))"
    using assms(2) by (simp add: inbox_ok_def distinct_delete_where)
  then show ?thesis
    using assms(2) row
    by (auto simp: inbox_ok_def d'(1-4) intro: sorted_wrt_delete distinct_delete_where)
qed

lemma delete_session_ledger:
  assumes "delete_session clock i d = Inr d'" "\<not> has_children d i"
  shows "report_table d \<Longrightarrow> report_table d'" "deliveries_ok d \<Longrightarrow> deliveries_ok d'"
proof -
  define kids where "kids = map l_child (filter (\<lambda>l. l_child l = i \<or> l_parent l = i) (links d))"
  have d': "reports d' = delete_where (\<lambda>r. r_child r \<in> set kids) (reports d)" "report_seq d' = report_seq d"
    "deliveries d' = delete_where (\<lambda>(_, q). message_owned d i q) (deliveries d)"
    using assms(1) by (auto simp: delete_session_def Let_def kids_def split: if_splits)
  note links = delete_session_tables(1) [OF assms]
  show "deliveries_ok d \<Longrightarrow> deliveries_ok d'"
    by (simp add: deliveries_ok_def d'(3) distinct_delete_where)
  assume t: "report_table d"
  have "linked d' (r_child r)" if "r \<in> set (reports d')" for r
  proof -
    from that t have r: "r_child r \<notin> set kids" "linked d (r_child r)"
      by (auto simp: d'(1) report_table_def)
    then obtain l where l: "l \<in> set (links d)" "l_child l = r_child r" by (auto simp: linked_def)
    then have "r_child r = i \<Longrightarrow> r_child r \<in> set kids" by (force simp: kids_def)
    with r(1) have "r_child r \<noteq> i" by blast
    with l show ?thesis by (auto simp: linked_def links)
  qed
  with t show "report_table d'"
    unfolding report_table_def d'(2)
    by (auto simp: d'(1) intro: sorted_wrt_delete distinct_delete_where)
qed

lemma delete_records_ok:
  assumes "delete_records clock s d = Inr d'" "\<not> has_children d (s_id s)" "coord_ok d"
  shows "coord_ok d'"
proof -
  let ?e = "d\<lparr>native_sessions := delete_where
             (\<lambda>n. n = (s_provider s, s_provider_session s) \<or> n \<in> set (s_owned s)) (native_sessions d),
          inbound_events := delete_where (\<lambda>x. x = s_id s) (inbound_events d),
          accepted_prompts := delete_where (\<lambda>x. x = s_id s) (accepted_prompts d),
          holds := delete_where (\<lambda>h. h_child h = s_id s) (holds d)\<rparr>"
  have del: "delete_session clock (s_id s) ?e = Inr d'" using assms(1) by (simp add: delete_records_def)
  have no: "\<not> has_children ?e (s_id s)" using assms(2) by (simp add: has_children_def)
  have "coord_keeps d ?e" by (intro keeps_frame inbox_step_frame) simp_all
  with assms(3) have "coord_ok ?e" by (rule coord_ok_keeps [rotated])
  with delete_session_inbox [OF del] delete_session_ledger [OF del no] delete_session_relations(1) [OF del no]
  show ?thesis by (simp add: coord_ok_def)
qed

lemma delete_guarded_cases:
  obtains (error) e where "delete_guarded (\<lambda>d. d) clock now i guard d = (Inl e, d)"
  | (archive) k where "delete_guarded (\<lambda>d. d) clock now i guard d = (Inr (), archive_bridge now k d)"
  | (delete) s d' where "delete_guarded (\<lambda>d. d) clock now i guard d = (Inr (), d')"
      "delete_records clock s (archive_bridge now (s_id s) d) = Inr d'" "\<not> has_children d (s_id s)"
proof (cases "delete_guarded (\<lambda>d. d) clock now i guard d")
  case (Pair res d')
  show thesis
  proof (cases res)
    case (Inl e)
    with Pair have "d' = d"
      by (auto simp: delete_guarded_def transact_eq_Inl Let_def split: sum.splits)
    with Pair Inl error show thesis by blast
  next
    case (Inr u)
    with Pair show thesis
      by (auto simp: delete_guarded_def transact_eq_Inr Let_def intro: archive delete
          split: sum.splits if_splits option.splits)
  qed
qed

lemma delete_ok:
  assumes "coord_ok d"
  shows "coord_ok (snd (delete_guarded (\<lambda>d. d) clock now i guard d))"
proof (cases rule: delete_guarded_cases [of clock now i guard d])
  case (error e)
  with assms show ?thesis by simp
next
  case (archive k)
  have "coord_keeps d (archive_bridge now k d)"
    unfolding archive_bridge_def by (intro keeps_frame inbox_step_frame) simp_all
  with archive assms show ?thesis by (simp add: coord_ok_keeps)
next
  case (delete s d')
  have "coord_keeps d (archive_bridge now (s_id s) d)"
    unfolding archive_bridge_def by (intro keeps_frame inbox_step_frame) simp_all
  then have "coord_ok (archive_bridge now (s_id s) d)" using assms by (rule coord_ok_keeps)
  moreover have "\<not> has_children (archive_bridge now (s_id s) d) (s_id s)"
    using delete(3) by (simp add: has_children_def archive_bridge_def)
  ultimately show ?thesis using delete(1,2) delete_records_ok by simp
qed

lemma step_ok: "coord_step X d d' \<Longrightarrow> coord_ok d \<Longrightarrow> coord_ok d'"
  by (erule coord_stepE) (auto intro: coord_ok_keeps [OF live_keeps] delete_ok)

lemma run_ok: "(coord_step X)\<^sup>*\<^sup>* d d' \<Longrightarrow> coord_ok d \<Longrightarrow> coord_ok d'"
  by (induction rule: rtranclp_induct) (auto intro: step_ok)

lemma empty_ok: "coord_ok empty_db"
  by (simp add: coord_ok_def forest_def link_keys_def inbox_ok_def report_table_def deliveries_ok_def empty_db_def)

end
