(* ===== verification/Coordination_Guarantees.thy ===== *)
theory Coordination_Guarantees
  imports Reachable_States
begin

text \<open>
  What the coordination stores guarantee to their callers, over histories of the state machine of
  \<open>Reachable_States\<close> and of the command executors.
\<close>

section \<open>Every reachable state\<close>

lemma at_most_one_unsettled:
  assumes "inbox_ok d"
  shows "count_where (\<lambda>b. bt_session b = s \<and> bt_state b \<noteq> Consumed) (batches d) \<le> 1"
proof -
  have one: "length (filter (\<lambda>b. bt_session b = s) bs) \<le> 1" if "distinct (map bt_session bs)" for bs
    using that by (induction bs) (auto simp: filter_empty_conv image_iff)
  have "filter (\<lambda>b. bt_session b = s \<and> bt_state b \<noteq> Consumed) (batches d) =
      filter (\<lambda>b. bt_session b = s) (filter unsettled (batches d))"
    by (simp add: unsettled_def conj_commute)
  with one [of "filter unsettled (batches d)"] assms show ?thesis
    by (simp add: inbox_ok_def count_where_def del: filter_filter)
qed

text \<open>C1: In every state the operations of the stores can reach, in any interleaving and with sessions
  opened and deleted in between: the relationships are a one-level forest with at most 32 children
  for each parent, no session has two unsettled batches, no report and no message is in two
  deliveries.\<close>

theorem reachable_state_sound:
  assumes "(coord_step X)\<^sup>*\<^sup>* empty_db d"
  shows "one_level (parent_of d) \<and> bounded (parent_of d) \<and>
    count_where (\<lambda>b. bt_session b = s \<and> bt_state b \<noteq> Consumed) (batches d) \<le> 1 \<and>
    distinct (map fst (deliveries d)) \<and> distinct (map snd (deliveries d))"
proof -
  have "coord_ok d" by (rule run_ok [OF assms empty_ok])
  then show ?thesis
    using at_most_one_unsettled by (simp add: coord_ok_def forest_iff deliveries_ok_def)
qed

definition linked_world :: db where
  "linked_world = empty_db\<lparr>sessions := [sample_session [1], sample_session [2]],
     links := [\<lparr>l_child = [2], l_parent = [1], l_title = [2]\<rparr>], revisions := [\<lparr>rv_child = [2], rv_revision = 1\<rparr>],
     report_receipts := [\<lparr>rr_key = [5], rr_child = [2], rr_digest = 2 # [1] @ 0 # [2]\<rparr>]\<rparr>"

lemma linked_world_reachable: "(coord_step sample_ext)\<^sup>*\<^sup>* empty_db linked_world"
proof -
  let ?d1 = "empty_db\<lparr>sessions := [sample_session [1]]\<rparr>"
  let ?d2 = "?d1\<lparr>sessions := [sample_session [1], sample_session [2]]\<rparr>"
  let ?r = "\<lparr>rq_command = LinkChildSession [1] [2], rq_key = [5], rq_replay_only = False, rq_fence = None,
    rq_now_ms = 0, rq_clock = 0\<rparr>"
  have "live_step sample_ext empty_db ?d1"
    using live_open [of empty_db "sample_session [1]" sample_ext] by (simp add: session_exists_def empty_db_def)
  moreover have "live_step sample_ext ?d1 ?d2"
    using live_open [of ?d1 "sample_session [2]" sample_ext]
    by (simp add: session_exists_def sample_session_def empty_db_def)
  moreover have "snd (report_step sample_ext ?r ?d2) = linked_world"
    by (simp add: report_step_def execute_report_def execute_in_transaction_def run_report_command_def transact_def
        link_in_transaction_def claim_simps same_owner_def insert_link_def insert_report_receipt_def linked_world_def
        bump_or_start_def len_utf8_def)
  then have "live_step sample_ext ?d2 linked_world"
    using live_report [of sample_ext ?d2 ?r] by simp
  ultimately show ?thesis
    by (meson coord_live converse_rtranclp_into_rtranclp rtranclp.rtrancl_refl)
qed

lemma reachable_state_sound_witness:
  "parent_of linked_world [2] = Some [1] \<and> one_level (parent_of linked_world)"
  using reachable_state_sound [OF linked_world_reachable]
  by (simp add: linked_world_def parent_of_def)

section \<open>Dispatch at most once\<close>

lemma live_run_ok: "(live_step X)\<^sup>*\<^sup>* d e \<Longrightarrow> coord_ok d \<Longrightarrow> coord_ok e"
  by (blast intro: coord_ok_keeps live_run_keeps)

lemma live_run_grows: "(live_step X)\<^sup>*\<^sup>* d e \<Longrightarrow> coord_ok d \<Longrightarrow> inbox_grows d e"
  using live_run_keeps by (auto simp: coord_keeps_def coord_ok_def inbox_step_def)

lemma claim_result:
  assumes "claim X fresh s e = (Inr (Some b), e')"
  shows "(\<exists>b0 \<in> set (batches e). bt_id b0 = cb_id b \<and> bt_state b0 = Claimed) \<or> cb_id b \<notin> set (map bt_id (batches e))"
proof (cases "unsettled_batch e s")
  case None
  then show ?thesis
    using assms insert_batch_cases(2)
    by (fastforce simp: claim_def transact_eq_Inr claim_in_transaction_def claim_new_def Let_def claimed_def
        new_batch_def split: if_splits)
next
  case (Some b0)
  then have "b0 \<in> set (batches e)" by (auto simp: unsettled_batch_def dest: find_Some_set)
  with Some show ?thesis
    using assms by (auto simp: claim_def transact_eq_Inr claim_in_transaction_def claimed_def split: if_splits)
qed

text \<open>C2: A batch is handed to the provider at most once.  After the dispatch fence of a batch succeeded,
  no later fence for it succeeds, from any session and after any further operations (deletions, which
  take batches away, apart), and no later claim hands the batch out again.\<close>

theorem dispatch_fenced_once:
  assumes "coord_ok d" "fence_dispatch session batch d = (Inr (), d')" "(live_step X)\<^sup>*\<^sup>* d' e"
  shows "isl (fst (fence_dispatch session' batch e)) \<and>
    (case fst (claim X' fresh s e) of Inr (Some b) \<Rightarrow> cb_id b \<noteq> batch | _ \<Rightarrow> True)"
proof -
  have d': "d' = snd (fence_dispatch session batch d)" using assms(2) by simp
  have ok': "coord_ok d'" unfolding d' by (rule coord_ok_keeps [OF fence_keeps assms(1)])
  have "count_where (fenceable session batch) (batches d) = 1"
    using assms(2) by (auto simp: fence_dispatch_def split: if_splits)
  then have "filter (fenceable session batch) (batches d) \<noteq> []" by (auto simp: count_where_def)
  then obtain b0 where "b0 \<in> set (batches d)" "fenceable session batch b0" by (auto simp: filter_empty_conv)
  then have "b0\<lparr>bt_state := Dispatching\<rparr> \<in> set (batches d')" "bt_id b0 = batch"
    by (auto simp: d' fence_dispatch_def fenceable_def)
  then obtain b1 where b1: "b1 \<in> set (batches e)" "bt_id b1 = batch" "bt_state b1 \<noteq> Claimed"
    using live_run_grows [OF assms(3) ok'] by (fastforce simp: inbox_grows_def later_batch_def)
  have "distinct (map bt_id (batches e))"
    using live_run_ok [OF assms(3) ok'] by (simp add: coord_ok_def inbox_ok_def)
  with b1 have none: "bt_state x \<noteq> Claimed" if "x \<in> set (batches e)" "bt_id x = batch" for x
    using that distinct_key_eq [of bt_id "batches e" x b1] by metis
  then have "filter (fenceable session' batch) (batches e) = []"
    by (auto simp: filter_empty_conv fenceable_def)
  moreover have "cb_id b \<noteq> batch" if "fst (claim X' fresh s e) = Inr (Some b)" for b
  proof -
    from that obtain e' where "claim X' fresh s e = (Inr (Some b), e')" by (cases "claim X' fresh s e") auto
    from claim_result [OF this] none b1 show ?thesis by auto
  qed
  ultimately show ?thesis by (auto simp: fence_dispatch_def count_where_def split: sum.split option.split)
qed

text \<open>A parent with one claimed message.\<close>

definition claimed_world :: db where
  "claimed_world = sample_db\<lparr>batches := [new_batch [7] [1] 1], messages := [queued 1 [4] (Some [7]), queued 2 [5] None],
     message_seq := 2\<rparr>"

lemmas claimed_world_simps = claimed_world_def queued_def new_batch_def claim_simps

lemma claimed_world_ok: "coord_ok claimed_world"
  by (simp add: coord_ok_def inbox_ok_def report_table_def deliveries_ok_def assigned_ok_def removed_def
      unsettled_def message_key_def claimed_world_simps)

lemma dispatch_fenced_once_witness:
  "isl (fst (fence_dispatch [1] [7] (acknowledge [1] [9] (snd (fence_dispatch [1] [7] claimed_world)))))"
proof -
  have f: "fence_dispatch [1] [7] claimed_world = (Inr (), snd (fence_dispatch [1] [7] claimed_world))"
    by (simp add: fence_dispatch_def count_where_def fenceable_def claimed_world_simps)
  show ?thesis
    using dispatch_fenced_once [OF claimed_world_ok f r_into_rtranclp [where r = "live_step sample_ext", OF live_acknowledge],
        where session' = "[1]"]
    by blast
qed

section \<open>What is claimed is frozen\<close>

text \<open>C15: A message in a batch is frozen.  Whatever is committed later, as long as no session is deleted,
  the message is still there with exactly its content, its batch has exactly the members it had (no
  later arrival joins it), and removing the message is refused.\<close>

theorem claimed_message_frozen:
  assumes "coord_ok d" "m \<in> set (messages d)" "m_batch m = Some k" "(live_step X)\<^sup>*\<^sup>* d e"
  shows "m \<in> set (messages e) \<and> members e k = members d k \<and>
    isl (remove_pending (m_session m) (m_message_id m) e)"
proof -
  note grow = live_run_grows [OF assms(4,1)] and ok = live_run_ok [OF assms(4,1)]
  from grow assms(2) obtain m' where "m' \<in> set (messages e)" "same_message m m'" by (auto simp: inbox_grows_def)
  with assms(3) have m: "m \<in> set (messages e)" by (auto simp: same_message_def)
  have "assigned_ok d m" using assms(1,2) by (auto simp: coord_ok_def inbox_ok_def)
  then obtain b where "b \<in> set (batches d)" "bt_id b = k" by (auto simp: assigned_ok_def assms(3))
  with grow have mem: "members e k = members d k" by (auto simp: inbox_grows_def)
  have "batch_of e m \<noteq> None"
    using batch_of_None [of e m] ok m assms(3) by (simp add: coord_ok_def)
  then obtain b' where b': "batch_of e m = Some b'" by blast
  have "find_message e (m_session m) (m_message_id m) = Some m"
    using ok m find_key_Some_iff [of message_key "messages e" "message_key m" m]
    by (simp add: find_message_def coord_ok_def inbox_ok_def message_key_def)
  with b' have "isl (remove_pending (m_session m) (m_message_id m) e)"
    by (cases "authorize e (m_session m) False") (simp_all add: remove_pending_def)
  with m mem show ?thesis by simp
qed

lemma claimed_message_frozen_witness:
  "members (pause [1] (snd (fence_dispatch [1] [7] claimed_world))) [7] = members claimed_world [7] \<and>
   isl (remove_pending [1] [4] (pause [1] (snd (fence_dispatch [1] [7] claimed_world))))"
proof -
  have m: "queued 1 [4] (Some [7]) \<in> set (messages claimed_world)" "m_batch (queued 1 [4] (Some [7])) = Some [7]"
    by (simp_all add: claimed_world_simps)
  have "(live_step sample_ext)\<^sup>*\<^sup>* claimed_world (pause [1] (snd (fence_dispatch [1] [7] claimed_world)))"
    by (meson live_fence live_pause rtranclp.rtrancl_into_rtrancl rtranclp.rtrancl_refl)
  from claimed_message_frozen [OF claimed_world_ok m this] show ?thesis by (simp add: queued_def)
qed

section \<open>A removal is final\<close>

text \<open>Removing a pending message is final.  On success the message stays as a tombstone without its
  content, and after whatever is committed later it is in no batch, occupies nothing and is in no
  page of pending messages.\<close>

theorem removal_is_final:
  assumes "coord_ok d" "remove_pending s mid d = Inr d'" "(live_step X)\<^sup>*\<^sup>* d' e"
  shows "\<exists>m \<in> set (messages e). m_session m = s \<and> m_message_id m = mid \<and> m_batch m = None \<and> m_bytes m = 0 \<and>
    \<not> occupying e s m \<and> m \<notin> set (pending_rows e s) \<and> find_message e s mid = Some m"
proof -
  have ok': "coord_ok d'"
    by (rule coord_ok_keeps [OF inbox_only_keeps [OF remove_pending_only [OF assms(2)] remove_pending_step [OF assms(2)]] assms(1)])
  obtain m0 where m0: "find_message d s mid = Some m0" and d': "d' = d\<lparr>removals := (if removed d m0 then removals d else removals d @ [m_sequence m0]),
      messages := update_where (\<lambda>x. m_sequence x = m_sequence m0) empty_message (messages d)\<rparr>"
    using assms(2) by (auto simp: remove_pending_def split: option.splits if_splits)
  have "empty_message m0 \<in> set (messages d')" "removed d' (empty_message m0)"
    "m_session (empty_message m0) = s" "m_message_id (empty_message m0) = mid"
    using find_message_Some [OF m0] by (auto simp: d' removed_def empty_message_def)
  then obtain m where m: "m \<in> set (messages e)" "m_session m = s" "m_message_id m = mid" "removed e m"
    using live_run_grows [OF assms(3) ok'] by (fastforce simp: inbox_grows_def same_message_def removed_def)
  have ok: "inbox_ok e" using live_run_ok [OF assms(3) ok'] by (simp add: coord_ok_def)
  then have "assigned_ok e m" "m_bytes m = 0" using m by (auto simp: inbox_ok_def)
  with m(4) have "m_batch m = None" by (auto simp: assigned_ok_def split: option.splits)
  moreover have "find_message e s mid = Some m"
    using ok m find_key_Some_iff [of message_key "messages e" "message_key m" m]
    by (auto simp: find_message_def inbox_ok_def message_key_def)
  ultimately show ?thesis
    using m \<open>m_bytes m = 0\<close> by (auto simp: occupying_def pending_rows_def)
qed

lemma removal_is_final_witness:
  "\<exists>d' m. remove_pending [1] [5] claimed_world = Inr d' \<and> find_message (block [7] [66] d') [1] [5] = Some m \<and> m_bytes m = 0"
proof -
  obtain d' where d': "remove_pending [1] [5] claimed_world = Inr d'"
    by (simp add: remove_pending_def authorize_def valid_id_def find_message_def batch_of_def
        claimed_world_simps id_simps)
  from removal_is_final [OF claimed_world_ok d' r_into_rtranclp [where r = "live_step sample_ext", OF live_block]] d'
  show ?thesis by blast
qed

section \<open>Evidence reaches the parent once\<close>

text \<open>A step of any store, deletions included, after which the session still exists.\<close>

definition keeps_session :: "ext \<Rightarrow> ustring \<Rightarrow> db \<Rightarrow> db \<Rightarrow> bool" where
  "keeps_session X s d d' \<longleftrightarrow> coord_step X d d' \<and> session_exists d' s"

definition delivered_as :: "nat \<Rightarrow> message_row \<Rightarrow> db \<Rightarrow> bool" where
  "delivered_as r m d \<longleftrightarrow> (r, m_sequence m) \<in> set (deliveries d) \<and>
     (\<exists>m' \<in> set (messages d). m_sequence m' = m_sequence m \<and> m_session m' = m_session m \<and> m_message_id m' = m_message_id m)"

lemma delete_keeps_delivery:
  assumes del: "delete_records clock x d = Inr d'" and ok: "inbox_ok d" and "session_exists d' (m_session m)" "delivered_as r m d"
  shows "delivered_as r m d'"
proof -
  let ?e = "d\<lparr>native_sessions := delete_where
             (\<lambda>n. n = (s_provider x, s_provider_session x) \<or> n \<in> set (s_owned x)) (native_sessions d),
          inbound_events := delete_where (\<lambda>y. y = s_id x) (inbound_events d),
          accepted_prompts := delete_where (\<lambda>y. y = s_id x) (accepted_prompts d),
          holds := delete_where (\<lambda>h. h_child h = s_id x) (holds d)\<rparr>"
  have e: "delete_session clock (s_id x) ?e = Inr d'" using del by (simp add: delete_records_def)
  have owned: "message_owned ?e = message_owned d" by (intro ext) (simp add: message_owned_def)
  have d': "sessions d' = delete_where (\<lambda>y. s_id y = s_id x) (sessions d)"
    "messages d' = delete_where (\<lambda>y. m_session y = s_id x) (messages d)"
    "deliveries d' = delete_where (\<lambda>(_, q). message_owned d (s_id x) q) (deliveries d)"
    using e owned by (auto simp: delete_session_def Let_def split: if_splits)
  have other: "m_session m \<noteq> s_id x" using assms(3) by (auto simp: d'(1) session_exists_def)
  obtain m' where m': "m' \<in> set (messages d)" "m_sequence m' = m_sequence m" "m_session m' = m_session m"
    "m_message_id m' = m_message_id m" using assms(4) by (auto simp: delivered_as_def)
  have "distinct (map m_sequence (messages d))" using ok by (simp add: inbox_ok_def strict_sorted_iff)
  then have "\<not> message_owned d (s_id x) (m_sequence m)"
    using m' other distinct_key_eq unfolding message_owned_def exists_where_iff by metis
  then show ?thesis using assms(4) m' other by (auto simp: delivered_as_def d'(2,3))
qed

lemma step_keeps_delivery:
  assumes step: "keeps_session X (m_session m) d d'" and ok: "coord_ok d" and del: "delivered_as r m d"
  shows "delivered_as r m d'"
proof -
  have grows: "delivered_as r m e" if "inbox_grows d e" for e
    using that del set_mono_prefix by (fastforce simp: delivered_as_def inbox_grows_def same_message_def)
  from step have "coord_step X d d'" "session_exists d' (m_session m)" by (simp_all add: keeps_session_def)
  then show ?thesis
  proof (cases rule: coord_step.cases)
    case coord_live
    then show ?thesis using ok grows live_keeps by (auto simp: coord_keeps_def coord_ok_def inbox_step_def)
  next
    case (coord_delete clock now i guard)
    show ?thesis
    proof (cases rule: delete_guarded_cases [of clock now i guard d])
      case (error e)
      then show ?thesis using coord_delete del by simp
    next
      case (archive k)
      then show ?thesis using coord_delete del by (simp add: delivered_as_def archive_bridge_def)
    next
      case (delete x e)
      have "coord_keeps d (archive_bridge now (s_id x) d)"
        unfolding archive_bridge_def by (intro keeps_frame inbox_step_frame) simp_all
      then have "inbox_ok (archive_bridge now (s_id x) d)" using ok coord_ok_keeps by (auto simp: coord_ok_def)
      moreover have "delivered_as r m (archive_bridge now (s_id x) d)"
        using del by (simp add: delivered_as_def archive_bridge_def)
      ultimately show ?thesis
        using delete_keeps_delivery [OF delete(2)] delete(1) coord_delete step by (simp add: keeps_session_def)
    qed
  qed
qed

lemma run_keeps_delivery:
  assumes "(keeps_session X (m_session m))\<^sup>*\<^sup>* d e" "coord_ok d" "delivered_as r m d"
  shows "coord_ok e \<and> delivered_as r m e"
  using assms
  by (induction rule: rtranclp_induct) (auto intro: step_keeps_delivery run_ok simp: keeps_session_def)

text \<open>C16: A child's report becomes at most one message as long as the session that received it exists.
  Once it was delivered as message \<open>m\<close>, after any history of all the stores, with other sessions opened,
  moved and deleted, the message is still there, no later admission picks the report up again, and
  neither another message of this report nor another report in this message has been delivered.
  (Deleting the recipient takes the message and the record of its delivery along: a report of a child
  that was transferred before that is then admitted once more, for the new parent.)\<close>

theorem report_delivered_once:
  assumes "coord_ok d" "m \<in> set (messages d)" "(r, m_sequence m) \<in> set (deliveries d)"
    and "(keeps_session X (m_session m))\<^sup>*\<^sup>* d e"
  shows "{(r', q') \<in> set (deliveries e). r' = r \<or> q' = m_sequence m} = {(r, m_sequence m)} \<and>
    r \<notin> ev_sequence ` set (pending_events e) \<and>
    (\<exists>m' \<in> set (messages e). m_sequence m' = m_sequence m \<and> m_session m' = m_session m \<and> m_message_id m' = m_message_id m)"
proof -
  let ?q = "m_sequence m"
  have "delivered_as r m d" using assms(2,3) by (auto simp: delivered_as_def)
  with run_keeps_delivery [OF assms(4,1)] have e: "coord_ok e" "delivered_as r m e" by blast+
  then have rq: "(r, ?q) \<in> set (deliveries e)" and "deliveries_ok e" by (simp_all add: delivered_as_def coord_ok_def)
  then have "(r', q') = (r, ?q)" if "(r', q') \<in> set (deliveries e)" "r' = r \<or> q' = ?q" for r' q'
    using that distinct_key_eq [of fst "deliveries e" "(r', q')" "(r, ?q)"]
      distinct_key_eq [of snd "deliveries e" "(r', q')" "(r, ?q)"]
    by (auto simp: deliveries_ok_def)
  with rq have "{(r', q') \<in> set (deliveries e). r' = r \<or> q' = ?q} = {(r, ?q)}" by blast
  moreover have "r \<noteq> ev_sequence v" if "v \<in> set (pending_events e)" for v
  proof -
    from set_take_subset that have "v \<in> set (map (\<lambda>(r, l). event_of r l) (filter (\<lambda>(r, l). event_ready e r l) (joined_reports e)))"
      unfolding pending_events_def by (rule subsetD)
    then obtain rr l where "event_ready e rr l" "ev_sequence v = r_sequence rr"
      by (auto simp: event_of_def)
    with rq show ?thesis by (fastforce simp: event_ready_def split: option.splits)
  qed
  ultimately show ?thesis using e(2) by (auto simp: delivered_as_def)
qed

lemma report_delivered_once_witness:
  "let e = snd (delete_guarded (\<lambda>d. d) 0 0 [2] (Child (Some [1])) (claimed_world\<lparr>deliveries := [(3, 2)]\<rparr>)) in
   sessions e = map sample_session [[1], [3]] \<and> {(r', q') \<in> set (deliveries e). r' = 3 \<or> q' = 2} = {(3, 2)} \<and>
   3 \<notin> ev_sequence ` set (pending_events e)"
proof -
  let ?d = "claimed_world\<lparr>deliveries := [(3, 2)]\<rparr>" and ?m = "queued 2 [5] None"
  let ?e = "snd (delete_guarded (\<lambda>d. d) 0 0 [2] (Child (Some [1])) ?d)"
  have ok: "coord_ok ?d"
    by (simp add: coord_ok_def inbox_ok_def report_table_def deliveries_ok_def assigned_ok_def removed_def
      unsettled_def message_key_def claimed_world_simps)
  have m: "?m \<in> set (messages ?d)" "(3, m_sequence ?m) \<in> set (deliveries ?d)" "m_session ?m = [1]"
    by (simp_all add: claimed_world_simps)
  have e: "sessions ?e = map sample_session [[1], [3]]"
    by (simp add: delete_guarded_def find_record_def claimed_world_simps transact_def check_guard_def Let_def
        delete_records_def delete_session_def archive_bridge_def)
  then have "session_exists ?e [1]" by (simp add: session_exists_def sample_session_def)
  then have "keeps_session sample_ext (m_session ?m) ?d ?e"
    unfolding keeps_session_def m(3) using coord_delete by blast
  from report_delivered_once [OF ok m(1,2) r_into_rtranclp, OF this] e show ?thesis
    by (simp add: Let_def queued_def)
qed

end
