(* ===== verification/Inbox_Contracts.thy ===== *)
theory Inbox_Contracts
  imports Coordination_Guarantees
begin

text \<open>
  The contracts of the follow-up command executor (\<open>execute_authenticated\<close>): it is a receipt ledger,
  its capacity bounds hold in every history, and a message carries provenance only as the runtime
  granted it.
\<close>

section \<open>The executor is a receipt ledger\<close>

record inbox_call =
  ic_clock :: int
  ic_request :: inbox_request
  ic_materialize :: "prompt_input \<Rightarrow> service_error + prompt_input"
  ic_auth :: "service_error + unit"

definition inbox_exec :: "ext \<Rightarrow> inbox_call \<Rightarrow> db \<Rightarrow> (service_error + ustring option) \<times> db" where
  "inbox_exec X c = execute_authenticated X (ic_clock c) (ic_request c) (ic_materialize c) (ic_auth c)"

definition inbox_key :: "inbox_call \<Rightarrow> ustring" where
  "inbox_key c = ir_key (ic_request c)"

definition inbox_digest :: "ext \<Rightarrow> inbox_call \<Rightarrow> bytes option" where
  "inbox_digest X c = map_option (sha256 X) (command_json X (ir_command (ic_request c)))"

definition inbox_admissible :: "ext \<Rightarrow> inbox_call \<Rightarrow> bool" where
  "inbox_admissible X c \<longleftrightarrow> valid_id (ir_key (ic_request c)) \<and> valid_id (ir_sender (ic_request c)) \<and>
     command_json X (ir_command (ic_request c)) \<noteq> None"

definition inbox_receipt :: "db \<Rightarrow> ustring \<Rightarrow> (bytes option \<times> ustring option) option" where
  "inbox_receipt d k = map_option (\<lambda>r. (Some (rc_digest r), rc_resource r)) (List.find (\<lambda>r. rc_key r = k) (receipts d))"

lemma validate_identities_iff: "validate_request_identities key sender = Inr () \<longleftrightarrow> valid_id key \<and> valid_id sender"
  by (simp add: validate_request_identities_def)

lemma run_inbox_command_receipts:
  assumes "run_inbox_command X clock req dig materialize auth d = Inr (r, d')"
  shows "receipts d' = receipts d"
proof -
  have f: "receipts e' = receipts e"
    if "admit_followup X clock req dig materialize auth session mid p e = Inr e'" for session mid p e e'
    using that
  proof (cases rule: admit_followup_parts)
    case (relayed p' s d1 d2)
    then have "receipts e' = receipts d2" by (auto dest: adopt_frame split: if_splits)
    with admit_message_only [OF relayed(1)] save_source_only [OF relayed(4)] show ?thesis
      by (simp add: inbox_only_def)
  qed (auto dest: admit_message_only simp: inbox_only_def)
  have x: "receipts e' = receipts e"
    if "admit_external_report X req dig session mid child title report st body e = Inr e'"
    for session mid child title report st body e e'
    using that
    by (auto simp: admit_external_report_def inbox_only_def set_display_def dest!: admit_message_only save_source_only
        split: if_splits)
  show ?thesis
    using assms remove_pending_only set_followup_paused_only
    by (auto simp: run_inbox_command_def inbox_only_def f x split: command.splits)
qed

lemma insert_receipt_effect:
  "insert_receipt r d = Inr d' \<Longrightarrow> d' = d\<lparr>receipts := receipts d @ [r]\<rparr> \<and> (\<forall>x \<in> set (receipts d). rc_key x \<noteq> rc_key r)"
  by (auto simp: insert_receipt_def split: if_splits)

interpretation inbox_ledger: receipt_ledger "inbox_exec X" inbox_key "inbox_digest X" "inbox_admissible X" inbox_receipt
  for X
proof
  fix r d d' and e :: service_error
  show "inbox_exec X r d = (Inl e, d') \<Longrightarrow> d' = d"
    unfolding inbox_exec_def
    by (cases rule: execute_inbox_cases [of X "ic_clock r" "ic_request r" "ic_materialize r" "ic_auth r" d]) auto
next
  fix r d d' and a :: "ustring option"
  show "inbox_exec X r d = (Inr a, d') \<Longrightarrow>
      inbox_admissible X r \<and> inbox_receipt d' (inbox_key r) = Some (inbox_digest X r, a)"
    unfolding inbox_exec_def inbox_key_def inbox_digest_def inbox_admissible_def inbox_receipt_def
    by (cases rule: execute_inbox_cases [of X "ic_clock r" "ic_request r" "ic_materialize r" "ic_auth r" d])
      (auto simp: validate_identities_iff dest!: insert_receipt_effect run_inbox_command_receipts)
next
  fix r d and a :: "ustring option"
  show "inbox_admissible X r \<Longrightarrow> inbox_receipt d (inbox_key r) = Some (inbox_digest X r, a) \<Longrightarrow> inbox_exec X r d = (Inr a, d)"
    by (auto simp: inbox_exec_def inbox_key_def inbox_digest_def inbox_admissible_def inbox_receipt_def
        execute_authenticated_def execute_inbox_transaction_def transact_def validate_request_identities_def)
next
  fix r d g and a :: "ustring option"
  show "inbox_receipt d (inbox_key r) = Some (g, a) \<Longrightarrow> g \<noteq> inbox_digest X r \<Longrightarrow> isl (fst (inbox_exec X r d))"
    unfolding inbox_exec_def inbox_key_def inbox_digest_def inbox_receipt_def
    by (cases rule: execute_inbox_cases [of X "ic_clock r" "ic_request r" "ic_materialize r" "ic_auth r" d]) auto
next
  fix r d d' and a :: "ustring option" and k v
  show "inbox_exec X r d = (Inr a, d') \<Longrightarrow> inbox_receipt d k = Some v \<Longrightarrow> inbox_receipt d' k = Some v"
    unfolding inbox_exec_def inbox_receipt_def
    by (cases rule: execute_inbox_cases [of X "ic_clock r" "ic_request r" "ic_materialize r" "ic_auth r" d])
      (auto dest!: insert_receipt_effect run_inbox_command_receipts)
qed

interpretation inbox_commands: command_system "inbox_exec X" coord_keeps for X
  by unfold_locales (auto intro: coord_keeps_trans simp: inbox_exec_def execute_keeps)

text \<open>C11: Follow-up commands are idempotent.  A command that succeeded once answers the same after any
  further commands and mutates nothing, even when the retry only asks to replay or can no longer be
  authenticated or materialized; reusing its key for a different command is refused and changes
  nothing; and the stores' invariants survive all of it.\<close>

theorem inbox_command_idempotent:
  assumes "coord_ok d" "inbox_exec X c d = (Inr a, d1)"
    and "inbox_key c' = inbox_key c" "inbox_digest X c' = inbox_digest X c" "inbox_admissible X c'"
    and "inbox_key c2 = inbox_key c" "inbox_digest X c2 \<noteq> inbox_digest X c"
  shows "inbox_exec X c' (run (inbox_exec X) cs d1) = (Inr a, run (inbox_exec X) cs d1) \<and>
    (\<exists>e. inbox_exec X c2 (run (inbox_exec X) cs d1) = (Inl e, run (inbox_exec X) cs d1)) \<and>
    coord_ok (run (inbox_exec X) cs d1)"
proof -
  have "coord_keeps d (snd (inbox_exec X c d))" by (rule inbox_commands.rel_step)
  then have "coord_ok d1" using assms(1,2) by (simp add: coord_ok_keeps)
  then have "coord_ok (run (inbox_exec X) cs d1)"
    using coord_ok_keeps [OF inbox_commands.rel_run] by blast
  with inbox_ledger.replay_after [OF assms(2-5)] inbox_ledger.clash_after [OF assms(2,6,7)]
  show ?thesis by blast
qed

definition pause_call :: "bool \<Rightarrow> bool \<Rightarrow> inbox_call" where
  "pause_call b replay = \<lparr>ic_clock = 0, ic_request = \<lparr>ir_command = SetFollowupPaused [65] b, ir_key = [70], ir_sender = [71],
     ir_replay_only = replay, ir_now_ms = 0\<rparr>, ic_materialize = Inr, ic_auth = Inr ()\<rparr>"

definition pause_world :: db where
  "pause_world = empty_db\<lparr>sessions := [sample_session [65]]\<rparr>"

lemma inbox_command_idempotent_witness:
  "\<exists>d1. inbox_exec sample_ext (pause_call True False) pause_world = (Inr None, d1) \<and> paused_inbox d1 [65] \<and>
     inbox_exec sample_ext (pause_call True True) d1 = (Inr None, d1) \<and>
     isl (fst (inbox_exec sample_ext (pause_call False False) d1))"
proof -
  have ok: "coord_ok pause_world"
    by (simp add: coord_ok_def forest_def link_keys_def inbox_ok_def report_table_def deliveries_ok_def pause_world_def
        sample_simps)
  obtain d1 where d1: "inbox_exec sample_ext (pause_call True False) pause_world = (Inr None, d1)" "paused_inbox d1 [65]"
    by (simp add: inbox_exec_def execute_authenticated_def validate_request_identities_def pause_call_def
        execute_inbox_transaction_def transact_def pause_world_def run_inbox_command_def set_followup_paused_def
        authorize_def insert_receipt_def upsert_inbox_def paused_inbox_def claim_simps id_simps)
  have "inbox_admissible sample_ext (pause_call True True)"
    by (simp add: inbox_admissible_def pause_call_def sample_ext_def id_simps)
  moreover have "inbox_digest sample_ext (pause_call False False) \<noteq> inbox_digest sample_ext (pause_call True False)"
    by (simp add: inbox_digest_def pause_call_def sample_ext_def)
  ultimately show ?thesis
    using inbox_command_idempotent [OF ok d1(1), of "pause_call True True" "pause_call False False" "[]"] d1
    by (auto simp: inbox_key_def inbox_digest_def pause_call_def)
qed

section \<open>Provenance\<close>

lemma adopt_sources: "adopt X clock chat agent d = Inr d' \<Longrightarrow> sources d' = sources d"
  by (erule adopt_cases) (auto simp: set_parent_def insert_link_def split: if_splits option.splits)

lemma saved_source:
  assumes "admit_message X s mid p req dig d = Inr d1" "save_source X s mid src d1 = Inr d2"
  shows "sources d2 = sources d @ [(message_seq d + 1, src)]"
  using admit_message_found [OF assms(1)] admit_message_fresh(2) [OF assms(1)] assms(2)
  by (auto simp: save_source_def insert_source_def new_message_def split: if_splits)

text \<open>What an admission writes: nothing when the message is known, else one message, with its provenance
  when the command has an authenticated source.\<close>

lemma admit_followup_writes:
  assumes "admit_followup X clock req dig materialize auth session mid p d = Inr d'"
  shows "d' = d \<or> (\<exists>m src. messages d' = messages d @ [m] \<and> m_sequence m = message_seq d + 1 \<and> m_session m = session \<and>
    m_message_id m = mid \<and> authenticate_source d (ir_command req) auth = Inr src \<and>
    sources d' = sources d @ (case src of None \<Rightarrow> [] | Some s \<Rightarrow> [(m_sequence m, s)]))"
  using assms
proof (cases rule: admit_followup_parts)
  case (plain p')
  from plain(1) show ?thesis
    by (rule admit_message_cases) (simp add: plain(3) new_message_def)
next
  case (relayed p' s d1 d2)
  then have rest: "sources d' = sources d2 \<and> messages d' = messages d2"
    using adopt_sources adopt_frame by (auto split: if_splits)
  moreover have "messages d2 = messages d1" using save_source_deliveries [OF relayed(4)] by simp
  moreover obtain m where "messages d1 = messages d @ [m]" "m_sequence m = message_seq d + 1" "m_session m = session"
    "m_message_id m = mid"
    using relayed(1) by (rule admit_message_cases) (simp add: new_message_def)
  ultimately show ?thesis using saved_source [OF relayed(1,4)] relayed(3) by simp
qed simp

lemma admit_external_sources:
  assumes "admit_external_report X req dig session mid child title report st body d = Inr d'"
  shows "d' = d \<or> sources d' = sources d @ [(message_seq d + 1, evidence_source child title st)]"
  using assms
  by (auto simp: admit_external_report_def external_report_def set_display_def dest: saved_source split: if_splits)

lemma relay_source_open: "relay_source d src target call owner_chat = Inr s \<Longrightarrow> authorize d src True = Inr ()"
  by (auto simp: relay_source_def)

text \<open>C18: Provenance is the runtime's to grant.  A message that is enqueued, and any other command of the
  inbox, gets none.  A relayed message is never admitted without it: unless the command changed no
  message, it added exactly one, for the recipient it names, with a source that names exactly the
  authenticated source call, of an open session other than the recipient, and instructs the recipient
  exactly when the caller is the owner's Chat or the recipient is linked below the source at commit
  time.  An external report is never admitted without its source either, which only marks evidence.\<close>

theorem relayed_authority:
  assumes "inbox_exec X c d = (Inr a, d')"
  shows "case ir_command (ic_request c) of
      RelayAgentFollowup target mid src call p owner_chat \<Rightarrow>
        messages d' = messages d \<and> sources d' = sources d \<or>
        (\<exists>m s. messages d' = messages d @ [m] \<and> m_session m = target \<and> m_message_id m = mid \<and>
           m_sequence m = message_seq d + 1 \<and> sources d' = sources d @ [(m_sequence m, s)] \<and> ic_auth c = Inr () \<and>
           authorize d src True = Inr () \<and> src \<noteq> target \<and> src_session s = src \<and> src_call s = Some call \<and>
           src_owner_chat s = owner_chat \<and>
           (src_kind s = lit ''delegated_instruction'' \<longleftrightarrow> owner_chat \<or> (\<exists>l \<in> set (links d). l_parent l = src \<and> l_child l = target)))
    | AdmitExternalChildReport session mid child title report st body \<Rightarrow>
        messages d' = messages d \<and> sources d' = sources d \<or>
        sources d' = sources d @ [(message_seq d + 1, evidence_source child title st)]
    | _ \<Rightarrow> sources d' = sources d"
proof (cases rule: execute_inbox_cases [of X "ic_clock c" "ic_request c" "ic_materialize c" "ic_auth c" d])
  case (mutate enc session resource d1 e)
  have d': "d' = e" "sources e = sources d1" "messages e = messages d1"
    using mutate(7) assms insert_receipt_effect [OF mutate(6)] by (auto simp: inbox_exec_def)
  show ?thesis
  proof (cases "ir_command (ic_request c)")
    case (RelayAgentFollowup target mid src call p owner_chat)
    then obtain g where g: "admit_followup X (ic_clock c) (ic_request c) g (ic_materialize c) (ic_auth c) target mid p d = Inr d1"
      using mutate(5) by (auto simp: run_inbox_command_def)
    from admit_followup_writes [OF g] consider "d1 = d"
      | m s where "messages d1 = messages d @ [m]" "m_sequence m = message_seq d + 1" "m_session m = target"
          "m_message_id m = mid" "sources d1 = sources d @ [(m_sequence m, s)]" "ic_auth c = Inr ()"
          "relay_source d src target call owner_chat = Inr s"
      by (fastforce simp: authenticate_source_def RelayAgentFollowup)
    then show ?thesis
    proof cases
      case (2 m s)
      with relay_source_authority [OF 2(7)] relay_source_open [OF 2(7)] show ?thesis
        unfolding RelayAgentFollowup by (auto simp: d')
    qed (simp add: d' RelayAgentFollowup)
  next
    case (EnqueueFollowup s mid p)
    then show ?thesis
      using mutate(5) d' admit_followup_writes by (fastforce simp: run_inbox_command_def authenticate_source_def)
  next
    case (AdmitExternalChildReport s mid child title report st body)
    then show ?thesis
      using mutate(5) admit_external_sources by (fastforce simp: run_inbox_command_def d')
  qed (use mutate(5) d' in \<open>auto simp: run_inbox_command_def remove_pending_def set_followup_paused_def
      upsert_inbox_def Let_def split: option.splits if_splits\<close>)
qed (use assms in \<open>auto simp: inbox_exec_def split: command.split\<close>)

section \<open>Deletion holds\<close>

lemma held_frame: "holds d' = holds d \<Longrightarrow> held d' clock c = held d clock c"
  by (simp add: held_def)

lemma adopt_held:
  assumes "adopt X clock chat agent d = Inr d'" "held d clock c" "link_keys d"
  shows "parent_of d' c = parent_of d c"
  using assms(1)
proof (cases rule: adopt_cases)
  case transfer
  then show ?thesis using set_parent_other_child assms(2,3) by blast
next
  case (claim l)
  then have "c \<noteq> l_child l" using assms(2) by (auto simp: insert_link_held)
  with insert_link_effect(1) [OF claim(1) assms(3)] show ?thesis by simp
qed simp

lemma inbox_only_parent: "inbox_only d d' \<Longrightarrow> parent_of d' = parent_of d"
  unfolding inbox_only_def by (elim conjE) (rule parent_of_frame)

lemma admit_followup_held:
  assumes "admit_followup X clock req dig materialize auth session mid p d = Inr d'" "held d clock c" "link_keys d"
  shows "parent_of d' c = parent_of d c"
  using assms(1)
proof (cases rule: admit_followup_parts)
  case (plain p')
  from admit_message_only [OF plain(1)] show ?thesis by (simp add: inbox_only_parent)
next
  case (relayed p' s d1 d2)
  have o: "inbox_only d d2"
    using admit_message_only [OF relayed(1)] save_source_only [OF relayed(4)] by (rule inbox_only_trans)
  then have "held d2 clock c" "link_keys d2"
    using assms(2,3) held_frame [of d2 d] link_keys_frame [of d2 d] by (simp_all add: inbox_only_def)
  then have "parent_of d' c = parent_of d2 c"
    using relayed(6) by (auto dest: adopt_held split: if_splits)
  then show ?thesis using inbox_only_parent [OF o] by simp
qed simp

lemma run_inbox_command_held:
  assumes "run_inbox_command X clock req dig materialize auth d = Inr (r, d')" "held d clock c" "link_keys d"
  shows "parent_of d' c = parent_of d c"
proof -
  have x: "parent_of e' = parent_of d"
    if "admit_external_report X req dig session mid child title report st body d = Inr e'"
    for session mid child title report st body e'
    using that
    by (auto simp: admit_external_report_def inbox_only_def set_display_def dest!: admit_message_only save_source_only
        intro!: parent_of_frame split: if_splits)
  show ?thesis
    using assms admit_followup_held x inbox_only_parent [OF remove_pending_only] inbox_only_parent [OF set_followup_paused_only]
    by (auto simp: run_inbox_command_def split: command.splits)
qed

text \<open>C19: A child that its parent is stopping or deleting keeps its parent.  While the hold is in force no
  link, no claim or transfer and no adoption by a follow-up changes it, whatever the requests say.\<close>

theorem held_child_frozen:
  assumes "forest d" "held d clock c"
  shows "parent_of (snd (execute_report X clock cmd key ro fence now d)) c = parent_of d c \<and>
    parent_of (snd (reparent X clock cmd key ro now auth d)) c = parent_of d c \<and>
    parent_of (snd (execute_authenticated X clock req materialize auth d)) c = parent_of d c"
proof (intro conjI)
  have k: "link_keys d" using assms(1) by (simp add: forest_def)
  let ?r = "\<lparr>rq_command = cmd, rq_key = key, rq_replay_only = ro, rq_fence = fence, rq_now_ms = now, rq_clock = clock\<rparr>"
  have "parent_of (snd (report_step X ?r d)) c = parent_of d c"
  proof (cases rule: execute_report_cases [of X ?r d])
    case (mutate child d1 g d')
    have "parent_of d1 c = parent_of d c"
      using mutate(6)
    proof (cases rule: run_report_command_cases)
      case (1 parent)
      then show ?thesis using link_other_child [OF _ assms(2) k] by simp
    next
      case (2 rid st body)
      then show ?thesis using publish_frame(1) [OF 2(2)] parent_of_frame by metis
    qed
    then show ?thesis using mutate(7,8) by (simp add: parent_of_def)
  qed auto
  then show "parent_of (snd (execute_report X clock cmd key ro fence now d)) c = parent_of d c"
    by (simp add: report_step_def)
  show "parent_of (snd (reparent X clock cmd key ro now auth d)) c = parent_of d c"
  proof (cases rule: reparent_cases [of X clock cmd key ro now auth d])
    case (mutate r d1 enc)
    then have "parent_of d1 c = parent_of d c"
      using apply_reparent_guards(9) [OF mutate(7)] set_parent_other_child [OF _ assms(2) k]
        link_other_child [OF _ assms(2) k]
      by (auto split: if_splits)
    then show ?thesis using mutate(8) by (simp add: parent_of_def)
  qed auto
  show "parent_of (snd (execute_authenticated X clock req materialize auth d)) c = parent_of d c"
  proof (cases rule: execute_inbox_cases [of X clock req materialize auth d])
    case (mutate enc session resource d1 d')
    then show ?thesis
      using run_inbox_command_held [OF mutate(5) assms(2) k] insert_receipt_effect [OF mutate(6)]
      by (simp add: parent_of_def)
  qed auto
qed

definition held_world :: db where
  "held_world = sample_db\<lparr>holds := [\<lparr>h_child = [2], h_parent = Some [1], h_expires_at = 9\<rparr>]\<rparr>"

lemma held_child_frozen_witness:
  "held held_world 5 [2] \<and>
   parent_of (snd (reparent sample_ext 5 (ReparentChildSession [3] [4] [2] (Some [1]) 1 True) [8] False 5 (Inr ()) held_world)) [2]
     = Some [1]"
proof -
  have "forest held_world" "held held_world 5 [2]" "parent_of held_world [2] = Some [1]"
    by (simp_all add: held_world_def claim_simps)
  with held_child_frozen [of held_world 5 "[2]"] show ?thesis by simp
qed

text \<open>The parent of \<open>sample_db\<close> relays an instruction to its child.\<close>

definition relay_world :: db where
  "relay_world = empty_db\<lparr>sessions := [sample_session [65], sample_session [66]],
     links := [\<lparr>l_child = [66], l_parent = [65], l_title = [66]\<rparr>], revisions := [\<lparr>rv_child = [66], rv_revision = 1\<rparr>]\<rparr>"

definition relay_call :: inbox_call where
  "relay_call = \<lparr>ic_clock = 0, ic_request = \<lparr>ir_command = RelayAgentFollowup [66] [67] [65] [68]
       \<lparr>p_text = [69], p_attachments = []\<rparr> False, ir_key = [70], ir_sender = [71], ir_replay_only = False, ir_now_ms = 0\<rparr>,
     ic_materialize = Inr, ic_auth = Inr ()\<rparr>"

lemma relay_authorized: "authorize relay_world [66] True = Inr ()" "authorize relay_world [65] True = Inr ()"
  by (simp_all add: authorize_def relay_world_def claim_simps id_simps)

lemma relay_sourced: "\<exists>s. relay_source relay_world [65] [66] [68] False = Inr s \<and> \<not> src_owner_chat s \<and>
    src_kind s = lit ''delegated_instruction''"
  unfolding relay_source_def relay_authorized
  by (simp add: relay_world_def claim_simps same_owner_def)

lemma relay_admitted: "\<exists>d1. admit_message sample_ext [66] [67] \<lparr>p_text = [69], p_attachments = []\<rparr> req g relay_world = Inr d1"
  by (simp add: admit_message_def validate_prompt_def MAX_TEXT_BYTES_def json_string_def inbox_count_def inbox_bytes_def
      insert_message_def new_message_def MAX_PENDING_BYTES_def relay_world_def claim_simps id_simps)

lemma relay_fresh: "message_exists relay_world [66] [67] g = Inr False" "validate_message_identity [67] = Inr ()"
  by (simp_all add: message_exists_def find_message_def relay_world_def claim_simps validate_message_identity_def id_simps
      lit_def prefix_def)

lemma relay_ledger: "receipts relay_world = []" "command_json sample_ext = (\<lambda>c. Some (sample_command c))"
  "sha256 sample_ext = (\<lambda>b. b)"
  by (simp_all add: relay_world_def sample_simps)

lemma relayed_authority_witness:
  "\<exists>a d' s. inbox_exec sample_ext relay_call relay_world = (Inr a, d') \<and>
     sources d' = [(1, s)] \<and> src_kind s = lit ''delegated_instruction''"
proof -
  let ?p = "\<lparr>p_text = [69], p_attachments = []\<rparr>" and ?req = "ic_request relay_call"
  let ?g = "sha256 sample_ext (sample_command (ir_command ?req))"
  obtain s where s: "relay_source relay_world [65] [66] [68] False = Inr s" "\<not> src_owner_chat s"
    using relay_sourced by blast
  obtain d1 where d1: "admit_message sample_ext [66] [67] ?p ?req ?g relay_world = Inr d1"
    using relay_admitted by blast
  obtain d2 where d2: "save_source sample_ext [66] [67] s d1 = Inr d2"
    using admit_message_found [OF d1] admit_message_fresh(2) [OF d1]
    by (auto simp: save_source_def insert_source_def relay_world_def empty_db_def)
  have src2: "sources d2 = [(1, s)]"
    using saved_source [OF d1 d2] by (simp add: relay_world_def empty_db_def)
  have frame: "sessions d2 = sessions relay_world" "receipts d2 = []"
    using admit_message_only [OF d1] save_source_only [OF d2]
    by (simp_all add: inbox_only_def relay_world_def empty_db_def)
  have f: "admit_followup sample_ext 0 ?req ?g Inr (Inr ()) [66] [67] ?p relay_world = Inr d2"
    using s d1 d2 relay_fresh
    by (simp add: admit_followup_def relay_authorized authenticate_source_def relay_call_def)
  have "session_exists d2 [66]" unfolding session_exists_def frame by (simp add: relay_world_def claim_simps)
  then obtain a d' where x: "inbox_exec sample_ext relay_call relay_world = (Inr a, d')" "sources d' = sources d2"
    using f frame relay_ledger
    by (simp add: inbox_exec_def execute_authenticated_def validate_request_identities_def relay_call_def
        execute_inbox_transaction_def transact_def run_inbox_command_def insert_receipt_def id_simps)
  with relayed_authority [OF x(1)] src2 show ?thesis
    by (auto simp: relay_call_def relay_world_def empty_db_def)
qed

end
