(* ===== verification/Inbox_Capacity.thy ===== *)
theory Inbox_Capacity
  imports Inbox_Contracts
begin

text \<open>
  The capacity of a session's inbox holds in every reachable state: only \<open>admit_message\<close> adds to
  what occupies an inbox, and it checks the bound in the transaction that inserts.
\<close>

definition capacity_ok :: "db \<Rightarrow> bool" where
  "capacity_ok d \<longleftrightarrow> (\<forall>s. inbox_count d s \<le> 256 \<and> inbox_bytes d s \<le> MAX_PENDING_BYTES)"

definition capacity_step :: "db \<Rightarrow> db \<Rightarrow> bool" where
  "capacity_step d d' \<longleftrightarrow> (inbox_ok d \<longrightarrow> capacity_ok d \<longrightarrow> capacity_ok d')"

lemma capacity_step_refl [simp]: "capacity_step d d"
  by (simp add: capacity_step_def)

lemma capacity_step_trans: "capacity_step d e \<Longrightarrow> inbox_step d e \<Longrightarrow> capacity_step e f \<Longrightarrow> capacity_step d f"
  by (auto simp: capacity_step_def inbox_step_def)

text \<open>Occupancy falls when rows only leave an inbox or shrink.\<close>

lemma capacity_falls:
  assumes "messages d' = map h (filter Q (messages d))"
    and "\<And>m s. m \<in> set (messages d) \<Longrightarrow> Q m \<Longrightarrow> m_bytes (h m) \<le> m_bytes m \<and> (occupying d' s (h m) \<longrightarrow> occupying d s m)"
    and "capacity_ok d"
  shows "capacity_ok d'"
proof -
  have "count_where (occupying d' s) (map h (filter Q xs)) \<le> count_where (occupying d s) xs \<and>
      sum_list (map m_bytes (filter (occupying d' s) (map h (filter Q xs)))) \<le> sum_list (map m_bytes (filter (occupying d s) xs))"
    if "set xs \<subseteq> set (messages d)" for xs s
    using that
  proof (induction xs)
    case (Cons x xs)
    then show ?case
      using assms(2) [of x s] by (auto simp: count_where_def intro: add_mono trans_le_add2)
  qed (simp add: count_where_def)
  then show ?thesis
    using assms(3)
    unfolding capacity_ok_def inbox_count_def inbox_bytes_def assms(1)
    by (meson order_trans order_refl)
qed

lemma capacity_rows:
  assumes "messages d' = map h (messages d)"
    "\<And>m s. m \<in> set (messages d) \<Longrightarrow> m_bytes (h m) \<le> m_bytes m \<and> (occupying d' s (h m) \<longrightarrow> occupying d s m)"
  shows "capacity_ok d \<Longrightarrow> capacity_ok d'"
  by (rule capacity_falls [where Q = "\<lambda>_. True" and h = h]) (use assms in auto)

lemma capacity_frame:
  assumes "messages d' = messages d" "batches d' = batches d" "removals d' = removals d"
  shows "capacity_ok d' \<longleftrightarrow> capacity_ok d"
proof -
  have "occupying d' = occupying d"
    by (intro ext) (simp add: occupying_def removed_def undelivered_def batch_of_def assms)
  then show ?thesis by (simp add: capacity_ok_def inbox_count_def inbox_bytes_def assms)
qed

lemma capacity_step_frame:
  "messages d' = messages d \<Longrightarrow> batches d' = batches d \<Longrightarrow> removals d' = removals d \<Longrightarrow> capacity_step d d'"
  using capacity_frame [of d' d] by (simp add: capacity_step_def)

lemma find_update_id:
  assumes "\<And>b. bt_id (g b) = bt_id b"
  shows "List.find (\<lambda>b. bt_id b = k) (update_where P g bs) =
    map_option (\<lambda>b. if P b then g b else b) (List.find (\<lambda>b. bt_id b = k) bs)"
  using assms by (induction bs) auto

lemma capacity_batches:
  assumes "d' = d\<lparr>batches := update_where P g (batches d)\<rparr>" "\<And>b. P b \<Longrightarrow> later_batch b (g b)" "\<And>b. bt_id (g b) = bt_id b"
  shows "capacity_step d d'"
  unfolding capacity_step_def
proof (intro impI)
  assume c: "capacity_ok d"
  have "undelivered d' m \<longrightarrow> undelivered d m" for m
  proof (cases "m_batch m")
    case (Some k)
    have f: "batch_of d' m = map_option (\<lambda>b. if P b then g b else b) (batch_of d m)"
      using find_update_id [OF assms(3)] by (simp add: batch_of_def assms(1) Some)
    then show ?thesis
      using assms(2) by (auto simp: undelivered_def later_batch_def split: option.splits)
  qed (simp add: undelivered_def batch_of_def)
  then show "capacity_ok d'"
    by (intro capacity_rows [where h = "\<lambda>m. m", OF _ _ c])
      (auto simp: assms(1) occupying_def removed_def)
qed

lemma admit_message_capacity: "admit_message X s mid p req dig d = Inr d' \<Longrightarrow> capacity_step d d'"
  unfolding capacity_step_def
proof (intro impI)
  assume a: "admit_message X s mid p req dig d = Inr d'" and ok: "inbox_ok d" and c: "capacity_ok d"
  from a obtain bytes where v: "inbox_count d s < 256" "inbox_bytes d s + bytes \<le> MAX_PENDING_BYTES"
    and d': "d' = d\<lparr>messages := messages d @ [new_message s mid p req dig bytes (message_seq d + 1)],
            message_seq := message_seq d + 1\<rparr>"
    by (auto simp: admit_message_def insert_message_def Let_def not_le not_less new_message_def split: if_splits)
  have "occupying d' t = occupying d t" for t
    by (intro ext) (simp add: occupying_def removed_def undelivered_def batch_of_def d')
  then show "capacity_ok d'"
    using c v unfolding capacity_ok_def inbox_count_def inbox_bytes_def
    by (auto simp: d' count_where_def occupying_def new_message_def)
qed

section \<open>Operations\<close>

definition same_queue :: "db \<Rightarrow> db \<Rightarrow> bool" where
  "same_queue d d' \<longleftrightarrow> messages d' = messages d \<and> batches d' = batches d \<and> removals d' = removals d"

lemma same_queue_refl [simp]: "same_queue d d"
  by (simp add: same_queue_def)

lemma same_queue_trans: "same_queue d e \<Longrightarrow> same_queue e f \<Longrightarrow> same_queue d f"
  by (simp add: same_queue_def)

lemma same_queue_capacity: "same_queue d d' \<Longrightarrow> capacity_step d d'"
  unfolding same_queue_def by (elim conjE) (rule capacity_step_frame)

lemma insert_link_queue: "insert_link clock l d = Inr d' \<Longrightarrow> same_queue d d'"
  by (auto simp: insert_link_def same_queue_def split: if_splits)

lemma set_parent_queue: "set_parent clock c p d = Inr d' \<Longrightarrow> same_queue d d'"
  by (auto simp: set_parent_def same_queue_def split: if_splits option.splits)

lemma adopt_queue: "adopt X clock chat agent d = Inr d' \<Longrightarrow> same_queue d d'"
  by (erule adopt_cases) (simp, erule set_parent_queue, erule insert_link_queue)

lemma link_queue: "link_in_transaction X clock parent child d = Inr d' \<Longrightarrow> same_queue d d'"
  by (auto simp: link_in_transaction_def intro: insert_link_queue split: if_splits option.splits)

lemma insert_report_queue: "insert_report row d = Inr d' \<Longrightarrow> same_queue d d'"
  by (auto simp: insert_report_def same_queue_def Let_def split: if_splits)

lemma publish_queue: "publish_in_transaction X child rid st body now_ms d = Inr d' \<Longrightarrow> same_queue d d'"
  by (auto simp: publish_in_transaction_def intro: insert_report_queue split: if_splits option.splits)

lemma report_queue: "same_queue d (snd (report_step X r d))"
proof (cases rule: execute_report_cases [of X r d])
  case (mutate child d1 g d')
  have "same_queue d d1"
    using mutate(6) by (rule run_report_command_cases) (auto intro: link_queue publish_queue)
  then show ?thesis using mutate(7,8) by (simp add: same_queue_def)
qed auto

lemma question_queue: "same_queue d (snd (record_question X (\<lambda>d. d) child q now_ms d))"
  by (auto simp: record_question_def Let_def intro: insert_report_queue split: sum.splits)

lemma reparent_queue: "same_queue d (snd (reparent X clock cmd key ro now_ms auth d))"
proof (cases rule: reparent_cases [of X clock cmd key ro now_ms auth d])
  case (mutate r d1 enc)
  have "same_queue d d1"
    using apply_reparent_guards(9) [OF mutate(7)] by (cases "rp_transfer r") (auto intro: link_queue set_parent_queue)
  then show ?thesis using mutate(8) by (simp add: same_queue_def)
qed auto

lemma update_last_turn_queue: "same_queue d (snd (update_last_turn X now i t d))"
proof (cases "update_last_turn X now i t d")
  case (Pair res d')
  show ?thesis
  proof (cases res)
    case (Inl e)
    with Pair have "d' = d" by (auto simp: update_last_turn_def transact_eq_Inl)
    with Pair show ?thesis by simp
  next
    case (Inr u)
    with Pair have "update_last_turn X now i t d = (Inr (), d')" by simp
    from update_last_turn_cases(6) [OF this] Pair show ?thesis by (simp add: same_queue_def)
  qed
qed

lemma save_source_queue: "save_source X s mid src d = Inr d' \<Longrightarrow> same_queue d d'"
  by (auto simp: save_source_def insert_source_def same_queue_def split: option.splits if_splits)

lemma save_delivery_queue: "save_delivery X e d = Inr d' \<Longrightarrow> same_queue d d'"
  by (auto simp: save_delivery_def insert_delivery_def same_queue_def split: option.splits if_splits)

lemma insert_receipt_queue: "insert_receipt r d = Inr d' \<Longrightarrow> same_queue d d'"
  by (auto simp: same_queue_def dest: insert_receipt_effect)

lemma set_display_capacity: "capacity_step d (set_display s mid txt d)"
  unfolding capacity_step_def
proof (intro impI)
  assume c: "capacity_ok d"
  show "capacity_ok (set_display s mid txt d)"
    by (rule capacity_rows [OF _ _ c, where h = "\<lambda>m. if m_session m = s \<and> m_message_id m = mid then m_display_update (\<lambda>_. txt) m else m"])
      (auto simp: set_display_def update_where_def occupying_def removed_def undelivered_def batch_of_def)
qed

lemma remove_pending_capacity:
  assumes "remove_pending s mid d = Inr d'"
  shows "capacity_step d d'"
  unfolding capacity_step_def
proof (intro impI)
  assume c: "capacity_ok d"
  obtain m0 :: message_row where d': "messages d' = update_where (\<lambda>x. m_sequence x = m_sequence m0) empty_message (messages d)"
      "batches d' = batches d" "set (removals d) \<subseteq> set (removals d')"
    using assms by (auto simp: remove_pending_def intro: that split: option.splits if_splits)
  show "capacity_ok d'"
    by (rule capacity_rows [OF _ _ c, where h = "\<lambda>m. if m_sequence m = m_sequence m0 then empty_message m else m"])
      (use d'(3) in \<open>auto simp: d'(1,2) update_where_def occupying_def removed_def undelivered_def batch_of_def empty_message_def\<close>)
qed

lemma set_followup_paused_capacity: "set_followup_paused s p d = Inr d' \<Longrightarrow> capacity_step d d'"
proof -
  assume "set_followup_paused s p d = Inr d'"
  then have d': "d' = (if p then upsert_inbox s p d else (upsert_inbox s p d)\<lparr>batches := update_where
      (\<lambda>b. bt_session b = s \<and> bt_state b = Claimed) (bt_blocked_update (\<lambda>_. None)) (batches (upsert_inbox s p d))\<rparr>)"
    by (auto simp: set_followup_paused_def Let_def)
  have "capacity_step d (upsert_inbox s p d)" by (rule capacity_step_frame) (simp_all add: upsert_inbox_def)
  moreover have "capacity_step e (e\<lparr>batches := update_where
      (\<lambda>b. bt_session b = s \<and> bt_state b = Claimed) (bt_blocked_update (\<lambda>_. None)) (batches e)\<rparr>)" for e
    by (rule capacity_batches [OF refl]) (auto simp: later_batch_def)
  ultimately show ?thesis
    unfolding d' by (auto intro: capacity_step_trans upsert_inbox_step)
qed

lemma inbox_step_of_keeps: "coord_keeps d d' \<Longrightarrow> inbox_step d d'"
  by (simp add: coord_keeps_def)

lemma admit_followup_capacity:
  assumes "admit_followup X clock req dig materialize auth session mid p d = Inr d'"
  shows "capacity_step d d'"
  using assms
proof (cases rule: admit_followup_parts)
  case (relayed p' s d1 d2)
  have q: "same_queue d1 d2" by (rule save_source_queue [OF relayed(4)])
  moreover have "same_queue d2 d'" using relayed(6) by (auto intro: adopt_queue split: if_splits)
  ultimately have "capacity_step d1 d'" by (blast intro: same_queue_trans same_queue_capacity)
  with admit_message_capacity [OF relayed(1)] admit_message_step [OF relayed(1)] show ?thesis
    by (rule capacity_step_trans)
qed (auto intro: admit_message_capacity)

lemma admit_external_capacity:
  assumes "admit_external_report X req dig session mid child title report st body d = Inr d'"
  shows "capacity_step d d'"
proof -
  from assms consider "d' = d"
    | p src display d1 d2 where "admit_message X session mid p req dig d = Inr d1"
      "save_source X session mid src d1 = Inr d2" "d' = set_display session mid display d2"
    by (auto simp: admit_external_report_def split: if_splits)
  then show ?thesis
  proof cases
    case (2 p src display d1 d2)
    from save_source_step [OF 2(2)] have "inbox_step d1 d2" by auto
    from capacity_step_trans [OF same_queue_capacity [OF save_source_queue [OF 2(2)]] this set_display_capacity]
    have "capacity_step d1 d'" unfolding 2(3) .
    with admit_message_capacity [OF 2(1)] admit_message_step [OF 2(1)] show ?thesis by (rule capacity_step_trans)
  qed simp
qed

lemma execute_capacity: "capacity_step d (snd (execute_authenticated X clock req materialize auth d))"
proof (cases rule: execute_inbox_cases [of X clock req materialize auth d])
  case (mutate enc session resource d1 d')
  have "capacity_step d d1"
    using mutate(5)
    by (auto simp: run_inbox_command_def intro: admit_followup_capacity admit_external_capacity remove_pending_capacity
        set_followup_paused_capacity split: command.splits)
  moreover have "capacity_step d1 d'" by (rule same_queue_capacity [OF insert_receipt_queue [OF mutate(6)]])
  ultimately show ?thesis
    using run_inbox_command_step [OF mutate(5)] mutate(7) by (auto intro: capacity_step_trans)
qed auto

lemma admit_event_capacity: "admit_event X e (f, d) = Inr (f', d') \<Longrightarrow> capacity_step d d'"
proof (erule admit_event_cases)
  fix d1 d2
  assume a: "admit_message X (ev_parent e) (event_message_id e) (event_prompt X e) (event_request X e)
         (sha256 X (utf8 (p_text (event_prompt X e)))) d = Inr d1"
    and s: "save_source X (ev_parent e) (event_message_id e) (evidence_source (ev_child e) (ev_title e) (ev_state e)) d1 = Inr d2"
    and v: "save_delivery X e (set_display (ev_parent e) (event_message_id e)
         (evidence_display X (ev_report e) (ev_body e)) d2) = Inr d'"
  let ?d3 = "set_display (ev_parent e) (event_message_id e) (evidence_display X (ev_report e) (ev_body e)) d2"
  from save_source_step [OF s] have i: "inbox_step d1 d2" "messages d2 = messages d1" by auto
  with admit_message_fresh(1) [OF a] have "inbox_step d2 ?d3" by (intro set_display_step) simp
  from capacity_step_trans [OF set_display_capacity this same_queue_capacity [OF save_delivery_queue [OF v]]]
  have "capacity_step d2 d'" .
  from capacity_step_trans [OF same_queue_capacity [OF save_source_queue [OF s]] i(1) this] have "capacity_step d1 d'" .
  with admit_message_capacity [OF a] admit_message_step [OF a] show "capacity_step d d'" by (rule capacity_step_trans)
qed simp

lemma admit_events_capacity: "admit_events X es (f, d) = Inr (f', d') \<Longrightarrow> capacity_step d d'"
proof (induction es arbitrary: f d)
  case (Cons e es)
  then obtain f1 d1 where "admit_event X e (f, d) = Inr (f1, d1)" "admit_events X es (f1, d1) = Inr (f', d')"
    by auto
  with Cons.IH admit_event_capacity admit_event_step show ?case by (blast intro: capacity_step_trans)
qed simp

lemma evidence_capacity: "capacity_step d (snd (admit_child_events X d))"
  by (rule transact_cases [of "\<lambda>d. admit_events X (pending_events d) (False, d)" d])
    (auto simp: admit_child_events_def intro: admit_events_capacity)

lemma claim_capacity: "capacity_step d (snd (claim X fresh session d))"
proof (cases rule: claim_cases [of X fresh session d])
  case (fresh pending selected d1 b d')
  let ?k = "lit ''followup-'' @ fresh" and ?cut = "sm_sequence (last selected)"
  define h where "h m = (if m_session m = session \<and> m_batch m = None \<and> m_sequence m \<le> ?cut \<and> \<not> removed d m
      then m\<lparr>m_batch := Some ?k\<rparr> else m)" for m
  note b = insert_batch_cases [OF fresh(9)]
  have "removed d1 = removed d" by (rule ext) (simp add: b(1) removed_def)
  then have d': "messages d' = map h (messages d)" "batches d' = batches d @ [new_batch ?k session ?cut]" "removals d' = removals d"
    using fresh(10) by (auto simp: insert_display_def assign_batch_def update_where_def h_def [abs_def] b(1) split: if_splits)
  have "undelivered d' (h m) \<longrightarrow> undelivered d m" for m
    by (cases "m_batch m") (auto simp: h_def undelivered_def batch_of_def d'(2) split: option.splits)
  moreover have "m_session (h m) = m_session m" "m_bytes (h m) = m_bytes m" "m_sequence (h m) = m_sequence m" for m
    by (simp_all add: h_def)
  ultimately have "capacity_ok d \<Longrightarrow> capacity_ok d'"
    by (intro capacity_rows [OF d'(1)]) (auto simp: occupying_def removed_def d'(3))
  then show ?thesis using fresh(11) by (simp add: capacity_step_def)
qed simp

section \<open>The machine\<close>

lemma live_capacity: "live_step X d d' \<Longrightarrow> capacity_step d d'"
proof (induction rule: live_step.induct)
  case (live_bind d sid p)
  show ?case
    using bind_frame [of sid p d] by (cases "bind_session_skill_profile sid p d")
      (auto intro!: capacity_step_frame)
next
  case (live_hold d now i parent)
  show ?case
    using hold_frame [of now i parent d] by (cases "hold_child_deletion now i parent d")
      (auto intro!: capacity_step_frame)
next
  case (live_fence d session batch)
  show ?case
    by (simp add: fence_dispatch_def) (rule capacity_batches [OF refl], auto simp: fenceable_def later_batch_def)
next
  case (live_accepted d session batch turn)
  show ?case
    by (simp add: observe_accepted_def) (intro impI capacity_batches [OF refl], auto simp: later_batch_def)
next
  case (live_acknowledge d session turn)
  show ?case
    unfolding acknowledge_def by (rule capacity_batches [OF refl]) (auto simp: later_batch_def)
next
  case (live_block d batch reason)
  show ?case
    unfolding block_def by (rule capacity_batches [OF refl]) (auto simp: later_batch_def)
next
  case (live_pause d session)
  show ?case
    by (rule capacity_step_frame) (simp_all add: pause_def upsert_inbox_def)
qed (auto intro: same_queue_capacity report_queue question_queue reparent_queue update_last_turn_queue evidence_capacity
    execute_capacity claim_capacity capacity_step_frame simp: release_child_deletion_hold_def)

lemma delete_session_capacity:
  assumes "delete_session clock i d = Inr d'" "inbox_ok d" "capacity_ok d"
  shows "capacity_ok d'"
proof (rule capacity_falls [where Q = "\<lambda>m. m_session m \<noteq> i" and h = "\<lambda>m. m", OF _ _ assms(3)])
  have d': "messages d' = filter (\<lambda>m. m_session m \<noteq> i) (messages d)"
    "batches d' = delete_where (\<lambda>b. bt_session b = i) (batches d)" "removals d' = delete_where (message_owned d i) (removals d)"
    using assms(1) by (auto simp: delete_session_def Let_def delete_where_def split: if_splits)
  show "messages d' = map (\<lambda>m. m) (filter (\<lambda>m. m_session m \<noteq> i) (messages d))" by (simp add: d')
  fix m s assume m: "m \<in> set (messages d)" "m_session m \<noteq> i"
  have "distinct (map m_sequence (messages d))"
    using assms(2) by (simp add: inbox_ok_def strict_sorted_iff)
  then have "\<not> message_owned d i (m_sequence m)"
    using m distinct_key_eq unfolding message_owned_def exists_where_iff by metis
  then have r: "removed d' m = removed d m" by (auto simp: removed_def d')
  have "undelivered d m" if "undelivered d' m"
  proof (cases "batch_of d m")
    case (Some b)
    then obtain k where k: "m_batch m = Some k" "List.find (\<lambda>b. bt_id b = k) (batches d) = Some b"
      by (auto simp: batch_of_def bind_eq_Some_conv)
    have ids: "distinct (map bt_id (batches d))" and "assigned_ok d m" using assms(2) m(1) by (auto simp: inbox_ok_def)
    then obtain b1 where "b1 \<in> set (batches d)" "bt_id b1 = k" "bt_session b1 = m_session m"
      by (auto simp: assigned_ok_def k(1))
    moreover from this have "List.find (\<lambda>b. bt_id b = k) (batches d) = Some b1" by (simp add: find_key_Some_iff [OF ids])
    ultimately have b: "b \<in> set (batches d)" "bt_id b = k" "bt_session b = m_session m"
      using k(2) by auto
    have "distinct (map bt_id (batches d'))" unfolding d' by (rule distinct_delete_where [OF ids])
    from find_key_Some_iff [OF this, of k b] b m(2) have "batch_of d' m = Some b"
      by (simp add: batch_of_def k(1) d'(2))
    with that Some show ?thesis by (simp add: undelivered_def)
  qed (simp add: undelivered_def)
  with r show "m_bytes m \<le> m_bytes m \<and> (occupying d' s m \<longrightarrow> occupying d s m)" by (simp add: occupying_def)
qed

lemma coord_capacity:
  assumes "coord_step X d d'" "inbox_ok d" "capacity_ok d"
  shows "capacity_ok d'"
  using assms(1)
proof (cases rule: coord_step.cases)
  case coord_live
  from live_capacity [OF this] show ?thesis using assms(2,3) by (simp add: capacity_step_def)
next
  case (coord_delete clock now i guard)
  show ?thesis
  proof (cases rule: delete_guarded_cases [of clock now i guard d])
    case (archive k)
    then show ?thesis using coord_delete assms(3) capacity_frame [of "archive_bridge now k d" d]
      by (simp add: archive_bridge_def)
  next
    case (delete s e)
    let ?e = "(archive_bridge now (s_id s) d)\<lparr>native_sessions := delete_where
             (\<lambda>n. n = (s_provider s, s_provider_session s) \<or> n \<in> set (s_owned s)) (native_sessions d),
          inbound_events := delete_where (\<lambda>x. x = s_id s) (inbound_events d),
          accepted_prompts := delete_where (\<lambda>x. x = s_id s) (accepted_prompts d),
          holds := delete_where (\<lambda>h. h_child h = s_id s) (holds d)\<rparr>"
    have del: "delete_session clock (s_id s) ?e = Inr e"
      using delete(2) by (simp add: delete_records_def archive_bridge_def)
    have "inbox_ok ?e" "capacity_ok ?e"
      using assms(2,3) inbox_ok_frame [of ?e d] capacity_frame [of ?e d] by (simp_all add: archive_bridge_def)
    from delete_session_capacity [OF del this] delete(1) coord_delete show ?thesis by simp
  qed (use coord_delete assms(3) in simp)
qed

text \<open>C22: No history of operations overfills an inbox: in every reachable state a session holds at most
  256 undelivered messages and 64 MiB of undelivered content, counting claimed and dispatched ones
  until they are acknowledged.\<close>

theorem inbox_capacity_bounded:
  assumes "(coord_step X)\<^sup>*\<^sup>* empty_db d"
  shows "inbox_count d s \<le> 256 \<and> inbox_bytes d s \<le> 64 * 1024 * 1024"
proof -
  from assms have "coord_ok d \<and> capacity_ok d"
  proof (induction rule: rtranclp_induct)
    case base
    show ?case
      using empty_ok by (simp add: capacity_ok_def inbox_count_def inbox_bytes_def empty_db_def count_where_def)
  next
    case (step e f)
    then show ?case using step_ok coord_capacity by (auto simp: coord_ok_def)
  qed
  then show ?thesis by (simp add: capacity_ok_def MAX_PENDING_BYTES_def)
qed

lemma inbox_capacity_bounded_witness: "inbox_count linked_world [1] \<le> 256 \<and> linked linked_world [2]"
  using inbox_capacity_bounded [OF linked_world_reachable] by (simp add: linked_world_def linked_def)

end
