(* ===== verification/Editor.thy ===== *)
theory Editor
  imports Nakode_Prelude "HOL-Library.Word"
begin

text \<open>
  The prompt editor (\<open>src/src/editor.rs\<close>): lines of characters with a cursor, its editing and
  movement operations, and the wrapped window it shows.  A Rust \<open>String\<close> index is a byte offset found
  by \<open>char_to_byte\<close>, which clamps to the end; on character lists that is \<open>take\<close> and \<open>drop\<close>.  An
  index \<open>lines[row]\<close> out of range would panic; \<open>editor_ok\<close> excludes it and every operation keeps
  \<open>editor_ok\<close>.

  The Unicode tables (\<open>UnicodeWidthChar::width\<close>, \<open>char::is_alphanumeric\<close>) are the record
  \<open>unicode\<close>, an argument.
\<close>

record editor =
  e_lines :: "ustring list"
  e_row :: nat
  e_column :: nat
  e_revision :: "64 word"

record cursor_token =
  tk_text :: ustring
  tk_at_prompt_start :: bool
  tk_count :: nat

record unicode =
  display_width :: "uchar \<Rightarrow> nat option"
  alphanumeric :: "uchar \<Rightarrow> bool"

definition editor_default :: editor where
  "editor_default = \<lparr>e_lines = [[]], e_row = 0, e_column = 0, e_revision = 0\<rparr>"

section \<open>Reading\<close>

fun join_lines :: "ustring list \<Rightarrow> ustring" where
  "join_lines [] = []"
| "join_lines [l] = l"
| "join_lines (l # ls) = l @ 10 # join_lines ls"

definition editor_text :: "editor \<Rightarrow> ustring" where
  "editor_text e = join_lines (e_lines e)"

definition is_blank :: "editor \<Rightarrow> bool" where
  "is_blank e \<longleftrightarrow> list_all (\<lambda>l. trim l = []) (e_lines e)"

definition current_line :: "editor \<Rightarrow> ustring" where
  "current_line e = e_lines e ! e_row e"

text \<open>\<open>rposition\<close> of an iterator over a slice.\<close>

definition rposition :: "('a \<Rightarrow> bool) \<Rightarrow> 'a list \<Rightarrow> nat option" where
  "rposition P xs =
     (let n = length (dropWhile (\<lambda>x. \<not> P x) (rev xs)) in if n = 0 then None else Some (n - 1))"

definition token_before_cursor :: "editor \<Rightarrow> cursor_token" where
  "token_before_cursor e =
     (let pre = take (e_column e) (current_line e);
          word_start = (case rposition is_whitespace pre of None \<Rightarrow> 0 | Some i \<Rightarrow> i + 1);
          start = (case rposition (\<lambda>c. c = 47) (drop word_start pre) of None \<Rightarrow> word_start | Some i \<Rightarrow> word_start + i)
      in \<lparr>tk_text = drop start pre, tk_at_prompt_start = (e_row e = 0 \<and> start = 0), tk_count = length pre - start\<rparr>)"

section \<open>Editing\<close>

definition mark_changed :: "editor \<Rightarrow> editor" where
  "mark_changed e = e\<lparr>e_revision := e_revision e + 1\<rparr>"

definition set_line :: "ustring \<Rightarrow> editor \<Rightarrow> editor" where
  "set_line l e = e\<lparr>e_lines := (e_lines e)[e_row e := l]\<rparr>"

definition replace_token_before_cursor :: "ustring \<Rightarrow> editor \<Rightarrow> editor" where
  "replace_token_before_cursor replacement e =
     (let n = tk_count (token_before_cursor e); l = current_line e; start = e_column e - n in
      mark_changed ((set_line (take start l @ replacement @ drop (e_column e) l) e)
        \<lparr>e_column := e_column e - n + length replacement\<rparr>))"

definition clear :: "editor \<Rightarrow> editor" where
  "clear e = mark_changed (e\<lparr>e_lines := [[]], e_row := 0, e_column := 0\<rparr>)"

definition insert_visible_char :: "uchar \<Rightarrow> editor \<Rightarrow> editor" where
  "insert_visible_char c e =
     mark_changed ((set_line (take (e_column e) (current_line e) @ c # drop (e_column e) (current_line e)) e)
       \<lparr>e_column := e_column e + 1\<rparr>)"

definition insert_newline :: "editor \<Rightarrow> editor" where
  "insert_newline e =
     mark_changed (e\<lparr>e_lines := take (e_row e) (e_lines e)
         @ [take (e_column e) (current_line e), drop (e_column e) (current_line e)]
         @ drop (e_row e + 1) (e_lines e),
       e_row := e_row e + 1, e_column := 0\<rparr>)"

definition insert_char :: "uchar \<Rightarrow> editor \<Rightarrow> editor" where
  "insert_char c e =
     (if c = 10 then insert_newline e
      else if c = 13 then e
      else if c = 9 then insert_visible_char 9 e
      else if is_control c then insert_visible_char 0xFFFD e
      else insert_visible_char c e)"

fun insert_str :: "ustring \<Rightarrow> editor \<Rightarrow> editor" where
  "insert_str [] e = e"
| "insert_str (c # cs) e =
     (if c = 13 then
        (case cs of
           d # _ \<Rightarrow> if d = 10 then insert_str cs e else insert_str cs (insert_newline e)
         | [] \<Rightarrow> insert_str cs (insert_newline e))
      else insert_str cs (insert_char c e))"

definition set_text :: "ustring \<Rightarrow> editor \<Rightarrow> editor" where
  "set_text t e = insert_str t (clear e)"

text \<open>\<open>remove_line\<close> is \<open>Vec::remove\<close>.\<close>

definition remove_line :: "nat \<Rightarrow> 'a list \<Rightarrow> 'a list" where
  "remove_line i xs = take i xs @ drop (i + 1) xs"

definition backspace :: "editor \<Rightarrow> editor" where
  "backspace e =
     (if e_column e > 0 then
        mark_changed ((set_line (take (e_column e - 1) (current_line e) @ drop (e_column e) (current_line e)) e)
          \<lparr>e_column := e_column e - 1\<rparr>)
      else if e_row e > 0 then
        let row = e_row e - 1; lines = remove_line (e_row e) (e_lines e) in
        mark_changed (e\<lparr>e_lines := lines[row := lines ! row @ current_line e], e_row := row,
          e_column := length (lines ! row)\<rparr>)
      else e)"

definition delete_to_line_start :: "editor \<Rightarrow> editor" where
  "delete_to_line_start e =
     (if e_column e = 0 then backspace e
      else mark_changed ((set_line (drop (e_column e) (current_line e)) e)\<lparr>e_column := 0\<rparr>))"

definition delete :: "editor \<Rightarrow> editor" where
  "delete e =
     (if e_column e < length (current_line e) then
        mark_changed (set_line (take (e_column e) (current_line e) @ drop (e_column e + 1) (current_line e)) e)
      else if e_row e + 1 < length (e_lines e) then
        let nxt = e_lines e ! (e_row e + 1); lines = remove_line (e_row e + 1) (e_lines e) in
        mark_changed (e\<lparr>e_lines := lines[e_row e := lines ! e_row e @ nxt]\<rparr>)
      else e)"

section \<open>Movement\<close>

definition move_left :: "editor \<Rightarrow> editor" where
  "move_left e =
     (if e_column e > 0 then e\<lparr>e_column := e_column e - 1\<rparr>
      else if e_row e > 0 then
        e\<lparr>e_row := e_row e - 1, e_column := length (e_lines e ! (e_row e - 1))\<rparr>
      else e)"

definition move_right :: "editor \<Rightarrow> editor" where
  "move_right e =
     (if e_column e < length (current_line e) then e\<lparr>e_column := e_column e + 1\<rparr>
      else if e_row e + 1 < length (e_lines e) then e\<lparr>e_row := e_row e + 1, e_column := 0\<rparr>
      else e)"

datatype character_class = Word | Punctuation | Whitespace

definition class_of :: "unicode \<Rightarrow> uchar \<Rightarrow> character_class" where
  "class_of U c =
     (if is_whitespace c then Whitespace
      else if alphanumeric U c \<or> c = 95 then Word
      else Punctuation)"

text \<open>The two loops that move the column while a predicate holds of the character behind it or at it.\<close>

fun skip_left :: "(uchar \<Rightarrow> bool) \<Rightarrow> ustring \<Rightarrow> nat \<Rightarrow> nat" where
  "skip_left P cs 0 = 0"
| "skip_left P cs (Suc n) = (if P (cs ! n) then skip_left P cs n else Suc n)"

function skip_right :: "(uchar \<Rightarrow> bool) \<Rightarrow> ustring \<Rightarrow> nat \<Rightarrow> nat" where
  "skip_right P cs n = (if n < length cs \<and> P (cs ! n) then skip_right P cs (Suc n) else n)"
  by pat_completeness auto
termination by (relation "measure (\<lambda>(P, cs, n). length cs - n)") auto

declare skip_right.simps [simp del]

definition move_word_left :: "unicode \<Rightarrow> editor \<Rightarrow> editor" where
  "move_word_left U e =
     (if e_column e = 0 \<and> e_row e = 0 then e
      else
        let e1 = (if e_column e = 0
                  then e\<lparr>e_row := e_row e - 1, e_column := length (e_lines e ! (e_row e - 1))\<rparr> else e);
            cs = current_line e1;
            col = skip_left is_whitespace cs (e_column e1) in
        if col = 0 then e1\<lparr>e_column := 0\<rparr>
        else e1\<lparr>e_column := skip_left (\<lambda>c. class_of U c = class_of U (cs ! (col - 1))) cs col\<rparr>)"

definition move_word_right :: "unicode \<Rightarrow> editor \<Rightarrow> editor" where
  "move_word_right U e =
     (if e_column e = length (current_line e) \<and> e_row e + 1 = length (e_lines e) then e
      else
        let e1 = (if e_column e = length (current_line e) then e\<lparr>e_row := e_row e + 1, e_column := 0\<rparr> else e);
            cs = current_line e1;
            col = skip_right is_whitespace cs (e_column e1) in
        if col < length cs
        then e1\<lparr>e_column := skip_right (\<lambda>c. class_of U c = class_of U (cs ! col)) cs col\<rparr>
        else e1\<lparr>e_column := col\<rparr>)"

definition move_up :: "editor \<Rightarrow> editor" where
  "move_up e =
     (if e_row e > 0
      then e\<lparr>e_row := e_row e - 1, e_column := min (e_column e) (length (e_lines e ! (e_row e - 1)))\<rparr> else e)"

definition move_down :: "editor \<Rightarrow> editor" where
  "move_down e =
     (if e_row e + 1 < length (e_lines e)
      then e\<lparr>e_row := e_row e + 1, e_column := min (e_column e) (length (e_lines e ! (e_row e + 1)))\<rparr> else e)"

definition move_home :: "editor \<Rightarrow> editor" where
  "move_home e = e\<lparr>e_column := 0\<rparr>"

definition move_end :: "editor \<Rightarrow> editor" where
  "move_end e = e\<lparr>e_column := length (current_line e)\<rparr>"

definition move_document_start :: "editor \<Rightarrow> editor" where
  "move_document_start e = e\<lparr>e_row := 0, e_column := 0\<rparr>"

definition move_document_end :: "editor \<Rightarrow> editor" where
  "move_document_end e = (let e1 = e\<lparr>e_row := length (e_lines e) - 1\<rparr> in e1\<lparr>e_column := length (current_line e1)\<rparr>)"

definition delete_word_backward :: "unicode \<Rightarrow> editor \<Rightarrow> editor" where
  "delete_word_backward U e =
     (if e_column e = 0 then backspace e
      else let e1 = move_word_left U e in
        mark_changed (set_line (take (e_column e1) (current_line e1) @ drop (e_column e) (current_line e1)) e1))"

section \<open>The document as a gap\<close>

text \<open>The abstract editor is the text before the cursor and the text behind it.\<close>

definition editor_ok :: "editor \<Rightarrow> bool" where
  "editor_ok e \<longleftrightarrow> e_row e < length (e_lines e) \<and> e_column e \<le> length (current_line e)"

definition gap :: "editor \<Rightarrow> ustring \<times> ustring" where
  "gap e = (concat (map (\<lambda>l. l @ [10]) (take (e_row e) (e_lines e))) @ take (e_column e) (current_line e),
            drop (e_column e) (current_line e) @ concat (map (\<lambda>l. 10 # l) (drop (e_row e + 1) (e_lines e))))"

text \<open>A well-formed editor is lines before, a line split at the cursor, lines behind.\<close>

definition at :: "ustring list \<Rightarrow> ustring \<Rightarrow> ustring \<Rightarrow> ustring list \<Rightarrow> 64 word \<Rightarrow> editor" where
  "at ps l r ns v = \<lparr>e_lines = ps @ (l @ r) # ns, e_row = length ps, e_column = length l, e_revision = v\<rparr>"

lemma at_simps [simp]:
  "e_lines (at ps l r ns v) = ps @ (l @ r) # ns" "e_row (at ps l r ns v) = length ps"
  "e_column (at ps l r ns v) = length l" "e_revision (at ps l r ns v) = v"
  "current_line (at ps l r ns v) = l @ r"
  by (simp_all add: at_def current_line_def)

lemma at_ok [simp]: "editor_ok (at ps l r ns v)"
  by (simp add: editor_ok_def)

lemma gap_at [simp]:
  "gap (at ps l r ns v) = (concat (map (\<lambda>l. l @ [10]) ps) @ l, r @ concat (map (\<lambda>l. 10 # l) ns))"
  by (simp add: gap_def)

lemma at_cases:
  assumes "editor_ok e"
  obtains ps l r ns v where "e = at ps l r ns v"
proof (rule that [of "take (e_row e) (e_lines e)" "take (e_column e) (current_line e)"
      "drop (e_column e) (current_line e)" "drop (e_row e + 1) (e_lines e)" "e_revision e"])
  have "take (e_row e) (e_lines e) @ current_line e # drop (e_row e + 1) (e_lines e) = e_lines e"
    using assms by (simp add: editor_ok_def current_line_def id_take_nth_drop [symmetric])
  then show "e = at (take (e_row e) (e_lines e)) (take (e_column e) (current_line e))
      (drop (e_column e) (current_line e)) (drop (e_row e + 1) (e_lines e)) (e_revision e)"
    using assms by (simp add: at_def editor_ok_def)
qed

lemma join_lines_Cons: "join_lines (l # ls) = l @ concat (map (\<lambda>l. 10 # l) ls)"
  by (induction ls arbitrary: l) simp_all

lemma newline_shift: "concat (map ((#) 10) ps) @ 10 # s = 10 # concat (map (\<lambda>l. l @ [10]) ps) @ s"
  by (induction ps) simp_all

lemma join_lines_append:
  "join_lines (ps @ l # ns) = concat (map (\<lambda>l. l @ [10]) ps) @ join_lines (l # ns)"
  by (induction ps) (auto simp: join_lines_Cons newline_shift)

lemma text_gap: "editor_ok e \<Longrightarrow> editor_text e = fst (gap e) @ snd (gap e)"
  by (erule at_cases) (simp add: editor_text_def join_lines_append join_lines_Cons)

section \<open>Editing on the gap\<close>

lemma mark_at: "mark_changed (at ps l r ns v) = at ps l r ns (v + 1)"
  by (simp add: mark_changed_def at_def)

lemma insert_visible_at: "insert_visible_char c (at ps l r ns v) = at ps (l @ [c]) r ns (v + 1)"
  by (simp add: insert_visible_char_def mark_changed_def set_line_def at_def current_line_def)

lemma insert_newline_at: "insert_newline (at ps l r ns v) = at (ps @ [l]) [] r ns (v + 1)"
  by (simp add: insert_newline_def mark_changed_def at_def current_line_def)

lemma clear_at: "clear e = at [] [] [] [] (e_revision e + 1)"
  by (simp add: clear_def mark_changed_def at_def)

lemmas edit_defs = mark_changed_def set_line_def remove_line_def Let_def at_def current_line_def

lemma backspace_at:
  "backspace (at ps (l @ [c]) r ns v) = at ps l r ns (v + 1)"
  "backspace (at (ps @ [p]) [] r ns v) = at ps p r ns (v + 1)"
  "backspace (at [] [] r ns v) = at [] [] r ns v"
  by (simp_all add: backspace_def edit_defs nth_append list_update_append)

lemma delete_at:
  "delete (at ps l (c # r) ns v) = at ps l r ns (v + 1)"
  "delete (at ps l [] (n # ns) v) = at ps l n ns (v + 1)"
  "delete (at ps l [] [] v) = at ps l [] [] v"
  by (simp_all add: delete_def edit_defs nth_append list_update_append)

lemma move_left_at:
  "move_left (at ps (l @ [c]) r ns v) = at ps l (c # r) ns v"
  "move_left (at (ps @ [p]) [] r ns v) = at ps p [] (r # ns) v"
  "move_left (at [] [] r ns v) = at [] [] r ns v"
  by (simp_all add: move_left_def edit_defs nth_append)

lemma move_right_at:
  "move_right (at ps l (c # r) ns v) = at ps (l @ [c]) r ns v"
  "move_right (at ps l [] (n # ns) v) = at (ps @ [l]) [] n ns v"
  "move_right (at ps l [] [] v) = at ps l [] [] v"
  by (simp_all add: move_right_def edit_defs nth_append)

lemma delete_to_line_start_at:
  "l \<noteq> [] \<Longrightarrow> delete_to_line_start (at ps l r ns v) = at ps [] r ns (v + 1)"
  by (simp add: delete_to_line_start_def edit_defs list_update_append)

text \<open>Cases on what is before and behind the cursor.\<close>

lemma behind_cases:
  obtains (char) l' c where "l = l' @ [c]" | (line) ps' p where "l = []" "ps = ps' @ [p]" | (start) "l = []" "ps = []"
  by (cases l rule: rev_cases; cases ps rule: rev_cases) auto

lemma ahead_cases:
  obtains (char) c r' where "r = c # r'" | (line) n ns' where "r = []" "ns = n # ns'" | (finish) "r = []" "ns = []"
  by (cases r; cases ns) auto

text \<open>The abstract operations.\<close>

fun gap_insert :: "uchar \<Rightarrow> ustring \<times> ustring \<Rightarrow> ustring \<times> ustring" where
  "gap_insert c (b, a) = (b @ [c], a)"

fun gap_backspace :: "ustring \<times> ustring \<Rightarrow> ustring \<times> ustring" where
  "gap_backspace (b, a) = (butlast b, a)"

fun gap_delete :: "ustring \<times> ustring \<Rightarrow> ustring \<times> ustring" where
  "gap_delete (b, a) = (b, tl a)"

fun gap_left :: "ustring \<times> ustring \<Rightarrow> ustring \<times> ustring" where
  "gap_left (b, a) = (if b = [] then (b, a) else (butlast b, last b # a))"

fun gap_right :: "ustring \<times> ustring \<Rightarrow> ustring \<times> ustring" where
  "gap_right (b, []) = (b, [])"
| "gap_right (b, c # a) = (b @ [c], a)"

lemma gap_backspace_at: "gap (backspace (at ps l r ns v)) = gap_backspace (gap (at ps l r ns v))"
  by (cases rule: behind_cases [where l = l and ps = ps]) (simp_all add: backspace_at butlast_append)

lemma gap_delete_at: "gap (delete (at ps l r ns v)) = gap_delete (gap (at ps l r ns v))"
  by (cases rule: ahead_cases [where r = r and ns = ns]) (simp_all add: delete_at)

lemma gap_left_at: "gap (move_left (at ps l r ns v)) = gap_left (gap (at ps l r ns v))"
  by (cases rule: behind_cases [where l = l and ps = ps]) (simp_all add: move_left_at butlast_append)

lemma gap_right_at: "gap (move_right (at ps l r ns v)) = gap_right (gap (at ps l r ns v))"
  by (cases rule: ahead_cases [where r = r and ns = ns]) (simp_all add: move_right_at)

text \<open>C26: The editor is a text with a cursor.  On the text before and the text behind the cursor,
  inserting a visible character or a newline appends it before the cursor, backspace and delete
  remove the character before and behind it (joining lines when that character is the line break),
  and the arrow keys move one character across it; nothing else of the text changes.\<close>

theorem editor_refines_gap:
  assumes "editor_ok e"
  shows "gap (insert_visible_char c e) = gap_insert c (gap e) \<and> gap (insert_newline e) = gap_insert 10 (gap e) \<and>
    gap (backspace e) = gap_backspace (gap e) \<and> gap (delete e) = gap_delete (gap e) \<and>
    gap (move_left e) = gap_left (gap e) \<and> gap (move_right e) = gap_right (gap e) \<and>
    editor_text e = fst (gap e) @ snd (gap e)"
proof (rule at_cases [OF assms])
  fix ps l r ns v assume e: "e = at ps l r ns v"
  show ?thesis
    using text_gap [OF assms] unfolding e
    by (simp only: gap_backspace_at gap_delete_at gap_left_at gap_right_at insert_visible_at insert_newline_at) simp
qed

lemma editor_refines_gap_witness:
  "gap (backspace (at [[1]] [] [2] [] 0)) = ([1], [2])"
  using editor_refines_gap [OF at_ok, of _ "[[1]]" "[]" "[2]" "[]" 0] by simp

section \<open>Typing and setting text\<close>

text \<open>What \<open>insert_str\<close> makes of a text: line ends become newlines, controls the replacement
  character.\<close>

definition visible :: "uchar \<Rightarrow> uchar" where
  "visible c = (if c = 9 \<or> c = 10 then c else if is_control c then 0xFFFD else c)"

fun normalize :: "ustring \<Rightarrow> ustring" where
  "normalize [] = []"
| "normalize (c # cs) =
     (if c = 13 then (if prefix [10] cs then normalize cs else 10 # normalize cs) else visible c # normalize cs)"

lemma normalize_clean: "13 \<notin> set (normalize s) \<and> (\<forall>c \<in> set (normalize s). visible c = c)"
  by (induction s rule: normalize.induct) (auto simp: visible_def is_control_def)

lemma normalize_id: "13 \<notin> set s \<Longrightarrow> \<forall>c \<in> set s. visible c = c \<Longrightarrow> normalize s = s"
  by (induction s) auto

lemma insert_visible_gap:
  "editor_ok e \<Longrightarrow> editor_ok (insert_visible_char c e) \<and> gap (insert_visible_char c e) = gap_insert c (gap e)"
  by (erule at_cases) (simp add: insert_visible_at)

lemma insert_newline_gap:
  "editor_ok e \<Longrightarrow> editor_ok (insert_newline e) \<and> gap (insert_newline e) = gap_insert 10 (gap e)"
  by (erule at_cases) (simp add: insert_newline_at)

lemma insert_char_gap:
  "editor_ok e \<Longrightarrow> c \<noteq> 13 \<Longrightarrow>
     editor_ok (insert_char c e) \<and> gap (insert_char c e) = gap_insert (visible c) (gap e)"
  using insert_visible_gap insert_newline_gap by (simp add: insert_char_def visible_def)

lemma gap_insert_eq: "gap_insert c g = (fst g @ [c], snd g)"
  by (cases g) simp

lemma insert_str_gap:
  "editor_ok e \<Longrightarrow> editor_ok (insert_str t e) \<and> gap (insert_str t e) = (fst (gap e) @ normalize t, snd (gap e))"
proof (induction t arbitrary: e)
  case (Cons c cs)
  show ?case
  proof (cases "c = 13")
    case True
    show ?thesis
    proof (cases "prefix [10] cs")
      case cr: True
      then obtain ds where "cs = 10 # ds" by (auto simp: prefix_def)
      with True Cons.IH [OF Cons.prems] show ?thesis by simp
    next
      case False
      then have "insert_str (c # cs) e = insert_str cs (insert_newline e)"
        using True by (cases cs) auto
      with True False Cons.IH [of "insert_newline e"] insert_newline_gap [OF Cons.prems]
      show ?thesis by (simp add: gap_insert_eq)
    qed
  next
    case False
    with Cons.IH [of "insert_char c e"] insert_char_gap [OF Cons.prems False] show ?thesis
      by (simp add: gap_insert_eq)
  qed
qed simp

lemma clear_gap: "editor_ok (clear e)" "gap (clear e) = ([], [])"
  by (simp_all add: clear_at)

text \<open>What is set is what is read.  After \<open>set_text\<close> the editor's text is the given text with
  line ends unified and control characters replaced, with the cursor behind it; reading that text
  and setting it again is exact.\<close>

theorem set_text_roundtrip:
  "gap (set_text t e) = (normalize t, []) \<and> editor_text (set_text t e) = normalize t \<and>
   editor_text (set_text (editor_text (set_text t e)) e') = editor_text (set_text t e)"
proof -
  have g: "gap (set_text u f) = (normalize u, []) \<and> editor_ok (set_text u f)" for u f
    using insert_str_gap [of "clear f" u] by (simp add: set_text_def clear_gap)
  then have t: "editor_text (set_text u f) = normalize u" for u f
    using text_gap by simp
  have "normalize (normalize t) = normalize t"
    using normalize_id normalize_clean by blast
  with g t show ?thesis by simp
qed

section \<open>Words\<close>

lemma skip_left_dropWhile:
  "n \<le> length cs \<Longrightarrow> skip_left P cs n = length (dropWhile P (rev (take n cs)))"
  by (induction n) (simp_all add: take_Suc_conv_app_nth)

lemma skip_right_takeWhile:
  "n \<le> length cs \<Longrightarrow> skip_right P cs n = n + length (takeWhile P (drop n cs))"
proof (induction P cs n rule: skip_right.induct)
  case (1 P cs n)
  show ?case
  proof (cases "n < length cs \<and> P (cs ! n)")
    case True
    then have "drop n cs = cs ! n # drop (Suc n) cs" by (simp add: Cons_nth_drop_Suc)
    with True 1 show ?thesis by (subst skip_right.simps) simp
  next
    case False
    then have "takeWhile P (drop n cs) = []"
      by (cases "n < length cs") (auto simp: Cons_nth_drop_Suc [symmetric])
    moreover have "skip_right P cs n = n" by (subst skip_right.simps) (simp only: False if_False)
    ultimately show ?thesis by simp
  qed
qed

text \<open>The word before the cursor, spelled out on the text: the trailing white space, then the
  run of one character class.\<close>

definition drop_word :: "unicode \<Rightarrow> ustring \<Rightarrow> ustring" where
  "drop_word U l =
     (case dropWhile is_whitespace (rev l) of
        [] \<Rightarrow> []
      | c # cs \<Rightarrow> rev (dropWhile (\<lambda>x. class_of U x = class_of U c) cs))"

lemma drop_word_Nil: "dropWhile is_whitespace (rev l) = [] \<Longrightarrow> drop_word U l = []"
  by (simp add: drop_word_def del: dropWhile_eq_Nil_conv)

lemma word_split:
  fixes U :: unicode
  assumes "dropWhile is_whitespace (rev l) = c # cs"
  defines "P \<equiv> \<lambda>x. class_of U x = class_of U c"
  shows "l = rev (c # cs) @ rev (takeWhile is_whitespace (rev l))"
    "drop_word U l = rev (dropWhile P cs)" "rev (c # cs) = drop_word U l @ rev (takeWhile P cs) @ [c]"
proof -
  have "rev l = takeWhile is_whitespace (rev l) @ c # cs"
    using takeWhile_dropWhile_id [of is_whitespace "rev l"] unfolding assms(1) by simp
  then show "l = rev (c # cs) @ rev (takeWhile is_whitespace (rev l))"
    by (metis rev_append rev_rev_ident)
  show d: "drop_word U l = rev (dropWhile P cs)" by (simp add: drop_word_def assms(1) P_def)
  show "rev (c # cs) = drop_word U l @ rev (takeWhile P cs) @ [c]"
    unfolding d by (simp flip: rev_append)
qed

lemma drop_word_prefix: "\<exists>rest. l = drop_word U l @ rest"
proof (cases "dropWhile is_whitespace (rev l)")
  case (Cons c cs)
  from word_split(1,3) [OF Cons] show ?thesis by (metis append_assoc)
qed (simp add: drop_word_Nil)

lemma move_word_left_at:
  assumes "l \<noteq> []"
  shows "move_word_left U (at ps l r ns v) = at ps (drop_word U l) (drop (length (drop_word U l)) l @ r) ns v"
proof -
  obtain rest where rest: "l = drop_word U l @ rest" using drop_word_prefix by blast
  have "drop (length (drop_word U l)) l = rest" by (subst (2) rest) simp
  with rest have tl: "drop_word U l @ drop (length (drop_word U l)) l = l" by simp
  have s: "skip_left is_whitespace (l @ r) (length l) = length (dropWhile is_whitespace (rev l))"
    by (simp add: skip_left_dropWhile)
  show ?thesis
  proof (cases "dropWhile is_whitespace (rev l)")
    case Nil
    with assms s drop_word_Nil [OF Nil] show ?thesis
      by (simp add: move_word_left_def Let_def at_def current_line_def)
  next
    case (Cons c cs)
    let ?P = "\<lambda>x. class_of U x = class_of U c"
    note w = word_split [OF Cons]
    define tail where "tail = rev (takeWhile is_whitespace (rev l)) @ r"
    have l: "l @ r = rev cs @ c # tail" by (subst w(1)) (simp add: tail_def)
    have s1: "skip_left is_whitespace (l @ r) (length l) = Suc (length cs)" using s Cons by simp
    have last: "(l @ r) ! length cs = c" unfolding l using nth_append_length [of "rev cs" c tail] by simp
    have "skip_left ?P (l @ r) (Suc (length cs)) = length (dropWhile ?P (rev (take (Suc (length cs)) (l @ r))))"
      by (rule skip_left_dropWhile) (simp add: l)
    also have "take (Suc (length cs)) (l @ r) = rev (c # cs)" unfolding l by simp
    finally have s2: "skip_left ?P (l @ r) (Suc (length cs)) = length (drop_word U l)"
      unfolding w(2) [of U] by simp
    have "move_word_left U (at ps l r ns v) = (at ps l r ns v)\<lparr>e_column := length (drop_word U l)\<rparr>"
      using assms s1 last s2 by (simp add: move_word_left_def Let_def)
    also have "\<dots> = at ps (drop_word U l) (drop (length (drop_word U l)) l @ r) ns v"
      using tl by (simp add: at_def flip: append_assoc)
    finally show ?thesis .
  qed
qed

lemma delete_word_at:
  assumes "l \<noteq> []"
  shows "delete_word_backward U (at ps l r ns v) = at ps (drop_word U l) r ns (v + 1)"
proof -
  obtain k rest where k: "drop_word U l = k" "l = k @ rest" using drop_word_prefix by blast
  have "move_word_left U (at ps (k @ rest) r ns v) = at ps k (rest @ r) ns v"
    using move_word_left_at [OF assms, of U ps r ns v] k by simp
  then have "delete_word_backward U (at ps (k @ rest) r ns v) = at ps k r ns (v + 1)"
    using assms k(2) by (simp add: delete_word_backward_def)
      (auto simp: at_def mark_changed_def set_line_def list_update_append)
  then show ?thesis using k by simp
qed

text \<open>What is dropped: a run of one class, then white space.\<close>

lemma drop_word_shape:
  "\<exists>w ws. l = drop_word U l @ w @ ws \<and> list_all is_whitespace ws \<and>
     (w = [] \<longrightarrow> drop_word U l = []) \<and> (\<forall>x \<in> set w. \<forall>y \<in> set w. class_of U x = class_of U y) \<and>
     (drop_word U l \<noteq> [] \<longrightarrow> class_of U (last (drop_word U l)) \<noteq> class_of U (hd w))"
proof (cases "dropWhile is_whitespace (rev l)")
  case Nil
  then have "list_all is_whitespace l" by (simp add: list_all_iff)
  with drop_word_Nil [OF Nil] show ?thesis by (intro exI [of _ "[]"] exI [of _ l]) simp
next
  case (Cons c cs)
  let ?P = "\<lambda>x. class_of U x = class_of U c"
  let ?w = "rev (takeWhile ?P cs) @ [c]" and ?ws = "rev (takeWhile is_whitespace (rev l))"
  note w = word_split [OF Cons]
  have l: "l = drop_word U l @ ?w @ ?ws" by (subst w(1), subst w(3) [of U]) simp
  have w_class: "?P x" if "x \<in> set ?w" for x using that by (auto dest: set_takeWhileD)
  show ?thesis
  proof (intro exI conjI impI)
    show "l = drop_word U l @ ?w @ ?ws" by (rule l)
    show "list_all is_whitespace ?ws" by (auto simp: list_all_iff dest: set_takeWhileD)
    show "\<forall>x \<in> set ?w. \<forall>y \<in> set ?w. class_of U x = class_of U y" using w_class by metis
    assume ne: "drop_word U l \<noteq> []"
    then have ne: "dropWhile ?P cs \<noteq> []" by (simp add: w(2) [of U])
    then have "\<not> ?P (hd (dropWhile ?P cs))" by (rule hd_dropWhile)
    moreover have "last (drop_word U l) = hd (dropWhile ?P cs)"
      using ne by (simp add: w(2) [of U] last_rev)
    moreover have "?P (hd ?w)" by (rule w_class, rule hd_in_set) simp
    ultimately show "class_of U (last (drop_word U l)) \<noteq> class_of U (hd ?w)" by simp
  qed simp
qed

text \<open>Deleting a word backward inside a line removes exactly the white space before the cursor and
  the maximal run of one character class before it; the rest of the line, the other lines and the
  text behind the cursor stay.\<close>

theorem delete_word_exact:
  assumes "editor_ok e" "e_column e \<noteq> 0"
  shows "\<exists>w ws kept. take (e_column e) (current_line e) = kept @ w @ ws \<and> list_all is_whitespace ws \<and>
    (w = [] \<longrightarrow> kept = []) \<and> (\<forall>x \<in> set w. \<forall>y \<in> set w. class_of U x = class_of U y) \<and>
    (kept \<noteq> [] \<longrightarrow> class_of U (last kept) \<noteq> class_of U (hd w)) \<and>
    e_lines (delete_word_backward U e) = (e_lines e)[e_row e := kept @ drop (e_column e) (current_line e)] \<and>
    e_row (delete_word_backward U e) = e_row e \<and> e_column (delete_word_backward U e) = length kept"
proof (rule at_cases [OF assms(1)])
  fix ps l r ns v assume e: "e = at ps l r ns v"
  with assms(2) have "l \<noteq> []" by simp
  from delete_word_at [OF this] drop_word_shape [of l U] show ?thesis
    unfolding e by (auto simp: list_update_append intro!: exI [of _ "drop_word U l"])
qed

definition ascii :: unicode where
  "ascii = \<lparr>display_width = (\<lambda>c. if c < 32 then None else Some 1),
     alphanumeric = (\<lambda>c. 48 \<le> c \<and> c \<le> 57 \<or> 65 \<le> c \<and> c \<le> 90 \<or> 97 \<le> c \<and> c \<le> 122)\<rparr>"

lemma delete_word_exact_witness:
  "\<exists>kept. e_lines (delete_word_backward ascii (at [] [65, 46, 66, 32] [67] [] 0)) = [kept @ [67]]"
  using delete_word_exact [OF at_ok, of "[]" "[65, 46, 66, 32]" "[67]" "[]" 0 ascii] by auto

section \<open>The window\<close>

record editor_window =
  w_lines :: "ustring list"
  w_prompt_line_starts :: "bool list"
  w_cursor_x :: "16 word"
  w_cursor_y :: "16 word"

definition character_width :: "unicode \<Rightarrow> uchar \<Rightarrow> nat" where
  "character_width U c = (if c = 9 then 4 else case display_width U c of None \<Rightarrow> 0 | Some w \<Rightarrow> w)"

definition rendered :: "unicode \<Rightarrow> nat \<Rightarrow> uchar \<Rightarrow> ustring \<times> nat" where
  "rendered U width c =
     (let (txt, w) = (if c = 9 then ([32, 32, 32, 32], 4)
                      else if is_control c then ([0xFFFD], 1)
                      else ([c], character_width U c)) in
      if w > width then ([0xFFFD], 1) else (txt, w))"

text \<open>The loop of \<open>wrap_display_line\<close>: finished lines, the open line, its display width and the cursor
  found so far; \<open>i\<close> is the character index.\<close>

fun wrap_chars ::
  "unicode \<Rightarrow> nat \<Rightarrow> nat option \<Rightarrow> ustring \<Rightarrow> nat \<Rightarrow> ustring list \<Rightarrow> ustring \<Rightarrow> nat \<Rightarrow> (nat \<times> nat) option
     \<Rightarrow> ustring list \<times> ustring \<times> nat \<times> (nat \<times> nat) option" where
  "wrap_chars U width cur [] i lines line col found = (lines, line, col, found)"
| "wrap_chars U width cur (c # cs) i lines line col found =
     (let (txt, w) = rendered U width c;
          (lines, line, col) = (if col > 0 \<and> col + w > width then (lines @ [line], [], 0) else (lines, line, col));
          found = (if cur = Some i then Some (length lines, col) else found) in
      wrap_chars U width cur cs (i + 1) lines (line @ txt) (col + w) found)"

definition wrap_display_line :: "unicode \<Rightarrow> ustring \<Rightarrow> nat \<Rightarrow> nat option \<Rightarrow> ustring list \<times> (nat \<times> nat) option" where
  "wrap_display_line U txt width cur =
     (let (lines, line, col, found) = wrap_chars U width cur txt 0 [] [] 0 None;
          found = (if cur = Some (length txt) then Some (length lines, col) else found) in
      (lines @ [line], found))"

text \<open>The loop of \<open>window\<close> over the lines.\<close>

fun window_rows ::
  "unicode \<Rightarrow> nat \<Rightarrow> editor \<Rightarrow> ustring list \<Rightarrow> nat \<Rightarrow> ustring list \<Rightarrow> bool list \<Rightarrow> nat \<times> nat
     \<Rightarrow> ustring list \<times> bool list \<times> nat \<times> nat" where
  "window_rows U width e [] row vis starts cursor = (vis, starts, cursor)"
| "window_rows U width e (l # ls) row vis starts cursor =
     (let (wrapped, found) = wrap_display_line U l width (if row = e_row e then Some (e_column e) else None);
          cursor = (case found of Some (r, c) \<Rightarrow> (length vis + r, c) | None \<Rightarrow> cursor) in
      window_rows U width e ls (row + 1) (vis @ wrapped)
        (starts @ map (\<lambda>i. row = 0 \<and> i = 0) [0..<length wrapped]) cursor)"

text \<open>\<open>u16::try_from(n).expect(...)\<close>; \<open>None\<close> is the panic.\<close>

definition u16_expect :: "nat \<Rightarrow> 16 word option" where
  "u16_expect n = (if n < 2 ^ 16 then Some (of_nat n) else None)"

definition window :: "unicode \<Rightarrow> editor \<Rightarrow> 16 word \<Rightarrow> 16 word \<Rightarrow> editor_window option" where
  "window U e h w =
     (let height = max (unat h) 1; width = max (unat w) 1;
          (vis, starts, cursor) = window_rows U width e (e_lines e) 0 [] [] (0, 0);
          first = fst cursor - (height - 1) in
      case u16_expect (min (snd cursor) (width - 1)) of
        None \<Rightarrow> None
      | Some x \<Rightarrow>
          (case u16_expect (fst cursor - first) of
             None \<Rightarrow> None
           | Some y \<Rightarrow> Some \<lparr>w_lines = take height (drop first vis), w_prompt_line_starts = take height (drop first starts),
                w_cursor_x = x, w_cursor_y = y\<rparr>))"

section \<open>Wrapping loses nothing and keeps the cursor\<close>

lemma wrap_chars_spec:
  assumes "wrap_chars U width cur cs i lines line col found = (lines', line', col', found')" "0 < width" "col \<le> width"
    and "\<And>r c. found = Some (r, c) \<Longrightarrow> r \<le> length lines \<and> c \<le> width"
  shows "length lines \<le> length lines' \<and> col' \<le> width \<and>
    concat lines' @ line' = concat lines @ line @ concat (map (\<lambda>c. fst (rendered U width c)) cs) \<and>
    (\<forall>r c. found' = Some (r, c) \<longrightarrow> r \<le> length lines' \<and> c \<le> width) \<and>
    (found \<noteq> None \<or> (\<exists>k. cur = Some (i + k) \<and> k < length cs) \<longrightarrow> found' \<noteq> None)"
  using assms
proof (induction cs arbitrary: i lines line col found)
  case (Cons c cs)
  obtain tx w where t: "rendered U width c = (tx, w)" by (cases "rendered U width c")
  then have w: "w \<le> width" using \<open>0 < width\<close> by (auto simp: rendered_def Let_def split: if_splits)
  obtain ls1 ln1 c1 where step: "(if col > 0 \<and> col + w > width then (lines @ [line], [], 0) else (lines, line, col)) = (ls1, ln1, c1)"
    by (metis prod_cases3)
  then have s1: "length lines \<le> length ls1" "concat ls1 @ ln1 = concat lines @ line" "c1 + w \<le> width" "c1 \<le> width"
    using w Cons.prems(3) by (auto split: if_splits)
  define f1 where "f1 = (if cur = Some i then Some (length ls1, c1) else found)"
  have rec: "wrap_chars U width cur cs (i + 1) ls1 (ln1 @ tx) (c1 + w) f1 = (lines', line', col', found')"
    using Cons.prems(1) t step by (simp add: Let_def f1_def)
  have f1: "r \<le> length ls1 \<and> cc \<le> width" if "f1 = Some (r, cc)" for r cc
    using that Cons.prems(4) [of r cc] s1 by (auto simp: f1_def split: if_splits)
  from Cons.IH [OF rec Cons.prems(2) s1(3) f1]
  have ih: "length ls1 \<le> length lines'" "col' \<le> width"
    "concat lines' @ line' = concat ls1 @ (ln1 @ tx) @ concat (map (\<lambda>c. fst (rendered U width c)) cs)"
    "\<forall>r c. found' = Some (r, c) \<longrightarrow> r \<le> length lines' \<and> c \<le> width"
    "f1 \<noteq> None \<or> (\<exists>k. cur = Some (i + 1 + k) \<and> k < length cs) \<longrightarrow> found' \<noteq> None"
    by blast+
  have "found' \<noteq> None" if "found \<noteq> None \<or> (\<exists>k. cur = Some (i + k) \<and> k < length (c # cs))"
  proof (cases "f1 \<noteq> None")
    case False
    with that have "found = None" "cur \<noteq> Some i" by (auto simp: f1_def split: if_splits)
    with that obtain k where k: "cur = Some (i + k)" "k < length (c # cs)" by blast
    with \<open>cur \<noteq> Some i\<close> have "k \<noteq> 0" by auto
    with k have "cur = Some (i + k)" "k < length (c # cs)" "k \<noteq> 0" by auto
    then have "cur = Some (i + 1 + (k - 1))" "k - 1 < length cs" by auto
    with ih(5) show ?thesis by blast
  qed (use ih(5) in blast)
  with ih s1 t show ?case by (simp add: append_assoc [symmetric] del: append_assoc)
qed auto

lemma wrap_display_line_spec:
  assumes "wrap_display_line U tx width cur = (wrapped, found)" "0 < width"
  shows "wrapped \<noteq> []" "concat wrapped = concat (map (\<lambda>c. fst (rendered U width c)) tx)"
    "found = Some (r, c) \<Longrightarrow> r < length wrapped \<and> c \<le> width"
    "cur = Some k \<Longrightarrow> k \<le> length tx \<Longrightarrow> found \<noteq> None"
proof -
  obtain lines line col f where w: "wrap_chars U width cur tx 0 [] [] 0 None = (lines, line, col, f)"
    by (metis prod_cases4)
  note s = wrap_chars_spec [OF w assms(2)]
  have res: "wrapped = lines @ [line]" "found = (if cur = Some (length tx) then Some (length lines, col) else f)"
    using assms(1) w by (simp_all add: wrap_display_line_def)
  show "wrapped \<noteq> []" "concat wrapped = concat (map (\<lambda>c. fst (rendered U width c)) tx)"
    using s by (simp_all add: res)
  show "found = Some (r, c) \<Longrightarrow> r < length wrapped \<and> c \<le> width"
    using s by (auto simp: res less_Suc_eq_le split: if_splits)
  show "cur = Some k \<Longrightarrow> k \<le> length tx \<Longrightarrow> found \<noteq> None"
    using s by (auto simp: res)
qed

lemma wrap_chars_none: "snd (snd (snd (wrap_chars U width None cs i lines line col None))) = None"
  by (induction cs arbitrary: i lines line col) (auto simp: Let_def split: prod.split)

lemma wrap_none: "wrap_display_line U tx width None = (wr, fd) \<Longrightarrow> fd = None"
  using wrap_chars_none [of U width tx 0 "[]" "[]" 0]
  by (auto simp: wrap_display_line_def split: prod.splits)

lemma window_rows_spec:
  assumes "window_rows U width e ls row vis starts cursor = (vis', starts', cursor')" "0 < width"
    and "length starts = length vis" "e_row e < row \<longrightarrow> fst cursor < length vis \<and> snd cursor \<le> width"
    and "row \<le> e_row e \<longrightarrow> e_row e < row + length ls \<and> e_column e \<le> length (ls ! (e_row e - row))"
  shows "length starts' = length vis' \<and> fst cursor' < length vis' \<and> snd cursor' \<le> width \<and>
    concat vis' = concat vis @ concat (map (\<lambda>l. concat (map (\<lambda>c. fst (rendered U width c)) l)) ls)"
  using assms
proof (induction ls arbitrary: row vis starts cursor)
  case (Cons l ls)
  obtain wr fd where w: "wrap_display_line U l width (if row = e_row e then Some (e_column e) else None) = (wr, fd)"
    by (cases "wrap_display_line U l width (if row = e_row e then Some (e_column e) else None)")
  define cursor1 where "cursor1 = (case fd of Some (r, c) \<Rightarrow> (length vis + r, c) | None \<Rightarrow> cursor)"
  note sp = wrap_display_line_spec [OF w Cons.prems(2)]
  have rec: "window_rows U width e ls (row + 1) (vis @ wr) (starts @ map (\<lambda>i. row = 0 \<and> i = 0) [0..<length wr]) cursor1
      = (vis', starts', cursor')"
    using Cons.prems(1) w by (simp add: cursor1_def Let_def)
  have none: "fd = None" if "row \<noteq> e_row e"
    using that w wrap_none by simp
  have c: "fst cursor1 < length (vis @ wr) \<and> snd cursor1 \<le> width" if "e_row e < row + 1"
  proof (cases "row = e_row e")
    case True
    with Cons.prems(5) have "fd \<noteq> None" using sp(4) [of "e_column e"] by simp
    then obtain r c where "fd = Some (r, c)" by auto
    with sp(3) [of r c] show ?thesis by (simp add: cursor1_def)
  next
    case False
    with that Cons.prems(4) none show ?thesis by (auto simp: cursor1_def)
  qed
  have n: "row + 1 \<le> e_row e \<longrightarrow> e_row e < row + 1 + length ls \<and> e_column e \<le> length (ls ! (e_row e - (row + 1)))"
    using Cons.prems(5) by (auto simp: nth_Cons' split: if_splits)
  from Cons.IH [OF rec Cons.prems(2) _ _ n] c Cons.prems(3) sp(2) show ?case by simp
qed auto

section \<open>Every key keeps the cursor inside\<close>

inductive editor_step :: "unicode \<Rightarrow> editor \<Rightarrow> editor \<Rightarrow> bool" for U :: unicode where
  step_replace: "editor_step U e (replace_token_before_cursor t e)"
| step_clear: "editor_step U e (clear e)"
| step_set: "editor_step U e (set_text t e)"
| step_char: "editor_step U e (insert_char c e)"
| step_str: "editor_step U e (insert_str t e)"
| step_newline: "editor_step U e (insert_newline e)"
| step_backspace: "editor_step U e (backspace e)"
| step_delete_word: "editor_step U e (delete_word_backward U e)"
| step_delete_line: "editor_step U e (delete_to_line_start e)"
| step_delete: "editor_step U e (delete e)"
| step_left: "editor_step U e (move_left e)"
| step_right: "editor_step U e (move_right e)"
| step_word_left: "editor_step U e (move_word_left U e)"
| step_word_right: "editor_step U e (move_word_right U e)"
| step_up: "editor_step U e (move_up e)"
| step_down: "editor_step U e (move_down e)"
| step_home: "editor_step U e (move_home e)"
| step_end: "editor_step U e (move_end e)"
| step_start: "editor_step U e (move_document_start e)"
| step_finish: "editor_step U e (move_document_end e)"

lemma backspace_ok: "editor_ok (backspace (at ps l r ns v))"
  by (cases rule: behind_cases [where l = l and ps = ps]) (simp_all add: backspace_at)

lemma delete_key_ok: "editor_ok (delete (at ps l r ns v))"
  by (cases rule: ahead_cases [where r = r and ns = ns]) (simp_all add: delete_at)

lemma move_left_ok: "editor_ok (move_left (at ps l r ns v))"
  by (cases rule: behind_cases [where l = l and ps = ps]) (simp_all add: move_left_at)

lemma move_right_ok: "editor_ok (move_right (at ps l r ns v))"
  by (cases rule: ahead_cases [where r = r and ns = ns]) (simp_all add: move_right_at)

lemma delete_to_line_start_ok: "editor_ok (delete_to_line_start (at ps l r ns v))"
  using backspace_ok [of ps "[]" r ns v]
  by (cases "l = []") (simp add: delete_to_line_start_def, simp add: delete_to_line_start_at)

lemma move_word_left_ok: "editor_ok (move_word_left U (at ps l r ns v))"
proof (cases rule: behind_cases [where l = l and ps = ps])
  case (line ps' p)
  have "move_word_left U (at (ps' @ [p]) [] r ns v) =
      (if p = [] then at ps' [] [] (r # ns) v else move_word_left U (at ps' p [] (r # ns) v))"
    by (simp add: move_word_left_def Let_def) (simp add: at_def current_line_def nth_append)
  with line show ?thesis by (simp add: move_word_left_at)
qed (simp_all add: move_word_left_at, simp add: move_word_left_def)

lemma skip_right_le: "n \<le> length cs \<Longrightarrow> skip_right P cs n \<le> length cs"
proof -
  assume n: "n \<le> length cs"
  have "length (takeWhile P (drop n cs)) \<le> length (drop n cs)" by (rule length_takeWhile_le)
  with n show ?thesis by (simp add: skip_right_takeWhile)
qed

lemma move_word_right_ok:
  assumes "editor_ok e"
  shows "editor_ok (move_word_right U e)"
proof -
  define e1 where "e1 = (if e_column e = length (current_line e) then e\<lparr>e_row := e_row e + 1, e_column := 0\<rparr> else e)"
  have "editor_ok e1" if "\<not> (e_column e = length (current_line e) \<and> e_row e + 1 = length (e_lines e))"
    using that assms by (auto simp: e1_def editor_ok_def)
  moreover have "move_word_right U e = (if e_column e = length (current_line e) \<and> e_row e + 1 = length (e_lines e) then e
      else let cs = current_line e1; col = skip_right is_whitespace cs (e_column e1) in
        if col < length cs
        then e1\<lparr>e_column := skip_right (\<lambda>c. class_of U c = class_of U (cs ! col)) cs col\<rparr>
        else e1\<lparr>e_column := col\<rparr>)"
    by (simp only: move_word_right_def Let_def e1_def)
  moreover have "skip_right P (current_line e1) n \<le> length (current_line e1)" if "n \<le> length (current_line e1)" for P n
    using that by (rule skip_right_le)
  ultimately show ?thesis
    using assms by (simp add: Let_def editor_ok_def current_line_def)
qed

lemma replace_token_at:
  "replace_token_before_cursor t (at ps l r ns v) =
     at ps (take (length l - tk_count (token_before_cursor (at ps l r ns v))) l @ t) r ns (v + 1)"
  by (simp add: replace_token_before_cursor_def Let_def)
    (simp add: at_def mark_changed_def set_line_def list_update_append)

lemma editor_step_ok: "editor_step U e e' \<Longrightarrow> editor_ok e \<Longrightarrow> editor_ok e'"
proof (induction rule: editor_step.induct)
  case (step_set e t)
  show ?case using insert_str_gap [of "clear e" t] by (simp add: set_text_def clear_gap)
next
  case (step_char e c)
  then show ?case using insert_char_gap [of e c] by (cases "c = 13") (auto simp: insert_char_def)
next
  case (step_delete_word e)
  then show ?case
  proof (rule at_cases)
    fix ps l r ns v assume e: "e = at ps l r ns v"
    show ?case
      using backspace_ok [of ps "[]" r ns v] unfolding e
      by (cases "l = []") (simp add: delete_word_backward_def, simp add: delete_word_at)
  qed
next
  case (step_up e)
  then show ?case by (auto simp: editor_ok_def move_up_def current_line_def)
next
  case (step_down e)
  then show ?case by (auto simp: editor_ok_def move_down_def current_line_def)
next
  case (step_home e)
  then show ?case by (simp add: editor_ok_def move_home_def)
next
  case (step_end e)
  then show ?case by (simp add: editor_ok_def move_end_def current_line_def)
next
  case (step_start e)
  then show ?case by (cases "e_lines e") (simp_all add: editor_ok_def move_document_start_def)
next
  case (step_finish e)
  then show ?case by (cases "e_lines e") (simp_all add: editor_ok_def move_document_end_def Let_def current_line_def)
next
  case (step_word_right e)
  then show ?case by (rule move_word_right_ok)
qed (auto simp: clear_gap insert_str_gap insert_newline_gap replace_token_at backspace_ok delete_key_ok move_left_ok move_right_ok
    delete_to_line_start_ok move_word_left_ok elim!: at_cases)

lemma default_ok: "editor_ok editor_default"
  by (simp add: editor_ok_def editor_default_def current_line_def)

lemma editor_run_ok: "(editor_step U)\<^sup>*\<^sup>* editor_default e \<Longrightarrow> editor_ok e"
  by (induction rule: rtranclp_induct) (auto intro: editor_step_ok default_ok)

lemma u16_expect_below: "n < 2 ^ 16 \<Longrightarrow> \<exists>x. u16_expect n = Some x \<and> unat x = n"
  by (simp add: u16_expect_def unat_of_nat)

text \<open>No sequence of keys breaks the editor.  In every state the operations can reach the cursor is
  on an existing line at most behind its last character, and for every terminal size the window is
  shown without a panic: it has between one row and the height, its cursor is on one of its rows and
  inside its width, and every row knows whether it starts the prompt.\<close>

theorem editor_never_panics:
  assumes "(editor_step U)\<^sup>*\<^sup>* editor_default e"
  shows "e_row e < length (e_lines e) \<and> e_column e \<le> length (e_lines e ! e_row e) \<and>
    (\<exists>win. window U e h w = Some win \<and> length (w_lines win) \<le> max (unat h) 1 \<and>
       unat (w_cursor_y win) < length (w_lines win) \<and> unat (w_cursor_x win) < max (unat w) 1 \<and>
       length (w_prompt_line_starts win) = length (w_lines win))"
proof -
  have ok: "editor_ok e" by (rule editor_run_ok [OF assms])
  define height where "height = max (unat h) 1"
  define width where "width = max (unat w) 1"
  have bound: "unat h < 2 ^ 16" "unat w < 2 ^ 16"
    using unsigned_less [where 'a = nat, of h] unsigned_less [where 'a = nat, of w] by simp_all
  then have b: "height < 2 ^ 16" "0 < height" "width < 2 ^ 16" "0 < width" by (auto simp: height_def width_def)
  obtain vis starts cursor where rows: "window_rows U width e (e_lines e) 0 [] [] (0, 0) = (vis, starts, cursor)"
    by (metis prod_cases3)
  have sp: "length starts = length vis" "fst cursor < length vis" "snd cursor \<le> width"
    using window_rows_spec [OF rows b(4)] ok by (auto simp: editor_ok_def current_line_def)
  define first where "first = fst cursor - (height - 1)"
  obtain x where x: "u16_expect (min (snd cursor) (width - 1)) = Some x" "unat x = min (snd cursor) (width - 1)"
    using u16_expect_below [of "min (snd cursor) (width - 1)"] b by fastforce
  have "fst cursor - first \<le> height - 1" by (simp add: first_def)
  with b have "fst cursor - first < 2 ^ 16" by linarith
  then obtain y where y: "u16_expect (fst cursor - first) = Some y" "unat y = fst cursor - first"
    using u16_expect_below by blast
  have win: "window U e h w = Some \<lparr>w_lines = take height (drop first vis), w_prompt_line_starts = take height (drop first starts),
      w_cursor_x = x, w_cursor_y = y\<rparr>"
    using x(1) y(1)
    unfolding window_def Let_def height_def [symmetric] width_def [symmetric] rows
    by (simp add: first_def)
  have "fst cursor - first < min (length vis - first) height"
    using sp(2) b(2) by (auto simp: first_def)
  then show ?thesis
    using ok win x(2) y(2) sp(1) b(4)
    unfolding height_def [symmetric] width_def [symmetric] editor_ok_def current_line_def
    by auto
qed

lemma editor_never_panics_witness:
  "\<exists>win. window ascii (insert_newline (insert_char 65 editor_default)) 0 0 = Some win \<and> unat (w_cursor_x win) = 0"
proof -
  have "(editor_step ascii)\<^sup>*\<^sup>* editor_default (insert_newline (insert_char 65 editor_default))"
    by (meson step_char step_newline rtranclp.rtrancl_into_rtrancl rtranclp.rtrancl_refl)
  from editor_never_panics [OF this, of 0 0] show ?thesis by auto
qed

end
