(* ===== verification/Task_Store.thy ===== *)
theory Task_Store
  imports Nakode_Prelude "HOL-Library.Product_Lexorder"
begin

text \<open>
  The durable registry of background tasks (\<open>src/src/background_tasks/store.rs\<close>): the lifecycle states,
  a task's record and the three tables with their operations.  A row is kept as the record it is read
  back as: the state column holds \<open>as_str\<close> of the state, so reading applies \<open>parse_state\<close> to it, and
  the endpoint list is the JSON text of the list.
\<close>

section \<open>Records\<close>

datatype task_state =
  Launching | Running | Stopping | Exited | Stopped | FailedToStart | CleanupFailed | Unknown

fun state_str :: "task_state \<Rightarrow> string" where
  "state_str Launching = ''launching''"
| "state_str Running = ''running''"
| "state_str Stopping = ''stopping''"
| "state_str Exited = ''exited''"
| "state_str Stopped = ''stopped''"
| "state_str FailedToStart = ''failed_to_start''"
| "state_str CleanupFailed = ''cleanup_failed''"
| "state_str Unknown = ''unknown''"

definition parse_state :: "string \<Rightarrow> task_state" where
  "parse_state v =
     (if v = ''launching'' then Launching
      else if v = ''running'' then Running
      else if v = ''stopping'' then Stopping
      else if v = ''exited'' then Exited
      else if v = ''stopped'' then Stopped
      else if v = ''failed_to_start'' then FailedToStart
      else if v = ''cleanup_failed'' then CleanupFailed
      else Unknown)"

fun ended :: "task_state \<Rightarrow> bool" where
  "ended Exited = True"
| "ended Stopped = True"
| "ended FailedToStart = True"
| "ended _ = False"

record task_record =
  t_id :: ustring
  t_name :: ustring
  t_owner :: ustring
  t_run :: "ustring option"
  t_turn :: "ustring option"
  t_call :: "ustring option"
  t_command :: ustring
  t_cwd :: ustring
  t_machine :: ustring
  t_state :: task_state
  t_supervision :: ustring
  t_process_id :: "int option"
  t_process_start :: "ustring option"
  t_exit_code :: "int option"
  t_exit_signal :: "int option"
  t_detail :: "ustring option"
  t_stop_reason :: "ustring option"
  t_stop_requested_at :: "int option"
  t_owner_deleted_at :: "int option"
  t_endpoints :: "ustring list"
  t_log_path :: ustring
  t_created_at :: int
  t_started_at :: "int option"
  t_ended_at :: "int option"
  t_updated_at :: int

record task_receipt =
  rc_task :: ustring
  rc_owner :: ustring
  rc_run :: "ustring option"

record task_store =
  st_tasks :: "task_record list"
  st_receipts :: "task_receipt list"
  st_processes :: "(ustring \<times> int \<times> ustring) list"

lemma parse_state_str [simp]: "parse_state (state_str s) = s"
  by (cases s) (simp_all add: parse_state_def)

section \<open>Operations\<close>

definition store_failure :: "ustring \<Rightarrow> ustring" where
  "store_failure e = lit ''background task registry failed: '' @ e"

definition read_record :: "task_record \<Rightarrow> task_record" where
  "read_record r = r\<lparr>t_state := parse_state (state_str (t_state r))\<rparr>"

lemma read_record_id [simp]: "read_record r = r"
  by (simp add: read_record_def)

definition store_insert :: "task_record \<Rightarrow> task_store \<Rightarrow> ustring + unit \<times> task_store" where
  "store_insert r st =
     (if exists_where (\<lambda>q. t_id q = t_id r) (st_tasks st)
      then Inl (store_failure (lit ''UNIQUE constraint failed: background_tasks.task_id''))
      else Inr ((), st\<lparr>st_tasks := st_tasks st @ [r]\<rparr>))"

text \<open>The columns an update writes; the others keep their value.\<close>

definition write_lifecycle :: "task_record \<Rightarrow> task_record \<Rightarrow> task_record" where
  "write_lifecycle r q =
     q\<lparr>t_state := t_state r, t_supervision := t_supervision r, t_process_id := t_process_id r,
       t_process_start := t_process_start r, t_exit_code := t_exit_code r, t_exit_signal := t_exit_signal r,
       t_detail := t_detail r, t_stop_reason := t_stop_reason r, t_stop_requested_at := t_stop_requested_at r,
       t_owner_deleted_at := t_owner_deleted_at r, t_started_at := t_started_at r, t_ended_at := t_ended_at r,
       t_updated_at := t_updated_at r\<rparr>"

definition store_update :: "task_record \<Rightarrow> task_store \<Rightarrow> ustring + unit \<times> task_store" where
  "store_update r st =
     (if count_where (\<lambda>q. t_id q = t_id r) (st_tasks st) = 1
      then Inr ((), st\<lparr>st_tasks := update_where (\<lambda>q. t_id q = t_id r) (write_lifecycle r) (st_tasks st)\<rparr>)
      else Inl (lit ''background task '' @ t_id r @ lit '' is missing from the registry''))"

definition store_get :: "ustring \<Rightarrow> task_store \<Rightarrow> task_record option" where
  "store_get i st = map_option read_record (List.find (\<lambda>q. t_id q = i) (st_tasks st))"

definition store_list :: "ustring option \<Rightarrow> task_store \<Rightarrow> task_record list" where
  "store_list owner st =
     sort_key (\<lambda>q. (t_created_at q, t_id q))
       (map read_record (filter (\<lambda>q. case owner of None \<Rightarrow> True | Some x \<Rightarrow> t_owner q = x) (st_tasks st)))"

definition store_receipt :: "ustring \<Rightarrow> task_store \<Rightarrow> (ustring \<times> ustring option) option" where
  "store_receipt i st = map_option (\<lambda>r. (rc_owner r, rc_run r)) (List.find (\<lambda>r. rc_task r = i) (st_receipts st))"

definition store_remove :: "task_record \<Rightarrow> task_store \<Rightarrow> task_store" where
  "store_remove r st =
     st\<lparr>st_receipts :=
          (if exists_where (\<lambda>x. rc_task x = t_id r) (st_receipts st) then st_receipts st
           else st_receipts st @ [\<lparr>rc_task = t_id r, rc_owner = t_owner r, rc_run = t_run r\<rparr>]),
        st_processes := delete_where (\<lambda>p. fst p = t_id r) (st_processes st),
        st_tasks := delete_where (\<lambda>q. t_id q = t_id r) (st_tasks st)\<rparr>"

definition store_tracked :: "ustring \<Rightarrow> task_store \<Rightarrow> (int \<times> ustring) list" where
  "store_tracked i st = map snd (filter (\<lambda>p. fst p = i) (st_processes st))"

definition store_track :: "ustring \<Rightarrow> (int \<times> ustring) list \<Rightarrow> task_store \<Rightarrow> task_store" where
  "store_track i tracked st =
     st\<lparr>st_processes :=
          delete_where (\<lambda>p. fst p = i) (st_processes st) @
          (if exists_where (\<lambda>q. t_id q = i) (st_tasks st) then map (\<lambda>q. (i, q)) tracked else [])\<rparr>"

definition list_unended :: "task_store \<Rightarrow> task_record list" where
  "list_unended st = filter (\<lambda>r. \<not> ended (t_state r)) (store_list None st)"

definition empty_store :: task_store where
  "empty_store = \<lparr>st_tasks = [], st_receipts = [], st_processes = []\<rparr>"

section \<open>What the operations keep\<close>

definition store_ok :: "task_store \<Rightarrow> bool" where
  "store_ok st \<longleftrightarrow> distinct (map t_id (st_tasks st)) \<and> distinct (map rc_task (st_receipts st))"

lemma write_lifecycle_id [simp]: "t_id (write_lifecycle r q) = t_id q" "t_owner (write_lifecycle r q) = t_owner q"
  "t_run (write_lifecycle r q) = t_run q" "t_created_at (write_lifecycle r q) = t_created_at q"
  "t_state (write_lifecycle r q) = t_state r" "t_process_id (write_lifecycle r q) = t_process_id r"
  "t_process_start (write_lifecycle r q) = t_process_start r"
  by (simp_all add: write_lifecycle_def)

lemma write_lifecycle_command [simp]: "t_command (write_lifecycle r q) = t_command q"
  by (simp add: write_lifecycle_def)

lemma store_get_Some: "store_get i st = Some r \<Longrightarrow> r \<in> set (st_tasks st) \<and> t_id r = i"
  by (auto simp: store_get_def dest: find_Some_set)

lemma store_get_iff: "store_ok st \<Longrightarrow> store_get i st = Some r \<longleftrightarrow> r \<in> set (st_tasks st) \<and> t_id r = i"
  by (simp add: store_get_def store_ok_def find_key_Some_iff option.map_ident cong: option.map_cong)

lemma store_get_None: "store_get i st = None \<longleftrightarrow> (\<forall>q \<in> set (st_tasks st). t_id q \<noteq> i)"
  by (auto simp: store_get_def find_None_set)

lemma set_store_list [simp]:
  "set (store_list owner st) = {q \<in> set (st_tasks st). case owner of None \<Rightarrow> True | Some x \<Rightarrow> t_owner q = x}"
  by (auto simp: store_list_def)

lemma store_insert_ok: "store_ok st \<Longrightarrow> store_insert r st = Inr ((), st') \<Longrightarrow> store_ok st'"
  by (auto simp: store_insert_def store_ok_def image_iff split: if_splits) metis

lemma store_update_ok: "store_ok st \<Longrightarrow> store_update r st = Inr ((), st') \<Longrightarrow> store_ok st'"
  by (auto simp: store_update_def store_ok_def map_update_where_key split: if_splits)

lemma store_remove_ok: "store_ok st \<Longrightarrow> store_ok (store_remove r st)"
  by (auto simp: store_remove_def store_ok_def intro: distinct_delete_where)

lemma store_track_ok: "store_ok st \<Longrightarrow> store_ok (store_track i tr st)"
  by (auto simp: store_track_def store_ok_def)

end
