(* ===== verification/Process_Table.thy ===== *)
theory Process_Table
  imports Nakode_Prelude
begin

text \<open>
  Observation of the processes of a background task (\<open>src/src/background_tasks/os.rs\<close>).  A listing is
  parsed into a table of processes; a task is the process group its leader was started in, identified
  by the leader's start time, with the descendants that left the group.  A \<open>HashMap\<close> is a list of
  entries with distinct keys; the order of the list stands for the order an iteration happens to take,
  and the theorems hold for every order.  An \<open>i32\<close> is an \<open>int\<close> whose range the parser checks.
\<close>

record process_entry =
  pe_pid :: int
  pe_parent :: int
  pe_group :: int
  pe_zombie :: bool
  pe_start :: ustring

type_synonym process_table = "process_entry list"
type_synonym tracked = "(int \<times> ustring) list"

section \<open>Parsing a listing\<close>

text \<open>\<open>str::lines\<close>, \<open>str::split_whitespace\<close> and \<open>str::parse::<i32>\<close>.\<close>

definition strip_suffix :: "uchar \<Rightarrow> ustring \<Rightarrow> ustring" where
  "strip_suffix c s = (if s \<noteq> [] \<and> last s = c then butlast s else s)"

function str_lines :: "ustring \<Rightarrow> ustring list" where
  "str_lines s =
     (if s = [] then []
      else (case dropWhile (\<lambda>c. c \<noteq> 10) s of
              [] \<Rightarrow> [s]
            | _ # rest \<Rightarrow> strip_suffix 13 (takeWhile (\<lambda>c. c \<noteq> 10) s) # str_lines rest))"
  by auto
termination
proof (relation "measure length", simp)
  fix s :: ustring and x rest
  assume "dropWhile (\<lambda>c. c \<noteq> 10) s = x # rest"
  then have "length (x # rest) \<le> length s" by (metis length_dropWhile_le)
  then show "(rest, s) \<in> measure length" by simp
qed

function split_whitespace :: "ustring \<Rightarrow> ustring list" where
  "split_whitespace s =
     (case dropWhile is_whitespace s of
        [] \<Rightarrow> []
      | c # cs \<Rightarrow> (c # takeWhile (\<lambda>c. \<not> is_whitespace c) cs)
          # split_whitespace (dropWhile (\<lambda>c. \<not> is_whitespace c) cs))"
  by auto
termination
proof (relation "measure length", simp)
  fix s c cs
  assume "dropWhile is_whitespace s = c # cs"
  then have "length (c # cs) \<le> length s" by (metis length_dropWhile_le)
  moreover have "length (dropWhile (\<lambda>c. \<not> is_whitespace c) cs) \<le> length cs"
    by (rule length_dropWhile_le)
  ultimately show "(dropWhile (\<lambda>c. \<not> is_whitespace c) cs, s) \<in> measure length" by simp
qed

declare str_lines.simps [simp del] split_whitespace.simps [simp del]

lemma str_lines_single: "str_lines s = (if s = [] then [] else [s])" if "10 \<notin> set s"
proof -
  have "dropWhile (\<lambda>c. c \<noteq> 10) s = []" using that by (auto simp: dropWhile_eq_Nil_conv)
  then show ?thesis by (subst str_lines.simps) (simp del: dropWhile_eq_Nil_conv)
qed

lemma split_whitespace_eval:
  "dropWhile is_whitespace s = [] \<Longrightarrow> split_whitespace s = []"
  "dropWhile is_whitespace s = c # cs \<Longrightarrow> split_whitespace s =
     (c # takeWhile (\<lambda>c. \<not> is_whitespace c) cs) # split_whitespace (dropWhile (\<lambda>c. \<not> is_whitespace c) cs)"
  by (subst split_whitespace.simps, simp del: dropWhile_eq_Nil_conv)+

definition is_ascii_digit :: "uchar \<Rightarrow> bool" where
  "is_ascii_digit c \<longleftrightarrow> 48 \<le> c \<and> c \<le> 57"

definition digits_value :: "ustring \<Rightarrow> int" where
  "digits_value s = foldl (\<lambda>n c. 10 * n + (int c - 48)) 0 s"

definition parse_i32 :: "ustring \<Rightarrow> int option" where
  "parse_i32 s =
     (let (negative, digits) =
            (case s of [] \<Rightarrow> (False, []) | c # cs \<Rightarrow> if c = 45 then (True, cs) else if c = 43 then (False, cs) else (False, s));
          value = (if negative then - digits_value digits else digits_value digits)
      in if digits = [] \<or> \<not> list_all is_ascii_digit digits \<or> value < - (2 ^ 31) \<or> 2 ^ 31 \<le> value then None
         else Some value)"

fun join_with :: "ustring \<Rightarrow> ustring list \<Rightarrow> ustring" where
  "join_with sep [] = []"
| "join_with sep [x] = x"
| "join_with sep (x # xs) = x @ sep @ join_with sep xs"

definition parse_line :: "ustring \<Rightarrow> process_entry option" where
  "parse_line line =
     (case split_whitespace line of
        pid # parent # grp # stat # started_fields \<Rightarrow>
          (case (parse_i32 pid, parse_i32 parent, parse_i32 grp) of
             (Some p, Some q, Some g) \<Rightarrow>
               (let started = join_with [32] started_fields in
                if started = [] then None
                else Some \<lparr>pe_pid = p, pe_parent = q, pe_group = g, pe_zombie = (hd stat = 90), pe_start = started\<rparr>)
           | _ \<Rightarrow> None)
      | _ \<Rightarrow> None)"

text \<open>\<open>HashMap::insert\<close>: a later line with the same process id replaces the entry.\<close>

definition table_insert :: "process_entry \<Rightarrow> process_table \<Rightarrow> process_table" where
  "table_insert e T = e # filter (\<lambda>d. pe_pid d \<noteq> pe_pid e) T"

definition parse_table :: "ustring \<Rightarrow> process_table" where
  "parse_table listing = fold table_insert (List.map_filter parse_line (str_lines listing)) []"

definition table_get :: "process_table \<Rightarrow> int \<Rightarrow> process_entry option" where
  "table_get T p = List.find (\<lambda>e. pe_pid e = p) T"

definition start_of :: "process_table \<Rightarrow> int \<Rightarrow> ustring option" where
  "start_of T p = map_option pe_start (table_get T p)"

definition table_ok :: "process_table \<Rightarrow> bool" where
  "table_ok T \<longleftrightarrow> distinct (map pe_pid T)"

section \<open>The processes of a task\<close>

record task_processes =
  tp_members :: "int list"
  tp_descendants :: "int list"

definition live_as :: "process_table \<Rightarrow> int \<times> ustring \<Rightarrow> bool" where
  "live_as T ps = (case table_get T (fst ps) of None \<Rightarrow> False | Some e \<Rightarrow> \<not> pe_zombie e \<and> pe_start e = snd ps)"

definition retain_tracked :: "process_table \<Rightarrow> tracked \<Rightarrow> tracked" where
  "retain_tracked T tracked = filter (live_as T) tracked"

definition reused :: "process_table \<Rightarrow> int \<Rightarrow> ustring \<Rightarrow> bool" where
  "reused T grp leader_start =
     (case table_get T grp of None \<Rightarrow> False | Some leader \<Rightarrow> pe_start leader \<noteq> leader_start)"

definition group_members :: "process_table \<Rightarrow> int \<Rightarrow> ustring \<Rightarrow> int list" where
  "group_members T grp leader_start =
     map pe_pid (filter (\<lambda>e. \<not> reused T grp leader_start \<and> pe_group e = grp \<and> \<not> pe_zombie e) T)"

text \<open>The inner loop over all entries, and the worklist: \<open>frontier.pop()\<close> takes the last element.\<close>

fun adopt_children :: "int \<Rightarrow> process_entry list \<Rightarrow> int set \<times> int list \<times> int list \<Rightarrow> int set \<times> int list \<times> int list" where
  "adopt_children parent [] acc = acc"
| "adopt_children parent (e # es) (seen, descendants, frontier) =
     adopt_children parent es
       (if pe_parent e = parent \<and> \<not> pe_zombie e \<and> pe_pid e \<notin> seen
        then (insert (pe_pid e) seen, descendants @ [pe_pid e], frontier @ [pe_pid e])
        else (seen, descendants, frontier))"

definition unseen :: "process_table \<Rightarrow> int set \<Rightarrow> nat" where
  "unseen T seen = card (set (map pe_pid T) - seen)"

definition live_child :: "process_table \<Rightarrow> (int \<times> int) set" where
  "live_child T = {(pe_parent e, pe_pid e) |e. e \<in> set T \<and> \<not> pe_zombie e}"

lemma adopt_children_spec:
  assumes "adopt_children p es (seen, ds, fr) = (seen', ds', fr')"
  shows "\<exists>ns. distinct ns \<and> set ns = {q. (p, q) \<in> live_child es} - seen \<and>
    seen' = seen \<union> set ns \<and> ds' = ds @ ns \<and> fr' = fr @ ns"
  using assms
proof (induction es arbitrary: seen ds fr)
  case Nil
  then show ?case by (auto simp: live_child_def)
next
  case (Cons e es)
  show ?case
  proof (cases "pe_parent e = p \<and> \<not> pe_zombie e \<and> pe_pid e \<notin> seen")
    case True
    with Cons.prems have "adopt_children p es (insert (pe_pid e) seen, ds @ [pe_pid e], fr @ [pe_pid e]) = (seen', ds', fr')"
      by simp
    from Cons.IH [OF this] obtain ns where ns: "distinct ns"
      "set ns = {q. (p, q) \<in> live_child es} - insert (pe_pid e) seen" "seen' = insert (pe_pid e) seen \<union> set ns"
      "ds' = (ds @ [pe_pid e]) @ ns" "fr' = (fr @ [pe_pid e]) @ ns"
      by blast
    then show ?thesis
      by (intro exI [of _ "pe_pid e # ns"]) (use True in \<open>auto simp: live_child_def\<close>)
  next
    case False
    with Cons have "\<exists>ns. distinct ns \<and> set ns = {q. (p, q) \<in> live_child es} - seen \<and>
      seen' = seen \<union> set ns \<and> ds' = ds @ ns \<and> fr' = fr @ ns" by auto
    moreover have "{q. (p, q) \<in> live_child es} - seen = {q. (p, q) \<in> live_child (e # es)} - seen"
      using False by (auto simp: live_child_def)
    ultimately show ?thesis by simp
  qed
qed

lemma adopt_children_measure:
  assumes "adopt_children p T (seen, ds, fr) = (seen', ds', fr')"
  shows "2 * unseen T seen' + length fr' \<le> 2 * unseen T seen + length fr"
proof -
  obtain ns where ns: "distinct ns" "set ns = {q. (p, q) \<in> live_child T} - seen" "seen' = seen \<union> set ns" "fr' = fr @ ns"
    using adopt_children_spec [OF assms] by blast
  have "set ns \<subseteq> set (map pe_pid T) - seen" unfolding ns(2) by (auto simp: live_child_def)
  moreover have "set (map pe_pid T) - seen' = (set (map pe_pid T) - seen) - set ns" using ns(3) by auto
  ultimately have "unseen T seen' = unseen T seen - length ns" "length ns \<le> unseen T seen"
    using distinct_card [OF ns(1)] by (simp_all add: unseen_def card_Diff_subset) (metis card_mono finite_Diff finite_set list.set_map)
  then show ?thesis using ns(4) by simp
qed

function explore :: "process_table \<Rightarrow> int set \<Rightarrow> int list \<Rightarrow> int list \<Rightarrow> int list" where
  "explore T seen descendants frontier =
     (if frontier = [] then descendants
      else (case adopt_children (last frontier) T (seen, descendants, butlast frontier) of
              (seen', descendants', frontier') \<Rightarrow> explore T seen' descendants' frontier'))"
  by auto
termination
proof (relation "measure (\<lambda>(T, seen, ds, fr). 2 * unseen T seen + length fr)", goal_cases)
  case (2 T seen ds fr seen' y ds' fr')
  then have step: "adopt_children (last fr) T (seen, ds, butlast fr) = (seen', ds', fr')" by simp
  have "2 * unseen T seen' + length fr' < 2 * unseen T seen + length fr"
    using adopt_children_measure [OF step] 2(1) by (cases "length fr") simp_all
  then show ?case using 2 step by auto
qed simp

declare explore.simps [simp del]

definition track_descendants :: "process_table \<Rightarrow> int list \<Rightarrow> tracked \<Rightarrow> tracked" where
  "track_descendants T ds tracked =
     fold (\<lambda>p tr. case table_get T p of None \<Rightarrow> tr | Some e \<Rightarrow> (p, pe_start e) # filter (\<lambda>q. fst q \<noteq> p) tr) ds tracked"

definition tracked_task_processes ::
  "process_table \<Rightarrow> int \<Rightarrow> ustring \<Rightarrow> tracked \<Rightarrow> task_processes \<times> tracked" where
  "tracked_task_processes T grp leader_start tracked0 =
     (let tracked = retain_tracked T tracked0;
          members = group_members T grp leader_start;
          known = map fst (filter (\<lambda>q. fst q \<notin> set members \<and> live_as T q) tracked);
          descendants = explore T (set (members @ known)) known (members @ known)
      in (\<lparr>tp_members = sort members, tp_descendants = sort descendants\<rparr>, track_descendants T descendants tracked))"

definition task_processes :: "process_table \<Rightarrow> int \<Rightarrow> ustring \<Rightarrow> task_processes" where
  "task_processes T grp leader_start = fst (tracked_task_processes T grp leader_start [])"

definition no_processes :: task_processes where
  "no_processes = \<lparr>tp_members = [], tp_descendants = []\<rparr>"

definition tp_empty :: "task_processes \<Rightarrow> bool" where
  "tp_empty ps \<longleftrightarrow> tp_members ps = [] \<and> tp_descendants ps = []"

definition tp_count :: "task_processes \<Rightarrow> nat" where
  "tp_count ps = length (tp_members ps) + length (tp_descendants ps)"

definition tp_all :: "task_processes \<Rightarrow> int list" where
  "tp_all ps = tp_members ps @ tp_descendants ps"

section \<open>Signalling\<close>

datatype signal = SIGTERM | SIGKILL
datatype signal_target = Process_Group int | Process int
datatype kill_result = Kill_Ok | ESRCH | Errno ustring

definition show_int :: "int \<Rightarrow> ustring" where
  "show_int n = (if n < 0 then 45 # show_nat (nat (- n)) else show_nat (nat n))"

definition signal_targets :: "int \<Rightarrow> task_processes \<Rightarrow> signal_target list" where
  "signal_targets grp ps = (if tp_members ps \<noteq> [] then [Process_Group grp] else []) @ map Process (tp_descendants ps)"

fun signal_failure :: "(signal_target \<Rightarrow> kill_result) \<Rightarrow> signal_target \<Rightarrow> ustring option" where
  "signal_failure kill (Process_Group g) =
     (case kill (Process_Group g) of Errno e \<Rightarrow> Some (lit ''process group '' @ show_int g @ lit '': '' @ e) | _ \<Rightarrow> None)"
| "signal_failure kill (Process p) =
     (case kill (Process p) of Errno e \<Rightarrow> Some (lit ''process '' @ show_int p @ lit '': '' @ e) | _ \<Rightarrow> None)"

text \<open>The signals sent, in order, and the failures; \<open>kill\<close> is the operating system's answer.\<close>

definition signal_task ::
  "(signal_target \<Rightarrow> kill_result) \<Rightarrow> int \<Rightarrow> task_processes \<Rightarrow> signal \<Rightarrow> (signal_target \<times> signal) list \<times> ustring list" where
  "signal_task kill grp ps sig =
     (map (\<lambda>t. (t, sig)) (signal_targets grp ps), List.map_filter (signal_failure kill) (signal_targets grp ps))"

section \<open>The worklist computes reachability\<close>

lemma explore_spec:
  assumes "(live_child T)\<^sup>* `` R \<supseteq> seen" "R \<subseteq> seen" "set fr \<subseteq> seen"
    and "\<And>p q. (p, q) \<in> live_child T \<Longrightarrow> p \<in> seen \<Longrightarrow> p \<in> set fr \<or> q \<in> seen"
    and "seen = M \<union> set ds" "M \<inter> set ds = {}"
  shows "set (explore T seen ds fr) = (live_child T)\<^sup>* `` R - M \<and> (distinct ds \<longrightarrow> distinct (explore T seen ds fr))"
  using assms
proof (induction T seen ds fr rule: explore.induct)
  case (1 T seen ds fr)
  show ?case
  proof (cases "fr = []")
    case True
    have "(live_child T)\<^sup>* `` seen \<subseteq> seen"
      using "1.prems"(4) True by (intro Image_closed_trancl [THEN equalityD1]) auto
    then have "(live_child T)\<^sup>* `` R = seen" using "1.prems"(1,2) by auto
    then show ?thesis using "1.prems"(5,6) True by (subst (1 2) explore.simps) auto
  next
    case False
    obtain seen' ds' fr' where step: "adopt_children (last fr) T (seen, ds, butlast fr) = (seen', ds', fr')"
      by (metis prod_cases3)
    obtain ns where ns: "distinct ns" "set ns = {q. (last fr, q) \<in> live_child T} - seen"
      "seen' = seen \<union> set ns" "ds' = ds @ ns" "fr' = butlast fr @ ns"
      using adopt_children_spec [OF step] by blast
    have fr: "set fr = insert (last fr) (set (butlast fr))"
      by (metis False append_butlast_last_id list.simps(15) rotate1.simps(2) set_rotate1)
    have root: "last fr \<in> (live_child T)\<^sup>* `` R" using "1.prems"(1,3) fr by auto
    have "set (explore T seen' ds' fr') = (live_child T)\<^sup>* `` R - M \<and> (distinct ds' \<longrightarrow> distinct (explore T seen' ds' fr'))"
    proof (rule "1.IH" [OF False step [symmetric] refl])
      show "(live_child T)\<^sup>* `` R \<supseteq> seen'"
        using "1.prems"(1) root unfolding ns(2,3) by (auto intro: rtrancl_into_rtrancl)
      show "R \<subseteq> seen'" using "1.prems"(2) ns(3) by auto
      show "set fr' \<subseteq> seen'" using "1.prems"(3) fr ns(3,5) by auto
      show "p \<in> set fr' \<or> q \<in> seen'" if "(p, q) \<in> live_child T" "p \<in> seen'" for p q
      proof (cases "p \<in> set ns \<or> p \<in> set (butlast fr)")
        case True
        then show ?thesis unfolding ns(5) by auto
      next
        case False
        then have "p \<in> seen" using that(2) ns(3) by auto
        then have "p = last fr \<or> q \<in> seen" using "1.prems"(4) [OF that(1)] fr False by auto
        then show ?thesis using that(1) ns(2,3) by auto
      qed
      show "seen' = M \<union> set ds'" using "1.prems"(5) ns(3,4) by auto
      show "M \<inter> set ds' = {}" using "1.prems"(5,6) ns(2,4) by auto
    qed
    moreover have "distinct ds \<Longrightarrow> distinct ds'" using "1.prems"(5) ns(1,2,4) by auto
    ultimately show ?thesis using step False by (subst (1 2) explore.simps) simp
  qed
qed

lemma table_get_iff: "table_ok T \<Longrightarrow> table_get T p = Some e \<longleftrightarrow> e \<in> set T \<and> pe_pid e = p"
  unfolding table_get_def table_ok_def by (rule find_key_Some_iff)

lemma live_asD: "live_as T (p, s) \<Longrightarrow> start_of T p = Some s"
  by (auto simp: live_as_def start_of_def split: option.splits)

lemma track_descendants_map:
  "map_of (track_descendants T ds tr) p = (if p \<in> set ds \<and> start_of T p \<noteq> None then start_of T p else map_of tr p)"
proof (induction ds arbitrary: tr)
  case (Cons d ds)
  have "map_of (filter (\<lambda>q. fst q \<noteq> d) tr) p = (if p = d then None else map_of tr p)"
    by (induction tr) auto
  then show ?case using Cons by (auto simp: track_descendants_def start_of_def split: option.splits)
qed (simp add: track_descendants_def)

lemma track_descendants_distinct: "distinct (map fst tr) \<Longrightarrow> distinct (map fst (track_descendants T ds tr))"
  unfolding track_descendants_def
proof (induction ds arbitrary: tr)
  case (Cons d ds)
  then show ?case by (auto split: option.splits intro!: Cons.IH distinct_map_filter)
qed simp

lemma set_group_members:
  "table_ok T \<Longrightarrow> set (group_members T g s) =
     (if reused T g s then {} else {p. \<exists>e. table_get T p = Some e \<and> pe_group e = g \<and> \<not> pe_zombie e})"
  by (auto simp: group_members_def table_get_iff)

lemma task_processes_facts:
  assumes ok: "table_ok T" "distinct (map fst tracked)"
    and run: "tracked_task_processes T g s tracked = (ps, tracked')"
  shows "set (tp_members ps) =
      (if reused T g s then {} else {p. \<exists>e. table_get T p = Some e \<and> pe_group e = g \<and> \<not> pe_zombie e})"
    and "set (tp_descendants ps) =
      (live_child T)\<^sup>* `` (set (tp_members ps) \<union> {p. \<exists>t. (p, t) \<in> set tracked \<and> live_as T (p, t)}) - set (tp_members ps)"
    and "sorted (tp_members ps) \<and> distinct (tp_members ps) \<and> sorted (tp_descendants ps) \<and> distinct (tp_descendants ps)"
    and "distinct (map fst tracked')"
    and "map_of tracked' = (\<lambda>p. if p \<in> set (tp_descendants ps) \<or> (\<exists>t. (p, t) \<in> set tracked \<and> live_as T (p, t))
      then start_of T p else None)"
proof -
  define members where "members = group_members T g s"
  define kept where "kept = retain_tracked T tracked"
  define known where "known = map fst (filter (\<lambda>q. fst q \<notin> set members \<and> live_as T q) kept)"
  define ds where "ds = explore T (set (members @ known)) known (members @ known)"
  have ps: "ps = \<lparr>tp_members = sort members, tp_descendants = sort ds\<rparr>" and tr: "tracked' = track_descendants T ds kept"
    using run by (simp_all add: tracked_task_processes_def Let_def members_def kept_def known_def ds_def)
  have kept: "distinct (map fst kept)" "set kept = {q \<in> set tracked. live_as T q}"
    unfolding kept_def retain_tracked_def by (auto intro: distinct_map_filter ok(2))
  have known: "distinct known" "set known = {p. \<exists>t. (p, t) \<in> set tracked \<and> live_as T (p, t)} - set members"
    unfolding known_def using kept by (auto intro: distinct_map_filter simp: image_iff)
  have "set ds = (live_child T)\<^sup>* `` (set members \<union> set known) - set members \<and> (distinct known \<longrightarrow> distinct ds)"
    unfolding ds_def by (rule explore_spec) (use known in auto)
  then have "set ds = (live_child T)\<^sup>* `` (set members \<union> set known) - set members" "distinct ds"
    using known(1) by simp_all
  moreover have "set members \<union> set known = set members \<union> {p. \<exists>t. (p, t) \<in> set tracked \<and> live_as T (p, t)}"
    using known(2) by auto
  ultimately have ds: "set ds = (live_child T)\<^sup>* `` (set members \<union> {p. \<exists>t. (p, t) \<in> set tracked \<and> live_as T (p, t)}) - set members"
    "distinct ds" by simp_all
  have "distinct members"
    using ok(1) unfolding members_def group_members_def table_ok_def by (rule distinct_map_filter)
  moreover have "map_of tracked' p = (if p \<in> set ds \<or> (\<exists>t. (p, t) \<in> set tracked \<and> live_as T (p, t))
      then start_of T p else None)" for p
  proof (cases "\<exists>t. (p, t) \<in> set tracked \<and> live_as T (p, t)")
    case True
    then obtain t where "(p, t) \<in> set kept" "live_as T (p, t)" using kept(2) by auto
    then show ?thesis using True kept(1) by (auto simp: tr track_descendants_map live_asD map_of_eq_Some_iff)
  next
    case False
    then have "map_of kept p = None" unfolding map_of_eq_None_iff using kept(2) by auto
    then show ?thesis using False by (auto simp: tr track_descendants_map)
  qed
  moreover note ds set_group_members [OF ok(1), of g s] track_descendants_distinct [OF kept(1), of T ds]
  ultimately show "set (tp_members ps) =
      (if reused T g s then {} else {p. \<exists>e. table_get T p = Some e \<and> pe_group e = g \<and> \<not> pe_zombie e})"
    and "set (tp_descendants ps) =
      (live_child T)\<^sup>* `` (set (tp_members ps) \<union> {p. \<exists>t. (p, t) \<in> set tracked \<and> live_as T (p, t)}) - set (tp_members ps)"
    and "sorted (tp_members ps) \<and> distinct (tp_members ps) \<and> sorted (tp_descendants ps) \<and> distinct (tp_descendants ps)"
    and "distinct (map fst tracked')"
    and "map_of tracked' = (\<lambda>p. if p \<in> set (tp_descendants ps) \<or> (\<exists>t. (p, t) \<in> set tracked \<and> live_as T (p, t))
      then start_of T p else None)"
    unfolding ps tr members_def [symmetric] by auto
qed

text \<open>C10: What belongs to a task.  In one listing a task's members are exactly the live processes of its
  group, and none when the leader's id was reused by another process; its descendants are exactly the
  other processes reachable through live parent links from a member or from a descendant tracked
  earlier that is still the same process.  Both lists are sorted and without repetition, the search
  terminates, and what is tracked afterwards are the earlier survivors and all descendants, each with
  its present start time.\<close>

theorem task_processes_exact:
  assumes ok: "table_ok T" "distinct (map fst tracked)"
    and run: "tracked_task_processes T g s tracked = (ps, tracked')"
  shows "set (tp_members ps) =
      (if reused T g s then {} else {p. \<exists>e. table_get T p = Some e \<and> pe_group e = g \<and> \<not> pe_zombie e}) \<and>
    set (tp_descendants ps) =
      (live_child T)\<^sup>* `` (set (tp_members ps) \<union> {p. \<exists>t. (p, t) \<in> set tracked \<and> live_as T (p, t)}) - set (tp_members ps) \<and>
    sorted (tp_members ps) \<and> distinct (tp_members ps) \<and> sorted (tp_descendants ps) \<and> distinct (tp_descendants ps) \<and>
    distinct (map fst tracked') \<and>
    map_of tracked' = (\<lambda>p. if p \<in> set (tp_descendants ps) \<or> (\<exists>t. (p, t) \<in> set tracked \<and> live_as T (p, t))
      then start_of T p else None)"
  using task_processes_facts [OF assms] by blast

lemma table_insert_ok: "table_ok T \<Longrightarrow> table_ok (table_insert e T)"
  by (auto simp: table_ok_def table_insert_def intro: distinct_map_filter)

lemma parse_table_ok [simp]: "table_ok (parse_table listing)"
proof -
  have "table_ok T \<Longrightarrow> table_ok (fold table_insert es T)" for T es
    by (induction es arbitrary: T) (auto intro: table_insert_ok)
  then show ?thesis by (simp add: parse_table_def table_ok_def)
qed

text \<open>The table of the unit tests: a leader, a member, a descendant in another group, a zombie and a
  stranger.\<close>

definition sample_start :: ustring where
  "sample_start = [49]"

definition sample_table :: process_table where
  "sample_table =
     [\<lparr>pe_pid = 1, pe_parent = 0, pe_group = 1, pe_zombie = False, pe_start = [48]\<rparr>,
      \<lparr>pe_pid = 502, pe_parent = 501, pe_group = 777, pe_zombie = False, pe_start = [51]\<rparr>,
      \<lparr>pe_pid = 500, pe_parent = 1, pe_group = 500, pe_zombie = False, pe_start = sample_start\<rparr>,
      \<lparr>pe_pid = 501, pe_parent = 500, pe_group = 500, pe_zombie = False, pe_start = [50]\<rparr>,
      \<lparr>pe_pid = 503, pe_parent = 500, pe_group = 500, pe_zombie = True, pe_start = [52]\<rparr>,
      \<lparr>pe_pid = 900, pe_parent = 1, pe_group = 900, pe_zombie = False, pe_start = [53]\<rparr>]"

lemma sample_table_ok: "table_ok sample_table"
  by (simp add: table_ok_def sample_table_def)

lemma sample_processes:
  "tracked_task_processes sample_table 500 sample_start [] =
     (\<lparr>tp_members = [500, 501], tp_descendants = [502]\<rparr>, [(502, [51])])"
  by code_simp

lemma task_processes_exact_witness:
  "{500, 501} = {p. \<exists>e. table_get sample_table p = Some e \<and> pe_group e = 500 \<and> \<not> pe_zombie e} \<and>
   {502} = (live_child sample_table)\<^sup>* `` {500, 501} - {500, 501}"
proof -
  have "\<not> reused sample_table 500 sample_start" by code_simp
  then show ?thesis
    using task_processes_exact [OF sample_table_ok _ sample_processes] by simp
qed

text \<open>C32: Only the task is signalled.  Every signal sent to a task observed in a listing goes either to
  its process group, which then has a live member and whose id was not reused, or to one live process
  that a chain of live parent links connects to a member or to a descendant tracked earlier that still
  has the start time recorded for it.\<close>

theorem signals_hit_only_the_task:
  assumes ok: "table_ok T" "distinct (map fst tracked)"
    and run: "tracked_task_processes T g s tracked = (ps, tracked')"
    and sent: "(t, sig') \<in> set (fst (signal_task kill g ps sig))"
  shows "sig' = sig \<and>
    (case t of
       Process_Group h \<Rightarrow> h = g \<and> \<not> reused T g s \<and> (\<exists>e. e \<in> set T \<and> pe_group e = g \<and> \<not> pe_zombie e)
     | Process p \<Rightarrow> (\<exists>r. (r, p) \<in> (live_child T)\<^sup>* \<and>
         (r \<in> set (tp_members ps) \<or> (\<exists>st. (r, st) \<in> set tracked \<and> start_of T r = Some st))) \<and>
         (\<exists>e. e \<in> set T \<and> pe_pid e = p \<and> \<not> pe_zombie e))"
proof -
  note exact = task_processes_facts [OF ok run]
  show ?thesis
  proof (cases t)
    case (Process_Group h)
    then have "tp_members ps \<noteq> []" "h = g" "sig' = sig"
      using sent by (auto simp: signal_task_def signal_targets_def split: if_splits)
    moreover from this obtain p where "p \<in> set (tp_members ps)" by (cases "tp_members ps") auto
    ultimately show ?thesis
      using Process_Group exact(1) by (auto simp: table_get_iff [OF ok(1)] split: if_splits)
  next
    case (Process p)
    then have p: "p \<in> set (tp_descendants ps)" "sig' = sig"
      using sent by (auto simp: signal_task_def signal_targets_def split: if_splits)
    then obtain r where r: "(r, p) \<in> (live_child T)\<^sup>*" "p \<notin> set (tp_members ps)"
      "r \<in> set (tp_members ps) \<or> (\<exists>st. (r, st) \<in> set tracked \<and> live_as T (r, st))"
      using exact(2) by auto
    have "\<exists>e. e \<in> set T \<and> pe_pid e = p \<and> \<not> pe_zombie e"
      using r(1)
    proof (cases rule: rtranclE)
      case base
      then show ?thesis using r(2,3) by (auto simp: live_as_def table_get_iff [OF ok(1)] split: option.splits)
    qed (auto simp: live_child_def)
    then show ?thesis using Process p(2) r(1,3) by (auto dest: live_asD)
  qed
qed

lemma signals_hit_only_the_task_witness:
  "\<exists>r. (r, 502) \<in> (live_child sample_table)\<^sup>* \<and> r \<in> {500, 501}"
proof -
  have "(Process 502, SIGTERM) \<in> set (fst (signal_task (\<lambda>_. Kill_Ok) 500 \<lparr>tp_members = [500, 501], tp_descendants = [502]\<rparr> SIGTERM))"
    by (simp add: signal_task_def signal_targets_def)
  from signals_hit_only_the_task [OF sample_table_ok _ sample_processes this] show ?thesis by auto
qed

text \<open>A task that is empty with what was tracked is empty without it.\<close>

lemma tracked_empty:
  assumes "tp_empty (fst (tracked_task_processes T g s tracked))"
  shows "tp_empty (task_processes T g s)"
proof -
  have "sort (group_members T g s) = []"
    using assms by (simp add: tp_empty_def tracked_task_processes_def Let_def)
  then have "group_members T g s = []" by (metis set_empty set_sort)
  moreover have "explore T {} [] [] = []" by (subst explore.simps) simp
  ultimately show ?thesis
    by (simp add: tp_empty_def task_processes_def tracked_task_processes_def retain_tracked_def Let_def)
qed

end
