(* ===== verification/Task_Service.thy ===== *)
theory Task_Service
  imports Task_Store Process_Table "HOL-Library.State_Monad"
begin

text \<open>
  The service that supervises background tasks (\<open>src/src/background_tasks/mod.rs\<close>), as programs of the
  state monad over the registry, the coordination sets and the effects on the operating system.  What
  the outside answers is the argument \<open>world\<close>, read at a running count of effects (\<open>sv_tick\<close>): the
  wall clock, the output of \<open>ps\<close>, the spawned child, the answers to signals, registry failures and
  fresh ids.  Effects that leave the process are recorded: released leaders, signals, unlinked files.

  \<open>tokio\<close>'s clock never goes back and a sleep takes at least its duration; \<open>w_lag\<close> is what passes
  beyond that.
\<close>

section \<open>World and state\<close>

datatype ps_output = Ps_Error ustring | Ps_Exit ustring | Ps_Listing ustring

record world =
  w_clock :: "nat \<Rightarrow> int"
  w_lag :: "nat \<Rightarrow> nat"
  w_ps :: "nat \<Rightarrow> ps_output"
  w_fault :: "nat \<Rightarrow> ustring option"
  w_kill :: "nat \<Rightarrow> signal_target \<Rightarrow> kill_result"
  w_spawn :: "nat \<Rightarrow> ustring + int option"
  w_log_error :: "nat \<Rightarrow> ustring option"
  w_uuid :: "nat \<Rightarrow> ustring"
  w_is_dir :: "ustring \<Rightarrow> bool"
  w_log_dir :: "nat \<Rightarrow> ustring list option"
  w_machine :: ustring
  w_log_path :: "ustring \<Rightarrow> ustring"

record leader_exit =
  le_code :: "int option"
  le_signal :: "int option"

text \<open>A leader whose gate was opened: its command may run from then on.\<close>

record released_leader =
  ls_id :: ustring
  ls_group :: int
  ls_start :: ustring
  ls_tick :: nat

definition leader :: "ustring \<Rightarrow> int \<Rightarrow> ustring \<Rightarrow> nat \<Rightarrow> released_leader" where
  "leader i grp start n = \<lparr>ls_id = i, ls_group = grp, ls_start = start, ls_tick = n\<rparr>"

lemma leader_simps [simp]: "ls_id (leader i grp start n) = i" "ls_group (leader i grp start n) = grp"
  "ls_start (leader i grp start n) = start" "ls_tick (leader i grp start n) = n"
  by (simp_all add: leader_def)

lemma leader_eq [simp]: "leader i grp st n = leader j grq su m \<longleftrightarrow> i = j \<and> grp = grq \<and> st = su \<and> n = m"
  by (simp add: leader_def)

record service =
  sv_tick :: nat
  sv_instant :: nat
  sv_store :: task_store
  sv_deleting :: "ustring set"
  sv_stopping :: "ustring set"
  sv_exits :: "(ustring \<times> leader_exit) list"
  sv_spawned :: "(ustring \<times> ustring list) list"
  sv_released :: "released_leader list"
  sv_signals :: "(signal_target \<times> signal) list"
  sv_unlinked :: "ustring list"

type_synonym 'a svc = "(service, 'a) state"

definition MAX_ACTIVE_TASKS_PER_OWNER :: nat where "MAX_ACTIVE_TASKS_PER_OWNER = 32"
definition MAX_COMMAND_BYTES :: nat where "MAX_COMMAND_BYTES = 16 * 1024"
definition MAX_NAME_CHARS :: nat where "MAX_NAME_CHARS = 120"
definition MAX_ENDPOINTS :: nat where "MAX_ENDPOINTS = 8"
definition MAX_ENDPOINT_BYTES :: nat where "MAX_ENDPOINT_BYTES = 512"
definition DIAGNOSTIC_RETENTION_MS :: int where "DIAGNOSTIC_RETENTION_MS = 7 * 24 * 60 * 60 * 1000"
definition DEFAULT_STOP_GRACE :: nat where "DEFAULT_STOP_GRACE = 5000"
definition OWNER_DELETION_GRACE :: nat where "OWNER_DELETION_GRACE = 3000"
definition KILL_SETTLE :: nat where "KILL_SETTLE = 3000"
definition POLL_INTERVAL :: nat where "POLL_INTERVAL = 100"

section \<open>Effects\<close>

definition next_tick :: "nat svc" where
  "next_tick = State (\<lambda>s. (sv_tick s, s\<lparr>sv_tick := sv_tick s + 1\<rparr>))"

definition modify :: "(service \<Rightarrow> service) \<Rightarrow> unit svc" where
  "modify f = State (\<lambda>s. ((), f s))"

definition now_ms :: "world \<Rightarrow> int svc" where
  "now_ms W = do { t \<leftarrow> next_tick; State_Monad.return (w_clock W t) }"

definition instant_now :: "world \<Rightarrow> nat svc" where
  "instant_now W = do {
     t \<leftarrow> next_tick;
     _ \<leftarrow> modify (\<lambda>s. s\<lparr>sv_instant := sv_instant s + w_lag W t\<rparr>);
     s \<leftarrow> State_Monad.get;
     State_Monad.return (sv_instant s) }"

definition sleep :: "world \<Rightarrow> nat \<Rightarrow> unit svc" where
  "sleep W d = do { t \<leftarrow> next_tick; modify (\<lambda>s. s\<lparr>sv_instant := sv_instant s + d + w_lag W t\<rparr>) }"

definition listing_at :: "world \<Rightarrow> nat \<Rightarrow> ustring + process_table" where
  "listing_at W t =
     (case w_ps W t of
        Ps_Error e \<Rightarrow> Inl (lit ''could not list processes: '' @ e)
      | Ps_Exit status \<Rightarrow> Inl (lit ''could not list processes: ps exited with '' @ status)
      | Ps_Listing out \<Rightarrow> Inr (parse_table out))"

definition capture :: "world \<Rightarrow> (ustring + process_table) svc" where
  "capture W = do { t \<leftarrow> next_tick; State_Monad.return (listing_at W t) }"

definition with_store :: "world \<Rightarrow> (task_store \<Rightarrow> ustring + 'a \<times> task_store) \<Rightarrow> (ustring + 'a) svc" where
  "with_store W f = do {
     t \<leftarrow> next_tick;
     s \<leftarrow> State_Monad.get;
     (case w_fault W t of
        Some e \<Rightarrow> State_Monad.return (Inl (store_failure e))
      | None \<Rightarrow>
          (case f (sv_store s) of
             Inl e \<Rightarrow> State_Monad.return (Inl e)
           | Inr (a, st) \<Rightarrow> do { _ \<leftarrow> modify (\<lambda>s. s\<lparr>sv_store := st\<rparr>); State_Monad.return (Inr a) })) }"

definition reading :: "(task_store \<Rightarrow> 'a) \<Rightarrow> task_store \<Rightarrow> ustring + 'a \<times> task_store" where
  "reading f st = Inr (f st, st)"

definition writing :: "(task_store \<Rightarrow> task_store) \<Rightarrow> task_store \<Rightarrow> ustring + unit \<times> task_store" where
  "writing f st = Inr ((), f st)"

text \<open>The \<open>?\<close> operator.\<close>

definition andthen :: "(ustring + 'a) svc \<Rightarrow> ('a \<Rightarrow> (ustring + 'b) svc) \<Rightarrow> (ustring + 'b) svc" where
  "andthen m f = do { r \<leftarrow> m; (case r of Inl e \<Rightarrow> State_Monad.return (Inl e) | Inr a \<Rightarrow> f a) }"

definition fail_with :: "string \<Rightarrow> (ustring + 'a) svc" where
  "fail_with e = State_Monad.return (Inl (lit e))"

definition unknown_task :: "ustring \<Rightarrow> ustring" where
  "unknown_task i = lit ''unknown background task '' @ i"

definition save :: "world \<Rightarrow> task_record \<Rightarrow> (task_record \<times> (ustring + unit)) svc" where
  "save W r0 = do {
     now \<leftarrow> now_ms W;
     (let r = r0\<lparr>t_updated_at := now\<rparr> in do {
        saved \<leftarrow> with_store W (store_update r);
        State_Monad.return (r, saved) }) }"

definition lookup :: "world \<Rightarrow> ustring \<Rightarrow> (ustring + task_record) svc" where
  "lookup W i = andthen (with_store W (reading (store_get i))) (\<lambda>found.
     State_Monad.return (case found of None \<Rightarrow> Inl (unknown_task i) | Some r \<Rightarrow> Inr r))"

section \<open>Callers and views\<close>

record caller_scope =
  cs_owner :: ustring
  cs_run :: "ustring option"
  cs_turn :: "ustring option"
  cs_call :: "ustring option"

definition may_access :: "caller_scope \<Rightarrow> task_record \<Rightarrow> bool" where
  "may_access scope r \<longleftrightarrow>
     t_owner r = cs_owner scope \<and> (case cs_run scope of None \<Rightarrow> True | Some run \<Rightarrow> t_run r = Some run)"

record start_request =
  sr_name :: ustring
  sr_command :: ustring
  sr_cwd :: ustring
  sr_endpoints :: "ustring list"
  sr_environment :: "(ustring \<times> ustring) list"

datatype stop_reason = Requested | OwnerDeleted

fun stop_reason_str :: "stop_reason \<Rightarrow> ustring" where
  "stop_reason_str Requested = lit ''requested''"
| "stop_reason_str OwnerDeleted = lit ''owner_deleted''"

record task_view =
  vw_id :: ustring
  vw_name :: ustring
  vw_owner :: ustring
  vw_run :: "ustring option"
  vw_turn :: "ustring option"
  vw_command :: ustring
  vw_cwd :: ustring
  vw_machine :: ustring
  vw_state :: string
  vw_supervision :: ustring
  vw_process_id :: "int option"
  vw_exit_code :: "int option"
  vw_exit_signal :: "int option"
  vw_detail :: "ustring option"
  vw_stop_reason :: "ustring option"
  vw_owner_deleted_at :: "int option"
  vw_endpoints :: "ustring list"
  vw_created_at :: int
  vw_started_at :: "int option"
  vw_ended_at :: "int option"
  vw_updated_at :: int

definition view :: "task_record \<Rightarrow> task_view" where
  "view r =
     \<lparr>vw_id = t_id r, vw_name = t_name r, vw_owner = t_owner r, vw_run = t_run r, vw_turn = t_turn r,
      vw_command = t_command r, vw_cwd = t_cwd r, vw_machine = t_machine r, vw_state = state_str (t_state r),
      vw_supervision = t_supervision r,
      vw_process_id = (case t_process_id r of None \<Rightarrow> None | Some p \<Rightarrow> if 0 \<le> p then Some p else None),
      vw_exit_code = t_exit_code r, vw_exit_signal = t_exit_signal r, vw_detail = t_detail r,
      vw_stop_reason = t_stop_reason r, vw_owner_deleted_at = t_owner_deleted_at r, vw_endpoints = t_endpoints r,
      vw_created_at = t_created_at r, vw_started_at = t_started_at r, vw_ended_at = t_ended_at r,
      vw_updated_at = t_updated_at r\<rparr>"

definition list_for :: "world \<Rightarrow> caller_scope \<Rightarrow> (ustring + task_view list) svc" where
  "list_for W scope = andthen (with_store W (reading (store_list (Some (cs_owner scope))))) (\<lambda>records.
     State_Monad.return (Inr (map view (filter (may_access scope) records))))"

definition authorized :: "world \<Rightarrow> caller_scope \<Rightarrow> ustring \<Rightarrow> (ustring + task_record) svc" where
  "authorized W scope i = andthen (with_store W (reading (store_get i))) (\<lambda>found.
     State_Monad.return (case found of
        Some r \<Rightarrow> if may_access scope r then Inr r else Inl (unknown_task i)
      | None \<Rightarrow> Inl (unknown_task i)))"

definition inventory :: "world \<Rightarrow> ustring option \<Rightarrow> (ustring + int \<times> task_view list) svc" where
  "inventory W owner = andthen (with_store W (reading (store_list owner))) (\<lambda>records. do {
     now \<leftarrow> now_ms W;
     State_Monad.return (Inr (now, map view records)) })"

section \<open>Process observation\<close>

definition observe_processes :: "world \<Rightarrow> task_record \<Rightarrow> process_table \<Rightarrow> (ustring + task_processes) svc" where
  "observe_processes W r T =
     (case t_process_id r of
        None \<Rightarrow>
          if t_state r = FailedToStart \<or> t_state r = Stopped then State_Monad.return (Inr no_processes)
          else fail_with ''background task process identity is unknown''
      | Some grp \<Rightarrow>
          (case t_process_start r of
             None \<Rightarrow> fail_with ''background task process identity is unknown''
           | Some start \<Rightarrow>
               if start = [] then fail_with ''background task process identity is unknown''
               else andthen (with_store W (reading (store_tracked (t_id r)))) (\<lambda>tracked.
                 (case tracked_task_processes T grp start tracked of
                    (ps, tracked') \<Rightarrow>
                      andthen (with_store W (writing (store_track (t_id r) tracked'))) (\<lambda>_.
                        State_Monad.return (Inr ps))))))"

definition confirm_gone :: "world \<Rightarrow> task_record \<Rightarrow> (ustring + unit) svc" where
  "confirm_gone W r = andthen (capture W) (\<lambda>T. andthen (observe_processes W r T) (\<lambda>ps.
     if tp_empty ps then State_Monad.return (Inr ()) else fail_with ''background task still has live processes''))"

section \<open>Removal\<close>

definition is_alnum_ascii :: "uchar \<Rightarrow> bool" where
  "is_alnum_ascii c \<longleftrightarrow> 48 \<le> c \<and> c \<le> 57 \<or> 65 \<le> c \<and> c \<le> 90 \<or> 97 \<le> c \<and> c \<le> 122"

text \<open>The names, relative to the log directory, that are unlinked for a task.\<close>

definition purge_logs :: "ustring \<Rightarrow> unit svc" where
  "purge_logs i =
     (if \<not> prefix (lit ''bgt_'') i \<or> \<not> list_all (\<lambda>c. is_alnum_ascii c \<or> c = 95) i then State_Monad.return ()
      else modify (\<lambda>s. s\<lparr>sv_unlinked := sv_unlinked s @ [i @ lit ''.log'', i @ lit ''.log.1'']\<rparr>))"

definition remove_task :: "world \<Rightarrow> task_record \<Rightarrow> (ustring + unit) svc" where
  "remove_task W r = andthen (with_store W (writing (store_remove r))) (\<lambda>_. do {
     _ \<leftarrow> purge_logs (t_id r);
     _ \<leftarrow> modify (\<lambda>s. s\<lparr>sv_exits := filter (\<lambda>x. fst x \<noteq> t_id r) (sv_exits s)\<rparr>);
     State_Monad.return (Inr ()) })"

definition receipt_access :: "caller_scope option \<Rightarrow> ustring \<times> ustring option \<Rightarrow> bool" where
  "receipt_access scope receipt =
     (case scope of
        None \<Rightarrow> True
      | Some c \<Rightarrow> cs_owner c = fst receipt \<and> (case cs_run c of None \<Rightarrow> True | Some run \<Rightarrow> snd receipt = Some run))"

definition dismiss :: "world \<Rightarrow> caller_scope option \<Rightarrow> ustring \<Rightarrow> (ustring + unit) svc" where
  "dismiss W scope i =
     andthen (with_store W (reading (store_get i))) (\<lambda>found.
       (case found of
          None \<Rightarrow>
            andthen (with_store W (reading (store_receipt i))) (\<lambda>receipt.
              State_Monad.return (case receipt of
                 Some rc \<Rightarrow> if receipt_access scope rc then Inr () else Inl (unknown_task i)
               | None \<Rightarrow> Inl (unknown_task i)))
        | Some r \<Rightarrow>
            if (case scope of None \<Rightarrow> False | Some c \<Rightarrow> \<not> may_access c r) then State_Monad.return (Inl (unknown_task i))
            else do {
              s \<leftarrow> State_Monad.get;
              if \<not> ended (t_state r) \<or> i \<in> sv_stopping s
              then fail_with ''background task is not a confirmed terminal failure''
              else andthen (confirm_gone W r) (\<lambda>_. remove_task W r) }))"

end
