(* ===== verification/Task_Lifecycle.thy ===== *)
theory Task_Lifecycle
  imports Task_Service
begin

text \<open>
  The life of a background task (\<open>src/src/background_tasks/mod.rs\<close>): starting it behind a gate, stopping
  its process tree, deleting its owner, observing it and reconciling the registry after a restart.
  A sequence of statements under the coordination lock is one definition; \<open>stop\<close>, which releases the
  lock while it terminates the processes, is the composition of three.
\<close>

section \<open>Starting\<close>

definition validate_start :: "world \<Rightarrow> start_request \<Rightarrow> ustring + unit" where
  "validate_start W q =
     (if trim (sr_command q) = [] then Inl (lit ''command must not be empty'')
      else if byte_len (sr_command q) > MAX_COMMAND_BYTES \<or> 0 \<in> set (sr_command q)
      then Inl (lit ''command must be at most '' @ show_nat MAX_COMMAND_BYTES @ lit '' bytes without NUL characters'')
      else if trim (sr_name q) = [] \<or> length (sr_name q) > MAX_NAME_CHARS
      then Inl (lit ''name must be 1 to '' @ show_nat MAX_NAME_CHARS @ lit '' characters'')
      else if length (sr_endpoints q) > MAX_ENDPOINTS
        \<or> list_ex (\<lambda>e. trim e = [] \<or> byte_len e > MAX_ENDPOINT_BYTES) (sr_endpoints q)
      then Inl (lit ''at most '' @ show_nat MAX_ENDPOINTS @ lit '' non-empty endpoints of up to ''
        @ show_nat MAX_ENDPOINT_BYTES @ lit '' bytes are allowed'')
      else if \<not> w_is_dir W (sr_cwd q)
      then Inl (lit ''working directory '' @ sr_cwd q @ lit '' does not exist'')
      else Inr ())"

definition UNRELEASED_EXIT_CODE :: nat where "UNRELEASED_EXIT_CODE = 125"

definition gated_shell :: "ustring \<Rightarrow> (ustring \<times> ustring) list \<Rightarrow> ustring \<times> ustring list" where
  "gated_shell command environment =
     (let shell = (if list_ex (\<lambda>e. fst e = lit ''PATH'') environment then lit ''/bin/sh -c'' else lit ''sh -lc'') in
      (lit ''/bin/sh'',
       [lit ''-c'',
        lit ''IFS= read -r _ || exit '' @ show_nat UNRELEASED_EXIT_CODE @ lit ''; exec '' @ shell @ lit '' '' @ [34, 36, 48, 34],
        command]))"

definition open_log :: "world \<Rightarrow> ustring option svc" where
  "open_log W = do { t \<leftarrow> next_tick; State_Monad.return (w_log_error W t) }"

text \<open>The leader waits on its gate; only \<open>release\<close> lets it run the command.\<close>

definition release :: "ustring \<Rightarrow> int \<Rightarrow> ustring \<Rightarrow> unit svc" where
  "release i grp start = modify (\<lambda>s. s\<lparr>sv_released := sv_released s @
     [leader i grp start (sv_tick s)]\<rparr>)"

definition identify :: "world \<Rightarrow> task_record \<Rightarrow> int \<Rightarrow> (task_record \<times> (ustring + ustring)) svc" where
  "identify W r pid = do {
     listed \<leftarrow> capture W;
     (case listed of
        Inl e \<Rightarrow> State_Monad.return (r, Inl e)
      | Inr T \<Rightarrow>
          (case start_of T pid of
             None \<Rightarrow> State_Monad.return (r, Inl (lit ''process '' @ show_int pid @ lit '' was not visible in the process list''))
           | Some start \<Rightarrow> do {
               saved \<leftarrow> save W (r\<lparr>t_process_start := Some start\<rparr>);
               State_Monad.return (fst saved, (case snd saved of Inl e \<Rightarrow> Inl e | Inr _ \<Rightarrow> Inr start)) })) }"

definition open_gate :: "world \<Rightarrow> task_record \<Rightarrow> int \<Rightarrow> task_record \<times> (ustring + ustring) \<Rightarrow> (task_record \<times> (ustring + unit)) svc" where
  "open_gate W r pid identified =
     (case snd identified of
        Inl e \<Rightarrow> State_Monad.return (fst identified, Inl (e @ lit ''; the command never ran''))
      | Inr leader_start \<Rightarrow> do {
          _ \<leftarrow> release (t_id r) pid leader_start;
          now \<leftarrow> now_ms W;
          State_Monad.return ((fst identified)\<lparr>t_state := Running, t_started_at := Some now\<rparr>, Inr ()) })"

definition spawn_leader :: "world \<Rightarrow> task_record \<Rightarrow> start_request \<Rightarrow> (task_record \<times> (ustring + unit)) svc" where
  "spawn_leader W r q = do {
     t \<leftarrow> next_tick;
     (case w_spawn W t of
        Inl e \<Rightarrow> State_Monad.return (r, Inl (lit ''could not start the command: '' @ e))
      | Inr child \<Rightarrow> do {
          _ \<leftarrow> modify (\<lambda>s. s\<lparr>sv_spawned := sv_spawned s @ [gated_shell (sr_command q) (sr_environment q)]\<rparr>);
          (case child of
             None \<Rightarrow> State_Monad.return (r, Inl (lit ''the started process has no id''))
           | Some pid \<Rightarrow>
               if 2 ^ 31 \<le> pid then State_Monad.return (r, Inl (lit ''the started process has no id''))
               else do {
                 identified \<leftarrow> identify W (r\<lparr>t_process_id := Some pid\<rparr>) pid;
                 open_gate W r pid identified }) }) }"

definition launch :: "world \<Rightarrow> task_record \<Rightarrow> start_request \<Rightarrow> (task_record \<times> (ustring + unit)) svc" where
  "launch W r q = do {
     opened \<leftarrow> open_log W;
     (case opened of
        Some e \<Rightarrow> State_Monad.return (r, Inl (lit ''could not open task log '' @ t_log_path r @ lit '': '' @ e))
      | None \<Rightarrow> do {
          cloned \<leftarrow> open_log W;
          (case cloned of
             Some e \<Rightarrow> State_Monad.return (r, Inl (lit ''could not open task log: '' @ e))
           | None \<Rightarrow> spawn_leader W r q) }) }"

definition new_record :: "world \<Rightarrow> caller_scope \<Rightarrow> start_request \<Rightarrow> ustring \<Rightarrow> int \<Rightarrow> task_record" where
  "new_record W scope q i now =
     \<lparr>t_id = i, t_name = trim (sr_name q), t_owner = cs_owner scope, t_run = cs_run scope, t_turn = cs_turn scope,
      t_call = cs_call scope, t_command = sr_command q, t_cwd = sr_cwd q, t_machine = w_machine W,
      t_state = Launching, t_supervision = lit ''child'', t_process_id = None, t_process_start = None,
      t_exit_code = None, t_exit_signal = None, t_detail = None, t_stop_reason = None, t_stop_requested_at = None,
      t_owner_deleted_at = None, t_endpoints = sr_endpoints q, t_log_path = w_log_path W i, t_created_at = now,
      t_started_at = None, t_ended_at = None, t_updated_at = now\<rparr>"

definition active_count :: "task_record list \<Rightarrow> nat" where
  "active_count rs = count_where (\<lambda>r. \<not> ended (t_state r)) rs"

definition start_launched :: "world \<Rightarrow> task_record \<Rightarrow> start_request \<Rightarrow> (ustring + task_view) svc" where
  "start_launched W r q = do {
     launched \<leftarrow> launch W r q;
     r2 \<leftarrow> (case snd launched of
              Inl e \<Rightarrow> do {
                now \<leftarrow> now_ms W;
                State_Monad.return ((fst launched)\<lparr>t_state := FailedToStart, t_detail := Some e, t_ended_at := Some now\<rparr>) }
            | Inr _ \<Rightarrow> State_Monad.return (fst launched));
     saved \<leftarrow> save W r2;
     State_Monad.return (case snd saved of
        Inl e \<Rightarrow> Inl e
      | Inr _ \<Rightarrow> (case snd launched of Inl e \<Rightarrow> Inl e | Inr _ \<Rightarrow> Inr (view (fst saved)))) }"

definition start :: "world \<Rightarrow> caller_scope \<Rightarrow> start_request \<Rightarrow> (ustring + task_view) svc" where
  "start W scope q =
     (case validate_start W q of
        Inl e \<Rightarrow> State_Monad.return (Inl e)
      | Inr _ \<Rightarrow> do {
          s \<leftarrow> State_Monad.get;
          if cs_owner scope \<in> sv_deleting s
          then fail_with ''the owning session is being deleted; no task was started''
          else andthen (with_store W (reading (store_list (Some (cs_owner scope))))) (\<lambda>records.
            if active_count records \<ge> MAX_ACTIVE_TASKS_PER_OWNER
            then State_Monad.return (Inl (lit ''this session already has '' @ show_nat (active_count records)
              @ lit '' unended background tasks; stop some first''))
            else do {
              t \<leftarrow> next_tick;
              now \<leftarrow> now_ms W;
              (let r = new_record W scope q (lit ''bgt_'' @ w_uuid W t) now in
               andthen (with_store W (store_insert r)) (\<lambda>_. start_launched W r q)) }) })"

section \<open>Stopping\<close>

function wait_until_gone ::
  "world \<Rightarrow> int \<Rightarrow> ustring \<Rightarrow> nat \<Rightarrow> tracked \<Rightarrow> service \<Rightarrow> (bool \<times> tracked) \<times> service" where
  "wait_until_gone W grp leader_start deadline tracked s0 =
     (case run_state (capture W) s0 of
        (listed, s1) \<Rightarrow>
          (let (gone, tracked') =
                 (case listed of
                    Inl _ \<Rightarrow> (False, tracked)
                  | Inr T \<Rightarrow> (case tracked_task_processes T grp leader_start tracked of (ps, tr) \<Rightarrow> (tp_empty ps, tr)))
           in if gone then ((True, tracked'), s1)
              else (case run_state (instant_now W) s1 of
                      (now, s2) \<Rightarrow>
                        if now \<ge> deadline then ((False, tracked'), s2)
                        else (case run_state (sleep W POLL_INTERVAL) s2 of
                                (_, s3) \<Rightarrow> wait_until_gone W grp leader_start deadline tracked' s3))))"
  by pat_completeness auto
termination
proof (relation "measure (\<lambda>(W, grp, st, deadline, tr, s). deadline - sv_instant s)", goal_cases)
  case (2 W grp st deadline tr s0 listed s1 p gone tr' now s2 u s3)
  have "sv_instant s1 = sv_instant s0" using 2(1) by (auto simp: capture_def next_tick_def)
  moreover have "now = sv_instant s2" "sv_instant s1 \<le> sv_instant s2"
    using 2(5) by (auto simp: instant_now_def next_tick_def modify_def)
  moreover have "sv_instant s2 + POLL_INTERVAL \<le> sv_instant s3"
    using 2(7) by (auto simp: sleep_def next_tick_def modify_def)
  ultimately show ?case using 2(6) by (simp add: POLL_INTERVAL_def)
qed simp

declare wait_until_gone.simps [simp del]

definition await_gone :: "world \<Rightarrow> int \<Rightarrow> ustring \<Rightarrow> tracked \<Rightarrow> nat \<Rightarrow> (bool \<times> tracked) svc" where
  "await_gone W grp leader_start tracked limit = do {
     now \<leftarrow> instant_now W;
     State (wait_until_gone W grp leader_start (now + limit) tracked) }"

definition fail_cleanup :: "ustring \<Rightarrow> task_record \<Rightarrow> task_record" where
  "fail_cleanup detail r = r\<lparr>t_state := CleanupFailed, t_detail := Some detail\<rparr>"

definition leader_exit_of :: "ustring \<Rightarrow> service \<Rightarrow> leader_exit option" where
  "leader_exit_of i s = map_of (sv_exits s) i"

definition exit_code_of :: "leader_exit option \<Rightarrow> int option" where
  "exit_code_of e = (case e of None \<Rightarrow> None | Some x \<Rightarrow> le_code x)"

definition exit_signal_of :: "leader_exit option \<Rightarrow> int option" where
  "exit_signal_of e = (case e of None \<Rightarrow> None | Some x \<Rightarrow> le_signal x)"

definition finish_stopped :: "world \<Rightarrow> task_record \<Rightarrow> task_record svc" where
  "finish_stopped W r = do {
     s \<leftarrow> State_Monad.get;
     now \<leftarrow> now_ms W;
     State_Monad.return (r\<lparr>t_state := Stopped, t_exit_code := exit_code_of (leader_exit_of (t_id r) s),
       t_exit_signal := exit_signal_of (leader_exit_of (t_id r) s),
       t_detail := Some (lit ''process tree terminated''), t_ended_at := Some now\<rparr>) }"

definition send_signals :: "world \<Rightarrow> int \<Rightarrow> task_processes \<Rightarrow> signal \<Rightarrow> ustring list svc" where
  "send_signals W grp ps sig = do {
     t \<leftarrow> next_tick;
     _ \<leftarrow> modify (\<lambda>s. s\<lparr>sv_signals := sv_signals s @ fst (signal_task (w_kill W t) grp ps sig)\<rparr>);
     State_Monad.return (snd (signal_task (w_kill W t) grp ps sig)) }"

definition remaining_detail :: "int list \<Rightarrow> ustring list \<Rightarrow> ustring" where
  "remaining_detail remaining failures =
     lit ''processes remained after SIGKILL: '' @ join_with (lit '', '') (map show_int remaining)
     @ (if failures = [] then [] else lit ''; signal failures: '' @ join_with (lit ''; '') failures)"

fun terminate_rounds ::
  "world \<Rightarrow> task_record \<Rightarrow> int \<Rightarrow> ustring \<Rightarrow> (signal \<times> nat) list \<Rightarrow> tracked \<Rightarrow> ustring list \<Rightarrow> task_record svc" where
  "terminate_rounds W r grp leader_start [] tracked failures = do {
     listed \<leftarrow> capture W;
     State_Monad.return (fail_cleanup (remaining_detail
       (case listed of Inl _ \<Rightarrow> [] | Inr T \<Rightarrow> tp_all (fst (tracked_task_processes T grp leader_start tracked))) failures) r) }"
| "terminate_rounds W r grp leader_start ((sig, wait) # rounds) tracked failures = do {
     listed \<leftarrow> capture W;
     (case listed of
        Inl e \<Rightarrow> State_Monad.return (fail_cleanup e r)
      | Inr T \<Rightarrow>
          (case tracked_task_processes T grp leader_start tracked of
             (ps, tracked1) \<Rightarrow> do {
               saved \<leftarrow> with_store W (writing (store_track (t_id r) tracked1));
               (case saved of
                  Inl e \<Rightarrow> State_Monad.return (fail_cleanup e r)
                | Inr _ \<Rightarrow>
                    if tp_empty ps then finish_stopped W r
                    else do {
                      failed \<leftarrow> send_signals W grp ps sig;
                      waited \<leftarrow> await_gone W grp leader_start tracked1 wait;
                      if fst waited then finish_stopped W r
                      else terminate_rounds W r grp leader_start rounds (snd waited) (failures @ failed) }) })) }"

definition terminate_task :: "world \<Rightarrow> task_record \<Rightarrow> nat \<Rightarrow> task_record svc" where
  "terminate_task W r grace =
     (case t_process_id r of
        None \<Rightarrow> State_Monad.return (fail_cleanup (lit ''no process identity was recorded; cleanup cannot be verified'') r)
      | Some grp \<Rightarrow> do {
          read \<leftarrow> with_store W (reading (store_tracked (t_id r)));
          (case read of
             Inl e \<Rightarrow> State_Monad.return (fail_cleanup e r)
           | Inr tracked \<Rightarrow>
               terminate_rounds W r grp (case t_process_start r of None \<Rightarrow> [] | Some st \<Rightarrow> st)
                 [(SIGTERM, grace), (SIGKILL, KILL_SETTLE)] tracked []) })"

definition stop_begin :: "world \<Rightarrow> ustring \<Rightarrow> stop_reason \<Rightarrow> (ustring + task_view + task_record) svc" where
  "stop_begin W i reason = andthen (lookup W i) (\<lambda>r. do {
     s \<leftarrow> State_Monad.get;
     if ended (t_state r) \<or> i \<in> sv_stopping s then State_Monad.return (Inr (Inl (view r)))
     else do {
       _ \<leftarrow> modify (\<lambda>s. s\<lparr>sv_stopping := insert i (sv_stopping s)\<rparr>);
       now \<leftarrow> now_ms W;
       saved \<leftarrow> save W (r\<lparr>t_state := Stopping, t_stop_reason := Some (stop_reason_str reason), t_stop_requested_at := Some now\<rparr>);
       (case snd saved of
          Inl e \<Rightarrow> do {
            _ \<leftarrow> modify (\<lambda>s. s\<lparr>sv_stopping := sv_stopping s - {i}\<rparr>);
            State_Monad.return (Inl e) }
        | Inr _ \<Rightarrow> State_Monad.return (Inr (Inr (fst saved)))) } })"

definition stop_finish :: "world \<Rightarrow> task_record \<Rightarrow> (ustring + task_view) svc" where
  "stop_finish W r0 = do {
     current \<leftarrow> lookup W (t_id r0);
     (let r = (case current of Inl _ \<Rightarrow> r0 | Inr c \<Rightarrow> r0\<lparr>t_owner_deleted_at := t_owner_deleted_at c\<rparr>) in do {
        saved \<leftarrow> (if ended (t_state r) then do { removed \<leftarrow> remove_task W r; State_Monad.return (r, removed) }
                 else save W r);
        _ \<leftarrow> modify (\<lambda>s. s\<lparr>sv_stopping := sv_stopping s - {t_id r0}\<rparr>);
        State_Monad.return (case snd saved of Inl e \<Rightarrow> Inl e | Inr _ \<Rightarrow> Inr (view (fst saved))) }) }"

definition stop :: "world \<Rightarrow> ustring \<Rightarrow> stop_reason \<Rightarrow> nat option \<Rightarrow> (ustring + task_view) svc" where
  "stop W i reason grace = andthen (stop_begin W i reason) (\<lambda>begun.
     (case begun of
        Inl v \<Rightarrow> State_Monad.return (Inr v)
      | Inr r \<Rightarrow> do {
          r' \<leftarrow> terminate_task W r (case grace of None \<Rightarrow> DEFAULT_STOP_GRACE | Some g \<Rightarrow> g);
          stop_finish W r' }))"

definition stop_for :: "world \<Rightarrow> caller_scope \<Rightarrow> ustring \<Rightarrow> nat option \<Rightarrow> (ustring + task_view) svc" where
  "stop_for W scope i grace = andthen (authorized W scope i) (\<lambda>_. stop W i Requested grace)"

definition stop_ack_unscoped :: "world \<Rightarrow> caller_scope option \<Rightarrow> ustring \<Rightarrow> nat option \<Rightarrow> (ustring + unit) svc" where
  "stop_ack_unscoped W scope i grace = do {
     stopped \<leftarrow> stop W i Requested grace;
     (case stopped of
        Inr _ \<Rightarrow> State_Monad.return (Inr ())
      | Inl e \<Rightarrow> andthen (with_store W (reading (store_get i))) (\<lambda>found.
          (case found of None \<Rightarrow> dismiss W scope i | Some _ \<Rightarrow> State_Monad.return (Inl e)))) }"

definition stop_ack :: "world \<Rightarrow> caller_scope option \<Rightarrow> ustring \<Rightarrow> nat option \<Rightarrow> (ustring + unit) svc" where
  "stop_ack W scope i grace =
     (case scope of
        None \<Rightarrow> stop_ack_unscoped W scope i grace
      | Some c \<Rightarrow> do {
          allowed \<leftarrow> authorized W c i;
          (case allowed of
             Inl _ \<Rightarrow> dismiss W (Some c) i
           | Inr _ \<Rightarrow> stop_ack_unscoped W scope i grace) })"

end
