(* ===== verification/Task_Supervision.thy ===== *)
theory Task_Supervision
  imports Task_Lifecycle
begin

text \<open>
  Owner deletion, the monitor and restart reconciliation of background tasks
  (\<open>src/src/background_tasks/mod.rs\<close>).  Failures the code only reports are dropped here too.
\<close>

fun foreach :: "('a \<Rightarrow> unit svc) \<Rightarrow> 'a list \<Rightarrow> unit svc" where
  "foreach f [] = State_Monad.return ()"
| "foreach f (x # xs) = do { _ \<leftarrow> f x; foreach f xs }"

section \<open>Deleting an owner\<close>

definition mark_owner_deleted :: "world \<Rightarrow> ustring \<Rightarrow> int option \<Rightarrow> unit svc" where
  "mark_owner_deleted W owner deleted_at = do {
     listed \<leftarrow> with_store W (reading (store_list (Some owner)));
     (case listed of
        Inl _ \<Rightarrow> State_Monad.return ()
      | Inr records \<Rightarrow> foreach (\<lambda>r.
          if (t_owner_deleted_at r = None) \<noteq> (deleted_at = None)
          then do { _ \<leftarrow> save W (r\<lparr>t_owner_deleted_at := deleted_at\<rparr>); State_Monad.return () }
          else State_Monad.return ()) records) }"

definition begin_owner_deletion :: "world \<Rightarrow> ustring \<Rightarrow> unit svc" where
  "begin_owner_deletion W owner = do {
     _ \<leftarrow> modify (\<lambda>s. s\<lparr>sv_deleting := insert owner (sv_deleting s)\<rparr>);
     now \<leftarrow> now_ms W;
     mark_owner_deleted W owner (Some now) }"

text \<open>The branch of \<open>finish_owner_deletion\<close> for a deletion that did not commit.\<close>

definition abort_owner_deletion :: "world \<Rightarrow> ustring \<Rightarrow> unit svc" where
  "abort_owner_deletion W owner = do {
     _ \<leftarrow> modify (\<lambda>s. s\<lparr>sv_deleting := sv_deleting s - {owner}\<rparr>);
     mark_owner_deleted W owner None }"

definition cleanup_ended :: "world \<Rightarrow> task_record \<Rightarrow> (ustring \<times> bool) svc" where
  "cleanup_ended W r = do {
     removed \<leftarrow> andthen (confirm_gone W r) (\<lambda>_. remove_task W r);
     State_Monad.return (t_id r, (case removed of Inl _ \<Rightarrow> False | Inr _ \<Rightarrow> True)) }"

section \<open>The monitor\<close>

definition describe_exit :: "leader_exit \<Rightarrow> ustring" where
  "describe_exit e =
     (case (le_code e, le_signal e) of
        (Some code, _) \<Rightarrow> lit ''code '' @ show_int code
      | (None, Some sig) \<Rightarrow> lit ''signal '' @ show_int sig
      | (None, None) \<Rightarrow> lit ''unknown status'')"

text \<open>The task that waits for a released leader.\<close>

definition reap_leader :: "world \<Rightarrow> ustring \<Rightarrow> leader_exit \<Rightarrow> unit svc" where
  "reap_leader W i e = do {
     found \<leftarrow> with_store W (reading (store_get i));
     (case found of
        Inr (Some _) \<Rightarrow> modify (\<lambda>s. s\<lparr>sv_exits := (i, e) # filter (\<lambda>x. fst x \<noteq> i) (sv_exits s)\<rparr>)
      | _ \<Rightarrow> State_Monad.return ()) }"

definition update_observed :: "world \<Rightarrow> ustring \<Rightarrow> task_state \<Rightarrow> (task_record \<Rightarrow> task_record) \<Rightarrow> unit svc" where
  "update_observed W i expected change = do {
     s \<leftarrow> State_Monad.get;
     if i \<in> sv_stopping s then State_Monad.return ()
     else do {
       found \<leftarrow> lookup W i;
       (case found of
          Inl _ \<Rightarrow> State_Monad.return ()
        | Inr r \<Rightarrow>
            if t_state r \<noteq> expected then State_Monad.return ()
            else do { _ \<leftarrow> save W (change r); State_Monad.return () }) } }"

definition settle_exit :: "world \<Rightarrow> ustring \<Rightarrow> leader_exit option \<Rightarrow> unit svc" where
  "settle_exit W i exit = do {
     s \<leftarrow> State_Monad.get;
     if i \<in> sv_stopping s then State_Monad.return ()
     else do {
       found \<leftarrow> lookup W i;
       (case found of
          Inl _ \<Rightarrow> State_Monad.return ()
        | Inr r \<Rightarrow>
            if t_state r \<notin> {Running, Unknown, CleanupFailed} then State_Monad.return ()
            else if t_supervision r = lit ''child'' \<and> exit = None then State_Monad.return ()
            else do {
              now \<leftarrow> now_ms W;
              (let r' = r\<lparr>t_state := Exited, t_exit_code := exit_code_of exit, t_exit_signal := exit_signal_of exit,
                     t_detail := Some (case exit of
                        Some e \<Rightarrow> lit ''exited ('' @ describe_exit e @ lit '')''
                      | None \<Rightarrow> lit ''process tree ended; exit status unknown''),
                     t_ended_at := Some now\<rparr> in
               if t_exit_code r' = Some 0 \<or> t_stop_reason r' \<noteq> None
               then do { _ \<leftarrow> remove_task W r'; State_Monad.return () }
               else do { _ \<leftarrow> save W r'; State_Monad.return () }) }) } }"

definition live_processes :: "task_processes \<Rightarrow> ustring" where
  "live_processes ps = show_nat (tp_count ps)"

definition observe_task :: "world \<Rightarrow> process_table \<Rightarrow> task_record \<Rightarrow> unit svc" where
  "observe_task W T r = do {
     seen \<leftarrow> observe_processes W r T;
     (case seen of
        Inl _ \<Rightarrow> State_Monad.return ()
      | Inr ps \<Rightarrow> do {
          s \<leftarrow> State_Monad.get;
          if tp_empty ps then settle_exit W (t_id r) (leader_exit_of (t_id r) s)
          else if t_state r = Unknown then
            update_observed W (t_id r) Unknown (\<lambda>q. q\<lparr>t_state := Running,
              t_detail := Some (lit ''process identity re-verified with '' @ live_processes ps @ lit '' live processes'')\<rparr>)
          else (case leader_exit_of (t_id r) s of
                  Some e \<Rightarrow>
                    if t_detail r = None then
                      update_observed W (t_id r) Running (\<lambda>q. q\<lparr>t_detail := Some (lit ''leader exited ('' @ describe_exit e
                        @ lit ''); '' @ live_processes ps @ lit '' processes still running'')\<rparr>)
                    else State_Monad.return ()
                | None \<Rightarrow> State_Monad.return ()) }) }"

definition log_id :: "ustring \<Rightarrow> ustring option" where
  "log_id name =
     (if suffix (lit ''.log.1'') name then Some (take (length name - 6) name)
      else if suffix (lit ''.log'') name then Some (take (length name - 4) name)
      else None)"

definition collect_diagnostics :: "world \<Rightarrow> unit svc" where
  "collect_diagnostics W = do {
     listed \<leftarrow> with_store W (reading (store_list None));
     (case listed of
        Inl _ \<Rightarrow> State_Monad.return ()
      | Inr records \<Rightarrow> do {
          now \<leftarrow> now_ms W;
          _ \<leftarrow> foreach (\<lambda>r.
            if ended (t_state r) \<and> (case t_ended_at r of None \<Rightarrow> False | Some e \<Rightarrow> e < now - DIAGNOSTIC_RETENTION_MS)
            then purge_logs (t_id r) else State_Monad.return ()) records;
          t \<leftarrow> next_tick;
          (case w_log_dir W t of
             None \<Rightarrow> State_Monad.return ()
           | Some names \<Rightarrow> foreach (\<lambda>name.
               (case log_id name of
                  None \<Rightarrow> State_Monad.return ()
                | Some i \<Rightarrow> do {
                    receipt \<leftarrow> with_store W (reading (store_receipt i));
                    (case receipt of Inr (Some _) \<Rightarrow> purge_logs i | _ \<Rightarrow> State_Monad.return ()) })) names) }) }"

definition watched :: "task_record \<Rightarrow> bool" where
  "watched r \<longleftrightarrow> t_state r \<in> {Running, CleanupFailed} \<or> t_state r = Unknown \<and> t_process_id r \<noteq> None"

definition observe :: "world \<Rightarrow> unit svc" where
  "observe W = do {
     _ \<leftarrow> collect_diagnostics W;
     listed \<leftarrow> with_store W (reading list_unended);
     (case listed of
        Inl _ \<Rightarrow> State_Monad.return ()
      | Inr unended \<Rightarrow>
          if filter watched unended = [] then State_Monad.return ()
          else do {
            table \<leftarrow> capture W;
            (case table of
               Inl e \<Rightarrow> foreach (\<lambda>r. update_observed W (t_id r) Running (\<lambda>q. q\<lparr>t_state := Unknown,
                 t_detail := Some (lit ''could not verify processes: '' @ e)\<rparr>)) (filter watched unended)
             | Inr T \<Rightarrow> foreach (observe_task W T) (filter watched unended)) }) }"

section \<open>Reconciliation after a restart\<close>

definition reconcile_launch :: "world \<Rightarrow> process_table \<Rightarrow> task_record \<Rightarrow> task_record svc" where
  "reconcile_launch W T r =
     (case t_process_id r of
        None \<Rightarrow> do {
          now \<leftarrow> now_ms W;
          State_Monad.return (r\<lparr>t_state := FailedToStart,
            t_detail := Some (lit ''launch was interrupted before the process was released; the command never ran''),
            t_ended_at := Some now\<rparr>) }
      | Some grp \<Rightarrow>
          if tp_empty (task_processes T grp (case t_process_start r of None \<Rightarrow> [] | Some st \<Rightarrow> st))
          then do {
            now \<leftarrow> now_ms W;
            State_Monad.return (r\<lparr>t_state := Exited,
              t_detail := Some (lit ''launch was interrupted and its process is gone; the command may not have run''),
              t_ended_at := Some now\<rparr>) }
          else State_Monad.return (r\<lparr>t_state := Running, t_supervision := lit ''adopted'',
            t_started_at := Some (case t_started_at r of None \<Rightarrow> t_created_at r | Some x \<Rightarrow> x),
            t_detail := Some (lit ''launch was interrupted by a runtime restart after release; adopted'')\<rparr>))"

definition reconcile_running :: "world \<Rightarrow> task_processes \<Rightarrow> task_record \<Rightarrow> task_record svc" where
  "reconcile_running W ps r =
     (if tp_empty ps then do {
        now \<leftarrow> now_ms W;
        State_Monad.return (r\<lparr>t_state := (if t_state r = CleanupFailed \<and> t_stop_reason r \<noteq> None then Stopped else Exited),
          t_detail := Some (lit ''ended while the runtime was not supervising it; exit status unknown''),
          t_ended_at := Some now\<rparr>) }
      else if t_state r \<in> {Running, Unknown} then
        State_Monad.return (r\<lparr>t_state := Running, t_supervision := lit ''adopted'',
          t_detail := Some (lit ''adopted after a runtime restart with '' @ live_processes ps
            @ lit '' live processes; exit status will be unknown'')\<rparr>)
      else State_Monad.return r)"

definition reconcile_state ::
  "world \<Rightarrow> process_table \<Rightarrow> task_record \<Rightarrow> (task_record \<times> (ustring \<times> stop_reason) list) svc" where
  "reconcile_state W T r =
     (case t_state r of
        Launching \<Rightarrow> do { r' \<leftarrow> reconcile_launch W T r; State_Monad.return (r', []) }
      | Stopping \<Rightarrow>
          State_Monad.return (r\<lparr>t_state := Running, t_supervision := lit ''adopted''\<rparr>,
            [(t_id r, if t_stop_reason r = Some (lit ''owner_deleted'') then OwnerDeleted else Requested)])
      | _ \<Rightarrow>
          if ended (t_state r) then do {
            gone \<leftarrow> confirm_gone W r;
            State_Monad.return ((case gone of
               Inr _ \<Rightarrow> r
             | Inl _ \<Rightarrow> r\<lparr>t_state := Unknown, t_ended_at := None,
                 t_detail := Some (lit ''terminal record could not be verified; cleanup required'')\<rparr>), []) }
          else do {
            seen \<leftarrow> observe_processes W r T;
            (case seen of
               Inr ps \<Rightarrow> do { r' \<leftarrow> reconcile_running W ps r; State_Monad.return (r', []) }
             | Inl e \<Rightarrow> State_Monad.return (r\<lparr>t_state := Unknown, t_detail := Some e\<rparr>, [])) })"

definition removable :: "task_record \<Rightarrow> bool" where
  "removable r \<longleftrightarrow>
     ended (t_state r) \<and> (t_stop_reason r \<noteq> None \<or> t_exit_code r = Some 0 \<or> t_owner_deleted_at r \<noteq> None)"

definition reconcile_record ::
  "world \<Rightarrow> process_table \<Rightarrow> (ustring \<times> stop_reason) list \<Rightarrow> task_record \<Rightarrow> (ustring \<times> stop_reason) list svc" where
  "reconcile_record W T stops r = do {
     s \<leftarrow> State_Monad.get;
     if t_id r \<in> sv_stopping s then State_Monad.return stops
     else do {
       next \<leftarrow> reconcile_state W T r;
       (let r' = fst next; stops1 = stops @ snd next in
        if removable r' then do { _ \<leftarrow> remove_task W r'; State_Monad.return stops1 }
        else do {
          _ \<leftarrow> save W r';
          State_Monad.return
            (if t_state r' = Running \<and> t_owner_deleted_at r' \<noteq> None \<and> \<not> list_ex (\<lambda>x. fst x = t_id r') stops1
             then stops1 @ [(t_id r', OwnerDeleted)] else stops1) }) } }"

fun reconcile_records ::
  "world \<Rightarrow> process_table \<Rightarrow> (ustring \<times> stop_reason) list \<Rightarrow> task_record list \<Rightarrow> (ustring \<times> stop_reason) list svc" where
  "reconcile_records W T stops [] = State_Monad.return stops"
| "reconcile_records W T stops (r # rs) = do { stops' \<leftarrow> reconcile_record W T stops r; reconcile_records W T stops' rs }"

text \<open>Whether processes could be listed, and the stops to resume.\<close>

definition reconcile :: "world \<Rightarrow> (bool \<times> (ustring \<times> stop_reason) list) svc" where
  "reconcile W = do {
     listed \<leftarrow> with_store W (reading (store_list None));
     (case listed of
        Inl _ \<Rightarrow> State_Monad.return (False, [])
      | Inr records \<Rightarrow>
          if records = [] then State_Monad.return (True, [])
          else do {
            table \<leftarrow> capture W;
            (case table of
               Inl e \<Rightarrow> do {
                 _ \<leftarrow> foreach (\<lambda>r.
                   if t_state r = Running then do {
                     _ \<leftarrow> save W (r\<lparr>t_state := Unknown, t_detail := Some (lit ''runtime restarted; '' @ e)\<rparr>);
                     State_Monad.return () }
                   else State_Monad.return ()) records;
                 State_Monad.return (False, []) }
             | Inr T \<Rightarrow> do {
                 stops \<leftarrow> reconcile_records W T [] records;
                 State_Monad.return (True, stops) }) }) }"

text \<open>What a restart of the runtime leaves: the registry and what already happened.\<close>

definition restart :: "service \<Rightarrow> service" where
  "restart s = s\<lparr>sv_deleting := {}, sv_stopping := {}, sv_exits := []\<rparr>"

end
