(* ===== verification/Task_Logic.thy ===== *)
theory Task_Logic
  imports Task_Supervision
begin

text \<open>
  Reasoning about the programs of the background task service: Hoare triples with the rules of the
  monad, programs that leave rows, receipts and coordination alone (\<open>quiet\<close>), and the assertions
  that survive them.
\<close>

named_theorems quiet_intros "programs that leave the registry alone"
named_theorems stable_intros "assertions that quiet programs keep"

section \<open>Triples\<close>

definition triple :: "(service \<Rightarrow> bool) \<Rightarrow> 'a svc \<Rightarrow> ('a \<Rightarrow> service \<Rightarrow> bool) \<Rightarrow> bool" where
  "triple P m Q \<longleftrightarrow> (\<forall>s. P s \<longrightarrow> (case run_state m s of (a, s') \<Rightarrow> Q a s'))"

lemma tripleI: "(\<And>s a s'. P s \<Longrightarrow> run_state m s = (a, s') \<Longrightarrow> Q a s') \<Longrightarrow> triple P m Q"
  by (auto simp: triple_def)

lemma tripleD: "triple P m Q \<Longrightarrow> P s \<Longrightarrow> run_state m s = (a, s') \<Longrightarrow> Q a s'"
  by (fastforce simp: triple_def)

lemma triple_conseq: "triple P m Q \<Longrightarrow> (\<And>s. P' s \<Longrightarrow> P s) \<Longrightarrow> (\<And>a s. Q a s \<Longrightarrow> Q' a s) \<Longrightarrow> triple P' m Q'"
  by (fastforce simp: triple_def)

lemma triple_pre: "triple P m Q \<Longrightarrow> (\<And>s. P' s \<Longrightarrow> P s) \<Longrightarrow> triple P' m Q"
  by (rule triple_conseq)

lemma triple_return: "(\<And>s. P s \<Longrightarrow> Q a s) \<Longrightarrow> triple P (State_Monad.return a) Q"
  by (simp add: triple_def)

lemma triple_bind: "triple P m R \<Longrightarrow> (\<And>a. triple (R a) (f a) Q) \<Longrightarrow> triple P (State_Monad.bind m f) Q"
  by (fastforce simp: triple_def split: prod.splits)

lemma triple_get: "(\<And>s. P s \<Longrightarrow> Q s s) \<Longrightarrow> triple P State_Monad.get Q"
  by (simp add: triple_def)

lemma triple_modify: "(\<And>s. P s \<Longrightarrow> Q () (f s)) \<Longrightarrow> triple P (modify f) Q"
  by (simp add: triple_def modify_def)

lemma triple_if: "(b \<Longrightarrow> triple P m Q) \<Longrightarrow> (\<not> b \<Longrightarrow> triple P n Q) \<Longrightarrow> triple P (if b then m else n) Q"
  by simp

lemma triple_false: "(\<And>s. P s \<Longrightarrow> False) \<Longrightarrow> triple P m Q"
  by (auto simp: triple_def)

lemma triple_pure: "(b \<Longrightarrow> triple P m Q) \<Longrightarrow> triple (\<lambda>s. b \<and> P s) m Q"
  by (simp add: triple_def)

lemma triple_andthen:
  assumes "triple P m (\<lambda>r s. case r of Inl e \<Rightarrow> Q (Inl e) s | Inr a \<Rightarrow> R a s)" "\<And>a. triple (R a) (f a) Q"
  shows "triple P (andthen m f) Q"
  unfolding andthen_def
proof (rule triple_bind [OF assms(1)])
  fix r
  show "triple (\<lambda>s. case r of Inl e \<Rightarrow> Q (Inl e) s | Inr a \<Rightarrow> R a s)
      (case r of Inl e \<Rightarrow> State_Monad.return (Inl e) | Inr a \<Rightarrow> f a) Q"
    by (cases r) (auto intro: triple_return assms(2))
qed

lemma triple_foreach:
  assumes "\<And>x. x \<in> set xs \<Longrightarrow> triple P (f x) (\<lambda>_. P)"
  shows "triple P (foreach f xs) (\<lambda>_. P)"
  using assms
proof (induction xs)
  case (Cons x xs)
  show ?case unfolding foreach.simps
  proof (rule triple_bind)
    show "triple P (f x) (\<lambda>_. P)" by (rule Cons.prems) simp
    show "triple P (foreach f xs) (\<lambda>_. P)" by (rule Cons.IH) (simp add: Cons.prems)
  qed
qed (auto intro: triple_return)

section \<open>Programs that respect a relation\<close>

definition keeps :: "(service \<Rightarrow> service \<Rightarrow> bool) \<Rightarrow> 'a svc \<Rightarrow> bool" where
  "keeps R m \<longleftrightarrow> (\<forall>s. R s (snd (run_state m s)))"

lemma keepsD: "keeps R m \<Longrightarrow> run_state m s = (a, s') \<Longrightarrow> R s s'"
  by (metis keeps_def snd_conv)

locale frame_relation =
  fixes R :: "service \<Rightarrow> service \<Rightarrow> bool"
  assumes frame_refl: "R s s"
    and frame_trans: "R s s' \<Longrightarrow> R s' s'' \<Longrightarrow> R s s''"
begin

lemma keeps_return: "keeps R (State_Monad.return a)"
  by (simp add: keeps_def frame_refl)

lemma keeps_bind: "keeps R m \<Longrightarrow> (\<And>a. keeps R (f a)) \<Longrightarrow> keeps R (State_Monad.bind m f)"
  unfolding keeps_def by (auto split: prod.splits) (metis frame_trans snd_conv)

lemma keeps_get: "keeps R State_Monad.get"
  by (simp add: keeps_def frame_refl)

lemma keeps_if: "(b \<Longrightarrow> keeps R m) \<Longrightarrow> (\<not> b \<Longrightarrow> keeps R n) \<Longrightarrow> keeps R (if b then m else n)"
  by simp

lemma keeps_case_sum:
  "(\<And>e. keeps R (f e)) \<Longrightarrow> (\<And>a. keeps R (g a)) \<Longrightarrow> keeps R (case r of Inl e \<Rightarrow> f e | Inr a \<Rightarrow> g a)"
  by (cases r) auto

lemma keeps_case_option:
  "keeps R m \<Longrightarrow> (\<And>a. keeps R (g a)) \<Longrightarrow> keeps R (case r of None \<Rightarrow> m | Some a \<Rightarrow> g a)"
  by (cases r) auto

lemma keeps_case_prod: "(\<And>a b. keeps R (f a b)) \<Longrightarrow> keeps R (case p of (a, b) \<Rightarrow> f a b)"
  by (cases p) auto

lemma keeps_andthen: "keeps R m \<Longrightarrow> (\<And>a. keeps R (f a)) \<Longrightarrow> keeps R (andthen m f)"
  unfolding andthen_def by (intro keeps_bind keeps_case_sum keeps_return)

lemma keeps_foreach: "(\<And>x. keeps R (f x)) \<Longrightarrow> keeps R (foreach f xs)"
  by (induction xs) (auto intro!: keeps_bind keeps_return)

lemma keeps_fail_with: "keeps R (fail_with e)"
  unfolding fail_with_def by (rule keeps_return)

lemma keeps_modify: "(\<And>s. R s (f s)) \<Longrightarrow> keeps R (modify f)"
  by (simp add: keeps_def modify_def)

lemmas keeps_program = keeps_return keeps_bind keeps_get keeps_if keeps_case_sum keeps_case_option keeps_case_prod
  keeps_andthen keeps_foreach keeps_fail_with

end

text \<open>
  Relations closed under what every operation may do at any time: let time pass, look at the processes,
  remember descendants, send signals and unlink logs.
\<close>

definition plain_id :: "ustring \<Rightarrow> bool" where
  "plain_id i \<longleftrightarrow> prefix (lit ''bgt_'') i \<and> list_all (\<lambda>c. is_alnum_ascii c \<or> c = 95) i"

locale service_frame = frame_relation +
  assumes frame_tick: "sv_tick s \<le> n \<Longrightarrow> R s (s\<lparr>sv_tick := n\<rparr>)"
    and frame_pass: "sv_instant s \<le> n \<Longrightarrow> R s (s\<lparr>sv_instant := n\<rparr>)"
    and frame_track: "R s (s\<lparr>sv_store := store_track i tr (sv_store s)\<rparr>)"
    and frame_signal: "R s (s\<lparr>sv_signals := sv_signals s @ xs\<rparr>)"
    and frame_unlink: "plain_id i \<Longrightarrow> R s (s\<lparr>sv_unlinked := sv_unlinked s @ [i @ lit ''.log'', i @ lit ''.log.1'']\<rparr>)"
begin

lemma keeps_next_tick: "keeps R next_tick"
  by (simp add: keeps_def next_tick_def frame_tick)

lemma keeps_now_ms: "keeps R (now_ms W)"
  unfolding now_ms_def by (intro keeps_program keeps_next_tick)

lemma keeps_capture: "keeps R (capture W)"
  unfolding capture_def by (intro keeps_program keeps_next_tick)

lemma keeps_instant_now: "keeps R (instant_now W)"
  unfolding instant_now_def by (intro keeps_program keeps_next_tick keeps_modify frame_pass) simp

lemma keeps_sleep: "keeps R (sleep W d)"
  unfolding sleep_def by (intro keeps_program keeps_next_tick keeps_modify frame_pass) simp

lemma keeps_with_store:
  assumes "\<And>s a st'. f (sv_store s) = Inr (a, st') \<Longrightarrow> R s (s\<lparr>sv_store := st'\<rparr>)"
  shows "keeps R (with_store W f)"
  unfolding keeps_def
proof
  fix s :: service
  let ?s = "s\<lparr>sv_tick := sv_tick s + 1\<rparr>"
  have tick: "R s ?s" by (rule frame_tick) simp
  show "R s (snd (run_state (with_store W f) s))"
    using tick assms [of ?s] frame_trans [OF tick]
    by (auto simp: with_store_def next_tick_def modify_def split: option.split sum.split)
qed

lemma keeps_reading: "keeps R (with_store W (reading f))"
  by (rule keeps_with_store) (auto simp: reading_def frame_refl)

lemma keeps_track: "keeps R (with_store W (writing (store_track i tr)))"
  by (rule keeps_with_store) (auto simp: writing_def frame_track)

lemma keeps_lookup: "keeps R (lookup W i)"
  unfolding lookup_def by (intro keeps_program keeps_reading)

lemmas keeps_effects = keeps_next_tick keeps_now_ms keeps_capture keeps_instant_now keeps_sleep keeps_reading keeps_track
  keeps_lookup

lemma keeps_observe_processes: "keeps R (observe_processes W r T)"
  unfolding observe_processes_def by (intro keeps_program keeps_effects)

lemma keeps_confirm_gone: "keeps R (confirm_gone W r)"
  unfolding confirm_gone_def by (intro keeps_program keeps_effects keeps_observe_processes)

lemma keeps_purge_logs: "keeps R (purge_logs i)"
  unfolding purge_logs_def by (intro keeps_program keeps_modify frame_unlink) (simp add: plain_id_def)

lemma keeps_send_signals: "keeps R (send_signals W g ps sig)"
  unfolding send_signals_def by (intro keeps_program keeps_effects keeps_modify frame_signal)

lemma wait_frame: "wait_until_gone W g st deadline tr s = (a, s') \<Longrightarrow> R s s'"
proof (induction W g st deadline tr s arbitrary: a s' rule: wait_until_gone.induct)
  case (1 W g st deadline tr s)
  obtain listed s1 where c: "run_state (capture W) s = (listed, s1)" by (metis surj_pair)
  obtain gone tr' where o: "(case listed of Inl _ \<Rightarrow> (False, tr)
      | Inr T \<Rightarrow> (case tracked_task_processes T g st tr of (ps, tr) \<Rightarrow> (tp_empty ps, tr))) = (gone, tr')"
    by (metis surj_pair)
  obtain now s2 where n: "run_state (instant_now W) s1 = (now, s2)" by (metis surj_pair)
  obtain u s3 where z: "run_state (sleep W POLL_INTERVAL) s2 = (u, s3)" by (metis surj_pair)
  note kept = keepsD [OF keeps_capture c] keepsD [OF keeps_instant_now n] keepsD [OF keeps_sleep z]
  have run: "(if gone then ((True, tr'), s1) else if now \<ge> deadline then ((False, tr'), s2)
      else wait_until_gone W g st deadline tr' s3) = (a, s')"
    using "1.prems" c o n z by (subst (asm) wait_until_gone.simps) (simp split: if_splits)
  show ?case
  proof (cases "gone \<or> now \<ge> deadline")
    case True
    then show ?thesis using run kept by (auto intro: frame_trans split: if_splits)
  next
    case False
    then have "wait_until_gone W g st deadline tr' s3 = (a, s')" using run by simp
    then have "R s3 s'"
      using False c o n z by (intro "1.IH" [OF c [symmetric] o [symmetric] refl _ n [symmetric] _ z [symmetric]]) auto
    then show ?thesis using kept by (blast intro: frame_trans)
  qed
qed

lemma keeps_await_gone: "keeps R (await_gone W g st tr limit)"
proof -
  have "keeps R (State (wait_until_gone W g st deadline tr))" for deadline
    by (simp add: keeps_def wait_frame [OF surjective_pairing])
  then show ?thesis unfolding await_gone_def by (intro keeps_program keeps_effects)
qed

lemma keeps_finish_stopped: "keeps R (finish_stopped W r)"
  unfolding finish_stopped_def by (intro keeps_program keeps_effects)

lemma keeps_terminate_rounds: "keeps R (terminate_rounds W r g st rounds tr fs)"
proof (induction rounds arbitrary: tr fs)
  case (Cons round rounds)
  show ?case
    by (cases round) (simp only: terminate_rounds.simps,
      intro keeps_program keeps_effects keeps_send_signals keeps_await_gone keeps_finish_stopped Cons.IH)
qed (simp only: terminate_rounds.simps, intro keeps_program keeps_effects)

lemma keeps_terminate_task: "keeps R (terminate_task W r grace)"
  unfolding terminate_task_def by (intro keeps_program keeps_effects keeps_terminate_rounds)

lemma keeps_collect_diagnostics: "keeps R (collect_diagnostics W)"
  unfolding collect_diagnostics_def by (intro keeps_program keeps_effects keeps_purge_logs)

lemmas keeps_operations = keeps_effects keeps_observe_processes keeps_confirm_gone keeps_purge_logs keeps_send_signals
  keeps_await_gone keeps_finish_stopped keeps_terminate_rounds keeps_terminate_task keeps_collect_diagnostics

end

section \<open>Quiet programs\<close>

definition quiet :: "service \<Rightarrow> service \<Rightarrow> bool" where
  "quiet s s' \<longleftrightarrow>
     sv_tick s \<le> sv_tick s' \<and> st_tasks (sv_store s') = st_tasks (sv_store s) \<and>
     st_receipts (sv_store s') = st_receipts (sv_store s) \<and> sv_released s' = sv_released s \<and>
     sv_stopping s' = sv_stopping s \<and> sv_deleting s' = sv_deleting s"

abbreviation quiet_op :: "'a svc \<Rightarrow> bool" where
  "quiet_op \<equiv> keeps quiet"

definition stable :: "(service \<Rightarrow> bool) \<Rightarrow> bool" where
  "stable P \<longleftrightarrow> (\<forall>s s'. quiet s s' \<longrightarrow> P s \<longrightarrow> P s')"

lemma quiet_refl [simp]: "quiet s s"
  by (simp add: quiet_def)

lemma quiet_trans: "quiet s s' \<Longrightarrow> quiet s' s'' \<Longrightarrow> quiet s s''"
  by (auto simp: quiet_def)

interpretation quiet_frame: service_frame quiet
  by unfold_locales (auto simp: quiet_def store_track_def)

lemmas quiet_opD = keepsD [where R = quiet]
lemmas quiet_program [quiet_intros] = quiet_frame.keeps_program
lemmas quiet_operations [quiet_intros] = quiet_frame.keeps_operations
lemmas quiet_return = quiet_frame.keeps_return
lemmas quiet_get = quiet_frame.keeps_get
lemmas quiet_fail_with = quiet_frame.keeps_fail_with
lemmas quiet_modify [quiet_intros] = quiet_frame.keeps_modify
lemmas quiet_next_tick = quiet_frame.keeps_next_tick
lemmas quiet_now_ms = quiet_frame.keeps_now_ms
lemmas quiet_capture = quiet_frame.keeps_capture
lemmas quiet_instant_now = quiet_frame.keeps_instant_now
lemmas quiet_sleep = quiet_frame.keeps_sleep
lemmas quiet_reading = quiet_frame.keeps_reading
lemmas quiet_track = quiet_frame.keeps_track
lemmas quiet_lookup = quiet_frame.keeps_lookup
lemmas quiet_observe_processes = quiet_frame.keeps_observe_processes
lemmas quiet_confirm_gone = quiet_frame.keeps_confirm_gone
lemmas quiet_purge_logs = quiet_frame.keeps_purge_logs
lemmas quiet_send_signals = quiet_frame.keeps_send_signals
lemmas quiet_wait = quiet_frame.wait_frame
lemmas quiet_await_gone = quiet_frame.keeps_await_gone
lemmas quiet_finish_stopped = quiet_frame.keeps_finish_stopped
lemmas quiet_terminate_task = quiet_frame.keeps_terminate_task
lemmas quiet_collect_diagnostics = quiet_frame.keeps_collect_diagnostics

section \<open>Stable assertions\<close>

lemma stableD: "stable P \<Longrightarrow> quiet s s' \<Longrightarrow> P s \<Longrightarrow> P s'"
  by (auto simp: stable_def)

lemma stable_conj [stable_intros]: "stable P \<Longrightarrow> stable Q \<Longrightarrow> stable (\<lambda>s. P s \<and> Q s)"
  by (auto simp: stable_def)

lemma stable_imp [stable_intros]: "stable P \<Longrightarrow> stable (\<lambda>s. b \<longrightarrow> P s)"
  by (auto simp: stable_def)

lemma triple_quiet: "quiet_op m \<Longrightarrow> stable P \<Longrightarrow> triple P m (\<lambda>_. P)"
  by (rule tripleI) (blast dest: quiet_opD stableD)

text \<open>A quiet program keeps a stable assertion beside whatever else it achieves.\<close>

lemma triple_keep: "quiet_op m \<Longrightarrow> stable P \<Longrightarrow> triple R m Q \<Longrightarrow> triple (\<lambda>s. P s \<and> R s) m (\<lambda>a s. P s \<and> Q a s)"
  by (rule tripleI) (blast dest: quiet_opD stableD tripleD)

end
