(* ===== verification/Task_Safety.thy ===== *)
theory Task_Safety
  imports Task_Logic
begin

text \<open>
  What the service never loses sight of.  A released leader (its command may run) is accounted for by
  a row with its process group and start time until a receipt replaces the row, and that only after a
  listing in which the task had no process.  The assertion \<open>sound W R G\<close> says so, together with what
  code that runs without the lock still relies on: the records \<open>R\<close> it read earlier and the tasks \<open>G\<close> it
  saw without processes.
\<close>

section \<open>The assertion\<close>

text \<open>A listing from \<open>lo\<close> on, and before \<open>hi\<close>, in which a process group has no live process.\<close>

definition gone_at :: "world \<Rightarrow> nat \<Rightarrow> nat \<Rightarrow> int \<Rightarrow> ustring \<Rightarrow> bool" where
  "gone_at W lo hi grp st \<longleftrightarrow>
     (\<exists>k T. lo \<le> k \<and> k < hi \<and> listing_at W k = Inr T \<and> tp_empty (task_processes T grp st))"

definition has_receipt :: "ustring \<Rightarrow> service \<Rightarrow> bool" where
  "has_receipt i s \<longleftrightarrow> (\<exists>c \<in> set (st_receipts (sv_store s)). rc_task c = i)"

definition same_process :: "task_record \<Rightarrow> task_record \<Rightarrow> bool" where
  "same_process r q \<longleftrightarrow> t_id r = t_id q \<and> t_process_id r = t_process_id q \<and> t_process_start r = t_process_start q"

definition settled :: "world \<Rightarrow> service \<Rightarrow> released_leader \<Rightarrow> bool" where
  "settled W s x \<longleftrightarrow> has_receipt (ls_id x) s \<and> gone_at W (ls_tick x) (sv_tick s) (ls_group x) (ls_start x)"

definition runs_as :: "task_record \<Rightarrow> released_leader \<Rightarrow> bool" where
  "runs_as r x \<longleftrightarrow> t_id r = ls_id x \<and> t_process_id r = Some (ls_group x) \<and> t_process_start r = Some (ls_start x)"

definition timely :: "service \<Rightarrow> bool" where
  "timely s \<longleftrightarrow> (\<forall>x \<in> set (sv_released s). ls_tick x \<le> sv_tick s)"

definition accounted :: "world \<Rightarrow> service \<Rightarrow> bool" where
  "accounted W s \<longleftrightarrow> timely s \<and> (\<forall>x \<in> set (sv_released s). ls_start x \<noteq> [] \<and>
     (settled W s x \<or> (\<exists>q \<in> set (st_tasks (sv_store s)). runs_as q x)))"

definition known :: "world \<Rightarrow> service \<Rightarrow> task_record \<Rightarrow> bool" where
  "known W s r \<longleftrightarrow> (\<forall>x \<in> set (sv_released s). ls_id x = t_id r \<longrightarrow> settled W s x \<or> runs_as r x)"

definition gone :: "world \<Rightarrow> service \<Rightarrow> ustring \<Rightarrow> bool" where
  "gone W s i \<longleftrightarrow> (\<forall>x \<in> set (sv_released s). ls_id x = i \<longrightarrow>
     gone_at W (ls_tick x) (sv_tick s) (ls_group x) (ls_start x))"

text \<open>A listing made after a task was released.\<close>

definition seen_table :: "world \<Rightarrow> process_table \<Rightarrow> ustring \<Rightarrow> service \<Rightarrow> bool" where
  "seen_table W T i s \<longleftrightarrow>
     (\<exists>k < sv_tick s. listing_at W k = Inr T \<and> (\<forall>x \<in> set (sv_released s). ls_id x = i \<longrightarrow> ls_tick x \<le> k))"

datatype evidence = No_Process (about: ustring) | Listed process_table (about: ustring)

fun holds :: "world \<Rightarrow> service \<Rightarrow> evidence \<Rightarrow> bool" where
  "holds W s (No_Process i) = gone W s i"
| "holds W s (Listed T i) = seen_table W T i s"

definition issued :: "world \<Rightarrow> service \<Rightarrow> ustring \<Rightarrow> bool" where
  "issued W s i \<longleftrightarrow> (\<exists>t < sv_tick s. i = lit ''bgt_'' @ w_uuid W t)"

definition sound :: "world \<Rightarrow> task_record set \<Rightarrow> evidence set \<Rightarrow> service \<Rightarrow> bool" where
  "sound W R G s \<longleftrightarrow>
     store_ok (sv_store s) \<and> accounted W s \<and> (\<forall>r \<in> R. known W s r) \<and> (\<forall>e \<in> G. holds W s e) \<and>
     (\<forall>i \<in> ls_id ` set (sv_released s) \<union> t_id ` set (st_tasks (sv_store s)) \<union> t_id ` R \<union> about ` G. issued W s i)"

definition gone_for :: "world \<Rightarrow> ustring \<Rightarrow> int \<Rightarrow> ustring \<Rightarrow> service \<Rightarrow> bool" where
  "gone_for W i grp st s \<longleftrightarrow> (\<exists>T. seen_table W T i s \<and> tp_empty (task_processes T grp st))"

lemma gone_at_mono: "gone_at W lo n grp st \<Longrightarrow> n \<le> m \<Longrightarrow> gone_at W lo m grp st"
  unfolding gone_at_def by (meson order_less_le_trans)

lemma same_process_refl [simp]: "same_process r r"
  by (simp add: same_process_def)

lemma same_process_trans: "same_process a b \<Longrightarrow> same_process b c \<Longrightarrow> same_process a c"
  by (simp add: same_process_def)

lemma known_same: "same_process r q \<Longrightarrow> known W s r \<longleftrightarrow> known W s q"
  by (simp add: same_process_def known_def runs_as_def)

lemma sound_mono: "sound W R G s \<Longrightarrow> R' \<subseteq> R \<Longrightarrow> G' \<subseteq> G \<Longrightarrow> sound W R' G' s"
  by (auto simp: sound_def)

lemma sound_same: "sound W R G s \<Longrightarrow> r \<in> R \<Longrightarrow> same_process q r \<Longrightarrow> sound W (insert q R) G s"
  unfolding sound_def using known_same [of q r W s] by (auto simp: same_process_def)

lemma row_known:
  assumes "sound W R G s" "q \<in> set (st_tasks (sv_store s))"
  shows "known W s q" "issued W s (t_id q)"
proof -
  have "distinct (map t_id (st_tasks (sv_store s)))" using assms(1) by (simp add: sound_def store_ok_def)
  then show "known W s q"
    using assms unfolding known_def sound_def accounted_def runs_as_def
    by (metis distinct_key_eq)
  show "issued W s (t_id q)" using assms by (simp add: sound_def)
qed

lemma sound_rows: "sound W R G s \<Longrightarrow> Q \<subseteq> set (st_tasks (sv_store s)) \<Longrightarrow> sound W (R \<union> Q) G s"
proof -
  assume s: "sound W R G s" and Q: "Q \<subseteq> set (st_tasks (sv_store s))"
  then have "\<forall>r \<in> Q. known W s r" "\<forall>r \<in> Q. issued W s (t_id r)" using row_known [OF s] by auto
  then show ?thesis using s by (auto simp: sound_def)
qed

lemma sound_row: "sound W R G s \<Longrightarrow> q \<in> set (st_tasks (sv_store s)) \<Longrightarrow> sound W (insert q R) G s"
  using sound_rows [of W R G s "{q}"] by simp

lemma known_gone:
  assumes "sound W R G s" "r \<in> R"
    and "\<And>grp st. t_process_id r = Some grp \<Longrightarrow> t_process_start r = Some st \<Longrightarrow> st \<noteq> [] \<Longrightarrow> gone_for W (t_id r) grp st s"
  shows "gone W s (t_id r)"
  unfolding gone_def
proof (intro ballI impI)
  fix x assume x: "x \<in> set (sv_released s)" "ls_id x = t_id r"
  then have "settled W s x \<or> runs_as r x" "ls_start x \<noteq> []"
    using assms(1,2) by (auto simp: sound_def known_def accounted_def)
  then show "gone_at W (ls_tick x) (sv_tick s) (ls_group x) (ls_start x)"
    using assms(3) [of "ls_group x" "ls_start x"] x
    by (auto simp: settled_def runs_as_def gone_for_def gone_at_def seen_table_def)
qed

lemma sound_gone: "sound W R G s \<Longrightarrow> gone W s (t_id r) \<Longrightarrow> r \<in> R \<Longrightarrow> sound W R (insert (No_Process (t_id r)) G) s"
  unfolding sound_def by auto

lemma sound_gone_in: "sound W R G s \<Longrightarrow> No_Process i \<in> G \<Longrightarrow> gone W s i"
  unfolding sound_def by (metis holds.simps(1))

lemma sound_listed: "sound W R G s \<Longrightarrow> seen_table W T (t_id r) s \<Longrightarrow> r \<in> R \<Longrightarrow> sound W R (insert (Listed T (t_id r)) G) s"
  unfolding sound_def by auto

lemma sound_timely: "sound W R G s \<Longrightarrow> timely s"
  by (simp add: sound_def accounted_def)

section \<open>What keeps it\<close>

lemma settled_later:
  "settled W s x \<Longrightarrow> sv_tick s \<le> sv_tick s' \<Longrightarrow> set (st_receipts (sv_store s)) \<subseteq> set (st_receipts (sv_store s')) \<Longrightarrow> settled W s' x"
  unfolding settled_def has_receipt_def by (blast intro: gone_at_mono)

lemma issued_later: "issued W s i \<Longrightarrow> sv_tick s \<le> sv_tick s' \<Longrightarrow> issued W s' i"
  unfolding issued_def by (elim exE conjE) (rule exI, auto)

lemma gone_later: "gone W s i \<Longrightarrow> sv_tick s \<le> sv_tick s' \<Longrightarrow> sv_released s' = sv_released s \<Longrightarrow> gone W s' i"
  unfolding gone_def by (metis gone_at_mono)

lemma seen_later:
  "seen_table W T i s \<Longrightarrow> sv_tick s \<le> sv_tick s' \<Longrightarrow> sv_released s' = sv_released s \<Longrightarrow> seen_table W T i s'"
  unfolding seen_table_def by (metis order_less_le_trans)

lemma holds_later: "holds W s e \<Longrightarrow> sv_tick s \<le> sv_tick s' \<Longrightarrow> sv_released s' = sv_released s \<Longrightarrow> holds W s' e"
  by (cases e) (auto intro: gone_later seen_later)

lemma known_later:
  "known W s r \<Longrightarrow> sv_tick s \<le> sv_tick s' \<Longrightarrow> set (st_receipts (sv_store s)) \<subseteq> set (st_receipts (sv_store s')) \<Longrightarrow>
   sv_released s' = sv_released s \<Longrightarrow> known W s' r"
  unfolding known_def by (metis settled_later)

text \<open>A step that releases nothing and keeps every released leader accounted for.\<close>

lemma sound_step:
  assumes "sound W R G s"
    and step: "sv_tick s \<le> sv_tick s'" "sv_released s' = sv_released s"
      "set (st_receipts (sv_store s)) \<subseteq> set (st_receipts (sv_store s'))" "store_ok (sv_store s')"
    and "\<And>x q. x \<in> set (sv_released s) \<Longrightarrow> q \<in> set (st_tasks (sv_store s)) \<Longrightarrow> runs_as q x \<Longrightarrow>
        settled W s' x \<or> (\<exists>q' \<in> set (st_tasks (sv_store s')). runs_as q' x)"
    and "\<And>q'. q' \<in> set (st_tasks (sv_store s')) \<Longrightarrow> issued W s' (t_id q')"
  shows "sound W R G s'"
proof -
  have "timely s'" using assms(1) step(1,2) by (auto simp: sound_def accounted_def timely_def)
  moreover have "settled W s' x \<or> (\<exists>q \<in> set (st_tasks (sv_store s')). runs_as q x)" if "x \<in> set (sv_released s)" for x
    using that assms(1,6) settled_later [OF _ step(1,3)] unfolding sound_def accounted_def by blast
  ultimately have "accounted W s'" using assms(1) step(2) by (auto simp: sound_def accounted_def)
  then show ?thesis
    using assms unfolding sound_def by (auto intro: known_later holds_later issued_later)
qed

lemma sound_frame:
  assumes "sound W R G s" "sv_tick s \<le> sv_tick s'" "sv_released s' = sv_released s"
    "st_tasks (sv_store s') = st_tasks (sv_store s)" "st_receipts (sv_store s') = st_receipts (sv_store s)"
  shows "sound W R G s'"
proof (rule sound_step [OF assms(1)])
  show "store_ok (sv_store s')" using assms by (simp add: sound_def store_ok_def)
  show "issued W s' (t_id q')" if "q' \<in> set (st_tasks (sv_store s'))" for q'
    using that assms by (auto simp: sound_def intro: issued_later)
qed (use assms in auto)

lemma stable_sound [stable_intros]: "stable (sound W R G)"
  unfolding stable_def quiet_def by (blast intro: sound_frame)

lemma stable_gone [stable_intros]: "stable (\<lambda>s. gone W s i)"
  unfolding stable_def quiet_def by (blast intro: gone_later)

lemma stable_seen_table [stable_intros]: "stable (seen_table W T i)"
  unfolding stable_def quiet_def by (blast intro: seen_later)

lemma stable_gone_for [stable_intros]: "stable (gone_for W i grp st)"
  unfolding stable_def gone_for_def by (blast intro: stableD [OF stable_seen_table, unfolded stable_def])

lemma holds_coordination [simp]:
  "holds W (s\<lparr>sv_stopping := x\<rparr>) e = holds W s e" "holds W (s\<lparr>sv_deleting := x\<rparr>) e = holds W s e"
  "holds W (s\<lparr>sv_exits := y\<rparr>) e = holds W s e"
  by (cases e; simp add: gone_def seen_table_def)+

lemma sound_coordination [simp]:
  "sound W R G (s\<lparr>sv_stopping := x\<rparr>) = sound W R G s"
  "sound W R G (s\<lparr>sv_deleting := x\<rparr>) = sound W R G s"
  "sound W R G (s\<lparr>sv_exits := y\<rparr>) = sound W R G s"
  by (simp_all add: sound_def accounted_def timely_def known_def issued_def settled_def has_receipt_def)

section \<open>Reading and writing the registry\<close>

lemma triple_reading:
  assumes "stable P"
  shows "triple P (with_store W (reading f)) (\<lambda>a s. P s \<and> (case a of Inl _ \<Rightarrow> True | Inr x \<Rightarrow> x = f (sv_store s)))"
proof (rule tripleI)
  fix s a s' assume P: "P s" and run: "run_state (with_store W (reading f)) s = (a, s')"
  have "P s'" using stableD [OF assms quiet_opD [OF quiet_reading run] P] .
  moreover have "case a of Inl _ \<Rightarrow> True | Inr x \<Rightarrow> x = f (sv_store s')"
    using run by (auto simp: with_store_def next_tick_def modify_def reading_def split: option.splits)
  ultimately show "P s' \<and> (case a of Inl _ \<Rightarrow> True | Inr x \<Rightarrow> x = f (sv_store s'))" by simp
qed

lemma triple_lookup:
  "triple (sound W R G) (lookup W i)
     (\<lambda>a s. case a of Inl _ \<Rightarrow> sound W R G s | Inr r \<Rightarrow> sound W (insert r R) G s \<and> t_id r = i)"
  unfolding lookup_def
proof (rule triple_andthen [OF triple_conseq [OF triple_reading]])
  show "stable (sound W R G)" by (rule stable_sound)
  show "case a of Inl e \<Rightarrow> (case Inl e of Inl _ \<Rightarrow> sound W R G s | Inr r \<Rightarrow> sound W (insert r R) G s \<and> t_id r = i)
      | Inr x \<Rightarrow> sound W R G s \<and> x = store_get i (sv_store s)"
    if "sound W R G s \<and> (case a of Inl _ \<Rightarrow> True | Inr x \<Rightarrow> x = store_get i (sv_store s))" for a s
    using that by (auto split: sum.splits)
  show "triple (\<lambda>s. sound W R G s \<and> found = store_get i (sv_store s))
      (State_Monad.return (case found of None \<Rightarrow> Inl (unknown_task i) | Some r \<Rightarrow> Inr r))
      (\<lambda>a s. case a of Inl _ \<Rightarrow> sound W R G s | Inr r \<Rightarrow> sound W (insert r R) G s \<and> t_id r = i)" for found
    by (rule triple_return) (auto split: option.splits dest: store_get_Some intro: sound_row)
qed

lemma triple_list:
  "triple (sound W R G) (with_store W (reading (store_list owner)))
     (\<lambda>a s. case a of Inl _ \<Rightarrow> sound W R G s | Inr rs \<Rightarrow> sound W (R \<union> set rs) G s)"
  by (rule triple_conseq [OF triple_reading [OF stable_sound]])
    (auto split: sum.splits intro: sound_rows)

lemma triple_with_store:
  assumes "stable P" "\<And>s e. P s \<Longrightarrow> Q (Inl e) s"
    and "\<And>s x st. P s \<Longrightarrow> f (sv_store s) = Inr (x, st) \<Longrightarrow> Q (Inr x) (s\<lparr>sv_store := st\<rparr>)"
  shows "triple P (with_store W f) Q"
proof (rule tripleI)
  fix s a s' assume P: "P s" and run: "run_state (with_store W f) s = (a, s')"
  let ?s = "s\<lparr>sv_tick := sv_tick s + 1\<rparr>"
  have "quiet s ?s" by (simp add: quiet_def)
  then have P': "P ?s" using assms(1) P by (blast dest: stableD)
  show "Q a s'"
  proof (cases "w_fault W (sv_tick s)")
    case (Some e)
    then show ?thesis using run assms(2) [OF P'] by (auto simp: with_store_def next_tick_def)
  next
    case None
    then show ?thesis
      using run assms(2) [OF P'] assms(3) [OF P']
      by (auto simp: with_store_def next_tick_def modify_def split: sum.splits)
  qed
qed

text \<open>Saving a record under the identity it is known by.\<close>

lemma write_runs_as: "runs_as (write_lifecycle r q) x \<longleftrightarrow> runs_as (r\<lparr>t_id := t_id q\<rparr>) x"
  by (simp add: runs_as_def)

lemma sound_update:
  assumes s: "sound W R G s" and up: "store_update r (sv_store s) = Inr (u, st)" and "known W s r"
  shows "sound W R G (s\<lparr>sv_store := st\<rparr>)"
proof (rule sound_step [OF s])
  have st: "st_tasks st = update_where (\<lambda>q. t_id q = t_id r) (write_lifecycle r) (st_tasks (sv_store s))"
    "st_receipts st = st_receipts (sv_store s)"
    using up by (auto simp: store_update_def split: if_splits)
  show "set (st_receipts (sv_store s)) \<subseteq> set (st_receipts (sv_store (s\<lparr>sv_store := st\<rparr>)))" using st by simp
  show "store_ok (sv_store (s\<lparr>sv_store := st\<rparr>))" using s up by (auto simp: sound_def intro: store_update_ok)
  show "settled W (s\<lparr>sv_store := st\<rparr>) x \<or> (\<exists>q' \<in> set (st_tasks (sv_store (s\<lparr>sv_store := st\<rparr>))). runs_as q' x)"
    if x: "x \<in> set (sv_released s)" and q: "q \<in> set (st_tasks (sv_store s))" "runs_as q x" for x q
  proof (cases "t_id q = t_id r")
    case True
    then have "ls_id x = t_id r" using q(2) by (simp add: runs_as_def)
    then have "settled W s x \<or> runs_as r x" using assms(3) x unfolding known_def by blast
    then show ?thesis
    proof
      assume "runs_as r x"
      then have "runs_as (write_lifecycle r q) x" using True by (simp add: runs_as_def)
      then show ?thesis using True q(1) by (auto simp: st)
    qed (simp add: settled_def has_receipt_def st)
  next
    case False
    then show ?thesis using q by (force simp: st)
  qed
  show "issued W (s\<lparr>sv_store := st\<rparr>) (t_id q')" if row: "q' \<in> set (st_tasks (sv_store (s\<lparr>sv_store := st\<rparr>)))" for q'
  proof -
    obtain q where "q \<in> set (st_tasks (sv_store s))" "t_id q' = t_id q"
      using row by (auto simp: st)
    then show ?thesis using s by (auto simp: sound_def issued_def)
  qed
qed simp_all

lemma triple_save:
  assumes "r0 \<in> R" "same_process r r0"
  shows "triple (sound W R G) (save W r) (\<lambda>p s. sound W (insert (fst p) R) G s \<and> same_process (fst p) r)"
  unfolding save_def Let_def
proof (rule triple_bind [OF triple_quiet [OF quiet_now_ms stable_sound]])
  fix now
  let ?r = "r\<lparr>t_updated_at := now\<rparr>"
  have same: "same_process ?r r0" using assms(2) by (simp add: same_process_def)
  have k: "known W s ?r" if "sound W R G s" for s
    using that assms(1) known_same [OF same] by (simp add: sound_def)
  show "triple (sound W R G) (with_store W (store_update ?r) \<bind> (\<lambda>saved. State_Monad.return (?r, saved)))
      (\<lambda>p s. sound W (insert (fst p) R) G s \<and> same_process (fst p) r)"
  proof (rule triple_bind)
    show "triple (sound W R G) (with_store W (store_update ?r)) (\<lambda>_. sound W R G)"
      by (rule triple_with_store [OF stable_sound]) (auto intro: sound_update k)
    show "triple (sound W R G) (State_Monad.return (?r, saved))
      (\<lambda>p s. sound W (insert (fst p) R) G s \<and> same_process (fst p) r)" for saved
      by (rule triple_return) (auto intro: sound_same [OF _ assms(1) same] simp: same_process_def)
  qed
qed

text \<open>Removing a task seen without processes.\<close>

lemma sound_remove:
  assumes s: "sound W R G s" and "gone W s (t_id r)"
  shows "sound W R G (s\<lparr>sv_store := store_remove r (sv_store s)\<rparr>)"
proof (rule sound_step [OF s])
  let ?st = "store_remove r (sv_store s)"
  show "set (st_receipts (sv_store s)) \<subseteq> set (st_receipts (sv_store (s\<lparr>sv_store := ?st\<rparr>)))"
    by (auto simp: store_remove_def)
  show "store_ok (sv_store (s\<lparr>sv_store := ?st\<rparr>))" using s by (simp add: sound_def store_remove_ok)
  show "settled W (s\<lparr>sv_store := ?st\<rparr>) x \<or> (\<exists>q' \<in> set (st_tasks (sv_store (s\<lparr>sv_store := ?st\<rparr>))). runs_as q' x)"
    if x: "x \<in> set (sv_released s)" and q: "q \<in> set (st_tasks (sv_store s))" "runs_as q x" for x q
  proof (cases "t_id q = t_id r")
    case True
    then have "ls_id x = t_id r" using q(2) by (simp add: runs_as_def)
    moreover have "has_receipt (t_id r) (s\<lparr>sv_store := ?st\<rparr>)"
      by (auto simp: has_receipt_def store_remove_def)
    ultimately show ?thesis using assms(2) x by (auto simp: settled_def gone_def)
  qed (use q in \<open>auto simp: store_remove_def\<close>)
  show "issued W (s\<lparr>sv_store := ?st\<rparr>) (t_id q')" if "q' \<in> set (st_tasks (sv_store (s\<lparr>sv_store := ?st\<rparr>)))" for q'
    using that s by (auto simp: store_remove_def sound_def issued_def)
qed simp_all

lemma triple_remove:
  "triple (\<lambda>s. sound W R G s \<and> gone W s (t_id r)) (remove_task W r) (\<lambda>_. sound W R G)"
  unfolding remove_task_def
proof (rule triple_andthen)
  show "triple (\<lambda>s. sound W R G s \<and> gone W s (t_id r)) (with_store W (writing (store_remove r)))
      (\<lambda>a s. case a of Inl e \<Rightarrow> sound W R G s | Inr x \<Rightarrow> sound W R G s)"
    by (rule triple_with_store [OF stable_conj [OF stable_sound stable_gone]])
      (auto simp: writing_def intro: sound_remove)
  show "triple (sound W R G) (purge_logs (t_id r) \<bind> (\<lambda>_. modify (\<lambda>s. s\<lparr>sv_exits := filter (\<lambda>x. fst x \<noteq> t_id r) (sv_exits s)\<rparr>)
      \<bind> (\<lambda>_. State_Monad.return (Inr ())))) (\<lambda>_. sound W R G)" for u
    by (rule triple_bind [OF triple_quiet [OF quiet_purge_logs stable_sound]],
      rule triple_bind [OF triple_modify [where Q = "\<lambda>_. sound W R G"]]) (auto intro: triple_return)
qed

end
