(* ===== verification/Task_Operations.thy ===== *)
theory Task_Operations
  imports Task_Safety
begin

text \<open>Every operation of the background task service keeps \<open>sound\<close>.\<close>

section \<open>Observing\<close>

definition fresh_table :: "world \<Rightarrow> process_table \<Rightarrow> service \<Rightarrow> bool" where
  "fresh_table W T s \<longleftrightarrow> (\<forall>i. seen_table W T i s)"

lemma stable_fresh_table [stable_intros]: "stable (fresh_table W T)"
  unfolding fresh_table_def using stable_seen_table unfolding stable_def by blast

lemma triple_capture:
  assumes "stable P" "\<And>s. P s \<Longrightarrow> timely s"
  shows "triple P (capture W) (\<lambda>a s. P s \<and> (\<forall>T. a = Inr T \<longrightarrow> fresh_table W T s))"
proof (rule tripleI)
  fix s a s' assume P: "P s" and run: "run_state (capture W) s = (a, s')"
  have s': "a = listing_at W (sv_tick s)" "s' = s\<lparr>sv_tick := sv_tick s + 1\<rparr>"
    using run by (auto simp: capture_def next_tick_def)
  moreover have "timely s" using assms(2) P .
  ultimately show "P s' \<and> (\<forall>T. a = Inr T \<longrightarrow> fresh_table W T s')"
    using stableD [OF assms(1) quiet_opD [OF quiet_capture run] P]
    by (auto simp: fresh_table_def seen_table_def timely_def intro!: exI [of _ "sv_tick s"])
qed

lemma seen_gone:
  "seen_table W T i s \<Longrightarrow> tp_empty (fst (tracked_task_processes T grp st tr)) \<Longrightarrow> gone_for W i grp st s"
  unfolding gone_for_def by (blast intro: tracked_empty)

lemma triple_observe_processes:
  assumes r: "r \<in> R"
  shows "triple (\<lambda>s. sound W R G s \<and> seen_table W T (t_id r) s) (observe_processes W r T)
    (\<lambda>a s. (sound W R G s \<and> seen_table W T (t_id r) s) \<and> (case a of Inl _ \<Rightarrow> True | Inr ps \<Rightarrow> tp_empty ps \<longrightarrow> gone W s (t_id r)))"
    (is "triple ?P _ ?Q")
proof -
  have stable: "stable ?P" by (intro stable_intros)
  have fail: "triple ?P (fail_with e) ?Q" for e
    unfolding fail_with_def by (rule triple_return) simp
  show ?thesis
  proof (cases "t_process_id r")
    case None
    then have "gone W s (t_id r)" if "sound W R G s" for s
      by (intro known_gone [OF that r]) simp
    then show ?thesis
      using None fail by (auto simp: observe_processes_def intro!: triple_return)
  next
    case (Some grp)
    show ?thesis
    proof (cases "t_process_start r = None \<or> t_process_start r = Some []")
      case True
      then show ?thesis using Some fail by (auto simp: observe_processes_def)
    next
      case False
      then obtain st where st: "t_process_start r = Some st" "st \<noteq> []" by auto
      have seen: "gone W s (t_id r)" if "?P s" "tp_empty (fst (tracked_task_processes T grp st tr))" for s tr
        using that(1) seen_gone [OF conjunct2 [OF that(1)] that(2)] Some st(1) by (auto intro: known_gone [OF _ r])
      have eq: "observe_processes W r T = andthen (with_store W (reading (store_tracked (t_id r)))) (\<lambda>tracked.
          case tracked_task_processes T grp st tracked of
            (ps, tracked') \<Rightarrow> andthen (with_store W (writing (store_track (t_id r) tracked')))
              (\<lambda>_. State_Monad.return (Inr ps)))"
        using Some st by (simp add: observe_processes_def)
      show ?thesis
        unfolding eq
      proof (rule triple_andthen)
        show "triple ?P (with_store W (reading (store_tracked (t_id r))))
            (\<lambda>a s. case a of Inl e \<Rightarrow> ?Q (Inl e) s | Inr tr \<Rightarrow> ?P s)"
          by (rule triple_conseq [OF triple_quiet [OF quiet_reading stable]]) (auto split: sum.splits)
        fix tr
        obtain ps tr' where t: "tracked_task_processes T grp st tr = (ps, tr')" by (metis surj_pair)
        have "triple ?P (andthen (with_store W (writing (store_track (t_id r) tr'))) (\<lambda>_. State_Monad.return (Inr ps))) ?Q"
        proof (rule triple_andthen)
          show "triple ?P (with_store W (writing (store_track (t_id r) tr')))
              (\<lambda>a s. case a of Inl e \<Rightarrow> ?Q (Inl e) s | Inr u \<Rightarrow> ?P s)"
            by (rule triple_conseq [OF triple_quiet [OF quiet_track stable]]) (auto split: sum.splits)
          show "triple ?P (State_Monad.return (Inr ps)) ?Q"
            using seen [of _ tr] t by (auto intro!: triple_return)
        qed
        then show "triple ?P (case tracked_task_processes T grp st tr of
            (ps, tracked') \<Rightarrow> andthen (with_store W (writing (store_track (t_id r) tracked')))
              (\<lambda>_. State_Monad.return (Inr ps))) ?Q"
          using t by simp
      qed
    qed
  qed
qed

lemma triple_confirm_gone:
  assumes r: "r \<in> R"
  shows "triple (sound W R G) (confirm_gone W r)
    (\<lambda>a s. case a of Inl _ \<Rightarrow> sound W R G s | Inr _ \<Rightarrow> sound W R G s \<and> gone W s (t_id r))"
  unfolding confirm_gone_def
proof (rule triple_andthen [OF triple_conseq [OF triple_capture [OF stable_sound sound_timely]]])
  let ?Q = "\<lambda>a s. case a of Inl _ \<Rightarrow> sound W R G s | Inr _ \<Rightarrow> sound W R G s \<and> gone W s (t_id r)"
  show "case a of Inl e \<Rightarrow> ?Q (Inl e) s | Inr T \<Rightarrow> sound W R G s \<and> seen_table W T (t_id r) s"
    if "sound W R G s \<and> (\<forall>T. a = Inr T \<longrightarrow> fresh_table W T s)" for a s
    using that by (auto simp: fresh_table_def split: sum.splits)
  show "triple (\<lambda>s. sound W R G s \<and> seen_table W T (t_id r) s)
      (andthen (observe_processes W r T) (\<lambda>ps. if tp_empty ps then State_Monad.return (Inr ())
        else fail_with ''background task still has live processes'')) ?Q" for T
  proof (rule triple_andthen [OF triple_conseq [OF triple_observe_processes [OF r]]])
    show "triple (\<lambda>s. sound W R G s \<and> (tp_empty ps \<longrightarrow> gone W s (t_id r)))
        (if tp_empty ps then State_Monad.return (Inr ()) else fail_with ''background task still has live processes'') ?Q" for ps
      by (auto simp: fail_with_def intro!: triple_return)
  qed (auto split: sum.splits)
qed assumption

text \<open>Confirming that a known task is gone, then removing it.\<close>

lemma triple_confirm_remove:
  assumes "r \<in> R"
  shows "triple (sound W R G) (andthen (confirm_gone W r) (\<lambda>_. remove_task W r)) (\<lambda>_. sound W R G)"
  by (rule triple_andthen [OF triple_conseq [OF triple_confirm_gone [OF assms]] triple_remove]) (auto split: sum.splits)

section \<open>Dismissing and cleaning up\<close>

lemma triple_dismiss: "triple (sound W R G) (dismiss W scope i) (\<lambda>_. sound W R G)"
  unfolding dismiss_def
proof (rule triple_andthen [OF triple_conseq [OF triple_reading [OF stable_sound]]])
  fix found
  show "triple (\<lambda>s. sound W R G s \<and> found = store_get i (sv_store s))
      (case found of
         None \<Rightarrow> andthen (with_store W (reading (store_receipt i))) (\<lambda>receipt. State_Monad.return (case receipt of
             Some rc \<Rightarrow> if receipt_access scope rc then Inr () else Inl (unknown_task i)
           | None \<Rightarrow> Inl (unknown_task i)))
       | Some r \<Rightarrow>
           if (case scope of None \<Rightarrow> False | Some c \<Rightarrow> \<not> may_access c r) then State_Monad.return (Inl (unknown_task i))
           else State_Monad.get \<bind> (\<lambda>s. if \<not> ended (t_state r) \<or> i \<in> sv_stopping s
               then fail_with ''background task is not a confirmed terminal failure''
               else andthen (confirm_gone W r) (\<lambda>_. remove_task W r))) (\<lambda>_. sound W R G)"
  proof (cases found)
    case None
    have "quiet_op (andthen (with_store W (reading (store_receipt i))) (\<lambda>receipt. State_Monad.return (case receipt of
             Some rc \<Rightarrow> if receipt_access scope rc then Inr () else Inl (unknown_task i)
           | None \<Rightarrow> Inl (unknown_task i))))" by (intro quiet_intros)
    then show ?thesis
      unfolding None option.case by (rule triple_pre [OF triple_quiet [OF _ stable_sound]]) simp
  next
    case (Some r)
    have read: "sound W (insert r R) G s" if "sound W R G s \<and> found = store_get i (sv_store s)" for s
      using that Some by (auto intro: sound_row dest: store_get_Some [OF sym])
    have "triple (sound W (insert r R) G) (if (case scope of None \<Rightarrow> False | Some c \<Rightarrow> \<not> may_access c r)
           then State_Monad.return (Inl (unknown_task i))
           else State_Monad.get \<bind> (\<lambda>s. if \<not> ended (t_state r) \<or> i \<in> sv_stopping s
               then fail_with ''background task is not a confirmed terminal failure''
               else andthen (confirm_gone W r) (\<lambda>_. remove_task W r))) (\<lambda>_. sound W (insert r R) G)"
      by (intro triple_if triple_bind [OF triple_quiet [OF quiet_get stable_sound]] triple_confirm_remove
          triple_quiet [OF quiet_fail_with stable_sound] triple_quiet [OF quiet_return stable_sound]) simp
    then show ?thesis
      unfolding Some option.case by (rule triple_conseq) (use Some read in \<open>auto intro: sound_mono\<close>)
  qed
qed (auto split: sum.splits)

lemma triple_cleanup_ended: "r \<in> R \<Longrightarrow> triple (sound W R G) (cleanup_ended W r) (\<lambda>_. sound W R G)"
  unfolding cleanup_ended_def
  by (rule triple_bind [OF triple_confirm_remove]) (auto intro: triple_return)

section \<open>Stopping\<close>

lemma stable_timely [stable_intros]: "stable timely"
  unfolding stable_def quiet_def timely_def by (metis order_trans)

lemma wait_gone:
  "wait_until_gone W grp st deadline tr s = ((True, tr'), s') \<Longrightarrow> timely s \<Longrightarrow> gone_for W i grp st s'"
proof (induction W grp st deadline tr s arbitrary: tr' s' rule: wait_until_gone.induct)
  case (1 W grp st deadline tr s)
  obtain listed s1 where c: "run_state (capture W) s = (listed, s1)" by (metis surj_pair)
  obtain g tr1 where o: "(case listed of Inl _ \<Rightarrow> (False, tr)
      | Inr T \<Rightarrow> (case tracked_task_processes T grp st tr of (ps, tr) \<Rightarrow> (tp_empty ps, tr))) = (g, tr1)"
    by (metis surj_pair)
  obtain now s2 where n: "run_state (instant_now W) s1 = (now, s2)" by (metis surj_pair)
  obtain u s3 where z: "run_state (sleep W POLL_INTERVAL) s2 = (u, s3)" by (metis surj_pair)
  have run: "(if g then ((True, tr1), s1) else if now \<ge> deadline then ((False, tr1), s2)
      else wait_until_gone W grp st deadline tr1 s3) = ((True, tr'), s')"
    using "1.prems"(1) c o n z by (subst (asm) wait_until_gone.simps) (simp split: if_splits)
  show ?case
  proof (cases g)
    case True
    then obtain T where "listed = Inr T" "tp_empty (fst (tracked_task_processes T grp st tr))"
      using o by (auto split: sum.splits prod.splits)
    moreover have "listed = Inr T \<longrightarrow> seen_table W T i s1" for T
      using tripleD [OF triple_capture [OF stable_timely] "1.prems"(2) c] by (simp add: fresh_table_def)
    ultimately show ?thesis using run True by (auto intro: seen_gone)
  next
    case False
    have "timely s3"
      using stableD [OF stable_timely] quiet_opD [OF quiet_capture c] quiet_opD [OF quiet_instant_now n]
        quiet_opD [OF quiet_sleep z] "1.prems"(2) by blast
    then show ?thesis
      using False run c o n z by (intro "1.IH" [OF c [symmetric] o [symmetric] refl _ n [symmetric] _ z [symmetric]])
        (auto split: if_splits)
  qed
qed

lemma triple_await_gone:
  assumes "stable P" "\<And>s. P s \<Longrightarrow> timely s"
  shows "triple P (await_gone W grp st tr limit) (\<lambda>a s. P s \<and> (fst a \<longrightarrow> gone_for W i grp st s))"
  unfolding await_gone_def
proof (rule triple_bind [OF triple_quiet [OF quiet_instant_now assms(1)]])
  show "triple P (State (wait_until_gone W grp st (now + limit) tr))
      (\<lambda>a s. P s \<and> (fst a \<longrightarrow> gone_for W i grp st s))" for now
  proof (rule tripleI)
    fix s a s' assume "P s" "run_state (State (wait_until_gone W grp st (now + limit) tr)) s = (a, s')"
    then show "P s' \<and> (fst a \<longrightarrow> gone_for W i grp st s')"
      by (cases a) (auto dest: quiet_wait stableD [OF assms(1)] intro: wait_gone [OF _ assms(2)])
  qed
qed

definition stop_result :: "world \<Rightarrow> task_record \<Rightarrow> int \<Rightarrow> ustring \<Rightarrow> task_record \<Rightarrow> service \<Rightarrow> bool" where
  "stop_result W r grp st r' s \<longleftrightarrow>
     r' = r\<lparr>t_state := t_state r', t_exit_code := t_exit_code r', t_exit_signal := t_exit_signal r',
       t_detail := t_detail r', t_ended_at := t_ended_at r'\<rparr> \<and>
     (t_state r' = CleanupFailed \<or> t_state r' = Stopped \<and> gone_for W (t_id r) grp st s)"

lemma triple_finish_stopped:
  assumes "stable P"
  shows "triple (\<lambda>s. P s \<and> gone_for W (t_id r) grp st s) (finish_stopped W r)
    (\<lambda>r' s. P s \<and> stop_result W r grp st r' s)"
  unfolding finish_stopped_def
  by (intro triple_bind [OF triple_quiet [OF quiet_get stable_conj [OF assms stable_gone_for]]]
      triple_bind [OF triple_quiet [OF quiet_now_ms stable_conj [OF assms stable_gone_for]]] triple_return)
    (simp add: stop_result_def)

lemma stop_resultD:
  assumes "stop_result W r grp st r' s"
  shows "same_process r' r \<and> (t_state r' = CleanupFailed \<or> t_state r' = Stopped \<and> gone_for W (t_id r) grp st s)"
proof -
  obtain a b c d e where "r' = r\<lparr>t_state := a, t_exit_code := b, t_exit_signal := c, t_detail := d, t_ended_at := e\<rparr>"
    using assms unfolding stop_result_def by blast
  then show ?thesis using assms by (simp add: same_process_def stop_result_def)
qed

lemma stop_result_failed [simp]: "stop_result W r grp st (fail_cleanup e r) s"
  by (simp add: stop_result_def fail_cleanup_def)

lemma triple_terminate_rounds:
  assumes P: "stable P" and timely: "\<And>s. P s \<Longrightarrow> timely s"
  shows "triple P (terminate_rounds W r grp st rounds tr fs) (\<lambda>r' s. P s \<and> stop_result W r grp st r' s)"
proof (induction rounds arbitrary: tr fs)
  case Nil
  show ?case
    unfolding terminate_rounds.simps
    by (rule triple_bind [OF triple_quiet [OF quiet_capture P]]) (rule triple_return, simp)
next
  case (Cons round rounds)
  obtain sig wait where round: "round = (sig, wait)" by fastforce
  let ?Q = "\<lambda>r' s. P s \<and> stop_result W r grp st r' s"
  have fail: "triple (\<lambda>s. P s \<and> B s) (State_Monad.return (fail_cleanup e r)) ?Q" for e B
    by (rule triple_return) simp
  show ?case
    unfolding round terminate_rounds.simps
  proof (rule triple_bind [OF triple_capture [OF P timely]])
    fix listed
    show "triple (\<lambda>s. P s \<and> (\<forall>T. listed = Inr T \<longrightarrow> fresh_table W T s))
      (case listed of Inl e \<Rightarrow> State_Monad.return (fail_cleanup e r)
       | Inr T \<Rightarrow> (case tracked_task_processes T grp st tr of (ps, tracked1) \<Rightarrow>
            with_store W (writing (store_track (t_id r) tracked1)) \<bind> (\<lambda>saved. case saved of
              Inl e \<Rightarrow> State_Monad.return (fail_cleanup e r)
            | Inr _ \<Rightarrow> if tp_empty ps then finish_stopped W r
                else send_signals W grp ps sig \<bind> (\<lambda>failed. await_gone W grp st tracked1 wait \<bind> (\<lambda>waited.
                  if fst waited then finish_stopped W r
                  else terminate_rounds W r grp st rounds (snd waited) (fs @ failed)))))) ?Q"
    proof (cases listed)
      case (Inl e)
      then show ?thesis using fail [of "\<lambda>_. True" e] by simp
    next
      case (Inr T)
      obtain ps tr1 where t: "tracked_task_processes T grp st tr = (ps, tr1)" by (metis surj_pair)
      let ?S = "\<lambda>s. P s \<and> seen_table W T (t_id r) s"
      have S: "stable ?S" by (intro stable_intros P)
      have finish: "triple ?S (finish_stopped W r) ?Q" if "tp_empty ps"
        by (rule triple_pre [OF triple_finish_stopped [OF P]]) (use that t in \<open>auto intro: seen_gone [where tr = tr]\<close>)
      have round: "triple ?S (send_signals W grp ps sig \<bind> (\<lambda>failed. await_gone W grp st tr1 wait \<bind> (\<lambda>waited.
          if fst waited then finish_stopped W r else terminate_rounds W r grp st rounds (snd waited) (fs @ failed)))) ?Q"
      proof (rule triple_bind [OF triple_quiet [OF quiet_send_signals S]], rule triple_bind [OF triple_await_gone [OF S, where i = "t_id r"]])
      show "timely s" if "P s \<and> seen_table W T (t_id r) s" for s using that timely by blast
        fix failed waited
        show "triple (\<lambda>s. (P s \<and> seen_table W T (t_id r) s) \<and> (fst waited \<longrightarrow> gone_for W (t_id r) grp st s))
          (if fst waited then finish_stopped W r else terminate_rounds W r grp st rounds (snd waited) (fs @ failed)) ?Q"
        proof (cases "fst waited")
          case True
          then show ?thesis by (auto intro: triple_pre [OF triple_finish_stopped [OF P]])
        next
          case False
          then show ?thesis by (auto intro: triple_pre [OF Cons.IH])
        qed
      qed
      have saved: "triple ?S (case saved of Inl e \<Rightarrow> State_Monad.return (fail_cleanup e r)
            | Inr _ \<Rightarrow> if tp_empty ps then finish_stopped W r
                else send_signals W grp ps sig \<bind> (\<lambda>failed. await_gone W grp st tr1 wait \<bind> (\<lambda>waited.
                  if fst waited then finish_stopped W r
                  else terminate_rounds W r grp st rounds (snd waited) (fs @ failed)))) ?Q" for saved :: "ustring + unit"
        using fail finish round by (cases saved) auto
      show ?thesis
        unfolding Inr sum.case t prod.case
        by (rule triple_pre [OF triple_bind [OF triple_quiet [OF quiet_track S] saved]]) (auto simp: fresh_table_def)
    qed
  qed
qed

lemma triple_terminate:
  assumes r: "r \<in> R"
  shows "triple (sound W R G) (terminate_task W r grace)
    (\<lambda>r' s. sound W R G s \<and> same_process r' r \<and> (t_state r' = CleanupFailed \<or> t_state r' = Stopped \<and> gone W s (t_id r)))"
    (is "triple _ _ ?Q")
proof (cases "t_process_id r")
  case None
  then show ?thesis
    by (auto simp: terminate_task_def fail_cleanup_def same_process_def intro!: triple_return)
next
  case (Some grp)
  let ?st = "case t_process_start r of None \<Rightarrow> [] | Some st \<Rightarrow> st"
  have gone: "gone W s (t_id r)" if "sound W R G s" "gone_for W (t_id r) grp ?st s" for s
    by (rule known_gone [OF that(1) r]) (use that(2) Some in simp)
  have "triple (sound W R G) (case read of Inl e \<Rightarrow> State_Monad.return (fail_cleanup e r)
      | Inr tracked \<Rightarrow> terminate_rounds W r grp ?st [(SIGTERM, grace), (SIGKILL, KILL_SETTLE)] tracked []) ?Q" for read
  proof (cases read)
    case (Inl e)
    then show ?thesis by (auto simp: fail_cleanup_def same_process_def intro!: triple_return)
  next
    case (Inr tracked)
    show ?thesis
      unfolding Inr sum.case
      by (rule triple_conseq [OF triple_terminate_rounds [OF stable_sound sound_timely]]) (auto intro: gone dest!: stop_resultD)
  qed
  then show ?thesis
    unfolding terminate_task_def Some option.case by (rule triple_bind [OF triple_quiet [OF quiet_reading stable_sound]])
qed

lemma triple_stop_begin:
  "triple (sound W R G) (stop_begin W i reason)
     (\<lambda>a s. case a of Inr (Inr r) \<Rightarrow> sound W (insert r R) G s \<and> t_id r = i | _ \<Rightarrow> sound W R G s)"
    (is "triple _ _ ?Q")
  unfolding stop_begin_def
proof (rule triple_andthen [OF triple_conseq [OF triple_lookup]])
  fix r
  have sv: "triple (sound W (insert r R) G) (save W (r\<lparr>t_state := Stopping, t_stop_reason := x, t_stop_requested_at := y\<rparr>))
      (\<lambda>p s. sound W (insert (fst p) (insert r R)) G s \<and> t_id (fst p) = t_id r)" for x y
    by (rule triple_conseq [OF triple_save [of r]]) (auto simp: same_process_def)
  have undone: "triple (sound W (insert (fst p) (insert r R)) G) (modify (\<lambda>s. s\<lparr>sv_stopping := sv_stopping s - {i}\<rparr>)
      \<bind> (\<lambda>_. State_Monad.return (Inl e))) ?Q" for p :: "task_record \<times> (ustring + unit)" and e
    by (rule triple_bind [OF triple_modify [where Q = "\<lambda>_. sound W (insert (fst p) (insert r R)) G"]])
      (auto intro!: triple_return intro: sound_mono)
  have rest: "triple (\<lambda>s. sound W (insert (fst p) (insert r R)) G s \<and> t_id (fst p) = t_id r)
      (case snd p of Inl e \<Rightarrow> modify (\<lambda>s. s\<lparr>sv_stopping := sv_stopping s - {i}\<rparr>) \<bind> (\<lambda>_. State_Monad.return (Inl e))
       | Inr _ \<Rightarrow> State_Monad.return (Inr (Inr (fst p)))) ?Q" if "t_id r = i" for p :: "task_record \<times> (ustring + unit)"
    using that undone [of p] by (cases "snd p") (auto intro: triple_pre intro!: triple_return elim: sound_mono)
  show "triple (\<lambda>s. sound W (insert r R) G s \<and> t_id r = i) (State_Monad.get \<bind> (\<lambda>s.
      if ended (t_state r) \<or> i \<in> sv_stopping s then State_Monad.return (Inr (Inl (view r)))
      else modify (\<lambda>s. s\<lparr>sv_stopping := insert i (sv_stopping s)\<rparr>) \<bind> (\<lambda>_. now_ms W \<bind> (\<lambda>now.
        save W (r\<lparr>t_state := Stopping, t_stop_reason := Some (stop_reason_str reason), t_stop_requested_at := Some now\<rparr>)
        \<bind> (\<lambda>saved. case snd saved of
            Inl e \<Rightarrow> modify (\<lambda>s. s\<lparr>sv_stopping := sv_stopping s - {i}\<rparr>) \<bind> (\<lambda>_. State_Monad.return (Inl e))
          | Inr _ \<Rightarrow> State_Monad.return (Inr (Inr (fst saved)))))))) ?Q"
  proof (cases "t_id r = i")
    case True
    let ?P = "\<lambda>s. sound W (insert r R) G s \<and> t_id r = i"
    have P: "stable ?P" by (auto simp: stable_def intro: stableD [OF stable_sound])
    show ?thesis
    proof (intro triple_bind [OF triple_quiet [OF quiet_get P]] triple_if)
      show "triple ?P (State_Monad.return (Inr (Inl (view r)))) ?Q"
        by (auto intro!: triple_return intro: sound_mono)
    qed (rule triple_bind [OF triple_modify [where Q = "\<lambda>_. sound W (insert r R) G"]], simp,
        rule triple_bind [OF triple_quiet [OF quiet_now_ms stable_sound]], rule triple_bind [OF sv rest [OF True]])
  qed (auto intro: triple_false)
qed (auto split: sum.splits)

lemma triple_stop_finish:
  assumes r: "r \<in> R" "ended (t_state r) \<Longrightarrow> No_Process (t_id r) \<in> G"
  shows "triple (sound W R G) (stop_finish W r) (\<lambda>_. sound W R G)"
  unfolding stop_finish_def Let_def
proof (rule triple_bind)
  show "triple (sound W R G) (lookup W (t_id r)) (\<lambda>_. sound W R G)"
    by (rule triple_quiet [OF quiet_lookup stable_sound])
  fix current :: "ustring + task_record"
  let ?r = "case current of Inl _ \<Rightarrow> r | Inr c \<Rightarrow> r\<lparr>t_owner_deleted_at := t_owner_deleted_at c\<rparr>"
  have same: "same_process ?r r" "t_state ?r = t_state r"
    by (auto simp: same_process_def split: sum.splits)
  have "triple (sound W R G) (if ended (t_state ?r) then remove_task W ?r \<bind> (\<lambda>removed. State_Monad.return (?r, removed))
      else save W ?r) (\<lambda>_. sound W R G)"
  proof (rule triple_if)
    assume "ended (t_state ?r)"
    then have "gone W s (t_id ?r)" if "sound W R G s" for s
      using that r(2) same by (auto simp: same_process_def dest: sound_gone_in)
    then show "triple (sound W R G) (remove_task W ?r \<bind> (\<lambda>removed. State_Monad.return (?r, removed))) (\<lambda>_. sound W R G)"
      by (intro triple_bind [OF triple_pre [OF triple_remove]] triple_return) auto
  next
    show "triple (sound W R G) (save W ?r) (\<lambda>_. sound W R G)"
      by (rule triple_conseq [OF triple_save [OF r(1) same(1)]]) (auto intro: sound_mono)
  qed
  then show "triple (sound W R G) ((if ended (t_state ?r) then remove_task W ?r \<bind> (\<lambda>removed. State_Monad.return (?r, removed))
      else save W ?r) \<bind> (\<lambda>saved. modify (\<lambda>s. s\<lparr>sv_stopping := sv_stopping s - {t_id r}\<rparr>) \<bind>
      (\<lambda>_. State_Monad.return (case snd saved of Inl e \<Rightarrow> Inl e | Inr _ \<Rightarrow> Inr (view (fst saved)))))) (\<lambda>_. sound W R G)"
    by (rule triple_bind) (rule triple_bind [OF triple_modify [where Q = "\<lambda>_. sound W R G"]], auto intro: triple_return)
qed

end
