(* ===== verification/Task_Recovery.thy ===== *)
theory Task_Recovery
  imports Task_Operations
begin

text \<open>The remaining operations keep \<open>sound\<close> too: owner marks, the monitor, reconciliation and starting.\<close>

section \<open>Owner marks\<close>

lemma triple_ignore:
  "triple P m Q \<Longrightarrow> (\<And>a s. Q a s \<Longrightarrow> R s) \<Longrightarrow> triple P (m \<bind> (\<lambda>_. State_Monad.return ())) (\<lambda>_. R)"
  by (erule triple_bind) (auto intro: triple_return)

lemma triple_save_known:
  "r0 \<in> R \<Longrightarrow> same_process r r0 \<Longrightarrow> triple (sound W R G) (save W r \<bind> (\<lambda>_. State_Monad.return ())) (\<lambda>_. sound W R G)"
  by (rule triple_ignore [OF triple_save]) (auto intro: sound_mono)

text \<open>Working with a record just looked up, then forgetting it.\<close>

lemma triple_with_record:
  assumes "\<And>r. t_id r = i \<Longrightarrow> triple (sound W (insert r R) G) (f r) (\<lambda>_. sound W (insert r R) G)"
  shows "triple (sound W R G) (lookup W i \<bind> (\<lambda>found. case found of Inl _ \<Rightarrow> State_Monad.return () | Inr r \<Rightarrow> f r))
    (\<lambda>_. sound W R G)"
proof (rule triple_bind [OF triple_lookup])
  fix found
  show "triple (\<lambda>s. case found of Inl _ \<Rightarrow> sound W R G s | Inr r \<Rightarrow> sound W (insert r R) G s \<and> t_id r = i)
      (case found of Inl _ \<Rightarrow> State_Monad.return () | Inr r \<Rightarrow> f r) (\<lambda>_. sound W R G)"
  proof (cases found)
    case (Inl e)
    then show ?thesis by (auto intro: triple_return)
  next
    case (Inr r)
    show ?thesis
    proof (cases "t_id r = i")
      case True
      show ?thesis unfolding Inr sum.case
        by (rule triple_conseq [OF assms [OF True]]) (auto intro: sound_mono)
    qed (auto simp: Inr intro: triple_false)
  qed
qed

lemma triple_mark_owner_deleted: "triple (sound W R G) (mark_owner_deleted W owner d) (\<lambda>_. sound W R G)"
  unfolding mark_owner_deleted_def
proof (rule triple_bind [OF triple_list])
  fix listed
  show "triple (\<lambda>s. case listed of Inl _ \<Rightarrow> sound W R G s | Inr rs \<Rightarrow> sound W (R \<union> set rs) G s)
     (case listed of Inl _ \<Rightarrow> State_Monad.return ()
      | Inr records \<Rightarrow> foreach (\<lambda>r. if (t_owner_deleted_at r = None) \<noteq> (d = None)
          then save W (r\<lparr>t_owner_deleted_at := d\<rparr>) \<bind> (\<lambda>_. State_Monad.return ()) else State_Monad.return ()) records)
     (\<lambda>_. sound W R G)"
  proof (cases listed)
    case (Inr rs)
    show ?thesis
      unfolding Inr sum.case
    proof (rule triple_conseq [OF triple_foreach [where P = "sound W (R \<union> set rs) G"]])
      show "triple (sound W (R \<union> set rs) G) (if (t_owner_deleted_at r = None) \<noteq> (d = None)
          then save W (r\<lparr>t_owner_deleted_at := d\<rparr>) \<bind> (\<lambda>_. State_Monad.return ()) else State_Monad.return ())
          (\<lambda>_. sound W (R \<union> set rs) G)" if "r \<in> set rs" for r
        using that by (intro triple_if triple_save_known [of r] triple_return) (auto simp: same_process_def)
    qed (auto intro: sound_mono)
  qed (auto intro: triple_return)
qed

lemma triple_begin_owner_deletion: "triple (sound W R G) (begin_owner_deletion W owner) (\<lambda>_. sound W R G)"
  unfolding begin_owner_deletion_def
  by (rule triple_bind [OF triple_modify [where Q = "\<lambda>_. sound W R G"]], simp)
    (rule triple_bind [OF triple_quiet [OF quiet_now_ms stable_sound]], rule triple_mark_owner_deleted)

lemma triple_abort_owner_deletion: "triple (sound W R G) (abort_owner_deletion W owner) (\<lambda>_. sound W R G)"
  unfolding abort_owner_deletion_def
  by (rule triple_bind [OF triple_modify [where Q = "\<lambda>_. sound W R G"]], simp) (rule triple_mark_owner_deleted)

section \<open>The monitor\<close>

lemma triple_update_observed:
  assumes "\<And>r. same_process (change r) r"
  shows "triple (sound W R G) (update_observed W i expected change) (\<lambda>_. sound W R G)"
  unfolding update_observed_def
  by (intro triple_bind [OF triple_quiet [OF quiet_get stable_sound]] triple_if triple_with_record
      triple_quiet [OF quiet_return stable_sound] triple_save_known [OF insertI1 assms])

lemma triple_settle_exit:
  assumes "No_Process i \<in> G"
  shows "triple (sound W R G) (settle_exit W i exit) (\<lambda>_. sound W R G)"
  unfolding settle_exit_def Let_def
proof (intro triple_bind [OF triple_quiet [OF quiet_get stable_sound]] triple_if triple_with_record
    triple_quiet [OF quiet_return stable_sound] triple_bind [OF triple_quiet [OF quiet_now_ms stable_sound]])
  fix r :: task_record and now
  let ?r = "r\<lparr>t_state := Exited, t_exit_code := exit_code_of exit, t_exit_signal := exit_signal_of exit,
     t_detail := Some (case exit of Some e \<Rightarrow> lit ''exited ('' @ describe_exit e @ lit '')''
        | None \<Rightarrow> lit ''process tree ended; exit status unknown''), t_ended_at := Some now\<rparr>"
  assume i: "t_id r = i"
  show "triple (sound W (insert r R) G) (remove_task W ?r \<bind> (\<lambda>_. State_Monad.return ())) (\<lambda>_. sound W (insert r R) G)"
    by (rule triple_ignore [OF triple_pre [OF triple_remove]]) (use assms i in \<open>auto dest: sound_gone_in\<close>)
  show "triple (sound W (insert r R) G) (save W ?r \<bind> (\<lambda>_. State_Monad.return ())) (\<lambda>_. sound W (insert r R) G)"
    by (rule triple_save_known [of r]) (simp_all add: same_process_def)
qed

section \<open>Reconciliation\<close>

lemma triple_reconcile_state:
  assumes r: "r \<in> R"
  shows "triple (\<lambda>s. sound W R G s \<and> fresh_table W T s) (reconcile_state W T r)
    (\<lambda>a s. (sound W R G s \<and> fresh_table W T s) \<and> same_process (fst a) r \<and> (removable (fst a) \<longrightarrow> gone W s (t_id r)))"
    (is "triple ?P _ ?Q")
proof -
  have P: "stable ?P" by (intro stable_intros)
  have plain: "triple ?P (State_Monad.return (q, x)) ?Q" if "same_process q r" "\<not> ended (t_state q)" for q x
    using that by (auto simp: removable_def intro!: triple_return)
  have launch: "triple ?P (reconcile_launch W T r \<bind> (\<lambda>r'. State_Monad.return (r', []))) ?Q"
  proof (rule triple_bind)
    show "triple ?P (reconcile_launch W T r)
        (\<lambda>q s. (sound W R G s \<and> fresh_table W T s) \<and> same_process q r \<and> (ended (t_state q) \<longrightarrow> gone W s (t_id r)))"
    proof (cases "t_process_id r")
      case None
      then have "gone W s (t_id r)" if "sound W R G s" for s by (intro known_gone [OF that r]) simp
      then show ?thesis
        using None by (auto simp: reconcile_launch_def same_process_def
            intro!: triple_bind [OF triple_quiet [OF quiet_now_ms P]] triple_return)
    next
      case (Some grp)
      let ?st = "case t_process_start r of None \<Rightarrow> [] | Some st \<Rightarrow> st"
      have "gone W s (t_id r)" if "?P s" "tp_empty (task_processes T grp ?st)" for s
        using that(1) seen_gone [of W T "t_id r" s grp ?st "[]"] that(2) [unfolded task_processes_def]
        by (intro known_gone [OF _ r]) (auto simp: Some fresh_table_def)
      then show ?thesis
        using Some by (auto simp: reconcile_launch_def same_process_def
            intro!: triple_bind [OF triple_quiet [OF quiet_now_ms P]] triple_return)
    qed
  qed (auto simp: removable_def intro: triple_return)
  have terminal: "triple ?P (confirm_gone W r \<bind> (\<lambda>gone. State_Monad.return ((case gone of Inr _ \<Rightarrow> r
      | Inl _ \<Rightarrow> r\<lparr>t_state := Unknown, t_ended_at := None,
          t_detail := Some (lit ''terminal record could not be verified; cleanup required'')\<rparr>), []))) ?Q"
  proof (rule triple_bind)
    show "triple ?P (confirm_gone W r) (\<lambda>a s. ?P s \<and> (case a of Inl _ \<Rightarrow> True | Inr _ \<Rightarrow> gone W s (t_id r)))"
      by (rule triple_conseq [OF triple_keep [OF quiet_confirm_gone stable_fresh_table triple_confirm_gone [OF r]]])
        (auto split: sum.splits)
  qed (auto simp: removable_def same_process_def intro!: triple_return split: sum.splits)
  have running: "triple (\<lambda>s. ?P s \<and> (tp_empty ps \<longrightarrow> gone W s (t_id r)))
      (reconcile_running W ps r \<bind> (\<lambda>r'. State_Monad.return (r', []))) ?Q" if "\<not> ended (t_state r)" for ps
  proof (rule triple_bind)
    show "triple (\<lambda>s. ?P s \<and> (tp_empty ps \<longrightarrow> gone W s (t_id r))) (reconcile_running W ps r)
        (\<lambda>q s. ?P s \<and> same_process q r \<and> (ended (t_state q) \<longrightarrow> gone W s (t_id r)))"
    proof (cases "tp_empty ps")
      case True
      have Q: "stable (\<lambda>s. ?P s \<and> gone W s (t_id r))" by (intro stable_conj P stable_gone)
      show ?thesis
        unfolding reconcile_running_def if_P [OF True]
        by (rule triple_bind [OF triple_pre [OF triple_quiet [OF quiet_now_ms Q]]])
          (auto simp: True same_process_def intro: triple_return)
    next
      case False
      then show ?thesis
        using that by (auto simp: reconcile_running_def same_process_def intro!: triple_return)
    qed
  qed (auto simp: removable_def intro: triple_return)
  have live: "triple ?P (observe_processes W r T \<bind> (\<lambda>seen. case seen of
      Inr ps \<Rightarrow> reconcile_running W ps r \<bind> (\<lambda>r'. State_Monad.return (r', []))
    | Inl e \<Rightarrow> State_Monad.return (r\<lparr>t_state := Unknown, t_detail := Some e\<rparr>, []))) ?Q" if "\<not> ended (t_state r)"
  proof (rule triple_bind)
    show "triple ?P (observe_processes W r T)
        (\<lambda>a s. ?P s \<and> (case a of Inl _ \<Rightarrow> True | Inr ps \<Rightarrow> tp_empty ps \<longrightarrow> gone W s (t_id r)))"
      by (rule triple_conseq [OF triple_keep [OF quiet_observe_processes stable_fresh_table triple_observe_processes [OF r]]])
        (auto simp: fresh_table_def)
    fix seen
    show "triple (\<lambda>s. ?P s \<and> (case seen of Inl _ \<Rightarrow> True | Inr ps \<Rightarrow> tp_empty ps \<longrightarrow> gone W s (t_id r)))
      (case seen of Inr ps \<Rightarrow> reconcile_running W ps r \<bind> (\<lambda>r'. State_Monad.return (r', []))
       | Inl e \<Rightarrow> State_Monad.return (r\<lparr>t_state := Unknown, t_detail := Some e\<rparr>, [])) ?Q"
      using running [OF that] plain by (cases seen) (auto simp: same_process_def)
  qed
  show ?thesis
    unfolding reconcile_state_def
    using launch terminal live plain by (cases "t_state r") (simp_all add: same_process_def)
qed

lemma triple_reconcile_record:
  assumes r: "r \<in> R"
  shows "triple (\<lambda>s. sound W R G s \<and> fresh_table W T s) (reconcile_record W T stops r)
    (\<lambda>_ s. sound W R G s \<and> fresh_table W T s)" (is "triple ?P _ ?Q")
proof -
  have T: "stable (fresh_table W T)" by (rule stable_fresh_table)
  have tick: "triple (fresh_table W T) m (\<lambda>_. fresh_table W T)" if "\<And>s. sv_tick s \<le> sv_tick (snd (run_state m s)) \<and> sv_released (snd (run_state m s)) = sv_released s" for m :: "'x svc"
    unfolding triple_def fresh_table_def using that by (auto split: prod.splits) (metis seen_later snd_conv)
  have later: "sv_tick s \<le> sv_tick (snd (run_state (remove_task W q) s)) \<and> sv_released (snd (run_state (remove_task W q) s)) = sv_released s"
    "sv_tick s \<le> sv_tick (snd (run_state (save W q) s)) \<and> sv_released (snd (run_state (save W q) s)) = sv_released s" for q s
    by (auto simp: remove_task_def save_def andthen_def with_store_def next_tick_def modify_def now_ms_def purge_logs_def
        writing_def Let_def split: option.splits sum.splits prod.splits)
  show ?thesis
    unfolding reconcile_record_def Let_def
  proof (intro triple_bind [OF triple_quiet [OF quiet_get stable_conj [OF stable_sound T]]] triple_if
      triple_quiet [OF quiet_return stable_conj [OF stable_sound T]], rule triple_bind [OF triple_reconcile_state [OF r]])
    fix next' :: "task_record \<times> (ustring \<times> stop_reason) list"
    let ?r = "fst next'"
    have remove: "triple (\<lambda>s. ?P s \<and> gone W s (t_id ?r)) (remove_task W ?r) (\<lambda>_. ?P)"
      by (rule tripleI) (use tripleD [OF triple_remove] tripleD [OF tick [OF later(1)]] in blast)
    have save: "triple ?P (save W ?r) (\<lambda>_. ?P)" if "same_process ?r r"
      by (rule tripleI) (use tripleD [OF triple_save [OF r that]] tripleD [OF tick [OF later(2)]] in \<open>blast intro: sound_mono\<close>)
    show "triple (\<lambda>s. ?P s \<and> same_process ?r r \<and> (removable ?r \<longrightarrow> gone W s (t_id r)))
      (if removable ?r then remove_task W ?r \<bind> (\<lambda>_. State_Monad.return (stops @ snd next'))
       else save W ?r \<bind> (\<lambda>_. State_Monad.return
         (if t_state ?r = Running \<and> t_owner_deleted_at ?r \<noteq> None \<and> \<not> list_ex (\<lambda>x. fst x = t_id ?r) (stops @ snd next')
          then (stops @ snd next') @ [(t_id ?r, OwnerDeleted)] else stops @ snd next'))) ?Q"
    proof (cases "same_process ?r r")
      case True
      then have "t_id ?r = t_id r" by (simp add: same_process_def)
      then show ?thesis
        using True by (intro triple_if triple_bind [OF triple_pre [OF remove]] triple_bind [OF triple_pre [OF save]] triple_return) auto
    qed (auto intro: triple_false)
  qed
qed

lemma triple_reconcile_records:
  "set rs \<subseteq> R \<Longrightarrow> triple (\<lambda>s. sound W R G s \<and> fresh_table W T s) (reconcile_records W T stops rs)
    (\<lambda>_ s. sound W R G s \<and> fresh_table W T s)"
proof (induction rs arbitrary: stops)
  case (Cons r rs)
  then show ?case unfolding reconcile_records.simps by (intro triple_bind [OF triple_reconcile_record]) auto
qed (auto intro: triple_return)

lemma triple_reconcile: "triple (sound W R G) (reconcile W) (\<lambda>_. sound W R G)"
  unfolding reconcile_def
proof (rule triple_bind [OF triple_list])
  fix listed
  let ?fail = "\<lambda>e r. if t_state r = Running then
      save W (r\<lparr>t_state := Unknown, t_detail := Some (lit ''runtime restarted; '' @ e)\<rparr>) \<bind> (\<lambda>_. State_Monad.return ())
    else State_Monad.return ()"
  show "triple (\<lambda>s. case listed of Inl _ \<Rightarrow> sound W R G s | Inr rs \<Rightarrow> sound W (R \<union> set rs) G s)
     (case listed of Inl _ \<Rightarrow> State_Monad.return (False, [])
      | Inr records \<Rightarrow> if records = [] then State_Monad.return (True, [])
          else capture W \<bind> (\<lambda>table. case table of
             Inl e \<Rightarrow> foreach (?fail e) records \<bind> (\<lambda>_. State_Monad.return (False, []))
           | Inr T \<Rightarrow> reconcile_records W T [] records \<bind> (\<lambda>stops. State_Monad.return (True, stops)))) (\<lambda>_. sound W R G)"
  proof (cases listed)
    case (Inr rs)
    let ?P = "sound W (R \<union> set rs) G"
    have bad: "triple ?P (foreach (?fail e) rs \<bind> (\<lambda>_. State_Monad.return (False, []))) (\<lambda>_. ?P)" for e
      by (intro triple_bind [OF triple_foreach] triple_if triple_return)
        (auto intro!: triple_save_known simp: same_process_def)
    have good: "triple (\<lambda>s. ?P s \<and> fresh_table W T s)
        (reconcile_records W T [] rs \<bind> (\<lambda>stops. State_Monad.return (True, stops))) (\<lambda>_. ?P)" for T
      by (rule triple_bind [OF triple_reconcile_records]) (auto intro: triple_return)
    have "triple ?P (if rs = [] then State_Monad.return (True, [])
          else capture W \<bind> (\<lambda>table. case table of
             Inl e \<Rightarrow> foreach (?fail e) rs \<bind> (\<lambda>_. State_Monad.return (False, []))
           | Inr T \<Rightarrow> reconcile_records W T [] rs \<bind> (\<lambda>stops. State_Monad.return (True, stops)))) (\<lambda>_. ?P)"
    proof (intro triple_if triple_quiet [OF quiet_return stable_sound] triple_bind [OF triple_capture [OF stable_sound sound_timely]])
      fix table
      show "triple (\<lambda>s. ?P s \<and> (\<forall>T. table = Inr T \<longrightarrow> fresh_table W T s)) (case table of
             Inl e \<Rightarrow> foreach (?fail e) rs \<bind> (\<lambda>_. State_Monad.return (False, []))
           | Inr T \<Rightarrow> reconcile_records W T [] rs \<bind> (\<lambda>stops. State_Monad.return (True, stops))) (\<lambda>_. ?P)"
        using bad good by (cases table) auto
    qed
    then show ?thesis
      unfolding Inr sum.case by (rule triple_conseq) (auto intro: sound_mono)
  qed (auto intro: triple_return)
qed

end
