(* ===== verification/Task_Launch.thy ===== *)
theory Task_Launch
  imports Task_Recovery
begin

text \<open>
  Starting keeps \<open>sound\<close>: until its leader is released a new task needs no accounting, and when the
  gate opens its row with process group and start time is already durable.  Fresh ids are what
  \<open>uuid\<close> documents: no two calls return the same one.
\<close>

definition unreleased :: "world \<Rightarrow> task_record set \<Rightarrow> evidence set \<Rightarrow> ustring \<Rightarrow> service \<Rightarrow> bool" where
  "unreleased W R G i s \<longleftrightarrow>
     (\<forall>x \<in> set (sv_released s). ls_id x \<noteq> i) \<and> i \<notin> t_id ` R \<and> i \<notin> about ` G \<and> issued W s i"

definition registered :: "task_record \<Rightarrow> service \<Rightarrow> bool" where
  "registered r s \<longleftrightarrow> (\<exists>q \<in> set (st_tasks (sv_store s)). same_process q r)"

lemma stable_unreleased [stable_intros]: "stable (unreleased W R G i)"
  unfolding stable_def quiet_def unreleased_def by (metis issued_later)

lemma stable_registered [stable_intros]: "stable (registered r)"
  by (simp add: stable_def quiet_def registered_def)

lemma unreleased_known: "unreleased W R G (t_id r) s \<Longrightarrow> known W s r"
  by (simp add: unreleased_def known_def)

lemma unreleased_store: "unreleased W R G i (s\<lparr>sv_store := st\<rparr>) = unreleased W R G i s"
  by (simp add: unreleased_def issued_def)

lemma update_registers:
  assumes "store_update r st = Inr (u, st')"
  shows "\<exists>q \<in> set (st_tasks st'). same_process q r"
proof -
  have one: "count_where (\<lambda>q. t_id q = t_id r) (st_tasks st) = 1"
    "st_tasks st' = update_where (\<lambda>q. t_id q = t_id r) (write_lifecycle r) (st_tasks st)"
    using assms by (auto simp: store_update_def split: if_splits)
  then have "count_where (\<lambda>q. t_id q = t_id r) (st_tasks st) \<noteq> 0" by simp
  then obtain q where "q \<in> set (st_tasks st)" "t_id q = t_id r" by (auto simp: count_where_eq_0)
  then show ?thesis
    by (intro bexI [of _ "write_lifecycle r q"]) (auto simp: one(2) same_process_def)
qed

lemma triple_save_new:
  "triple (\<lambda>s. sound W R G s \<and> unreleased W R G (t_id r) s) (save W r)
    (\<lambda>p s. (sound W R G s \<and> unreleased W R G (t_id r) s) \<and> same_process (fst p) r \<and>
      (case snd p of Inl _ \<Rightarrow> True | Inr _ \<Rightarrow> registered (fst p) s))" (is "triple ?P _ ?Q")
  unfolding save_def Let_def
proof (rule triple_bind [OF triple_quiet [OF quiet_now_ms]])
  show P: "stable ?P" by (intro stable_intros)
  fix now
  let ?r = "r\<lparr>t_updated_at := now\<rparr>"
  show "triple ?P (with_store W (store_update ?r) \<bind> (\<lambda>saved. State_Monad.return (?r, saved))) ?Q"
  proof (rule triple_bind)
    show "triple ?P (with_store W (store_update ?r))
        (\<lambda>a s. ?P s \<and> (case a of Inl _ \<Rightarrow> True | Inr _ \<Rightarrow> registered ?r s))"
    proof (rule triple_with_store [OF P])
      fix s u st assume s: "?P s" and up: "store_update ?r (sv_store s) = Inr (u, st)"
      have "known W s ?r" using s unreleased_known [of W R G ?r s] by simp
      then show "?P (s\<lparr>sv_store := st\<rparr>) \<and> (case Inr u of Inl _ \<Rightarrow> True | Inr _ \<Rightarrow> registered ?r (s\<lparr>sv_store := st\<rparr>))"
        using s sound_update [OF _ up] update_registers [OF up] by (simp add: unreleased_store registered_def)
    qed simp
  qed (auto simp: same_process_def intro!: triple_return split: sum.splits)
qed

lemma parse_start_nonempty: "start_of (parse_table out) p = Some st \<Longrightarrow> st \<noteq> []"
proof -
  have line: "parse_line l = Some e \<Longrightarrow> pe_start e \<noteq> []" for l e
    by (auto simp: parse_line_def Let_def split: list.splits option.splits if_splits)
  have "set (fold table_insert es T) \<subseteq> set T \<union> set es" for es T
  proof (induction es arbitrary: T)
    case (Cons e es)
    have "set (fold table_insert es (table_insert e T)) \<subseteq> set (table_insert e T) \<union> set es" by (rule Cons.IH)
    also have "\<dots> \<subseteq> set T \<union> set (e # es)" by (auto simp: table_insert_def)
    finally show ?case by simp
  qed simp
  from this [of "List.map_filter parse_line (str_lines out)" "[]"]
  have "\<forall>e \<in> set (parse_table out). pe_start e \<noteq> []"
    unfolding parse_table_def by (fastforce simp: List.map_filter_def dest: line)
  then show "start_of (parse_table out) p = Some st \<Longrightarrow> st \<noteq> []"
    by (auto simp: start_of_def table_get_def dest: find_Some_set)
qed

lemma fresh_table_parse:
  assumes "fresh_table W T s"
  shows "\<exists>out. T = parse_table out"
proof -
  obtain k where "listing_at W k = Inr T" using assms by (auto simp: fresh_table_def seen_table_def)
  then show ?thesis by (cases "w_ps W k") (auto simp: listing_at_def)
qed

lemma triple_identify:
  assumes "t_id r = i" "t_process_id r = Some pid"
  shows "triple (\<lambda>s. sound W R G s \<and> unreleased W R G i s) (identify W r pid)
    (\<lambda>p s. (sound W R G s \<and> unreleased W R G i s) \<and> t_id (fst p) = i \<and>
      (case snd p of Inl _ \<Rightarrow> True | Inr st \<Rightarrow> st \<noteq> [] \<and> registered (fst p) s \<and> runs_as (fst p) (leader i pid st 0)))"
    (is "triple ?P _ ?Q")
proof -
  have P: "stable ?P" by (intro stable_intros)
  show ?thesis
    unfolding identify_def
  proof (rule triple_bind [OF triple_capture [OF P]])
    show "timely s" if "?P s" for s using that sound_timely by blast
    fix listed
    show "triple (\<lambda>s. ?P s \<and> (\<forall>T. listed = Inr T \<longrightarrow> fresh_table W T s))
      (case listed of Inl e \<Rightarrow> State_Monad.return (r, Inl e)
       | Inr T \<Rightarrow> (case start_of T pid of
            None \<Rightarrow> State_Monad.return (r, Inl (lit ''process '' @ show_int pid @ lit '' was not visible in the process list''))
          | Some st0 \<Rightarrow> save W (r\<lparr>t_process_start := Some st0\<rparr>) \<bind> (\<lambda>saved.
              State_Monad.return (fst saved, case snd saved of Inl e \<Rightarrow> Inl e | Inr _ \<Rightarrow> Inr st0)))) ?Q"
    proof (cases "\<exists>T st. listed = Inr T \<and> start_of T pid = Some st")
      case True
      then obtain T st where T: "listed = Inr T" "start_of T pid = Some st" by blast
      let ?r = "r\<lparr>t_process_start := Some st\<rparr>"
      have i: "t_id ?r = i" using assms by simp
      have nonempty: "st \<noteq> []" if "fresh_table W T s" for s
        using fresh_table_parse [OF that] parse_start_nonempty T(2) by auto
      have "triple ?P (save W ?r \<bind> (\<lambda>saved. State_Monad.return (fst saved, case snd saved of Inl e \<Rightarrow> Inl e | Inr _ \<Rightarrow> Inr st))) ?Q"
        if "st \<noteq> []"
        by (rule triple_bind [OF triple_save_new [of W R G ?r, unfolded i]])
          (use assms that in \<open>auto simp: same_process_def runs_as_def intro!: triple_return split: sum.splits\<close>)
      then show ?thesis
        using T nonempty by (cases "st = []") (auto elim: triple_pre intro: triple_false)
    qed (use assms in \<open>auto intro!: triple_return split: sum.splits option.splits\<close>)
  qed
qed

lemma sound_release:
  assumes "sound W R G s" "unreleased W R G i s" "registered r s" "runs_as r (leader i pid st 0)" "st \<noteq> []"
  shows "sound W (insert r R) G (s\<lparr>sv_released := sv_released s @ [leader i pid st (sv_tick s)]\<rparr>)" (is "sound _ _ _ ?s")
proof -
  obtain q where q: "q \<in> set (st_tasks (sv_store s))" "same_process q r" using assms(3) by (auto simp: registered_def)
  have r: "t_id r = i" "runs_as r (leader i pid st n)" for n using assms(4) by (simp_all add: runs_as_def)
  then have run: "runs_as q (leader i pid st n)" for n using q(2) by (simp add: same_process_def runs_as_def)
  have same: "settled W ?s = settled W s" "issued W ?s = issued W s"
    by (auto simp: settled_def has_receipt_def issued_def fun_eq_iff)
  have "holds W ?s e" if "e \<in> G" for e
  proof -
    have "about e \<noteq> i" "holds W s e" using that assms(1,2) by (auto simp: unreleased_def sound_def)
    then show ?thesis by (cases e) (auto simp: gone_def seen_table_def)
  qed
  moreover have "known W ?s q" if "q \<in> R" for q
    using that assms(1,2) by (auto simp: sound_def known_def unreleased_def same)
  moreover have "known W ?s r" using assms(2) r by (auto simp: known_def unreleased_def)
  moreover have "accounted W ?s"
    using assms(1,5) q(1) run [of "sv_tick s"] by (auto simp: sound_def accounted_def timely_def same)
  moreover have "issued W s i" using assms(2) by (simp add: unreleased_def)
  ultimately show ?thesis
    using assms(1) r(1) unfolding sound_def same by auto
qed

lemma triple_open_gate:
  assumes i: "t_id r = i"
  shows "triple (\<lambda>s. (sound W R G s \<and> unreleased W R G i s) \<and> t_id (fst p) = i \<and>
      (case snd p of Inl _ \<Rightarrow> True | Inr st \<Rightarrow> st \<noteq> [] \<and> registered (fst p) s \<and> runs_as (fst p) (leader i pid st 0)))
    (open_gate W r pid p)
    (\<lambda>p s. t_id (fst p) = i \<and> (case snd p of
        Inl _ \<Rightarrow> sound W R G s \<and> unreleased W R G i s
      | Inr _ \<Rightarrow> sound W (insert (fst p) R) G s))"
proof (cases "snd p")
  case (Inl e)
  then show ?thesis by (auto simp: open_gate_def intro: triple_return)
next
  case (Inr st)
  show ?thesis
  proof (cases "t_id (fst p) = i")
    case True
    let ?P = "sound W (insert (fst p) R) G"
    have gate: "triple (\<lambda>s. (sound W R G s \<and> unreleased W R G i s) \<and> t_id (fst p) = i \<and>
        st \<noteq> [] \<and> registered (fst p) s \<and> runs_as (fst p) (leader i pid st 0)) (release i pid st) (\<lambda>_. ?P)"
      unfolding release_def by (rule triple_modify) (auto intro: sound_release)
    have final: "sound W (insert ((fst p)\<lparr>t_state := x, t_started_at := y\<rparr>) R) G s" if "?P s" for s x y
      using sound_same [OF that insertI1, of "(fst p)\<lparr>t_state := x, t_started_at := y\<rparr>"]
      by (auto simp: same_process_def intro: sound_mono)
    show ?thesis
      unfolding open_gate_def Inr sum.case i
      by (rule triple_bind [OF gate], rule triple_bind [OF triple_quiet [OF quiet_now_ms stable_sound]], rule triple_return)
        (auto simp: True intro: final)
  qed (auto intro: triple_false)
qed

lemma triple_launch:
  assumes i: "t_id r = i"
  shows "triple (\<lambda>s. sound W R G s \<and> unreleased W R G i s) (launch W r q)
    (\<lambda>p s. t_id (fst p) = i \<and> (case snd p of
        Inl _ \<Rightarrow> sound W R G s \<and> unreleased W R G i s
      | Inr _ \<Rightarrow> sound W (insert (fst p) R) G s))" (is "triple ?P _ ?Q")
proof -
  have P: "stable ?P" by (intro stable_intros)
  have early: "triple ?P (State_Monad.return (r, Inl e)) ?Q" for e
    using i by (auto intro: triple_return)
  have child: "triple ?P (case child of None \<Rightarrow> State_Monad.return (r, Inl (lit ''the started process has no id''))
      | Some pid \<Rightarrow> if 2 ^ 31 \<le> pid then State_Monad.return (r, Inl (lit ''the started process has no id''))
          else identify W (r\<lparr>t_process_id := Some pid\<rparr>) pid \<bind> (\<lambda>identified. open_gate W r pid identified)) ?Q" for child
    using early i by (cases child) (auto intro!: triple_bind [OF triple_identify triple_open_gate])
  have spawn: "triple ?P (spawn_leader W r q) ?Q"
    unfolding spawn_leader_def
  proof (rule triple_bind [OF triple_quiet [OF quiet_next_tick P]])
    fix t
    have quiet: "quiet_op (modify (\<lambda>s. s\<lparr>sv_spawned := sv_spawned s @ [gated_shell (sr_command q) (sr_environment q)]\<rparr>))"
      by (rule quiet_modify) (simp add: quiet_def)
    show "triple ?P (case w_spawn W t of
        Inl e \<Rightarrow> State_Monad.return (r, Inl (lit ''could not start the command: '' @ e))
      | Inr child \<Rightarrow> modify (\<lambda>s. s\<lparr>sv_spawned := sv_spawned s @ [gated_shell (sr_command q) (sr_environment q)]\<rparr>)
          \<bind> (\<lambda>_. case child of None \<Rightarrow> State_Monad.return (r, Inl (lit ''the started process has no id''))
            | Some pid \<Rightarrow> if 2 ^ 31 \<le> pid then State_Monad.return (r, Inl (lit ''the started process has no id''))
                else identify W (r\<lparr>t_process_id := Some pid\<rparr>) pid \<bind> (\<lambda>identified. open_gate W r pid identified))) ?Q"
      using early triple_bind [OF triple_quiet [OF quiet P] child] by (cases "w_spawn W t") simp_all
  qed
  have log: "quiet_op (open_log W)" unfolding open_log_def by (intro quiet_intros)
  have cloned: "triple ?P (case cloned of
      Some e \<Rightarrow> State_Monad.return (r, Inl (lit ''could not open task log: '' @ e)) | None \<Rightarrow> spawn_leader W r q) ?Q" for cloned
    using early spawn by (cases cloned) simp_all
  have opened: "triple ?P (case opened of
      Some e \<Rightarrow> State_Monad.return (r, Inl (lit ''could not open task log '' @ t_log_path r @ lit '': '' @ e))
    | None \<Rightarrow> open_log W \<bind> (\<lambda>cloned. case cloned of
        Some e \<Rightarrow> State_Monad.return (r, Inl (lit ''could not open task log: '' @ e)) | None \<Rightarrow> spawn_leader W r q)) ?Q" for opened
    using early triple_bind [OF triple_quiet [OF log P] cloned] by (cases opened) simp_all
  show ?thesis
    unfolding launch_def by (rule triple_bind [OF triple_quiet [OF log P] opened])
qed

lemma triple_start_launched:
  assumes "t_id r = i"
  shows "triple (\<lambda>s. sound W R G s \<and> unreleased W R G i s) (start_launched W r q) (\<lambda>_. sound W R G)"
  unfolding start_launched_def
proof (rule triple_bind [OF triple_launch [OF assms]])
  fix p :: "task_record \<times> (ustring + unit)"
  let ?finish = "\<lambda>saved. State_Monad.return (case snd saved of Inl e \<Rightarrow> Inl e
      | Inr _ \<Rightarrow> (case snd p of Inl e \<Rightarrow> Inl e | Inr _ \<Rightarrow> Inr (view (fst saved))))"
  show "triple (\<lambda>s. t_id (fst p) = i \<and> (case snd p of
        Inl _ \<Rightarrow> sound W R G s \<and> unreleased W R G i s | Inr _ \<Rightarrow> sound W (insert (fst p) R) G s))
     ((case snd p of Inl e \<Rightarrow> now_ms W \<bind> (\<lambda>now. State_Monad.return
          ((fst p)\<lparr>t_state := FailedToStart, t_detail := Some e, t_ended_at := Some now\<rparr>))
       | Inr _ \<Rightarrow> State_Monad.return (fst p)) \<bind> (\<lambda>r2. save W r2 \<bind> ?finish)) (\<lambda>_. sound W R G)"
  proof (cases "snd p")
    case (Inl e)
    let ?P = "\<lambda>s. sound W R G s \<and> unreleased W R G i s"
    let ?r = "\<lambda>now. (fst p)\<lparr>t_state := FailedToStart, t_detail := Some e, t_ended_at := Some now\<rparr>"
    have P: "stable (\<lambda>s. t_id (fst p) = i \<and> ?P s)" by (intro stable_intros) (simp add: stable_def)
    have failed: "triple (\<lambda>s. t_id (fst p) = i \<and> ?P s) (now_ms W \<bind> (\<lambda>now. State_Monad.return (?r now)))
        (\<lambda>r2 s. ?P s \<and> t_id r2 = i)"
      by (rule triple_bind [OF triple_quiet [OF quiet_now_ms P]]) (auto intro: triple_return)
    have "triple (\<lambda>s. ?P s \<and> t_id r2 = i) (save W r2 \<bind> ?finish) (\<lambda>_. sound W R G)" for r2
      by (rule triple_bind [OF triple_pre [OF triple_save_new]]) (auto intro: triple_return)
    then show ?thesis
      unfolding Inl sum.case by (rule triple_bind [OF failed, unfolded Inl sum.case])
  next
    case (Inr u)
    have "triple (sound W (insert (fst p) R) G) (save W (fst p) \<bind> ?finish) (\<lambda>_. sound W R G)"
      by (rule triple_bind [OF triple_save [OF insertI1 same_process_refl]]) (auto intro: triple_return sound_mono)
    then show ?thesis
      unfolding Inr sum.case by (auto elim: triple_pre)
  qed
qed

lemma issued_fresh:
  assumes "inj (w_uuid W)" "issued W s i" "sv_tick s = t"
  shows "i \<noteq> lit ''bgt_'' @ w_uuid W t"
  using assms by (auto simp: issued_def dest: injD)

lemma sound_insert:
  assumes s: "sound W R G s" and new: "unreleased W R G (t_id r) s"
    and "store_insert r (sv_store s) = Inr (u, st)"
  shows "sound W R G (s\<lparr>sv_store := st\<rparr>)"
proof (rule sound_step [OF s])
  have st: "st_tasks st = st_tasks (sv_store s) @ [r]" "st_receipts st = st_receipts (sv_store s)"
    using assms(3) by (auto simp: store_insert_def split: if_splits)
  show "set (st_receipts (sv_store s)) \<subseteq> set (st_receipts (sv_store (s\<lparr>sv_store := st\<rparr>)))" by (simp add: st)
  show "store_ok (sv_store (s\<lparr>sv_store := st\<rparr>))" using s assms(3) by (auto simp: sound_def intro: store_insert_ok)
  show "issued W (s\<lparr>sv_store := st\<rparr>) (t_id q')" if "q' \<in> set (st_tasks (sv_store (s\<lparr>sv_store := st\<rparr>)))" for q'
    using that s new by (auto simp: st sound_def unreleased_def issued_def)
qed (use assms(3) in \<open>auto simp: store_insert_def split: if_splits\<close>)

lemma triple_start:
  assumes uuid: "inj (w_uuid W)"
  shows "triple (sound W R G) (start W scope q) (\<lambda>_. sound W R G)"
proof -
  let ?S = "sound W R G"
  have fresh: "triple ?S next_tick (\<lambda>t s. ?S s \<and> unreleased W R G (lit ''bgt_'' @ w_uuid W t) s)"
  proof (rule tripleI)
    fix s t s' assume s: "?S s" and "run_state next_tick s = (t, s')"
    then have t: "t = sv_tick s" "s' = s\<lparr>sv_tick := sv_tick s + 1\<rparr>" by (auto simp: next_tick_def)
    have "?S s'" using s by (rule sound_frame) (simp_all add: t)
    moreover have "lit ''bgt_'' @ w_uuid W t \<notin>
        ls_id ` set (sv_released s) \<union> t_id ` set (st_tasks (sv_store s)) \<union> t_id ` R \<union> about ` G"
      using s issued_fresh [OF uuid _ t(1) [symmetric]] unfolding sound_def by blast
    ultimately show "?S s' \<and> unreleased W R G (lit ''bgt_'' @ w_uuid W t) s'"
      unfolding unreleased_def issued_def t by (auto simp: image_iff)
  qed
  have inserted: "triple (\<lambda>s. ?S s \<and> unreleased W R G (t_id r) s) (with_store W (store_insert r))
      (\<lambda>a s. case a of Inl _ \<Rightarrow> ?S s | Inr _ \<Rightarrow> ?S s \<and> unreleased W R G (t_id r) s)" for r
    by (rule triple_with_store [OF stable_conj [OF stable_sound stable_unreleased]])
      (auto simp: unreleased_store intro: sound_insert)
  have new: "triple (\<lambda>s. ?S s \<and> unreleased W R G i s) (now_ms W \<bind> (\<lambda>now.
      let r = new_record W scope q i now in andthen (with_store W (store_insert r)) (\<lambda>_. start_launched W r q))) (\<lambda>_. ?S)" for i
  proof (rule triple_bind [OF triple_quiet [OF quiet_now_ms stable_conj [OF stable_sound stable_unreleased]]])
    fix now
    have i: "t_id (new_record W scope q i now) = i" by (simp add: new_record_def)
    show "triple (\<lambda>s. ?S s \<and> unreleased W R G i s)
        (let r = new_record W scope q i now in andthen (with_store W (store_insert r)) (\<lambda>_. start_launched W r q)) (\<lambda>_. ?S)"
      unfolding Let_def by (rule triple_andthen [OF inserted [of "new_record W scope q i now", unfolded i] triple_start_launched [OF i]])
  qed
  have listed: "triple ?S (with_store W (reading f)) (\<lambda>a s. case a of Inl _ \<Rightarrow> ?S s | Inr _ \<Rightarrow> ?S s)" for f :: "task_store \<Rightarrow> task_record list"
    by (rule triple_conseq [OF triple_quiet [OF quiet_reading stable_sound]]) (auto split: sum.splits)
  show ?thesis
  proof (cases "validate_start W q")
    case (Inl e)
    then show ?thesis by (simp add: start_def triple_return)
  next
    case (Inr u)
    show ?thesis
      unfolding start_def Inr sum.case
      by (intro triple_bind [OF triple_quiet [OF quiet_get stable_sound]] triple_if
          triple_quiet [OF quiet_fail_with stable_sound] triple_andthen [OF listed]
          triple_quiet [OF quiet_return stable_sound] triple_bind [OF fresh new])
  qed
qed

end
