(* ===== verification/Task_Machine.thy ===== *)
theory Task_Machine
  imports Task_Launch
begin

text \<open>
  The service as a state machine.  The coordination lock makes every section under it one step; code
  that gives the lock up holds on to what it read before: records read earlier (\<open>su_read\<close>), records
  whose processes are being terminated (\<open>su_stops\<close>) or were (\<open>su_done\<close>), and tasks a listing showed
  without processes (\<open>su_gone\<close>), and listings made after records were read (\<open>su_listed\<close>).  Those steps may interleave in any order.  The table of tracked
  processes is also written outside the lock, so it may change at any time.
\<close>

record supervisor =
  su_service :: service
  su_read :: "task_record list"
  su_stops :: "task_record list"
  su_done :: "task_record list"
  su_gone :: "ustring list"
  su_listed :: "(process_table \<times> ustring) list"

definition set_processes :: "(ustring \<times> int \<times> ustring) list \<Rightarrow> service \<Rightarrow> service" where
  "set_processes ps s = s\<lparr>sv_store := (sv_store s)\<lparr>st_processes := ps\<rparr>\<rparr>"

inductive task_step :: "world \<Rightarrow> supervisor \<Rightarrow> supervisor \<Rightarrow> bool" for W where
  step_start: "run_state (start W scope q) (su_service c) = (a, s) \<Longrightarrow> task_step W c (c\<lparr>su_service := s\<rparr>)"
| step_dismiss: "run_state (dismiss W who i) (su_service c) = (b, s) \<Longrightarrow> task_step W c (c\<lparr>su_service := s\<rparr>)"
| step_read: "run_state (with_store W (reading (store_list owner))) (su_service c) = (Inr rs, s) \<Longrightarrow>
    task_step W c (c\<lparr>su_service := s, su_read := su_read c @ rs\<rparr>)"
| step_stop_begin: "run_state (stop_begin W i reason) (su_service c) = (Inr (Inr r), s) \<Longrightarrow>
    task_step W c (c\<lparr>su_service := s, su_stops := su_stops c @ [r]\<rparr>)"
| step_stop_refused: "run_state (stop_begin W i reason) (su_service c) = (d, s) \<Longrightarrow> (\<forall>r. d \<noteq> Inr (Inr r)) \<Longrightarrow>
    task_step W c (c\<lparr>su_service := s\<rparr>)"
| step_terminate: "su_stops c = xs @ r # ys \<Longrightarrow> run_state (terminate_task W r grace) (su_service c) = (r', s) \<Longrightarrow>
    task_step W c (c\<lparr>su_service := s, su_stops := xs @ ys, su_done := su_done c @ [r']\<rparr>)"
| step_stop_finish: "su_done c = xs @ r # ys \<Longrightarrow> run_state (stop_finish W r) (su_service c) = (f, s) \<Longrightarrow>
    task_step W c (c\<lparr>su_service := s, su_done := xs @ ys\<rparr>)"
| step_begin_deletion: "run_state (begin_owner_deletion W owner') (su_service c) = (u, s) \<Longrightarrow> task_step W c (c\<lparr>su_service := s\<rparr>)"
| step_abort_deletion: "run_state (abort_owner_deletion W owner') (su_service c) = (u, s) \<Longrightarrow> task_step W c (c\<lparr>su_service := s\<rparr>)"
| step_cleanup: "r \<in> set (su_read c) \<Longrightarrow> ended (t_state r) \<Longrightarrow> run_state (cleanup_ended W r) (su_service c) = (e, s) \<Longrightarrow>
    task_step W c (c\<lparr>su_service := s\<rparr>)"
| step_observe: "r \<in> set (su_read c) \<Longrightarrow> watched r \<Longrightarrow> (T, t_id r) \<in> set (su_listed c) \<Longrightarrow>
    run_state (observe_processes W r T) (su_service c) = (g, s) \<Longrightarrow>
    task_step W c (c\<lparr>su_service := s,
      su_gone := (case g of Inr ps \<Rightarrow> if tp_empty ps then su_gone c @ [t_id r] else su_gone c | Inl _ \<Rightarrow> su_gone c)\<rparr>)"
| step_settle: "i \<in> set (su_gone c) \<Longrightarrow> run_state (settle_exit W i exit) (su_service c) = (u, s) \<Longrightarrow>
    task_step W c (c\<lparr>su_service := s\<rparr>)"
| step_update: "(\<forall>r. same_process (change r) r) \<Longrightarrow>
    run_state (update_observed W i expected change) (su_service c) = (u, s) \<Longrightarrow> task_step W c (c\<lparr>su_service := s\<rparr>)"
| step_reap: "run_state (reap_leader W i x) (su_service c) = (u, s) \<Longrightarrow> task_step W c (c\<lparr>su_service := s\<rparr>)"
| step_diagnostics: "run_state (collect_diagnostics W) (su_service c) = (u, s) \<Longrightarrow> task_step W c (c\<lparr>su_service := s\<rparr>)"
| step_capture: "run_state (capture W) (su_service c) = (l, s) \<Longrightarrow>
    task_step W c (c\<lparr>su_service := s, su_listed := (case l of
      Inr T \<Rightarrow> su_listed c @ map (\<lambda>r. (T, t_id r)) (su_read c) | Inl _ \<Rightarrow> su_listed c)\<rparr>)"
| step_processes: "task_step W c (c\<lparr>su_service := set_processes ps (su_service c)\<rparr>)"
| step_reconcile: "run_state (reconcile W) (su_service c) = (h, s) \<Longrightarrow> task_step W c (c\<lparr>su_service := s\<rparr>)"
| step_restart: "task_step W c \<lparr>su_service = restart (su_service c), su_read = [], su_stops = [], su_done = [], su_gone = [], su_listed = []\<rparr>"

definition first_service :: service where
  "first_service = \<lparr>sv_tick = 0, sv_instant = 0, sv_store = empty_store, sv_deleting = {}, sv_stopping = {},
     sv_exits = [], sv_spawned = [], sv_released = [], sv_signals = [], sv_unlinked = []\<rparr>"

definition first_supervisor :: supervisor where
  "first_supervisor = \<lparr>su_service = first_service, su_read = [], su_stops = [], su_done = [], su_gone = [], su_listed = []\<rparr>"

definition held :: "supervisor \<Rightarrow> task_record set" where
  "held c = set (su_read c) \<union> set (su_stops c) \<union> set (su_done c)"

definition held_evidence :: "supervisor \<Rightarrow> evidence set" where
  "held_evidence c = No_Process ` (set (su_gone c) \<union> {t_id r |r. r \<in> set (su_done c) \<and> ended (t_state r)})
     \<union> (\<lambda>x. Listed (fst x) (snd x)) ` set (su_listed c)"

definition supervised :: "world \<Rightarrow> supervisor \<Rightarrow> bool" where
  "supervised W c \<longleftrightarrow> sound W (held c) (held_evidence c) (su_service c)"

lemma supervisedI:
  assumes "sound W R G s" "su_service c = s" "held c \<subseteq> R"
    and "held_evidence c \<subseteq> G"
  shows "supervised W c"
  unfolding supervised_def assms(2) by (rule sound_mono [OF assms(1,3,4)])

lemma supervised_frame:
  assumes "triple (sound W (held c) G) m (\<lambda>_. sound W (held c) G)" and "G = held_evidence c"
    and "run_state m (su_service c) = (a, s)" "supervised W c"
  shows "supervised W (c\<lparr>su_service := s\<rparr>)"
  using tripleD [OF assms(1) _ assms(3)] assms(2,4) by (simp add: supervised_def held_def held_evidence_def)

lemma supervised_terminate:
  assumes c: "supervised W c" "su_stops c = xs @ r # ys"
    and run: "run_state (terminate_task W r grace) (su_service c) = (r', s)"
  shows "supervised W (c\<lparr>su_service := s, su_stops := xs @ ys, su_done := su_done c @ [r']\<rparr>)"
proof -
  define G where "G = held_evidence c"
  have r: "r \<in> held c" using c(2) by (simp add: held_def)
  have post: "sound W (held c) G s" "same_process r' r"
    "t_state r' = CleanupFailed \<or> t_state r' = Stopped \<and> gone W s (t_id r)"
    using tripleD [OF triple_terminate [OF r] _ run] c(1) by (simp_all add: supervised_def G_def)
  have "sound W (insert r' (held c)) G s" by (rule sound_same [OF post(1) r post(2)])
  then have "sound W (insert r' (held c)) (if ended (t_state r') then insert (No_Process (t_id r')) G else G) s"
    using post(2,3) sound_gone [of W "insert r' (held c)" G s r'] by (auto simp: same_process_def)
  then show ?thesis
    by (rule supervisedI) (auto simp: held_def held_evidence_def G_def c(2))
qed

lemma supervised_step:
  assumes uuid: "inj (w_uuid W)" and step: "task_step W c c'" and c: "supervised W c"
  shows "supervised W c'"
  using step c
proof (cases rule: task_step.cases)
  case (step_start scope q a s)
  then show ?thesis using supervised_frame [OF triple_start [OF uuid] refl _ c] by simp
next
  case (step_dismiss who i b s)
  then show ?thesis using supervised_frame [OF triple_dismiss refl _ c] by simp
next
  case (step_read owner rs s)
  have "sound W (held c \<union> set rs) (held_evidence c) s"
    using tripleD [OF triple_list _ step_read(2)] c by (auto simp: supervised_def)
  then show ?thesis
    unfolding step_read(1) by (rule supervisedI) (auto simp: held_def held_evidence_def)
next
  case (step_stop_begin i reason r s)
  have "sound W (insert r (held c)) (held_evidence c) s"
    using tripleD [OF triple_stop_begin _ step_stop_begin(2)] c by (auto simp: supervised_def)
  then show ?thesis
    unfolding step_stop_begin(1) by (rule supervisedI) (auto simp: held_def held_evidence_def)
next
  case (step_stop_refused i reason d s)
  have "sound W (held c) (held_evidence c) s"
    using tripleD [OF triple_stop_begin c [unfolded supervised_def] step_stop_refused(2)] step_stop_refused(3)
    by (auto split: sum.splits)
  then show ?thesis unfolding step_stop_refused(1) by (rule supervisedI) (auto simp: held_def held_evidence_def)
next
  case (step_terminate xs r ys grace r' s)
  then show ?thesis using supervised_terminate [OF c] by simp
next
  case (step_stop_finish xs r ys f s)
  let ?G = "held_evidence c"
  have "triple (sound W (held c) ?G) (stop_finish W r) (\<lambda>_. sound W (held c) ?G)"
    by (rule triple_stop_finish) (auto simp: held_def held_evidence_def step_stop_finish(2))
  from tripleD [OF this c [unfolded supervised_def] step_stop_finish(3)]
  show ?thesis unfolding step_stop_finish(1) by (rule supervisedI) (auto simp: held_def held_evidence_def step_stop_finish(2))
next
  case (step_begin_deletion owner u s)
  then show ?thesis using supervised_frame [OF triple_begin_owner_deletion refl _ c] by simp
next
  case (step_abort_deletion owner u s)
  then show ?thesis using supervised_frame [OF triple_abort_owner_deletion refl _ c] by simp
next
  case (step_cleanup r e s)
  then have "r \<in> held c" by (simp add: held_def)
  then show ?thesis using supervised_frame [OF triple_cleanup_ended refl _ c] step_cleanup by simp
next
  case (step_observe r T g s)
  have r: "r \<in> held c" using step_observe(2) by (simp add: held_def)
  have "Listed T (t_id r) \<in> held_evidence c" using step_observe(4) by (force simp: held_evidence_def)
  then have "seen_table W T (t_id r) (su_service c)"
    using c unfolding supervised_def sound_def by (metis holds.simps(2))
  then have post: "sound W (held c) (held_evidence c) s" "case g of Inl _ \<Rightarrow> True | Inr ps \<Rightarrow> tp_empty ps \<longrightarrow> gone W s (t_id r)"
    using tripleD [OF triple_observe_processes [OF r] _ step_observe(5)] c by (simp_all add: supervised_def)
  then have "sound W (held c) (case g of Inr ps \<Rightarrow> if tp_empty ps then insert (No_Process (t_id r)) (held_evidence c)
      else held_evidence c | Inl _ \<Rightarrow> held_evidence c) s"
    using sound_gone [OF post(1) _ r] by (auto split: sum.splits)
  then show ?thesis
    unfolding step_observe(1) by (rule supervisedI) (auto simp: held_def held_evidence_def split: sum.splits)
next
  case (step_settle i x s)
  then have "No_Process i \<in> held_evidence c" by (simp add: held_evidence_def)
  then show ?thesis using supervised_frame [OF triple_settle_exit refl _ c] step_settle by blast
next
  case (step_update change i expected u s)
  then show ?thesis using supervised_frame [OF triple_update_observed refl _ c] by blast
next
  case (step_reap i x u s)
  have reap: "triple (sound W R G) (reap_leader W i x) (\<lambda>_. sound W R G)" for R G
    unfolding reap_leader_def
    by (intro triple_quiet [OF _ stable_sound] quiet_intros) (simp add: quiet_def)
  then show ?thesis using supervised_frame [OF reap refl _ c] step_reap by simp
next
  case (step_diagnostics u s)
  then show ?thesis using supervised_frame [OF triple_quiet [OF quiet_collect_diagnostics stable_sound] refl _ c] by simp
next
  case (step_capture l s)
  have post: "sound W (held c) (held_evidence c) s" "\<And>T. l = Inr T \<Longrightarrow> fresh_table W T s"
    using tripleD [OF triple_capture [OF stable_sound sound_timely] c [unfolded supervised_def] step_capture(2)] by simp_all
  have ids: "issued W s (t_id r)" if "r \<in> set (su_read c)" for r
    using post(1) that by (auto simp: sound_def held_def)
  have "sound W (held c) (held_evidence c \<union> (case l of Inr T \<Rightarrow> (\<lambda>r. Listed T (t_id r)) ` set (su_read c) | Inl _ \<Rightarrow> {})) s"
    using post ids unfolding sound_def by (auto simp: fresh_table_def split: sum.splits)
  then show ?thesis
    unfolding step_capture(1) by (rule supervisedI) (auto simp: held_def held_evidence_def split: sum.splits)
next
  case (step_processes ps)
  have "quiet s (set_processes ps s)" for s by (simp add: quiet_def set_processes_def)
  then show ?thesis using c step_processes stableD [OF stable_sound] by (fastforce simp: supervised_def held_def held_evidence_def)
next
  case (step_reconcile h s)
  then show ?thesis using supervised_frame [OF triple_reconcile refl _ c] by simp
next
  case step_restart
  then show ?thesis
    using c unfolding supervised_def restart_def by (auto simp: held_def held_evidence_def intro: sound_mono)
qed

lemma first_supervised: "supervised W first_supervisor"
  by (simp add: supervised_def first_supervisor_def first_service_def held_def held_evidence_def sound_def store_ok_def
      accounted_def timely_def empty_store_def)

lemma supervised_run:
  assumes "inj (w_uuid W)" "(task_step W)\<^sup>*\<^sup>* first_supervisor c"
  shows "supervised W c"
  using assms(2) by (induction rule: rtranclp_induct) (auto intro: first_supervised supervised_step [OF assms(1)])

end
