(* ===== verification/Task_Samples.thy ===== *)
theory Task_Samples
  imports Task_Machine
begin

text \<open>A concrete world for the witnesses: one process 7 that starts, and later listings without it.\<close>

definition sample_ps :: ustring where
  "sample_ps = [55, 32, 49, 32, 55, 32, 83, 32, 88]"

definition task_world :: world where
  "task_world = \<lparr>w_clock = (\<lambda>t. int t), w_lag = (\<lambda>_. 0),
     w_ps = (\<lambda>t. if t < 20 then Ps_Listing sample_ps else Ps_Listing []),
     w_fault = (\<lambda>_. None), w_kill = (\<lambda>_ _. Kill_Ok), w_spawn = (\<lambda>_. Inr (Some 7)), w_log_error = (\<lambda>_. None),
     w_uuid = show_nat, w_is_dir = (\<lambda>_. True), w_log_dir = (\<lambda>_. Some []), w_machine = [109],
     w_log_path = (\<lambda>i. i)\<rparr>"

definition task_scope :: caller_scope where
  "task_scope = \<lparr>cs_owner = [111], cs_run = None, cs_turn = None, cs_call = None\<rparr>"

definition task_request :: start_request where
  "task_request = \<lparr>sr_name = [110], sr_command = [99], sr_cwd = [47], sr_endpoints = [], sr_environment = []\<rparr>"

lemma sample_fields: "split_whitespace sample_ps = [[55], [49], [55], [83], [88]]"
  by (simp add: sample_ps_def split_whitespace_eval is_whitespace_def)

lemma sample_parse: "parse_table sample_ps = [\<lparr>pe_pid = 7, pe_parent = 1, pe_group = 7, pe_zombie = False, pe_start = [88]\<rparr>]"
proof -
  have "str_lines sample_ps = [sample_ps]"
    by (subst str_lines_single) (simp_all add: sample_ps_def)
  moreover have "parse_i32 [55] = Some 7" "parse_i32 [49] = Some 1"
    by (simp_all add: parse_i32_def digits_value_def is_ascii_digit_def Let_def)
  ultimately show ?thesis
    by (simp add: parse_table_def List.map_filter_simps parse_line_def sample_fields Let_def table_insert_def)
qed

lemma empty_parse: "parse_table [] = []"
  by (simp add: parse_table_def str_lines_single List.map_filter_simps)

lemma task_world_inj: "inj (w_uuid task_world)"
  by (simp add: task_world_def inj_def)

definition started :: service where
  "started = snd (run_state (start task_world task_scope task_request) first_service)"

lemma trim_letter: "trim [99] = [99]" "trim [110] = [110]"
  by (simp_all add: trim_def trim_start_def trim_end_def is_whitespace_def)

lemma task_valid: "validate_start task_world task_request = Inr ()"
  by (simp add: validate_start_def task_request_def task_world_def trim_letter MAX_COMMAND_BYTES_def MAX_NAME_CHARS_def
      MAX_ENDPOINTS_def len_utf8_def del: trim_eq_Nil)

lemmas start_defs = first_service_def task_scope_def andthen_def with_store_def next_tick_def reading_def store_list_def
  empty_store_def modify_def task_world_def now_ms_def Let_def new_record_def start_launched_def launch_def open_log_def
  spawn_leader_def identify_def capture_def listing_at_def sample_parse start_of_def table_get_def save_def
  store_insert_def store_update_def open_gate_def release_def active_count_def MAX_ACTIVE_TASKS_PER_OWNER_def

lemma started_result:
  "\<exists>v. fst (run_state (start task_world task_scope task_request) first_service) = Inr v"
  unfolding start_def task_valid
  by (simp add: start_defs)

lemma started_state:
  "sv_released started = [leader (lit ''bgt_'' @ show_nat 1) 7 [88] 10] \<and> st_receipts (sv_store started) = []"
  unfolding started_def start_def task_valid
  by (simp add: start_defs)

lemma started_row: "map (\<lambda>r. (t_id r, t_owner r)) (st_tasks (sv_store started)) = [(lit ''bgt_'' @ show_nat 1, [111])]"
  unfolding started_def start_def task_valid
  by (simp add: start_defs)

lemmas started_released = started_state [THEN conjunct1]
lemmas started_receipts = started_state [THEN conjunct2]


lemma started_reached: "(task_step task_world)\<^sup>*\<^sup>* first_supervisor (first_supervisor\<lparr>su_service := started\<rparr>)"
proof -
  have "run_state (start task_world task_scope task_request) (su_service first_supervisor) =
      (fst (run_state (start task_world task_scope task_request) first_service), started)"
    by (simp add: started_def first_supervisor_def)
  then have "task_step task_world first_supervisor (first_supervisor\<lparr>su_service := started\<rparr>)" by (rule step_start)
  then show ?thesis by blast
qed

end
