(* ===== verification/Task_Guarantees.thy ===== *)
theory Task_Guarantees
  imports Task_Samples "HOL-Library.Multiset"
begin

text \<open>
  What the background task service guarantees to its callers: running tasks are never lost, a deleted
  owner gets no new task, starting and stopping have exactly the documented outcomes.
\<close>

section \<open>Accounting\<close>

text \<open>C3: No running task is ever lost.  Whatever is started, stopped, dismissed, observed, deleted or
  reconciled, in whatever interleaving and across restarts, failing writes and failing listings: a
  task whose command was allowed to run is in the registry with its process group and the start time
  of its leader, until a receipt has taken its place, and that only after a listing of the processes,
  made after the command was released, in which neither the group nor a descendant of it was alive.\<close>

theorem released_task_accounted:
  assumes "inj (w_uuid W)" "(task_step W)\<^sup>*\<^sup>* first_supervisor c"
    and "x \<in> set (sv_released (su_service c))"
  shows "(\<exists>r. store_get (ls_id x) (sv_store (su_service c)) = Some r \<and>
      t_process_id r = Some (ls_group x) \<and> t_process_start r = Some (ls_start x)) \<or>
    ((\<exists>rc. store_receipt (ls_id x) (sv_store (su_service c)) = Some rc) \<and>
     (\<exists>k T. ls_tick x \<le> k \<and> k < sv_tick (su_service c) \<and> listing_at W k = Inr T \<and>
        tp_empty (task_processes T (ls_group x) (ls_start x))))"
proof -
  let ?s = "su_service c"
  have s: "store_ok (sv_store ?s)" "accounted W ?s"
    using supervised_run [OF assms(1,2)] by (simp_all add: supervised_def sound_def)
  then consider "settled W ?s x" | r where "r \<in> set (st_tasks (sv_store ?s))" "runs_as r x"
    using assms(3) by (auto simp: accounted_def)
  then show ?thesis
  proof cases
    case 1
    then have "store_receipt (ls_id x) (sv_store ?s) \<noteq> None"
      by (auto simp: settled_def has_receipt_def store_receipt_def find_None_set)
    then show ?thesis using 1 by (auto simp: settled_def gone_at_def)
  next
    case 2
    then show ?thesis using store_get_iff [OF s(1)] by (auto simp: runs_as_def)
  qed
qed

lemma released_task_accounted_witness:
  "\<exists>r. store_get (lit ''bgt_'' @ show_nat 1) (sv_store started) = Some r \<and> t_process_id r = Some 7"
proof -
  from released_task_accounted [OF task_world_inj started_reached, of "leader (lit ''bgt_'' @ show_nat 1) 7 [88] 10"]
  show ?thesis by (simp add: started_released) (auto simp: started_receipts store_receipt_def)
qed

section \<open>Starting\<close>

lemma with_store_run:
  "run_state (with_store W f) s = (a, s') \<longleftrightarrow>
    (case w_fault W (sv_tick s) of
       Some e \<Rightarrow> a = Inl (store_failure e) \<and> s' = s\<lparr>sv_tick := sv_tick s + 1\<rparr>
     | None \<Rightarrow> (case f (sv_store s) of
         Inl e \<Rightarrow> a = Inl e \<and> s' = s\<lparr>sv_tick := sv_tick s + 1\<rparr>
       | Inr (x, st) \<Rightarrow> a = Inr x \<and> s' = s\<lparr>sv_tick := sv_tick s + 1, sv_store := st\<rparr>))"
  by (auto simp: with_store_def next_tick_def modify_def split: option.splits sum.splits)

text \<open>Exactly one new row, the last one, besides what was there.\<close>

definition appended :: "service \<Rightarrow> task_record \<Rightarrow> service \<Rightarrow> bool" where
  "appended s0 r s \<longleftrightarrow>
     st_tasks (sv_store s) = st_tasks (sv_store s0) @ [r] \<and> st_receipts (sv_store s) = st_receipts (sv_store s0) \<and>
     (\<forall>q \<in> set (st_tasks (sv_store s0)). t_id q \<noteq> t_id r)"

definition same_request :: "task_record \<Rightarrow> task_record \<Rightarrow> bool" where
  "same_request r q \<longleftrightarrow> write_lifecycle r q = r \<and> t_id r = t_id q"

lemma same_request_refl [simp]: "same_request r r"
  by (simp add: same_request_def write_lifecycle_def)

lemma write_lifecycle_twice [simp]: "write_lifecycle a (write_lifecycle b r) = write_lifecycle a r"
  by (simp add: write_lifecycle_def)

lemma same_request_trans: "same_request a b \<Longrightarrow> same_request b c \<Longrightarrow> same_request a c"
  unfolding same_request_def by (metis write_lifecycle_twice)

lemma same_requestI: "t_id a = t_id b \<Longrightarrow> write_lifecycle a b = a \<Longrightarrow> same_request a b"
  by (simp add: same_request_def)

lemma same_request_fields:
  "same_request a b \<Longrightarrow> t_owner a = t_owner b \<and> t_run a = t_run b \<and> t_command a = t_command b \<and> t_id a = t_id b"
  unfolding same_request_def by (metis write_lifecycle_id(2,3) write_lifecycle_command)

lemma appended_quiet: "quiet s s' \<Longrightarrow> appended s0 r s \<Longrightarrow> appended s0 r s' \<and> sv_released s' = sv_released s"
  by (simp add: quiet_def appended_def)

lemma save_run:
  assumes "run_state (save W r) s = (p, s')"
  shows "same_request (fst p) r \<and> same_process (fst p) r \<and> t_state (fst p) = t_state r \<and> sv_released s' = sv_released s \<and>
    (case snd p of
       Inl _ \<Rightarrow> sv_store s' = sv_store s
     | Inr _ \<Rightarrow> store_update (fst p) (sv_store s) = Inr ((), sv_store s'))"
  using assms
  by (auto simp: save_def Let_def now_ms_def next_tick_def with_store_run same_request_def write_lifecycle_def same_process_def
      split: prod.splits option.splits sum.splits)

lemma appended_save:
  assumes "appended s0 r s" "same_request r' r" "run_state (save W r') s = (p, s')"
  shows "appended s0 (case snd p of Inl _ \<Rightarrow> r | Inr _ \<Rightarrow> fst p) s'"
proof (cases "snd p")
  case (Inl e)
  then show ?thesis using save_run [OF assms(3)] assms(1) by (simp add: appended_def)
next
  case (Inr u)
  have p: "same_request (fst p) r" "store_update (fst p) (sv_store s) = Inr ((), sv_store s')"
    using save_run [OF assms(3)] Inr same_request_trans [OF _ assms(2)] by auto
  then have "t_id (fst p) = t_id r" "write_lifecycle (fst p) r = fst p" by (simp_all add: same_request_def)
  moreover have "update_where (\<lambda>q. t_id q = t_id r) (write_lifecycle (fst p)) (st_tasks (sv_store s0)) = st_tasks (sv_store s0)"
    by (rule update_where_none) (use assms(1) in \<open>auto simp: appended_def\<close>)
  moreover have "sv_store s' = (sv_store s)\<lparr>st_tasks :=
      update_where (\<lambda>q. t_id q = t_id (fst p)) (write_lifecycle (fst p)) (st_tasks (sv_store s))\<rparr>"
    using p(2) by (simp add: store_update_def split: if_splits)
  ultimately show ?thesis
    using assms(1) Inr by (simp add: appended_def)
qed

text \<open>What launching the leader of the last row may have done.\<close>

definition launch_outcome :: "service \<Rightarrow> task_record \<Rightarrow> task_record \<times> (ustring + unit) \<Rightarrow> service \<Rightarrow> service \<Rightarrow> bool" where
  "launch_outcome s0 r p s s' \<longleftrightarrow>
     (\<exists>row. appended s0 row s' \<and> same_request (fst p) row \<and> same_request row r \<and> t_state row = t_state r \<and>
       (case snd p of
          Inl _ \<Rightarrow> sv_released s' = sv_released s
        | Inr _ \<Rightarrow> \<exists>grp st n. same_process (fst p) row \<and> runs_as row (leader (t_id r) grp st n) \<and> st \<noteq> [] \<and> t_state (fst p) = Running \<and>
            sv_released s' = sv_released s @ [leader (t_id r) grp st n]))"

lemma launch_outcome_early:
  "appended s0 r s \<Longrightarrow> quiet s s' \<Longrightarrow> launch_outcome s0 r (r, Inl e) s s'"
  unfolding launch_outcome_def by (rule exI [of _ r]) (auto simp: quiet_def appended_def)

lemma capture_parse:
  assumes "run_state (capture W) s = (listed, s')" "listed = Inr T"
  shows "\<exists>out. T = parse_table out"
  using assms by (auto simp: capture_def next_tick_def listing_at_def split: ps_output.splits)

lemma identify_outcome:
  assumes "appended s0 row s" "same_request r row" "t_state r = t_state row" "t_process_id r = Some pid"
    and run: "run_state (identify W r pid) s = (p, s')"
  shows "sv_released s' = sv_released s \<and>
    (\<exists>row'. appended s0 row' s' \<and> same_request (fst p) row' \<and> same_request row' row \<and> t_state row' = t_state row \<and>
      t_state (fst p) = t_state row \<and>
      (case snd p of Inl _ \<Rightarrow> True | Inr st \<Rightarrow> same_process (fst p) row' \<and> runs_as row' (leader (t_id row) pid st 0) \<and> st \<noteq> []))"
proof -
  obtain listed s1 where c: "run_state (capture W) s = (listed, s1)" by (metis surj_pair)
  have s1: "appended s0 row s1" "sv_released s1 = sv_released s"
    using appended_quiet [OF quiet_opD [OF quiet_capture c] assms(1)] by simp_all
    show ?thesis
  proof (cases "\<exists>T st. listed = Inr T \<and> start_of T pid = Some st")
    case True
    then obtain T st where T: "listed = Inr T" "start_of T pid = Some st" by blast
    let ?r = "r\<lparr>t_process_start := Some st\<rparr>"
    have "st \<noteq> []" using capture_parse [OF c T(1)] parse_start_nonempty T(2) by auto
    moreover obtain a s2 where sv: "run_state (save W ?r) s1 = (a, s2)" by (metis surj_pair)
    have req: "same_request ?r r" by (simp add: same_request_def write_lifecycle_def)
    have r: "same_request ?r row" by (rule same_request_trans [OF req assms(2)])
    note saved = save_run [OF sv] appended_save [OF s1(1) r sv]
    have a: "same_request (fst a) row" "same_request (fst a) ?r"
      using saved(1) same_request_trans [OF _ r] by blast+
    have p: "p = (fst a, case snd a of Inl e \<Rightarrow> Inl e | Inr _ \<Rightarrow> Inr st)" "s' = s2"
      using run T c sv by (simp_all add: identify_def)
    have "t_id row = t_id r" using assms(2) by (simp add: same_request_def)
    then show ?thesis
    proof (cases "snd a")
      case (Inl e)
      then show ?thesis using saved s1 a p assms(3) by (auto intro!: exI [of _ row])
    next
      case (Inr u)
      then show ?thesis
        using saved s1 a p assms(3,4) \<open>st \<noteq> []\<close> \<open>t_id row = t_id r\<close>
        by (auto simp: runs_as_def same_process_def intro!: exI [of _ "fst a"])
    qed
  next
    case False
    then have "p = (r, p') \<Longrightarrow> \<exists>e. p' = Inl e" "fst p = r" "s' = s1" for p'
      using run c by (auto simp: identify_def split: sum.splits option.splits)
    then show ?thesis
      using s1 assms(2,3) by (cases p) (fastforce intro: exI [of _ row])
  qed
qed

lemma launch_outcome_run:
  assumes new: "appended s0 r s" and run: "run_state (launch W r q) s = (p, s')"
  shows "launch_outcome s0 r p s s' \<and> same_request (fst p) r"
proof -
  have log: "quiet_op (open_log W)" unfolding open_log_def by (intro quiet_intros)
  obtain o1 s1 where 1: "run_state (open_log W) s = (o1, s1)" by (metis surj_pair)
  obtain o2 s2 where 2: "run_state (open_log W) s1 = (o2, s2)" by (metis surj_pair)
  let ?spawned = "\<lambda>s. s\<lparr>sv_spawned := sv_spawned s @ [gated_shell (sr_command q) (sr_environment q)]\<rparr>"
  define s3 where "s3 = s2\<lparr>sv_tick := sv_tick s2 + 1\<rparr>"
  define s4 where "s4 = ?spawned s3"
  have q1: "quiet s s1" by (rule quiet_opD [OF log 1])
  have q2: "quiet s s2" by (rule quiet_trans [OF q1 quiet_opD [OF log 2]])
  then have q3: "quiet s s3" and q4: "quiet s s4" by (simp_all add: quiet_def s3_def s4_def)
  note early = launch_outcome_early [OF new]
  show ?thesis
  proof (cases "o1 = None \<and> o2 = None \<and> (\<exists>pid. w_spawn W (sv_tick s2) = Inr (Some pid) \<and> pid < 2 ^ 31)")
    case False
    then have "\<exists>e. p = (r, Inl e) \<and> s' \<in> {s1, s2, s3, s4}"
      using run 1 2 unfolding launch_def
      by (auto simp: spawn_leader_def next_tick_def modify_def s3_def s4_def split: option.splits sum.splits if_splits)
    then show ?thesis using early q1 q2 q3 q4 by auto
  next
    case True
    then obtain pid where pid: "w_spawn W (sv_tick s2) = Inr (Some pid)" "pid < 2 ^ 31" by blast
    let ?r = "r\<lparr>t_process_id := Some pid\<rparr>"
    obtain k s5 where k: "run_state (identify W ?r pid) s4 = (k, s5)" by (metis surj_pair)
    have p: "run_state (open_gate W r pid k) s5 = (p, s')"
      using run 1 2 True pid k unfolding launch_def
      by (simp add: spawn_leader_def next_tick_def modify_def s3_def s4_def)
    have new4: "appended s0 r s4" "sv_released s4 = sv_released s"
      using appended_quiet [OF q4 new] by simp_all
    have req: "same_request ?r r" by (simp add: same_request_def write_lifecycle_def)
    obtain row where row: "sv_released s5 = sv_released s" "appended s0 row s5" "same_request (fst k) row" "same_request row r"
      "t_state row = t_state r"
      "case snd k of Inl _ \<Rightarrow> True | Inr st \<Rightarrow> same_process (fst k) row \<and> runs_as row (leader (t_id r) pid st 0) \<and> st \<noteq> []"
      using identify_outcome [OF new4(1) req _ _ k] new4(2) by auto
    show ?thesis
    proof (cases "snd k")
      case (Inl e)
      then have "p = (fst k, Inl (e @ lit ''; the command never ran''))" "s' = s5" using p by (simp_all add: open_gate_def)
      then show ?thesis
        using row same_request_trans [OF row(3,4)] by (auto simp: launch_outcome_def)
    next
      case (Inr st)
      then obtain now where p': "p = ((fst k)\<lparr>t_state := Running, t_started_at := Some now\<rparr>, Inr ())"
        "s' = s5\<lparr>sv_released := sv_released s5 @ [leader (t_id r) pid st (sv_tick s5)], sv_tick := sv_tick s5 + 1\<rparr>"
        using p by (auto simp: open_gate_def release_def modify_def now_ms_def next_tick_def)
      have "same_request ((fst k)\<lparr>t_state := Running, t_started_at := Some now\<rparr>) (fst k)"
        by (simp add: same_request_def write_lifecycle_def)
      then have "same_request (fst p) row" using same_request_trans [OF _ row(3)] p'(1) by simp
      moreover have "appended s0 row s'" using row(2) by (simp add: p'(2) appended_def)
      ultimately show ?thesis
        using row Inr same_request_trans [OF _ row(4)]
        by (auto simp: launch_outcome_def p' same_process_def runs_as_def)
    qed
  qed
qed

lemma start_launched_outcome:
  assumes new: "appended s0 r s" "t_state r = Launching" and run: "run_state (start_launched W r q) s = (a, s')"
  shows "\<exists>row. appended s0 row s' \<and> same_request row r \<and>
    (case a of
       Inr v \<Rightarrow> v = view row \<and> t_state row = Running \<and> (\<exists>grp st n. st \<noteq> [] \<and> runs_as row (leader (t_id r) grp st n) \<and>
         sv_released s' = sv_released s @ [leader (t_id r) grp st n])
     | Inl _ \<Rightarrow> t_state row \<in> {Launching, FailedToStart} \<and> sv_released s' = sv_released s \<or>
         t_state row = Launching \<and> (\<exists>grp st n. st \<noteq> [] \<and> runs_as row (leader (t_id r) grp st n) \<and>
         sv_released s' = sv_released s @ [leader (t_id r) grp st n]))"
proof -
  obtain p s1 where l: "run_state (launch W r q) s = (p, s1)" by (metis surj_pair)
  obtain row where row: "appended s0 row s1" "same_request (fst p) row" "same_request row r" "t_state row = t_state r"
    "case snd p of Inl _ \<Rightarrow> sv_released s1 = sv_released s
     | Inr _ \<Rightarrow> \<exists>grp st n. same_process (fst p) row \<and> runs_as row (leader (t_id r) grp st n) \<and> st \<noteq> [] \<and> t_state (fst p) = Running \<and>
         sv_released s1 = sv_released s @ [leader (t_id r) grp st n]"
    using launch_outcome_run [OF new(1) l] unfolding launch_outcome_def by blast
  show ?thesis
  proof (cases "snd p")
    case (Inl e)
    obtain r2 s2 where r2: "run_state (now_ms W \<bind> (\<lambda>now. State_Monad.return
        ((fst p)\<lparr>t_state := FailedToStart, t_detail := Some e, t_ended_at := Some now\<rparr>))) s1 = (r2, s2)" by (metis surj_pair)
    then obtain now where now: "r2 = (fst p)\<lparr>t_state := FailedToStart, t_detail := Some e, t_ended_at := Some now\<rparr>"
      "s2 = s1\<lparr>sv_tick := sv_tick s1 + 1\<rparr>"
      by (auto simp: now_ms_def next_tick_def)
    obtain b s3 where sv: "run_state (save W r2) s2 = (b, s3)" by (metis surj_pair)
    have "same_request r2 (fst p)" by (simp add: now same_request_def write_lifecycle_def)
    then have req: "same_request r2 row" by (rule same_request_trans [OF _ row(2)])
    have new2: "appended s0 row s2" using row(1) by (simp add: now appended_def)
    have a: "s' = s3" "\<exists>e. a = Inl e"
      using run l r2 sv Inl by (auto simp: start_launched_def split: sum.splits)
    have "same_request (fst b) r2" using save_run [OF sv] by blast
    then have "same_request (fst b) r"
      by (rule same_request_trans [OF _ same_request_trans [OF req row(3)]])
    then show ?thesis
      using a save_run [OF sv] appended_save [OF new2 req sv] row(3,4,5) Inl new(2) now
      by (cases "snd b") (auto intro!: exI [of _ "if snd b = Inr () then fst b else row"])
  next
    case (Inr u)
    obtain grp st n where id: "same_process (fst p) row" "runs_as row (leader (t_id r) grp st n)" "st \<noteq> []" "t_state (fst p) = Running"
      "sv_released s1 = sv_released s @ [leader (t_id r) grp st n]"
      using row(5) Inr by auto
    obtain b s2 where sv: "run_state (save W (fst p)) s1 = (b, s2)" by (metis surj_pair)
    have a: "s' = s2" "a = (case snd b of Inl e \<Rightarrow> Inl e | Inr _ \<Rightarrow> Inr (view (fst b)))"
      using run l sv Inr by (cases "snd b", auto simp: start_launched_def)+
    have "same_request (fst b) (fst p)" using save_run [OF sv] by blast
    then have req: "same_request (fst b) r"
      by (rule same_request_trans [OF _ same_request_trans [OF row(2,3)]])
    show ?thesis
    proof (cases "snd b")
      case (Inl e)
      then show ?thesis
        using a appended_save [OF row(1,2) sv] save_run [OF sv] row(3,4) new(2) id by (auto intro!: exI [of _ row])
    next
      case (Inr v)
      then show ?thesis
        using a req appended_save [OF row(1,2) sv] save_run [OF sv] id
        by (auto intro!: exI [of _ "fst b"] exI [of _ grp] exI [of _ st] exI [of _ n] simp: runs_as_def same_process_def)
    qed
  qed
qed

definition owner_active :: "ustring \<Rightarrow> task_store \<Rightarrow> nat" where
  "owner_active owner st = count_where (\<lambda>r. t_owner r = owner \<and> \<not> ended (t_state r)) (st_tasks st)"

lemma count_where_filter: "count_where P (filter Q t) = count_where (\<lambda>r. Q r \<and> P r) t"
  by (induction t) auto

lemma count_where_mset: "mset t = mset u \<Longrightarrow> count_where P t = count_where P u"
proof -
  assume "mset t = mset u"
  then have "size (mset (filter P t)) = size (mset (filter P u))" by simp
  then show ?thesis by (simp only: size_mset count_where_def)
qed

lemma active_count_list: "active_count (store_list (Some owner) st) = owner_active owner st"
proof -
  have "map read_record rs = rs" for rs by (induction rs) auto
  then have "mset (store_list (Some owner) st) = mset (filter (\<lambda>r. t_owner r = owner) (st_tasks st))"
    by (simp add: store_list_def)
  then show ?thesis
    unfolding active_count_def owner_active_def 
    by (subst count_where_mset [of _ "filter (\<lambda>r. t_owner r = owner) (st_tasks st)"]) (auto simp: count_where_filter)
qed

text \<open>The guards of \<open>start\<close>, and what comes after them.\<close>

lemma start_cases:
  assumes "run_state (start W scope q) s = (a, s')"
  obtains (refused) e n where "a = Inl e" "s' = s\<lparr>sv_tick := n\<rparr>" "sv_tick s \<le> n"
  | (inserted) r s1 n k where "s1 = s\<lparr>sv_tick := n, sv_store := (sv_store s)\<lparr>st_tasks := st_tasks (sv_store s) @ [r]\<rparr>\<rparr>"
      "t_id r = lit ''bgt_'' @ w_uuid W k" "sv_tick s \<le> k" "k < n" "validate_start W q = Inr ()" "cs_owner scope \<notin> sv_deleting s"
      "owner_active (cs_owner scope) (sv_store s) < MAX_ACTIVE_TASKS_PER_OWNER"
      "appended s r s1" "t_state r = Launching" "t_owner r = cs_owner scope" "t_run r = cs_run scope"
      "t_command r = sr_command q" "sv_released s1 = sv_released s" "run_state (start_launched W r q) s1 = (a, s')"
proof (cases "validate_start W q = Inr () \<and> cs_owner scope \<notin> sv_deleting s \<and> w_fault W (sv_tick s) = None \<and>
    owner_active (cs_owner scope) (sv_store s) < MAX_ACTIVE_TASKS_PER_OWNER")
  case False
  have "\<exists>e. a = Inl e \<and> (s' = s \<or> s' = s\<lparr>sv_tick := sv_tick s + 1\<rparr>)"
  proof (cases "validate_start W q")
    case (Inl e)
    then show ?thesis using assms by (auto simp: start_def)
  next
    case (Inr u)
    show ?thesis
    proof (cases "cs_owner scope \<in> sv_deleting s")
      case True
      then show ?thesis using assms Inr by (auto simp: start_def fail_with_def)
    next
      case open_owner: False
      show ?thesis
      proof (cases "w_fault W (sv_tick s)")
        case (Some e)
        then show ?thesis
          using assms Inr open_owner by (auto simp: start_def andthen_def with_store_def next_tick_def)
      next
        case None
        then show ?thesis
          using assms Inr open_owner False
          by (auto simp: start_def andthen_def with_store_def next_tick_def modify_def reading_def active_count_list)
      qed
    qed
  qed
  then show ?thesis using refused [of _ "sv_tick s"] refused [of _ "sv_tick s + 1"] by auto
next
  case True
  define t where "t = sv_tick s + 1"
  let ?r = "new_record W scope q (lit ''bgt_'' @ w_uuid W t) (w_clock W (t + 1))"
  let ?s = "s\<lparr>sv_tick := t + 2\<rparr>"
  have listed: "run_state (with_store W (reading (store_list (Some (cs_owner scope))))) s =
      (Inr (store_list (Some (cs_owner scope)) (sv_store s)), s\<lparr>sv_tick := t\<rparr>)"
    using True by (simp add: with_store_run reading_def t_def)
  have run: "run_state (andthen (with_store W (store_insert ?r)) (\<lambda>_. start_launched W ?r q)) ?s = (a, s')"
    using assms True by (simp add: start_def andthen_def listed active_count_list next_tick_def now_ms_def Let_def
        split: prod.splits sum.splits)
  show ?thesis
  proof (cases "w_fault W (t + 2) = None \<and> (\<forall>q \<in> set (st_tasks (sv_store s)). t_id q \<noteq> t_id ?r)")
    case free: True
    let ?s1 = "s\<lparr>sv_tick := t + 3, sv_store := (sv_store s)\<lparr>st_tasks := st_tasks (sv_store s) @ [?r]\<rparr>\<rparr>"
    have st: "store_insert ?r (sv_store s) = Inr ((), (sv_store s)\<lparr>st_tasks := st_tasks (sv_store s) @ [?r]\<rparr>)"
      using free by (auto simp: store_insert_def)
    have "run_state (with_store W (store_insert ?r)) ?s = (Inr (), ?s1)"
      using free st by (simp add: with_store_run)
    then have "run_state (start_launched W ?r q) ?s1 = (a, s')"
      using run by (simp add: andthen_def)
    moreover have "appended s ?r ?s1" using free by (simp add: appended_def)
    ultimately show ?thesis
      using True inserted [where r = ?r and ?s1.0 = ?s1 and n = "t + 3" and k = t] by (simp add: new_record_def t_def)
  next
    case taken: False
    obtain b s2 where b: "run_state (with_store W (store_insert ?r)) ?s = (b, s2)" by (metis surj_pair)
    then have "(\<exists>e. b = Inl e) \<and> s2 = ?s\<lparr>sv_tick := t + 3\<rparr>"
      using taken by (auto simp: with_store_run store_insert_def split: option.splits if_splits)
    then have "\<exists>e. a = Inl e \<and> s' = ?s\<lparr>sv_tick := t + 3\<rparr>"
      using run b by (auto simp: andthen_def)
    then show ?thesis using refused [of _ "t + 3"] by (auto simp: t_def)
  qed
qed

text \<open>C36: What starting a task did.  On success the request was valid, the owner was neither being
  deleted nor at its limit, and the registry has exactly one row more: the caller's, running, with the
  process group and start time of the leader that was released to run the command, and that row is what
  is returned.  An error leaves the registry as it was or with one row that says so; then the command
  never ran, unless only the last write failed and the row still says \<open>launching\<close> with the identity
  that lets it be stopped or adopted.\<close>

theorem start_outcome:
  assumes "run_state (start W scope q) s = (a, s')"
  shows "case a of
      Inr v \<Rightarrow> validate_start W q = Inr () \<and> cs_owner scope \<notin> sv_deleting s \<and>
        (\<exists>r grp st n. v = view r \<and> appended s r s' \<and> t_owner r = cs_owner scope \<and> t_run r = cs_run scope \<and>
          t_command r = sr_command q \<and> t_state r = Running \<and> t_process_id r = Some grp \<and> t_process_start r = Some st \<and> st \<noteq> [] \<and>
          sv_released s' = sv_released s @ [leader (t_id r) grp st n])
    | Inl e \<Rightarrow> st_receipts (sv_store s') = st_receipts (sv_store s) \<and>
        (st_tasks (sv_store s') = st_tasks (sv_store s) \<and> sv_released s' = sv_released s \<or>
         (\<exists>r. appended s r s' \<and> t_owner r = cs_owner scope \<and> t_state r \<in> {Launching, FailedToStart} \<and>
            (sv_released s' = sv_released s \<or>
             (\<exists>grp st n. t_state r = Launching \<and> t_process_id r = Some grp \<and> t_process_start r = Some st \<and>
               sv_released s' = sv_released s @ [leader (t_id r) grp st n]))))"
  using assms
proof (cases rule: start_cases)
  case (refused e)
  then show ?thesis by (auto simp: quiet_def)
next
  case (inserted r s1)
  obtain row where row: "appended s row s'" "same_request row r"
    "case a of Inr v \<Rightarrow> v = view row \<and> t_state row = Running \<and> (\<exists>grp st n. st \<noteq> [] \<and> runs_as row (leader (t_id r) grp st n) \<and>
         sv_released s' = sv_released s1 @ [leader (t_id r) grp st n])
     | Inl _ \<Rightarrow> t_state row \<in> {Launching, FailedToStart} \<and> sv_released s' = sv_released s1 \<or>
         t_state row = Launching \<and> (\<exists>grp st n. st \<noteq> [] \<and> runs_as row (leader (t_id r) grp st n) \<and>
         sv_released s' = sv_released s1 @ [leader (t_id r) grp st n])"
    using start_launched_outcome [OF inserted(8,9,14)] by blast
  then show ?thesis
    using inserted same_request_fields [OF row(2)]
    by (cases a) (auto simp: runs_as_def appended_def)
qed

lemma start_outcome_witness:
  "\<exists>r. st_tasks (sv_store started) = [r] \<and> t_state r = Running \<and> t_process_id r = Some 7"
proof -
  have run: "run_state (start task_world task_scope task_request) first_service =
      (fst (run_state (start task_world task_scope task_request) first_service), started)"
    by (simp add: started_def)
  from start_outcome [OF run] show ?thesis
    using started_released started_result
    by (auto simp: appended_def first_service_def empty_store_def split: sum.splits)
qed

end
