(* ===== verification/Task_Relations.thy ===== *)
theory Task_Relations
  imports Task_Guarantees
begin

text \<open>
  The contract a relation between states of the background task service must meet to be respected by
  every operation, and so by every history: it is closed under the few writes the operations make.
  Histories in which a deletion may be abandoned only for the owners \<open>L\<close> are covered as well.
\<close>

locale service_relation = service_frame +
  fixes W :: world and L :: "ustring set"
  assumes rel_update: "store_update r (sv_store s) = Inr (u, st) \<Longrightarrow> R s (s\<lparr>sv_store := st\<rparr>)"
    and rel_remove: "R s (s\<lparr>sv_store := store_remove r (sv_store s)\<rparr>)"
    and rel_insert: "sv_tick s \<le> k \<Longrightarrow> k < n \<Longrightarrow> t_id r = lit ''bgt_'' @ w_uuid W k \<Longrightarrow> t_owner r \<notin> sv_deleting s \<Longrightarrow>
      owner_active (t_owner r) (sv_store s) < MAX_ACTIVE_TASKS_PER_OWNER \<Longrightarrow> t_state r = Launching \<Longrightarrow>
      (\<forall>q \<in> set (st_tasks (sv_store s)). t_id q \<noteq> t_id r) \<Longrightarrow>
      R s (s\<lparr>sv_tick := n, sv_store := (sv_store s)\<lparr>st_tasks := st_tasks (sv_store s) @ [r]\<rparr>\<rparr>)"
    and rel_spawn: "R s (s\<lparr>sv_spawned := sv_spawned s @ [x]\<rparr>)"
    and rel_release: "R s (s\<lparr>sv_released := sv_released s @ [y]\<rparr>)"
    and rel_exits: "R s (s\<lparr>sv_exits := e\<rparr>)"
    and rel_stopping: "R s (s\<lparr>sv_stopping := z\<rparr>)"
    and rel_fence: "R s (s\<lparr>sv_deleting := insert owner (sv_deleting s)\<rparr>)"
    and rel_lift: "owner \<in> L \<Longrightarrow> R s (s\<lparr>sv_deleting := sv_deleting s - {owner}\<rparr>)"
    and rel_processes: "R s (set_processes ps s)"
begin

lemma rel_save: "keeps R (save W r)"
  unfolding save_def Let_def
  by (intro keeps_program keeps_operations keeps_with_store) (rule rel_update)

lemma rel_remove_task: "keeps R (remove_task W r)"
  unfolding remove_task_def
  by (intro keeps_program keeps_operations keeps_with_store keeps_modify rel_exits) (auto simp: writing_def rel_remove)

lemmas rel_operations = keeps_program keeps_operations keeps_modify rel_save rel_remove_task

lemma rel_dismiss: "keeps R (dismiss W scope i)"
  unfolding dismiss_def by (intro rel_operations)

lemma rel_launch: "keeps R (start_launched W r q)"
  unfolding start_launched_def launch_def open_log_def spawn_leader_def identify_def open_gate_def release_def
  by (intro rel_operations rel_spawn rel_release)

lemma rel_start: "run_state (start W scope q) s = (a, s') \<Longrightarrow> R s s'"
proof (erule start_cases)
  fix r s1 n k
  assume s1: "s1 = s\<lparr>sv_tick := n, sv_store := (sv_store s)\<lparr>st_tasks := st_tasks (sv_store s) @ [r]\<rparr>\<rparr>"
    and guards: "sv_tick s \<le> k" "k < n" "t_id r = lit ''bgt_'' @ w_uuid W k" "cs_owner scope \<notin> sv_deleting s"
      "owner_active (cs_owner scope) (sv_store s) < MAX_ACTIVE_TASKS_PER_OWNER" "t_state r = Launching" "t_owner r = cs_owner scope"
      "appended s r s1"
    and run: "run_state (start_launched W r q) s1 = (a, s')"
  have "R s s1" unfolding s1 by (rule rel_insert) (use guards in \<open>auto simp: appended_def\<close>)
  then show "R s s'" using keepsD [OF rel_launch run] by (rule frame_trans)
qed (simp add: frame_tick)

lemma rel_stop_begin: "keeps R (stop_begin W i reason)"
  unfolding stop_begin_def by (intro rel_operations rel_stopping)

lemma rel_stop_finish: "keeps R (stop_finish W r)"
  unfolding stop_finish_def Let_def by (intro rel_operations rel_stopping)

lemma rel_mark: "keeps R (mark_owner_deleted W owner d)"
  unfolding mark_owner_deleted_def by (intro rel_operations)

lemma rel_begin_deletion: "keeps R (begin_owner_deletion W owner)"
  unfolding begin_owner_deletion_def by (intro rel_operations rel_mark rel_fence)

lemma rel_abort_deletion: "owner \<in> L \<Longrightarrow> keeps R (abort_owner_deletion W owner)"
  unfolding abort_owner_deletion_def by (intro rel_operations rel_mark rel_lift)

lemma rel_cleanup: "keeps R (cleanup_ended W r)"
  unfolding cleanup_ended_def by (intro rel_operations)

lemma rel_settle: "keeps R (settle_exit W i x)"
  unfolding settle_exit_def Let_def by (intro rel_operations)

lemma rel_update_observed: "keeps R (update_observed W i expected change)"
  unfolding update_observed_def by (intro rel_operations)

lemma rel_reap: "keeps R (reap_leader W i x)"
  unfolding reap_leader_def by (intro rel_operations rel_exits)

lemma rel_reconcile_state: "keeps R (reconcile_state W T r)"
  unfolding reconcile_state_def reconcile_launch_def reconcile_running_def
  by (cases "t_state r"; simp only: task_state.case ended.simps if_True if_False; intro rel_operations)

lemma rel_reconcile_record: "keeps R (reconcile_record W T stops r)"
  unfolding reconcile_record_def Let_def by (intro rel_operations rel_reconcile_state)

lemma rel_reconcile_records: "keeps R (reconcile_records W T stops rs)"
  by (induction rs arbitrary: stops) (auto intro!: rel_operations rel_reconcile_record)

lemma rel_reconcile: "keeps R (reconcile W)"
  unfolding reconcile_def by (intro rel_operations rel_reconcile_records)

text \<open>A step keeps the relation, restarts the service or abandons the deletion of an owner outside \<open>L\<close>.\<close>

lemma rel_step:
  assumes "task_step W c c'"
  shows "R (su_service c) (su_service c') \<or> su_service c' = restart (su_service c) \<or>
    (\<exists>owner u. owner \<notin> L \<and> run_state (abort_owner_deletion W owner) (su_service c) = (u, su_service c'))"
  using assms
proof cases
  case (step_abort_deletion owner u s)
  then show ?thesis using keepsD [OF rel_abort_deletion] by (cases "owner \<in> L") auto
qed (auto intro: rel_start rel_processes dest: keepsD [OF rel_dismiss] keepsD [OF keeps_reading] keepsD [OF rel_stop_begin]
    keepsD [OF keeps_terminate_task] keepsD [OF rel_stop_finish] keepsD [OF rel_begin_deletion] keepsD [OF rel_cleanup]
    keepsD [OF keeps_observe_processes] keepsD [OF rel_settle] keepsD [OF rel_update_observed] keepsD [OF rel_reap]
    keepsD [OF keeps_collect_diagnostics] keepsD [OF keeps_capture] keepsD [OF rel_reconcile])

text \<open>Where nothing is abandoned outside \<open>L\<close> and restarts keep the relation too, histories do.\<close>

lemma rel_history:
  assumes "(task_step W)\<^sup>*\<^sup>* c c'" "L = UNIV" "\<And>s. R s (restart s)"
  shows "R (su_service c) (su_service c')"
  using assms(1)
proof induction
  case (step c1 c2)
  have "R (su_service c1) (su_service c2)" using rel_step [OF step(2)] assms(2,3) by auto
  with step.IH show ?case by (rule frame_trans)
qed (rule frame_refl)

end

end
