(* ===== verification/Task_Contracts.thy ===== *)
theory Task_Contracts
  imports Task_Relations
begin

text \<open>
  What holds along every history of the background task service: a deleted owner gets no task, records
  keep what was requested and are never forgotten, logs are unlinked by generated names only, and
  starting stays within its limits.
\<close>

section \<open>Deleted owners\<close>

definition owned :: "ustring \<Rightarrow> task_store \<Rightarrow> ustring set" where
  "owned owner st = {i. (i, owner) \<in> set (map (\<lambda>r. (t_id r, t_owner r)) (st_tasks st))}"

lemma owned_iff: "i \<in> owned owner st \<longleftrightarrow> (\<exists>r \<in> set (st_tasks st). t_id r = i \<and> t_owner r = owner)"
  by (force simp: owned_def)

definition fenced :: "ustring \<Rightarrow> service \<Rightarrow> service \<Rightarrow> bool" where
  "fenced owner s s' \<longleftrightarrow> owner \<in> sv_deleting s \<longrightarrow>
     owner \<in> sv_deleting s' \<and> owned owner (sv_store s') \<subseteq> owned owner (sv_store s)"

lemma owned_update: "store_update r st = Inr (u, st') \<Longrightarrow> owned owner st' = owned owner st"
  by (auto simp: owned_def store_update_def map_update_where_key simp del: set_map split: if_splits)

lemma owned_writes: "owned owner (store_remove r st) \<subseteq> owned owner st" "owned owner (store_track i tr st) = owned owner st"
  "owned owner (st\<lparr>st_processes := ps\<rparr>) = owned owner st"
  "owned owner (st\<lparr>st_tasks := st_tasks st @ [r]\<rparr>) = (if t_owner r = owner then insert (t_id r) (owned owner st) else owned owner st)"
  by (auto simp: owned_def store_remove_def store_track_def)

interpretation fence: service_relation "fenced owner" W "- {owner}" for owner W
proof unfold_locales
  show "fenced owner s s''" if "fenced owner s s'" "fenced owner s' s''" for s s' s''
    using that by (auto simp: fenced_def)
  show "fenced owner s (s\<lparr>sv_tick := n, sv_store := (sv_store s)\<lparr>st_tasks := st_tasks (sv_store s) @ [r]\<rparr>\<rparr>)"
    if "t_owner r \<notin> sv_deleting s" for s n r
    using that by (auto simp: fenced_def owned_writes)
qed (simp_all add: fenced_def owned_update owned_writes set_processes_def)

interpretation deletions: service_frame "\<lambda>s s'. sv_deleting s' = sv_deleting s"
  by unfold_locales auto

lemma abort_lifts: "run_state (abort_owner_deletion W owner) s = (u, s') \<Longrightarrow> sv_deleting s' = sv_deleting s - {owner}"
proof -
  have "keeps (\<lambda>s s'. sv_deleting s' = sv_deleting s) (mark_owner_deleted W owner None)"
    unfolding mark_owner_deleted_def save_def Let_def
    by (intro deletions.keeps_program deletions.keeps_operations deletions.keeps_with_store) simp
  then show "run_state (abort_owner_deletion W owner) s = (u, s') \<Longrightarrow> sv_deleting s' = sv_deleting s - {owner}"
    by (auto simp: abort_owner_deletion_def modify_def dest: keepsD)
qed

text \<open>C21: While an owner is being deleted it gets no task.  Along every history in which the deletion of
  the owner is neither abandoned nor forgotten by a restart of the runtime, whatever is started, stopped
  or reconciled meanwhile, every task record of the owner was there when the deletion began.\<close>

theorem deleted_owner_starts_nothing:
  assumes "(\<lambda>c c'. task_step W c c' \<and> owner \<in> sv_deleting (su_service c'))\<^sup>*\<^sup>* c c'"
    and "owner \<in> sv_deleting (su_service c)"
    and "r \<in> set (st_tasks (sv_store (su_service c')))" "t_owner r = owner"
  shows "\<exists>q \<in> set (st_tasks (sv_store (su_service c))). t_id q = t_id r \<and> t_owner q = owner"
proof -
  have "owner \<in> sv_deleting (su_service c') \<and> fenced owner (su_service c) (su_service c')"
    using assms(1)
  proof induction
    case (step c1 c2)
    have "fenced owner (su_service c1) (su_service c2)"
      using fence.rel_step [of W c1 c2 owner] step(2) by (auto simp: restart_def dest: abort_lifts)
    with step show ?case by (blast intro: fence.frame_trans)
  qed (simp add: assms(2) fence.frame_refl)
  then show ?thesis using assms unfolding fenced_def subset_iff owned_iff by blast
qed

lemma deleted_owner_starts_nothing_witness:
  "\<exists>q \<in> set (st_tasks (sv_store started)). t_id q = lit ''bgt_'' @ show_nat 1 \<and> t_owner q = [111]"
proof -
  let ?c = "first_supervisor\<lparr>su_service := started\<lparr>sv_deleting := {[111]}\<rparr>\<rparr>"
  have "task_step task_world ?c (?c\<lparr>su_service := set_processes [] (su_service ?c)\<rparr>)" by (rule step_processes)
  then have run: "(\<lambda>c c'. task_step task_world c c' \<and> [111] \<in> sv_deleting (su_service c'))\<^sup>*\<^sup>* ?c
      (?c\<lparr>su_service := set_processes [] (su_service ?c)\<rparr>)"
    by (intro r_into_rtranclp) (simp add: set_processes_def)
  obtain r where "r \<in> set (st_tasks (sv_store started))" "t_id r = lit ''bgt_'' @ show_nat 1" "t_owner r = [111]"
    using started_row by fastforce
  then show ?thesis
    using deleted_owner_starts_nothing [OF run, of r] by (simp add: set_processes_def)
qed

section \<open>Records\<close>

text \<open>Rows keep their request or leave a receipt; receipts stay, and identities are not used again.\<close>

definition survives :: "service \<Rightarrow> task_record \<Rightarrow> service \<Rightarrow> bool" where
  "survives s r s' \<longleftrightarrow> (\<exists>r' \<in> set (st_tasks (sv_store s')). same_request r' r) \<or>
     store_get (t_id r) (sv_store s') = None \<and> store_receipt (t_id r) (sv_store s') \<noteq> None"

definition remembers :: "world \<Rightarrow> service \<Rightarrow> service \<Rightarrow> bool" where
  "remembers W s s' \<longleftrightarrow>
     sv_tick s \<le> sv_tick s' \<and>
     (\<forall>i rc. store_receipt i (sv_store s) = Some rc \<longrightarrow> store_receipt i (sv_store s') = Some rc) \<and>
     (inj (w_uuid W) \<longrightarrow>
        (\<forall>i. issued W s i \<longrightarrow> store_get i (sv_store s) = None \<longrightarrow> store_get i (sv_store s') = None) \<and>
        (\<forall>r \<in> set (st_tasks (sv_store s)). issued W s (t_id r) \<longrightarrow> survives s r s'))"

lemma survives_row: "r' \<in> set (st_tasks (sv_store s')) \<Longrightarrow> same_request r' r \<Longrightarrow> survives s r s'"
  by (auto simp: survives_def)

lemma survives_trans:
  assumes "survives s r s'" "remembers W s' s''" "inj (w_uuid W)" "issued W s' (t_id r)"
  shows "survives s r s''"
proof -
  consider r' where "r' \<in> set (st_tasks (sv_store s'))" "same_request r' r"
    | rc where "store_get (t_id r) (sv_store s') = None" "store_receipt (t_id r) (sv_store s') = Some rc"
    using assms(1) unfolding survives_def by blast
  then show ?thesis
  proof cases
    case 1
    then have "t_id r' = t_id r" by (simp add: same_request_def)
    then have "survives s' r' s''" using 1 assms(2-4) by (simp add: remembers_def)
    then show ?thesis
      using 1 \<open>t_id r' = t_id r\<close> unfolding survives_def by (auto intro: same_request_trans)
  next
    case 2
    then have "store_receipt (t_id r) (sv_store s'') = Some rc" "store_get (t_id r) (sv_store s'') = None"
      using assms(2-4) unfolding remembers_def by blast+
    then show ?thesis by (simp add: survives_def)
  qed
qed

lemma remembers_trans:
  assumes "remembers W s s'" "remembers W s' s''"
  shows "remembers W s s''"
proof -
  have later: "issued W s' i" if "issued W s i" for i
    using that assms(1) issued_later by (auto simp: remembers_def)
  have "survives s r s''" if "inj (w_uuid W)" "r \<in> set (st_tasks (sv_store s))" "issued W s (t_id r)" for r
    by (rule survives_trans [OF _ assms(2) that(1) later [OF that(3)]]) (use assms(1) that in \<open>simp add: remembers_def\<close>)
  then show ?thesis
    using assms later unfolding remembers_def by auto
qed

lemma remembers_same: "st_tasks (sv_store s') = st_tasks (sv_store s) \<Longrightarrow> st_receipts (sv_store s') = st_receipts (sv_store s) \<Longrightarrow>
    sv_tick s \<le> sv_tick s' \<Longrightarrow> remembers W s s'"
  by (auto simp: remembers_def store_receipt_def store_get_def intro: survives_row same_request_refl)

lemma remembers_update:
  assumes "store_update r (sv_store s) = Inr (u, st)"
  shows "remembers W s (s\<lparr>sv_store := st\<rparr>)"
proof -
  have st: "st = (sv_store s)\<lparr>st_tasks := update_where (\<lambda>q. t_id q = t_id r) (write_lifecycle r) (st_tasks (sv_store s))\<rparr>"
    using assms by (auto simp: store_update_def split: if_splits)
  have "survives s q (s\<lparr>sv_store := st\<rparr>)" if "q \<in> set (st_tasks (sv_store s))" for q
  proof (cases "t_id q = t_id r")
    case True
    then show ?thesis
      using that by (intro survives_row [where r' = "write_lifecycle r q"])
        (auto simp: st set_update_where same_request_def write_lifecycle_def)
  next
    case False
    then show ?thesis using that by (intro survives_row [where r' = q]) (auto simp: st set_update_where)
  qed
  moreover have "map t_id (st_tasks st) = map t_id (st_tasks (sv_store s))"
    by (simp add: st map_update_where_key)
  then have "store_get i st = None \<longleftrightarrow> store_get i (sv_store s) = None" for i
    by (metis image_iff list.set_map store_get_None)
  ultimately show ?thesis by (simp add: remembers_def store_receipt_def st)
qed

lemma remembers_remove: "remembers W s (s\<lparr>sv_store := store_remove r (sv_store s)\<rparr>)"
proof -
  have "store_receipt i (store_remove r (sv_store s)) = Some rc" if "store_receipt i (sv_store s) = Some rc" for i rc
    using that by (auto simp: store_receipt_def store_remove_def find_append)
  moreover have "survives s q (s\<lparr>sv_store := store_remove r (sv_store s)\<rparr>)" if "q \<in> set (st_tasks (sv_store s))" for q
  proof (cases "t_id q = t_id r")
    case True
    then show ?thesis
      by (auto simp: survives_def store_receipt_def store_remove_def find_append exists_where_iff find_None_set
          store_get_None set_delete_where split: option.splits)
  next
    case False
    then show ?thesis using that by (intro survives_row [where r' = q]) (auto simp: store_remove_def set_delete_where)
  qed
  ultimately show ?thesis by (auto simp: remembers_def store_get_None store_remove_def set_delete_where)
qed

lemma remembers_insert:
  assumes "sv_tick s \<le> k" "k < n" "t_id r = lit ''bgt_'' @ w_uuid W k"
  shows "remembers W s (s\<lparr>sv_tick := n, sv_store := (sv_store s)\<lparr>st_tasks := st_tasks (sv_store s) @ [r]\<rparr>\<rparr>)"
proof -
  have "i \<noteq> t_id r" if "issued W s i" "inj (w_uuid W)" for i
    using that assms by (auto simp: issued_def inj_eq)
  then show ?thesis
    using assms by (auto simp: remembers_def store_receipt_def store_get_None intro: survives_row same_request_refl)
qed

interpretation memory: service_relation "remembers W" W UNIV for W
proof unfold_locales
  show "remembers W s s''" if "remembers W s s'" "remembers W s' s''" for s s' s''
    using that by (rule remembers_trans)
qed (auto intro: remembers_same remembers_update remembers_remove remembers_insert
    simp: store_track_def set_processes_def)

text \<open>C14: A task record is never forgotten and never rewritten.  Along every history, across restarts
  and failing writes, a recorded task keeps its owner, run, command and every other column a client
  asked for; its record can only go when a receipt takes its place, and then the receipt stays and the
  identity never names a task again.\<close>

theorem task_record_frozen:
  assumes "inj (w_uuid W)" "(task_step W)\<^sup>*\<^sup>* first_supervisor c" "(task_step W)\<^sup>*\<^sup>* c c'"
    and "store_get i (sv_store (su_service c)) = Some r"
  shows "(\<exists>r'. store_get i (sv_store (su_service c')) = Some r' \<and> same_request r' r) \<or>
    (\<exists>rc. store_get i (sv_store (su_service c')) = None \<and> (\<forall>c''. (task_step W)\<^sup>*\<^sup>* c' c'' \<longrightarrow>
       store_get i (sv_store (su_service c'')) = None \<and> store_receipt i (sv_store (su_service c'')) = Some rc))"
proof -
  have restart: "remembers W s (restart s)" for s by (simp add: remembers_same restart_def)
  have history: "remembers W (su_service d) (su_service d')" if "(task_step W)\<^sup>*\<^sup>* d d'" for d d'
    by (rule memory.rel_history [OF that]) (simp_all add: restart)
  have reach: "(task_step W)\<^sup>*\<^sup>* first_supervisor c'" using assms(2,3) by (rule rtranclp_trans)
  have sound: "sound W (held d) (held_evidence d) (su_service d)" if "(task_step W)\<^sup>*\<^sup>* first_supervisor d" for d
    using supervised_run [OF assms(1) that] by (simp add: supervised_def)
  have row: "r \<in> set (st_tasks (sv_store (su_service c)))" "t_id r = i"
    using store_get_Some [OF assms(4)] by simp_all
  then have "issued W (su_service c) i" using row_known [OF sound [OF assms(2)]] by blast
  then have issued: "issued W (su_service c') i"
    using history [OF assms(3)] by (auto simp: remembers_def intro: issued_later)
  have "survives (su_service c) r (su_service c')"
    using history [OF assms(3)] row \<open>issued W (su_service c) i\<close> assms(1) by (simp add: remembers_def)
  then consider r' where "r' \<in> set (st_tasks (sv_store (su_service c')))" "same_request r' r"
    | rc where "store_get i (sv_store (su_service c')) = None" "store_receipt i (sv_store (su_service c')) = Some rc"
    using row unfolding survives_def by blast
  then show ?thesis
  proof cases
    case 1
    then have "store_get i (sv_store (su_service c')) = Some r'"
      using sound [OF reach] row by (simp add: store_get_iff sound_def same_request_def)
    then show ?thesis using 1 by blast
  next
    case 2
    then show ?thesis using issued assms(1) history unfolding remembers_def by blast
  qed
qed


lemma task_record_frozen_witness:
  "\<exists>r r'. store_get (lit ''bgt_'' @ show_nat 1) (sv_store started) = Some r \<and>
     store_get (lit ''bgt_'' @ show_nat 1) (sv_store (restart started)) = Some r' \<and> same_request r' r"
proof -
  let ?c = "first_supervisor\<lparr>su_service := started\<rparr>"
  have step: "(task_step task_world)\<^sup>*\<^sup>* ?c (first_supervisor\<lparr>su_service := restart started\<rparr>)"
    using step_restart [of task_world ?c] by (intro r_into_rtranclp) (simp add: first_supervisor_def)
  obtain r where r: "store_get (lit ''bgt_'' @ show_nat 1) (sv_store started) = Some r"
    using started_row by (fastforce simp: store_get_def)
  show ?thesis
    using task_record_frozen [OF task_world_inj started_reached step, of "lit ''bgt_'' @ show_nat 1" r] r started_receipts
    by (auto simp: restart_def store_receipt_def)
qed

section \<open>Logs\<close>

definition log_name :: "ustring \<Rightarrow> bool" where
  "log_name n \<longleftrightarrow> (\<exists>i. plain_id i \<and> (n = i @ lit ''.log'' \<or> n = i @ lit ''.log.1''))"

definition unlinks :: "service \<Rightarrow> service \<Rightarrow> bool" where
  "unlinks s s' \<longleftrightarrow> (\<forall>n \<in> set (sv_unlinked s'). n \<in> set (sv_unlinked s) \<or> log_name n)"

interpretation unlinking: service_relation unlinks W UNIV for W
  by unfold_locales (auto simp: unlinks_def log_name_def set_processes_def)

text \<open>Deleting diagnostics cannot reach outside the log directory.  Whatever the registry, its
  receipts or the log directory contain, every file the service ever unlinks has the name of one of the
  two logs of a generated task identity, which starts with \<open>bgt_\<close> and contains no path separator.\<close>

theorem unlinked_names_generated:
  assumes "(task_step W)\<^sup>*\<^sup>* first_supervisor c" "n \<in> set (sv_unlinked (su_service c))"
  shows "(\<exists>i. n = i @ lit ''.log'' \<or> n = i @ lit ''.log.1'') \<and> prefix (lit ''bgt_'') n \<and>
    (\<forall>x \<in> set n. is_alnum_ascii x \<or> x = 95 \<or> x = 46) \<and> 47 \<notin> set n"
proof -
  have "unlinks (su_service first_supervisor) (su_service c)"
    by (rule unlinking.rel_history [OF assms(1)]) (simp_all add: unlinks_def restart_def)
  then obtain i where i: "plain_id i" "n = i @ lit ''.log'' \<or> n = i @ lit ''.log.1''"
    using assms(2) by (auto simp: unlinks_def first_supervisor_def first_service_def log_name_def)
  have "\<forall>x \<in> set i. is_alnum_ascii x \<or> x = 95 \<or> x = 46"
    using i(1) by (auto simp: plain_id_def list_all_iff)
  then have "\<forall>x \<in> set n. is_alnum_ascii x \<or> x = 95 \<or> x = 46"
    using i(2) by (elim disjE) (simp_all add: ball_Un lit_def is_alnum_ascii_def)
  moreover have "prefix (lit ''bgt_'') n"
    using i by (auto simp: plain_id_def)
  moreover have "47 \<notin> set n"
    using calculation(1) by (auto simp: is_alnum_ascii_def)
  ultimately show ?thesis using i(2) by blast
qed

text \<open>A task that failed to start because its log could not be opened, and its dismissal.\<close>

definition unlogged_world :: world where
  "unlogged_world = task_world\<lparr>w_log_error := (\<lambda>_. Some [])\<rparr>"

definition unlogged :: service where
  "unlogged = snd (run_state (start unlogged_world task_scope task_request) first_service)"

definition dismissed :: service where
  "dismissed = snd (run_state (dismiss unlogged_world None (lit ''bgt_'' @ show_nat 1)) unlogged)"

lemma show_one: "show_nat (Suc 0) = [49]"
  by (subst show_nat.simps) simp

lemma dismissed_unlinked: "lit ''bgt_1.log'' \<in> set (sv_unlinked dismissed)"
proof -
  have "validate_start unlogged_world task_request = validate_start task_world task_request"
    by (simp add: validate_start_def unlogged_world_def)
  then have "validate_start unlogged_world task_request = Inr ()" by (simp only: task_valid)
  then show ?thesis
    unfolding dismissed_def unlogged_def start_def
    by (simp add: start_defs unlogged_world_def dismiss_def write_lifecycle_def store_get_def confirm_gone_def
      observe_processes_def tp_empty_def no_processes_def remove_task_def writing_def purge_logs_def show_one is_alnum_ascii_def
      lit_def)
qed

lemma unlinked_names_generated_witness:
  "prefix (lit ''bgt_'') (lit ''bgt_1.log'') \<and> 47 \<notin> set (lit ''bgt_1.log'')"
proof -
  let ?c = "first_supervisor\<lparr>su_service := unlogged\<rparr>" and ?d = "first_supervisor\<lparr>su_service := dismissed\<rparr>"
  have "run_state (start unlogged_world task_scope task_request) (su_service first_supervisor) =
      (fst (run_state (start unlogged_world task_scope task_request) first_service), unlogged)"
    by (simp add: unlogged_def first_supervisor_def)
  then have "task_step unlogged_world first_supervisor ?c" by (rule step_start)
  moreover have "run_state (dismiss unlogged_world None (lit ''bgt_'' @ show_nat 1)) (su_service ?c) =
      (fst (run_state (dismiss unlogged_world None (lit ''bgt_'' @ show_nat 1)) unlogged), dismissed)"
    by (simp add: dismissed_def)
  then have "task_step unlogged_world ?c (?c\<lparr>su_service := dismissed\<rparr>)" by (rule step_dismiss)
  ultimately have "(task_step unlogged_world)\<^sup>*\<^sup>* first_supervisor (?c\<lparr>su_service := dismissed\<rparr>)" by simp
  from unlinked_names_generated [OF this, of "lit ''bgt_1.log''"] show ?thesis using dismissed_unlinked by simp
qed

section \<open>Limits\<close>

text \<open>C20: Starting stays within its limits.  Without a valid request, for an owner that is being deleted
  or that holds 32 tasks which have not ended, nothing happens but an error: no record is written and
  nothing is spawned or released.  A start never takes any owner above its limit.\<close>

theorem start_within_limits:
  assumes run: "run_state (start W scope q) s = (a, s')"
  shows "(isl (validate_start W q) \<or> cs_owner scope \<in> sv_deleting s \<or>
       MAX_ACTIVE_TASKS_PER_OWNER \<le> owner_active (cs_owner scope) (sv_store s) \<longrightarrow>
       isl a \<and> (\<exists>n. s' = s\<lparr>sv_tick := n\<rparr>)) \<and>
    owner_active owner (sv_store s') \<le> max (owner_active owner (sv_store s)) MAX_ACTIVE_TASKS_PER_OWNER"
  using run
proof (cases rule: start_cases)
  case (inserted r s1)
  obtain row where "appended s row s'" "same_request row r"
    using start_launched_outcome [OF inserted(8,9,14)] by blast
  then have "t_owner row = cs_owner scope" "st_tasks (sv_store s') = st_tasks (sv_store s) @ [row]"
    using inserted(10) same_request_fields by (auto simp: appended_def)
  then have "owner_active owner (sv_store s') \<le> owner_active owner (sv_store s) + (if owner = cs_owner scope then 1 else 0)"
    by (simp add: owner_active_def count_where_def)
  then show ?thesis using inserted(5,6,7) by (cases "owner = cs_owner scope") auto
qed auto

lemma start_within_limits_witness:
  "isl (fst (run_state (start task_world task_scope task_request) (started\<lparr>sv_deleting := {[111]}\<rparr>)))"
proof -
  let ?s = "started\<lparr>sv_deleting := {[111]}\<rparr>"
  obtain a s' where run: "run_state (start task_world task_scope task_request) ?s = (a, s')" by fastforce
  have "cs_owner task_scope = [111]" by (simp add: task_scope_def)
  then show ?thesis using start_within_limits [OF run, of "[]"] run by simp
qed

end
