(* ===== verification/Task_Outcomes.thy ===== *)
theory Task_Outcomes
  imports Task_Guarantees
begin

text \<open>
  What single operations of the background task service promise their callers: a task that is not the
  caller's looks like one that never was, a stop says what it saw, waiting ends, and reconciliation
  leaves no task in the middle of a launch or a stop.
\<close>

section \<open>Access\<close>

definition accessible :: "caller_scope \<Rightarrow> ustring \<Rightarrow> task_store \<Rightarrow> bool" where
  "accessible scope i st \<longleftrightarrow>
     (case store_get i st of
        Some r \<Rightarrow> may_access scope r
      | None \<Rightarrow> (case store_receipt i st of None \<Rightarrow> False | Some rc \<Rightarrow> receipt_access (Some scope) rc))"

definition denied :: "world \<Rightarrow> ustring \<Rightarrow> (ustring + 'a) svc \<Rightarrow> service \<Rightarrow> bool" where
  "denied W i m s \<longleftrightarrow> (\<exists>e n. run_state m s = (Inl e, s\<lparr>sv_tick := n\<rparr>) \<and>
     (e = unknown_task i \<or> (\<exists>t f. w_fault W t = Some f \<and> e = store_failure f)))"

text \<open>C27: An inaccessible task is reported exactly like a missing one.  A caller asking for, stopping,
  acknowledging or dismissing a task whose record, or receipt when the record is gone, does not belong
  to its session and run is told that the task is unknown, unless the registry itself fails, and nothing
  at all changes: no signal, no stop, no write.\<close>

theorem inaccessible_like_missing:
  assumes "\<not> accessible scope i (sv_store s)"
  shows "denied W i (authorized W scope i) s \<and> denied W i (stop_for W scope i grace) s \<and>
    denied W i (dismiss W (Some scope) i) s \<and> denied W i (stop_ack W (Some scope) i grace) s"
proof -
  note run = andthen_def with_store_def next_tick_def modify_def reading_def
  have "\<exists>e. run_state (authorized W scope i) s = (Inl e, s\<lparr>sv_tick := sv_tick s + 1\<rparr>) \<and>
      (e = unknown_task i \<or> (\<exists>f. w_fault W (sv_tick s) = Some f \<and> e = store_failure f))"
    using assms by (cases "w_fault W (sv_tick s)") (auto simp: authorized_def accessible_def run split: option.splits)
  then obtain e where e: "run_state (authorized W scope i) s = (Inl e, s\<lparr>sv_tick := sv_tick s + 1\<rparr>)"
    "e = unknown_task i \<or> (\<exists>f. w_fault W (sv_tick s) = Some f \<and> e = store_failure f)"
    by blast
  have dismissed: "denied W i (dismiss W (Some scope) i) (s\<lparr>sv_tick := n\<rparr>)" for n
    using assms
    by (auto simp: denied_def dismiss_def accessible_def run split: option.splits)
  show ?thesis
  proof (intro conjI)
    show "denied W i (authorized W scope i) s"
      unfolding denied_def by (intro exI [of _ e] exI [of _ "sv_tick s + 1"]) (use e in auto)
    show "denied W i (stop_for W scope i grace) s"
      unfolding denied_def stop_for_def andthen_def
      by (intro exI [of _ e] exI [of _ "sv_tick s + 1"]) (use e in auto)
    show "denied W i (dismiss W (Some scope) i) s" using dismissed [of "sv_tick s"] by simp
    show "denied W i (stop_ack W (Some scope) i grace) s"
      using dismissed [of "sv_tick s + 1"] by (simp add: stop_ack_def denied_def e)
  qed
qed

lemma inaccessible_like_missing_witness:
  "denied task_world (lit ''bgt_'' @ show_nat 1)
     (dismiss task_world (Some (task_scope\<lparr>cs_owner := [112]\<rparr>)) (lit ''bgt_'' @ show_nat 1)) started"
proof -
  obtain r where "store_get (lit ''bgt_'' @ show_nat 1) (sv_store started) = Some r" "t_owner r = [111]"
    using started_row by (fastforce simp: store_get_def)
  then have "\<not> accessible (task_scope\<lparr>cs_owner := [112]\<rparr>) (lit ''bgt_'' @ show_nat 1) (sv_store started)"
    by (simp add: accessible_def may_access_def)
  from inaccessible_like_missing [OF this] show ?thesis by blast
qed

section \<open>Stopping\<close>

lemma store_get_update:
  "store_update r st = Inr (u, st') \<Longrightarrow>
    store_get j st' = (if j = t_id r then map_option (write_lifecycle r) (store_get j st) else store_get j st)"
  by (cases "List.find (\<lambda>q. t_id q = j) (st_tasks st)")
    (auto simp: store_get_def store_update_def find_update_where_key dest: find_Some_set split: if_splits)

lemma store_get_remove: "store_get j (store_remove r st) = (if j = t_id r then None else store_get j st)"
  by (auto simp: store_get_def store_remove_def find_delete_where_key)

lemma store_receipt_remove: "store_receipt (t_id r) (store_remove r st) \<noteq> None"
  by (auto simp: store_receipt_def store_remove_def find_append exists_where_iff find_None_set split: option.splits)

lemma lookup_run:
  assumes "run_state (lookup W i) s = (x, s')"
  shows "s' = s\<lparr>sv_tick := sv_tick s + 1\<rparr> \<and> (case x of Inr r \<Rightarrow> store_get i (sv_store s) = Some r | Inl e \<Rightarrow>
    e = unknown_task i \<and> store_get i (sv_store s) = None \<or> (\<exists>f. w_fault W (sv_tick s) = Some f \<and> e = store_failure f))"
  using assms by (cases "w_fault W (sv_tick s)") (auto simp: lookup_def andthen_def with_store_def next_tick_def modify_def
      reading_def split: option.splits)

lemma save_exact:
  assumes "run_state (save W r) s = (p, s')"
  shows "\<exists>now. fst p = r\<lparr>t_updated_at := now\<rparr> \<and> (case snd p of
      Inl _ \<Rightarrow> s' = s\<lparr>sv_tick := sv_tick s + 2\<rparr>
    | Inr _ \<Rightarrow> \<exists>st. store_update (fst p) (sv_store s) = Inr ((), st) \<and>
        s' = s\<lparr>sv_tick := sv_tick s + 2, sv_store := st\<rparr>)"
proof -
  define q where "q = r\<lparr>t_updated_at := w_clock W (sv_tick s)\<rparr>"
  let ?s = "s\<lparr>sv_tick := sv_tick s + 1\<rparr>"
  obtain saved s1 where w: "run_state (with_store W (store_update q)) ?s = (saved, s1)" by fastforce
  then have p: "p = (q, saved)" "s' = s1"
    using assms by (simp_all add: save_def Let_def now_ms_def next_tick_def q_def)
  have "\<exists>now. fst p = r\<lparr>t_updated_at := now\<rparr>" by (auto simp: p(1) q_def)
  moreover have "case saved of Inl _ \<Rightarrow> s1 = s\<lparr>sv_tick := sv_tick s + 2\<rparr>
    | Inr _ \<Rightarrow> \<exists>st. store_update q (sv_store s) = Inr ((), st) \<and> s1 = s\<lparr>sv_tick := sv_tick s + 2, sv_store := st\<rparr>"
  proof (cases "w_fault W (sv_tick s + 1)")
    case (Some e)
    then show ?thesis using w by (auto simp: with_store_def next_tick_def)
  next
    case None
    then show ?thesis
      using w by (cases "store_update q (sv_store s)") (auto simp: with_store_def next_tick_def modify_def)
  qed
  ultimately show ?thesis unfolding p fst_conv snd_conv by blast
qed

lemma stop_begin_cases:
  assumes run: "run_state (stop_begin W i reason) s = (d, s')"
  obtains (refused) e n where "d = Inl e" "s' = s\<lparr>sv_tick := n\<rparr>"
  | (unneeded) r n where "d = Inr (Inl (view r))" "s' = s\<lparr>sv_tick := n\<rparr>" "store_get i (sv_store s) = Some r"
      "ended (t_state r) \<or> i \<in> sv_stopping s"
  | (begun) r q n st where "d = Inr (Inr r)" "store_get i (sv_store s) = Some q" "\<not> ended (t_state q)" "i \<notin> sv_stopping s"
      "same_request r q" "same_process r q" "t_state r = Stopping" "t_stop_reason r = Some (stop_reason_str reason)"
      "store_update r (sv_store s) = Inr ((), st)"
      "s' = s\<lparr>sv_tick := n, sv_stopping := insert i (sv_stopping s), sv_store := st\<rparr>" "sv_tick s \<le> n"
proof -
  obtain x s1 where l: "run_state (lookup W i) s = (x, s1)" by fastforce
  note found = lookup_run [OF l]
  show ?thesis
  proof (cases x)
    case (Inl e)
    then show ?thesis using run refused found l by (auto simp: stop_begin_def andthen_def)
  next
    case (Inr r)
    show ?thesis
    proof (cases "ended (t_state r) \<or> i \<in> sv_stopping s")
      case True
      then show ?thesis using run unneeded found l Inr by (auto simp: stop_begin_def andthen_def)
    next
      case False
      let ?s = "s\<lparr>sv_stopping := insert i (sv_stopping s), sv_tick := sv_tick s + 2\<rparr>"
      let ?r = "r\<lparr>t_state := Stopping, t_stop_reason := Some (stop_reason_str reason),
          t_stop_requested_at := Some (w_clock W (sv_tick s + 1))\<rparr>"
      obtain p s2 where sv: "run_state (save W ?r) ?s = (p, s2)" by fastforce
      have d: "(case snd p of Inl e \<Rightarrow> (Inl e, s2\<lparr>sv_stopping := sv_stopping s2 - {i}\<rparr>) | Inr _ \<Rightarrow> (Inr (Inr (fst p)), s2)) = (d, s')"
        using run l Inr found False sv
        by (auto simp: stop_begin_def andthen_def modify_def now_ms_def next_tick_def split: sum.splits)
      show ?thesis
      proof (cases "snd p")
        case (Inl e)
        then show ?thesis using d save_exact [OF sv] False refused by auto
      next
        case (Inr u)
        have "same_request (fst p) r" "same_process (fst p) r" "t_state (fst p) = Stopping"
          "t_stop_reason (fst p) = Some (stop_reason_str reason)"
          using save_exact [OF sv] by (auto simp: same_request_def same_process_def write_lifecycle_def)
        moreover obtain st where "store_update (fst p) (sv_store s) = Inr ((), st)" "s2 = ?s\<lparr>sv_tick := sv_tick s + 4, sv_store := st\<rparr>"
          using save_exact [OF sv] Inr by auto
        moreover have "d = Inr (Inr (fst p))" "s' = s2" using d Inr by simp_all
        ultimately show ?thesis
          using False found \<open>x = Inr r\<close> by (intro begun [of "fst p" r st "sv_tick s + 4"]) auto
      qed
    qed
  qed
qed

lemma terminate_outcome:
  assumes run: "run_state (terminate_task W r grace) s = (r', s')" and timely: "timely s"
  shows "quiet s s' \<and>
    r' = r\<lparr>t_state := t_state r', t_exit_code := t_exit_code r', t_exit_signal := t_exit_signal r',
       t_detail := t_detail r', t_ended_at := t_ended_at r'\<rparr> \<and>
    (t_state r' = CleanupFailed \<or> t_state r' = Stopped \<and> (\<exists>grp. t_process_id r = Some grp \<and>
       gone_for W (t_id r) grp (case t_process_start r of None \<Rightarrow> [] | Some st \<Rightarrow> st) s'))"
proof (cases "t_process_id r")
  case None
  then show ?thesis using run by (auto simp: terminate_task_def fail_cleanup_def)
next
  case (Some grp)
  let ?st = "case t_process_start r of None \<Rightarrow> [] | Some st \<Rightarrow> st"
  obtain read s1 where l: "run_state (with_store W (reading (store_tracked (t_id r)))) s = (read, s1)" by fastforce
  have q: "quiet s s1" by (rule quiet_opD [OF quiet_reading l])
  show ?thesis
  proof (cases read)
    case (Inl e)
    then show ?thesis using run l q Some by (auto simp: terminate_task_def fail_cleanup_def)
  next
    case (Inr tr)
    then have rounds: "run_state (terminate_rounds W r grp ?st [(SIGTERM, grace), (SIGKILL, KILL_SETTLE)] tr []) s1 = (r', s')"
      using run l Some by (simp add: terminate_task_def)
    have P: "stable (\<lambda>t. quiet s t \<and> timely t)"
      by (auto simp: stable_def intro: quiet_trans stableD [OF stable_timely])
    have "stop_result W r grp ?st r' s'" "quiet s s'"
      using tripleD [OF triple_terminate_rounds [OF P] _ rounds] q stableD [OF stable_timely q timely] by auto
    then show ?thesis using Some by (auto simp: stop_result_def)
  qed
qed

lemma stop_finish_run:
  assumes run: "run_state (stop_finish W r0) s = (a, s')" and row: "store_get (t_id r0) (sv_store s) = Some c"
    "t_owner_deleted_at c = t_owner_deleted_at r0"
  shows "sv_stopping s' = sv_stopping s - {t_id r0} \<and> sv_tick s \<le> sv_tick s' \<and> sv_released s' = sv_released s \<and> (case a of
      Inl _ \<Rightarrow> sv_store s' = sv_store s
    | Inr v \<Rightarrow> if ended (t_state r0) then v = view r0 \<and> sv_store s' = store_remove r0 (sv_store s)
        else \<exists>now. v = view (r0\<lparr>t_updated_at := now\<rparr>) \<and>
          store_update (r0\<lparr>t_updated_at := now\<rparr>) (sv_store s) = Inr ((), sv_store s'))"
proof -
  obtain x s1 where l: "run_state (lookup W (t_id r0)) s = (x, s1)" by fastforce
  have s1: "s1 = s\<lparr>sv_tick := sv_tick s + 1\<rparr>" "x = Inr c \<or> isl x" using lookup_run [OF l] row(1) by (cases x; simp)+
  have r: "(case x of Inl _ \<Rightarrow> r0 | Inr c \<Rightarrow> r0\<lparr>t_owner_deleted_at := t_owner_deleted_at c\<rparr>) = r0"
    using s1(2) row(2) by (cases x) auto
  show ?thesis
  proof (cases "ended (t_state r0)")
    case True
    obtain y s2 where rm: "run_state (remove_task W r0) s1 = (y, s2)" by fastforce
    have "sv_stopping s2 = sv_stopping s \<and> sv_tick s \<le> sv_tick s2 \<and> sv_released s2 = sv_released s \<and>
        (case y of Inl _ \<Rightarrow> sv_store s2 = sv_store s | Inr _ \<Rightarrow> sv_store s2 = store_remove r0 (sv_store s))"
      using rm unfolding s1(1)
      by (cases "w_fault W (sv_tick s + 1)") (auto simp: remove_task_def andthen_def with_store_def next_tick_def modify_def
          writing_def purge_logs_def split: if_splits)
    moreover have "a = (case y of Inl e \<Rightarrow> Inl e | Inr _ \<Rightarrow> Inr (view r0))" "s' = s2\<lparr>sv_stopping := sv_stopping s2 - {t_id r0}\<rparr>"
      using run l r True rm by (cases y; simp add: stop_finish_def Let_def modify_def)+
    ultimately show ?thesis using True by (cases y) simp_all
  next
    case False
    obtain p s2 where sv: "run_state (save W r0) s1 = (p, s2)" by fastforce
    have "(case snd p of Inl e \<Rightarrow> Inl e | Inr _ \<Rightarrow> Inr (view (fst p)), s2\<lparr>sv_stopping := sv_stopping s2 - {t_id r0}\<rparr>) = (a, s')"
      using run l r False sv by (simp add: stop_finish_def Let_def modify_def)
    then show ?thesis using save_exact [OF sv] False s1(1) by (cases "snd p") auto
  qed
qed

text \<open>A stop past its first save: the outcome of the signals and what was written after them.\<close>

lemma stop_begun_run:
  assumes run: "run_state (stop W i reason grace) s = (a, s')" and timely: "timely s"
    and b: "run_state (stop_begin W i reason) s = (Inr (Inr r), s1)"
    and s1: "s1 = s\<lparr>sv_tick := n, sv_stopping := insert i (sv_stopping s), sv_store := st\<rparr>" "sv_tick s \<le> n" "i \<notin> sv_stopping s"
    and q: "store_get i (sv_store s) = Some q" "same_request r q" "store_update r (sv_store s) = Inr ((), st)"
  obtains r' u v w x y and s2 :: service where "t_id r = i" "sv_stopping s' = sv_stopping s"
    "r' = r\<lparr>t_state := u, t_exit_code := v, t_exit_signal := w, t_detail := x, t_ended_at := y\<rparr>"
    "\<forall>j. store_get j (sv_store s2) = (if j = i then Some r else store_get j (sv_store s))"
    "t_state r' = CleanupFailed \<or> t_state r' = Stopped \<and> (\<exists>grp. t_process_id r = Some grp \<and>
       gone_for W i grp (case t_process_start r of None \<Rightarrow> [] | Some st \<Rightarrow> st) s')"
    "case a of Inl _ \<Rightarrow> sv_store s' = sv_store s2
     | Inr v \<Rightarrow> if ended (t_state r') then v = view r' \<and> sv_store s' = store_remove r' (sv_store s2)
         else \<exists>now. v = view (r'\<lparr>t_updated_at := now\<rparr>) \<and>
           store_update (r'\<lparr>t_updated_at := now\<rparr>) (sv_store s2) = Inr ((), sv_store s')"
proof -
  have i: "t_id r = i" using q(1,2) store_get_Some by (auto simp: same_request_def)
  have s1': "timely s1" using s1 timely by (auto simp: timely_def)
  obtain r' s2 where t: "run_state (terminate_task W r (case grace of None \<Rightarrow> DEFAULT_STOP_GRACE | Some g \<Rightarrow> g)) s1 = (r', s2)"
    by fastforce
  have fin: "run_state (stop_finish W r') s2 = (a, s')" using run b t by (simp add: stop_def andthen_def)
  note r' = terminate_outcome [OF t s1']
  then obtain u v w x y where u: "r' = r\<lparr>t_state := u, t_exit_code := v, t_exit_signal := w, t_detail := x, t_ended_at := y\<rparr>"
    by blast
  have row: "store_get j (sv_store s2) = (if j = i then Some r else store_get j (sv_store s))" for j
  proof -
    have "store_get j (sv_store s2) = store_get j st" using r' s1(1) by (simp add: quiet_def store_get_def)
    then show ?thesis using q(1,2) i store_get_update [OF q(3), of j] by (simp add: same_request_def)
  qed
  have id: "t_id r' = i" "t_owner_deleted_at r' = t_owner_deleted_at r" by (simp_all add: u i)
  note fin' = stop_finish_run [OF fin, unfolded id(1), OF row [of i, simplified] id(2) [symmetric]]
  have "gone_for W i grp ps s'" if "gone_for W i grp ps s2" for grp ps
    using that fin' unfolding gone_for_def by (blast intro: seen_later)
  moreover have "sv_stopping s' = sv_stopping s" using fin' r' s1(1,3) by (auto simp: quiet_def)
  moreover have "\<forall>j. store_get j (sv_store s2) = (if j = i then Some r else store_get j (sv_store s))" using row by blast
  ultimately show ?thesis using r' fin' i that [OF i _ u] by auto
qed

text \<open>C12: What stopping a task did.  The answer names one of three outcomes.  Nothing was needed, because
  the task had ended or another stop of it was running.  The task was stopped: its record is gone and a
  receipt is there, and a listing made after the command was released showed neither its process group
  nor a descendant.  Or the record stays, marked \<open>cleanup_failed\<close>, with the reason of the stop.  After
  an error the registry is unchanged or the record still says \<open>stopping\<close>.  In every case the stop is no
  longer in progress, and no other task's record is touched.\<close>

theorem stop_outcome:
  assumes run: "run_state (stop W i reason grace) s = (a, s')" and ok: "timely s" "store_ok (sv_store s)"
  shows "sv_stopping s' = sv_stopping s \<and>
    (\<forall>j. j \<noteq> i \<longrightarrow> store_get j (sv_store s') = store_get j (sv_store s)) \<and>
    (case a of
       Inl _ \<Rightarrow> sv_store s' = sv_store s \<or> (\<exists>r. store_get i (sv_store s') = Some r \<and> t_state r = Stopping)
     | Inr v \<Rightarrow>
         (\<exists>r. store_get i (sv_store s) = Some r \<and> (ended (t_state r) \<or> i \<in> sv_stopping s) \<and> v = view r \<and> sv_store s' = sv_store s) \<or>
         (\<exists>q grp. store_get i (sv_store s) = Some q \<and> t_process_id q = Some grp \<and> vw_state v = ''stopped'' \<and>
            store_get i (sv_store s') = None \<and> store_receipt i (sv_store s') \<noteq> None \<and>
            gone_for W i grp (case t_process_start q of None \<Rightarrow> [] | Some st \<Rightarrow> st) s') \<or>
         (\<exists>r. store_get i (sv_store s') = Some r \<and> v = view r \<and> t_state r = CleanupFailed \<and>
            t_stop_reason r = Some (stop_reason_str reason)))"
proof -
  obtain d s1 where b: "run_state (stop_begin W i reason) s = (d, s1)" by fastforce
  from b show ?thesis
  proof (cases rule: stop_begin_cases)
    case (begun r q n st)
    obtain r' u v w x y and s2 :: service where i: "t_id r = i" and stopping: "sv_stopping s' = sv_stopping s"
      and r': "r' = r\<lparr>t_state := u, t_exit_code := v, t_exit_signal := w, t_detail := x, t_ended_at := y\<rparr>"
      and row: "\<forall>j. store_get j (sv_store s2) = (if j = i then Some r else store_get j (sv_store s))"
      and ends: "t_state r' = CleanupFailed \<or> t_state r' = Stopped \<and> (\<exists>grp. t_process_id r = Some grp \<and>
        gone_for W i grp (case t_process_start r of None \<Rightarrow> [] | Some st \<Rightarrow> st) s')"
      and fin: "case a of Inl _ \<Rightarrow> sv_store s' = sv_store s2
        | Inr v \<Rightarrow> if ended (t_state r') then v = view r' \<and> sv_store s' = store_remove r' (sv_store s2)
            else \<exists>now. v = view (r'\<lparr>t_updated_at := now\<rparr>) \<and>
              store_update (r'\<lparr>t_updated_at := now\<rparr>) (sv_store s2) = Inr ((), sv_store s')"
      by (rule stop_begun_run [OF run ok(1) b [unfolded begun(1)] begun(10,11,4,2,5,9)]) (rule that)
    have id: "t_id r' = i" "t_stop_reason r' = t_stop_reason r"
      using i by (simp_all add: r')
    show ?thesis
    proof (cases a)
      case (Inl e)
      then show ?thesis using fin stopping row begun(7) by auto
    next
      case (Inr v)
      from ends show ?thesis
      proof (elim disjE conjE exE)
        assume failed: "t_state r' = CleanupFailed"
        then obtain now where up: "v = view (r'\<lparr>t_updated_at := now\<rparr>)"
          "store_update (r'\<lparr>t_updated_at := now\<rparr>) (sv_store s2) = Inr ((), sv_store s')"
          using fin Inr by auto
        have "write_lifecycle (r'\<lparr>t_updated_at := now\<rparr>) r = r'\<lparr>t_updated_at := now\<rparr>"
          by (simp add: r' write_lifecycle_def)
        then have "store_get j (sv_store s') = (if j = i then Some (r'\<lparr>t_updated_at := now\<rparr>) else store_get j (sv_store s))" for j
          using store_get_update [OF up(2), of j] row id(1) by simp
        then show ?thesis using Inr up(1) stopping failed id(2) begun(8) by simp
      next
        fix grp
        assume stopped: "t_state r' = Stopped" and grp: "t_process_id r = Some grp"
          "gone_for W i grp (case t_process_start r of None \<Rightarrow> [] | Some st \<Rightarrow> st) s'"
        then have done': "v = view r'" "sv_store s' = store_remove r' (sv_store s2)" using fin Inr by simp_all
        have q: "t_process_id r = t_process_id q" "t_process_start r = t_process_start q"
          using begun(6) by (simp_all add: same_process_def)
        have "vw_state v = ''stopped''" using stopped by (simp add: done'(1) view_def)
        moreover have "store_get j (sv_store s') = (if j = i then None else store_get j (sv_store s))" for j
          using id(1) row by (simp add: done'(2) store_get_remove)
        moreover have "store_receipt i (sv_store s') \<noteq> None"
          using store_receipt_remove [of r'] id(1) by (simp add: done'(2))
        ultimately show ?thesis using Inr stopping begun(2) grp q by simp
      qed
    qed
  qed (use run b in \<open>auto simp: stop_def andthen_def\<close>)
qed

lemma started_sound: "timely started \<and> store_ok (sv_store started)"
  using supervised_run [OF task_world_inj started_reached]
  by (auto simp: supervised_def sound_def accounted_def)

lemma stop_outcome_witness:
  "sv_stopping (snd (run_state (stop task_world (lit ''bgt_'' @ show_nat 1) Requested None) started)) = sv_stopping started"
  using stop_outcome [OF surjective_pairing started_sound [THEN conjunct1] started_sound [THEN conjunct2]] by blast

section \<open>Waiting ends\<close>

lemma wait_ticks:
  "wait_until_gone W grp st deadline tr s = (a, s') \<Longrightarrow> sv_tick s' \<le> sv_tick s + 3 * ((deadline - sv_instant s + 99) div 100) + 2"
proof (induction W grp st deadline tr s arbitrary: a s' rule: wait_until_gone.induct)
  case (1 W grp st deadline tr s)
  obtain listed s1 where c: "run_state (capture W) s = (listed, s1)" by fastforce
  obtain g tr1 where o: "(case listed of Inl _ \<Rightarrow> (False, tr)
      | Inr T \<Rightarrow> (case tracked_task_processes T grp st tr of (ps, tr) \<Rightarrow> (tp_empty ps, tr))) = (g, tr1)"
    by (metis surj_pair)
  obtain now s2 where n: "run_state (instant_now W) s1 = (now, s2)" by fastforce
  obtain u s3 where z: "run_state (sleep W POLL_INTERVAL) s2 = (u, s3)" by (metis surj_pair)
  have steps: "sv_tick s1 = sv_tick s + 1" "sv_instant s1 = sv_instant s" "sv_tick s2 = sv_tick s + 2" "now = sv_instant s2"
    "sv_instant s \<le> sv_instant s2" "sv_tick s3 = sv_tick s + 3" "sv_instant s2 + 100 \<le> sv_instant s3"
    using c n z by (auto simp: capture_def instant_now_def sleep_def next_tick_def modify_def POLL_INTERVAL_def)
  have run: "(if g then ((True, tr1), s1) else if now \<ge> deadline then ((False, tr1), s2)
      else wait_until_gone W grp st deadline tr1 s3) = (a, s')"
    using "1.prems" c o n z by (subst (asm) wait_until_gone.simps) (simp split: if_splits)
  show ?case
  proof (cases "g \<or> now \<ge> deadline")
    case True
    then show ?thesis using run steps by (auto split: if_splits)
  next
    case False
    then have "wait_until_gone W grp st deadline tr1 s3 = (a, s')" using run by simp
    then have "sv_tick s' \<le> sv_tick s3 + 3 * ((deadline - sv_instant s3 + 99) div 100) + 2"
      using False c o n z by (intro "1.IH" [OF c [symmetric] o [symmetric] refl _ n [symmetric] _ z [symmetric]]) auto
    moreover have "(deadline - sv_instant s3 + 99) div 100 + 1 \<le> (deadline - sv_instant s + 99) div 100"
    proof (cases "deadline \<ge> sv_instant s3")
      case True
      then have "deadline - sv_instant s3 + 99 + 100 \<le> deadline - sv_instant s + 99" using steps by linarith
      then show ?thesis using div_le_mono [of _ _ 100] by fastforce
    next
      case early: False
      then have "1 \<le> (deadline - sv_instant s + 99) div 100" using False steps by linarith
      then show ?thesis using early by simp
    qed
    ultimately show ?thesis using steps by linarith
  qed
qed

definition polls :: "nat \<Rightarrow> nat" where
  "polls limit = 3 * ((limit + 99) div 100) + 3"

text \<open>Programs that look at the world at most a number of times.\<close>

definition within :: "nat \<Rightarrow> 'a svc \<Rightarrow> bool" where
  "within n m \<longleftrightarrow> (\<forall>s. sv_tick (snd (run_state m s)) \<le> sv_tick s + n)"

lemma within_return: "within n (State_Monad.return a)"
  by (simp add: within_def)

lemma within_bind: "within a m \<Longrightarrow> (\<And>x. within b (f x)) \<Longrightarrow> a + b \<le> n \<Longrightarrow> within n (State_Monad.bind m f)"
  unfolding within_def
proof
  fix s
  assume m: "\<forall>s. sv_tick (snd (run_state m s)) \<le> sv_tick s + a"
    and f: "\<And>x. \<forall>s. sv_tick (snd (run_state (f x) s)) \<le> sv_tick s + b" and n: "a + b \<le> n"
  obtain x s1 where run: "run_state m s = (x, s1)" by fastforce
  have "sv_tick s1 \<le> sv_tick s + a" using m [rule_format, of s] by (simp add: run)
  then show "sv_tick (snd (run_state (m \<bind> f) s)) \<le> sv_tick s + n"
    using f [rule_format, of x s1] n by (simp add: run)
qed

lemma within_if: "within n m \<Longrightarrow> within n m' \<Longrightarrow> within n (if b then m else m')"
  by simp

lemma within_sum: "(\<And>e. within n (f e)) \<Longrightarrow> (\<And>x. within n (g x)) \<Longrightarrow> within n (case r of Inl e \<Rightarrow> f e | Inr x \<Rightarrow> g x)"
  by (cases r) auto

lemma within_prod: "(\<And>a b. within n (f a b)) \<Longrightarrow> within n (case p of (a, b) \<Rightarrow> f a b)"
  by (cases p) auto

lemma within_capture: "within 1 (capture W)"
  by (simp add: within_def capture_def next_tick_def)

lemma within_store: "within 1 (with_store W g)"
  unfolding within_def
proof
  fix s :: service
  obtain a s' where run: "run_state (with_store W g) s = (a, s')" by fastforce
  then have "sv_tick s' \<le> sv_tick s + 1"
    by (auto simp: with_store_run split: option.splits sum.splits)
  then show "sv_tick (snd (run_state (with_store W g) s)) \<le> sv_tick s + 1" by (simp add: run)
qed

lemma within_signals: "within 1 (send_signals W grp ps sig)"
  by (simp add: within_def send_signals_def next_tick_def modify_def)

lemma within_finish: "within 1 (finish_stopped W r)"
  by (simp add: within_def finish_stopped_def now_ms_def next_tick_def)

lemmas within_steps = within_capture within_store within_signals within_finish

lemma within_await: "within (polls limit) (await_gone W grp st tr limit)"
proof -
  have "sv_tick (snd (run_state (await_gone W grp st tr limit) s)) \<le> sv_tick s + polls limit" for s
  proof -
    obtain now s1 where n: "run_state (instant_now W) s = (now, s1)" by fastforce
    then have "sv_tick s1 = sv_tick s + 1" "now = sv_instant s1"
      by (auto simp: instant_now_def next_tick_def modify_def)
    then show ?thesis
      using wait_ticks [OF surjective_pairing, of W grp st "now + limit" tr s1] n by (simp add: await_gone_def polls_def)
  qed
  then show ?thesis by (simp add: within_def)
qed

fun round_ticks :: "(signal \<times> nat) list \<Rightarrow> nat" where
  "round_ticks [] = 1"
| "round_ticks ((sig, wait) # rounds) = 3 + polls wait + round_ticks rounds"

lemma round_ticks_pos: "1 \<le> round_ticks rounds"
  by (induction rounds rule: round_ticks.induct) simp_all

lemma within_terminate_rounds: "within (round_ticks rounds) (terminate_rounds W r grp st rounds tr fs)"
proof (induction rounds arbitrary: tr fs)
  case Nil
  show ?case unfolding terminate_rounds.simps by (rule within_bind [OF within_steps(1) within_return]) simp
next
  case (Cons round rounds)
  obtain sig wait where round: "round = (sig, wait)" by fastforce
  have last: "within (round_ticks rounds) (if fst waited then finish_stopped W r
      else terminate_rounds W r grp st rounds (snd waited) (fs @ failed))" for waited failed
    using Cons.IH within_steps(4) [of W r] round_ticks_pos [of rounds]
    by (auto simp: within_def intro: order_trans)
  have signalled: "within (1 + polls wait + round_ticks rounds) (send_signals W grp ps sig \<bind> (\<lambda>failed.
      await_gone W grp st tr1 wait \<bind> (\<lambda>waited. if fst waited then finish_stopped W r
        else terminate_rounds W r grp st rounds (snd waited) (fs @ failed))))" for ps tr1
    by (rule within_bind [OF within_steps(3) within_bind [OF within_await last order_refl]]) simp
  have "within (1 + polls wait + round_ticks rounds) (finish_stopped W r)"
    using within_steps(4) [of W r] by (auto simp: within_def intro: order_trans)
  note round_end = within_sum [OF within_return within_if [OF this signalled]]
  show ?case
    unfolding round terminate_rounds.simps round_ticks.simps
    by (rule within_bind [OF within_steps(1)], rule within_sum [OF within_return], rule within_prod,
        rule within_bind [OF within_steps(2) round_end order_refl]) simp
qed

text \<open>C37: Stopping a task always ends, whatever its processes do.  Terminating a process tree with a
  given grace period, counted in milliseconds, looks at the world (process listings, clock, registry,
  signals, sleeps) at most \<open>3 * (grace / 100) + 105\<close> times, rounded up, however time passes between
  two looks and whether or not the processes ever go away.\<close>

theorem terminate_ends:
  "sv_tick (snd (run_state (terminate_task W r grace) s)) \<le> sv_tick s + 3 * ((grace + 99) div 100) + 105"
proof (cases "t_process_id r")
  case None
  then show ?thesis by (simp add: terminate_task_def)
next
  case (Some grp)
  have "polls KILL_SETTLE = 93" by (simp add: polls_def KILL_SETTLE_def)
  then have rounds: "round_ticks [(SIGTERM, grace), (SIGKILL, KILL_SETTLE)] = 3 * ((grace + 99) div 100) + 103"
    by (simp add: polls_def [of grace])
  have "within (3 * ((grace + 99) div 100) + 105) (terminate_task W r grace)"
    unfolding terminate_task_def Some option.case
    by (rule within_bind [OF within_steps(2) within_sum [OF within_return within_terminate_rounds]]) (simp add: rounds del: round_ticks.simps)
  then show ?thesis unfolding within_def by (simp only: add.assoc)
qed

section \<open>Failures that cannot be acknowledged\<close>






end
