(* ===== verification/Task_Settling.thy ===== *)
theory Task_Settling
  imports Task_Outcomes
begin

text \<open>Restart reconciliation leaves no task in the middle of a launch or a stop.\<close>

section \<open>One record\<close>

lemma quiet_reconcile_state: "quiet_op (reconcile_state W T r)"
  unfolding reconcile_state_def reconcile_launch_def reconcile_running_def
  by (cases "t_state r"; simp only: task_state.case ended.simps if_True if_False; intro quiet_intros)

definition busy :: "task_record \<Rightarrow> bool" where
  "busy r \<longleftrightarrow> t_state r = Launching \<or> t_state r = Stopping"

lemma reconcile_state_settles:
  assumes run: "run_state (reconcile_state W T r) s = (p, s')"
  shows "t_id (fst p) = t_id r \<and> \<not> busy (fst p) \<and> (t_state r = Stopping \<longrightarrow> t_id r \<in> fst ` set (snd p)) \<and> quiet s s'"
proof -
  have "t_id (fst p) = t_id r \<and> \<not> busy (fst p) \<and> (t_state r = Stopping \<longrightarrow> t_id r \<in> fst ` set (snd p))"
    using run
    by (cases "t_state r") (auto simp: reconcile_state_def reconcile_launch_def reconcile_running_def now_ms_def next_tick_def
        busy_def split: option.splits if_splits prod.splits sum.splits)
  then show ?thesis using quiet_opD [OF quiet_reconcile_state run] by simp
qed

lemma count_where_key: "distinct (map k t) \<Longrightarrow> q \<in> set t \<Longrightarrow> count_where (\<lambda>x. k x = k q) t = 1"
proof (induction t)
  case (Cons x t)
  show ?case
  proof (cases "x = q")
    case True
    then have "\<forall>y \<in> set t. k y \<noteq> k q" using Cons.prems(1) by (auto simp: image_iff)
    then show ?thesis using True by (simp add: count_where_def filter_empty_conv)
  next
    case False
    then show ?thesis using Cons by (auto simp: count_where_def)
  qed
qed simp

lemma update_missing:
  assumes "store_ok st" "store_update r st = Inl e"
  shows "\<forall>q \<in> set (st_tasks st). t_id q \<noteq> t_id r"
proof
  fix q assume "q \<in> set (st_tasks st)"
  then have "count_where (\<lambda>x. t_id x = t_id q) (st_tasks st) = 1"
    using assms(1) by (intro count_where_key) (simp add: store_ok_def)
  then show "t_id q \<noteq> t_id r" using assms(2) by (auto simp: store_update_def)
qed

text \<open>What writing or removing one record leaves of the others, when the registry does not fail.\<close>

definition only_row :: "ustring \<Rightarrow> (task_record \<Rightarrow> bool) \<Rightarrow> service \<Rightarrow> service \<Rightarrow> bool" where
  "only_row i P s s' \<longleftrightarrow> store_ok (sv_store s') \<and> sv_stopping s' = sv_stopping s \<and>
     (\<forall>q \<in> set (st_tasks (sv_store s')). if t_id q = i then P q else q \<in> set (st_tasks (sv_store s)))"

lemma save_row:
  assumes "run_state (save W r) s = (p, s')" "store_ok (sv_store s)" "\<And>t. w_fault W t = None"
  shows "only_row (t_id r) (\<lambda>q. t_state q = t_state r \<and> t_owner_deleted_at q = t_owner_deleted_at r) s s'"
proof -
  obtain now where p: "fst p = r\<lparr>t_updated_at := now\<rparr>" "case snd p of
      Inl _ \<Rightarrow> s' = s\<lparr>sv_tick := sv_tick s + 2\<rparr>
    | Inr _ \<Rightarrow> \<exists>st. store_update (fst p) (sv_store s) = Inr ((), st) \<and> s' = s\<lparr>sv_tick := sv_tick s + 2, sv_store := st\<rparr>"
    using save_exact [OF assms(1)] by blast
  show ?thesis
  proof (cases "snd p")
    case (Inl e)
    have "store_update (fst p) (sv_store s) = Inl e"
      using assms(1,3) Inl by (auto simp: save_def Let_def now_ms_def next_tick_def with_store_run split: sum.splits prod.splits)
    from update_missing [OF assms(2) this] have "\<forall>q \<in> set (st_tasks (sv_store s)). t_id q \<noteq> t_id r"
      by (simp add: p(1))
    then show ?thesis using p(2) Inl assms(2) by (simp add: only_row_def)
  next
    case (Inr u)
    then obtain st where st: "store_update (fst p) (sv_store s) = Inr ((), st)" "s' = s\<lparr>sv_tick := sv_tick s + 2, sv_store := st\<rparr>"
      using p(2) by auto
    have "set (st_tasks st) \<subseteq> write_lifecycle (fst p) ` {q \<in> set (st_tasks (sv_store s)). t_id q = t_id r} \<union>
        {q \<in> set (st_tasks (sv_store s)). t_id q \<noteq> t_id r}"
      using st(1) by (auto simp: store_update_def set_update_where p(1) split: if_splits)
    then have "if t_id q = t_id r then t_state q = t_state r \<and> t_owner_deleted_at q = t_owner_deleted_at r
        else q \<in> set (st_tasks (sv_store s))" if "q \<in> set (st_tasks st)" for q
      using that by (auto simp: p(1) write_lifecycle_def)
    then show ?thesis using st store_update_ok [OF assms(2) st(1)] by (simp add: only_row_def)
  qed
qed

lemma remove_row:
  assumes "run_state (remove_task W r) s = (a, s')" "store_ok (sv_store s)" "\<And>t. w_fault W t = None"
  shows "only_row (t_id r) (\<lambda>q. False) s s'"
proof -
  have "sv_store s' = store_remove r (sv_store s) \<and> sv_stopping s' = sv_stopping s"
    using assms(1,3) by (auto simp: remove_task_def andthen_def with_store_def next_tick_def modify_def writing_def
        purge_logs_def split: if_splits)
  then show ?thesis
    using store_remove_ok [OF assms(2)] by (simp add: only_row_def store_remove_def set_delete_where)
qed

lemma only_row_quiet: "quiet s s1 \<Longrightarrow> only_row i P s1 s' \<Longrightarrow> only_row i P s s'"
  by (auto simp: only_row_def quiet_def split: if_splits)

lemma only_row_mono: "only_row i P s s' \<Longrightarrow> (\<And>q. t_id q = i \<Longrightarrow> P q \<Longrightarrow> Q q) \<Longrightarrow> only_row i Q s s'"
  unfolding only_row_def by metis

definition resumed :: "(ustring \<times> stop_reason) list \<Rightarrow> task_record \<Rightarrow> bool" where
  "resumed stops q \<longleftrightarrow> \<not> busy q \<and> (t_state q = Running \<and> t_owner_deleted_at q \<noteq> None \<longrightarrow> t_id q \<in> fst ` set stops)"

lemma reconcile_record_settles:
  assumes run: "run_state (reconcile_record W T stops r) s = (stops', s')" and ok: "store_ok (sv_store s)"
    and fault: "\<And>t. w_fault W t = None" and "sv_stopping s = {}"
  shows "only_row (t_id r) (resumed stops') s s' \<and> set stops \<subseteq> set stops' \<and>
    (t_state r = Stopping \<longrightarrow> t_id r \<in> fst ` set stops')"
proof -
  obtain p s1 where state: "run_state (reconcile_state W T r) s = (p, s1)" by fastforce
  note p = reconcile_state_settles [OF state]
  have ok1: "store_ok (sv_store s1)" using ok p by (simp add: quiet_def store_ok_def)
  show ?thesis
  proof (cases "removable (fst p)")
    case True
    obtain a s2 where rm: "run_state (remove_task W (fst p)) s1 = (a, s2)" by fastforce
    have "stops' = stops @ snd p" "s' = s2"
      using run state True rm assms(4) by (simp_all add: reconcile_record_def Let_def)
    moreover have "only_row (t_id r) (\<lambda>q. False) s s2"
      using only_row_quiet [OF _ remove_row [OF rm ok1 fault]] p by simp
    ultimately show ?thesis using p by (auto intro: only_row_mono)
  next
    case False
    obtain a s2 where sv: "run_state (save W (fst p)) s1 = (a, s2)" by fastforce
    have stops': "stops' = (if t_state (fst p) = Running \<and> t_owner_deleted_at (fst p) \<noteq> None \<and>
        \<not> list_ex (\<lambda>x. fst x = t_id (fst p)) (stops @ snd p) then (stops @ snd p) @ [(t_id (fst p), OwnerDeleted)] else stops @ snd p)"
      and s': "s' = s2"
      using run state False sv assms(4) by (simp_all add: reconcile_record_def Let_def)
    have "only_row (t_id r) (\<lambda>q. t_state q = t_state (fst p) \<and> t_owner_deleted_at q = t_owner_deleted_at (fst p)) s s2"
      using only_row_quiet [OF _ save_row [OF sv ok1 fault]] p by simp
    moreover have "t_id (fst p) \<in> fst ` set stops'" if "t_state (fst p) = Running" "t_owner_deleted_at (fst p) \<noteq> None"
      using that by (cases "list_ex (\<lambda>x. fst x = t_id (fst p)) (stops @ snd p)") (force simp: stops' list_ex_iff)+
    ultimately have "only_row (t_id r) (resumed stops') s s2"
      by (elim only_row_mono) (use p in \<open>auto simp: resumed_def busy_def\<close>)
    then show ?thesis using p by (auto simp: stops' s')
  qed
qed

section \<open>Every record\<close>

lemma resumed_more: "set stops \<subseteq> set stops' \<Longrightarrow> resumed stops q \<Longrightarrow> resumed stops' q"
  by (auto simp: resumed_def)

lemma reconcile_records_settle:
  assumes "run_state (reconcile_records W T stops rs) s = (stops', s')" "store_ok (sv_store s)"
    and fault: "\<And>t. w_fault W t = None" and "sv_stopping s = {}"
  shows "(\<forall>q \<in> set (st_tasks (sv_store s')). t_id q \<in> t_id ` set rs \<and> resumed stops' q \<or>
       t_id q \<notin> t_id ` set rs \<and> q \<in> set (st_tasks (sv_store s))) \<and>
    set stops \<subseteq> set stops' \<and> (\<forall>r \<in> set rs. t_state r = Stopping \<longrightarrow> t_id r \<in> fst ` set stops')"
  using assms(1,2,4)
proof (induction rs arbitrary: stops s)
  case (Cons r rs)
  obtain stops1 s1 where r: "run_state (reconcile_record W T stops r) s = (stops1, s1)" by fastforce
  then have rest: "run_state (reconcile_records W T stops1 rs) s1 = (stops', s')" using Cons.prems(1) by simp
  note one = reconcile_record_settles [OF r Cons.prems(2) fault Cons.prems(3)]
  then have "store_ok (sv_store s1)" "sv_stopping s1 = {}" using Cons.prems(3) by (simp_all add: only_row_def)
  note others = Cons.IH [OF rest this]
  have "t_id q \<in> t_id ` set (r # rs) \<and> resumed stops' q \<or> t_id q \<notin> t_id ` set (r # rs) \<and> q \<in> set (st_tasks (sv_store s))"
    if "q \<in> set (st_tasks (sv_store s'))" for q
  proof (cases "t_id q \<in> t_id ` set rs")
    case False
    then have "q \<in> set (st_tasks (sv_store s1))" using others that by blast
    then have "if t_id q = t_id r then resumed stops1 q else q \<in> set (st_tasks (sv_store s))"
      using one by (simp add: only_row_def)
    then show ?thesis using False others resumed_more by (auto split: if_splits)
  qed (use others that in auto)
  then show ?case using one others by auto
qed simp

text \<open>C13: A restart leaves no task in the middle of a launch or a stop.  When the registry works and the
  processes could be listed, reconciliation moves every record out of \<open>launching\<close> and \<open>stopping\<close>; every
  stop that was interrupted is resumed, and so is the cleanup of every task that still runs although its
  owner is being, or was, deleted.\<close>

theorem reconcile_settles:
  assumes run: "run_state (reconcile W) s = ((True, stops), s')" and ok: "store_ok (sv_store s)" "sv_stopping s = {}"
    and fault: "\<And>t. w_fault W t = None"
  shows "(\<forall>q \<in> set (st_tasks (sv_store s')). t_state q \<notin> {Launching, Stopping} \<and>
      (t_state q = Running \<and> t_owner_deleted_at q \<noteq> None \<longrightarrow> t_id q \<in> fst ` set stops)) \<and>
    (\<forall>r \<in> set (st_tasks (sv_store s)). t_state r = Stopping \<longrightarrow> t_id r \<in> fst ` set stops)"
proof -
  let ?rs = "store_list None (sv_store s)"
  have rows: "set ?rs = set (st_tasks (sv_store s))" by simp
  have listed: "run_state (with_store W (reading (store_list None))) s = (Inr ?rs, s\<lparr>sv_tick := sv_tick s + 1\<rparr>)"
    using fault by (simp add: with_store_run reading_def)
  show ?thesis
  proof (cases "?rs = []")
    case True
    then show ?thesis using run listed rows by (auto simp: reconcile_def)
  next
    case False
    obtain table s1 where c: "run_state (capture W) (s\<lparr>sv_tick := sv_tick s + 1\<rparr>) = (table, s1)" by fastforce
    then have s1: "sv_store s1 = sv_store s" "sv_stopping s1 = {}"
      using ok(2) by (auto simp: capture_def next_tick_def)
    obtain T where T: "table = Inr T"
      using run listed False c by (cases table) (auto simp: reconcile_def split: prod.splits)
    have "run_state (reconcile_records W T [] ?rs) s1 = (stops, s')"
      using run listed False c T by (auto simp: reconcile_def split: prod.splits)
    from reconcile_records_settle [OF this _ fault s1(2)] show ?thesis
      using ok(1) s1(1) rows by (auto simp: resumed_def busy_def)
  qed
qed

text \<open>A runtime that was restarted while a task was being stopped.\<close>

definition interrupted :: service where
  "interrupted = restart (snd (run_state (stop_begin task_world (lit ''bgt_'' @ show_nat 1) Requested) started))"

lemma interrupted_ok: "store_ok (sv_store interrupted) \<and> sv_stopping interrupted = {}"
proof -
  obtain d s1 where b: "run_state (stop_begin task_world (lit ''bgt_'' @ show_nat 1) Requested) started = (d, s1)" by fastforce
  from b have "store_ok (sv_store s1)"
  proof (cases rule: stop_begin_cases)
    case (begun r q n st)
    then show ?thesis using store_update_ok started_sound by auto
  qed (use started_sound in auto)
  then show ?thesis using b by (simp add: interrupted_def restart_def)
qed

lemma task_world_lists: "fst (fst (run_state (reconcile task_world) s))"
proof -
  have "isl (listing_at task_world t) = False" for t by (simp add: listing_at_def task_world_def)
  moreover have "w_fault task_world t = None" for t by (simp add: task_world_def)
  ultimately show ?thesis
    by (auto simp: reconcile_def with_store_def next_tick_def modify_def reading_def capture_def isl_def
        split: sum.splits prod.split)
qed

lemma reconcile_settles_witness:
  "list_all (\<lambda>q. t_state q \<noteq> Stopping) (st_tasks (sv_store (snd (run_state (reconcile task_world) interrupted))))"
proof -
  obtain stops s' where run: "run_state (reconcile task_world) interrupted = ((True, stops), s')"
    using task_world_lists [of interrupted] by (metis (full_types) prod.collapse)
  have "w_fault task_world t = None" for t by (simp add: task_world_def)
  from reconcile_settles [OF run _ _ this] show ?thesis using interrupted_ok run by (simp add: list_all_iff)
qed

end
