(* ===== verification/Domain_Transcript.thy ===== *)
theory Domain_Transcript
  imports Protocol "HOL-Library.AList"
begin

text \<open>
  The canonical transcript of a session or a delegated run: \<open>src/src/domain_transcript.rs\<close>.

  \<^item> \<open>transcript\<close> is \<open>DomainTranscript\<close>, field by field.  The mutexes and once-cells behind
    \<open>&self\<close> are fields too, so a read that fills one returns the transcript it leaves.
  \<^item> \<open>HashMap\<close>s are maps; the digest cache, whose size the code compares, is an association list
    with distinct keys.
  \<^item> Indexing a vector may panic in Rust: every operation that indexes returns
    \<open>transcript option\<close>, and \<open>None\<close> is the panic.
  \<^item> \<open>Uuid::now_v7\<close> and the clock are the arguments \<open>uuid\<close> and \<open>now\<close> of the operations that
    draw them.
\<close>

section \<open>Entries\<close>

datatype entry_kind =
  System | User | Assistant | Steering | Reasoning | Tool | Diff | Warning | Error

datatype entry_status = Running | Complete | Failed | Interrupted

record transcript_entry =
  te_coordination_json :: "ustring option"
  te_id :: ustring
  te_key :: "ustring option"
  te_kind :: entry_kind
  te_title :: ustring
  te_body :: ustring
  te_status :: entry_status
  te_created_at_ms :: "nat option"
  te_provider_id :: "ustring option"
  te_model_id :: "ustring option"
  te_owner_turn_id :: "ustring option"
  te_reasoning_effort :: "ustring option"
  te_fast_mode :: "bool option"
  te_source_transport :: "ustring option"
  te_tool_audit_json :: "ustring option"

record image_bytes =
  im_mime_type :: ustring
  im_data :: bytes

record stored_image =
  si_entry_key :: ustring
  si_label :: ustring
  si_image :: image_bytes

record image_artifact =
  ia_label :: ustring
  ia_image :: image_bytes

datatype stream_state = Idle | Active

datatype history_retention = Whole | Truncated

section \<open>Proof state kept beside the entries\<close>

record entry_digest =
  ed_content :: bytes
  ed_body_sha256 :: ustring
  ed_parent_item_id :: "ustring option"
  ed_codemode_tool :: bool

record proven_step =
  ps_digest :: entry_digest
  ps_chain :: bytes
  ps_prefix :: "ustring option"

record proven_chain =
  unchanged :: nat
  steps :: "proven_step list"
  codemode_tools :: "ustring set"

definition no_chain :: proven_chain where
  "no_chain = \<lparr>unchanged = 0, steps = [], codemode_tools = {}\<rparr>"

type_synonym entry_digests = "(ustring \<times> transcript_entry \<times> entry_digest) list"

text \<open>\<open>EntryDigests::get\<close>: a hit is the digest kept for an equal entry of the same id.\<close>

definition digests_get ::
  "(transcript_entry \<Rightarrow> entry_digest) \<Rightarrow> entry_digests \<Rightarrow> transcript_entry \<Rightarrow>
   entry_digest \<times> entry_digests" where
  "digests_get compute cache entry =
     (let miss = (let digest = compute entry in
                  (digest, AList.update (te_id entry) (entry, digest) cache)) in
      case map_of cache (te_id entry) of
        Some (cached, digest) \<Rightarrow> if cached = entry then (digest, cache) else miss
      | None \<Rightarrow> miss)"

definition digests_retain :: "transcript_entry list \<Rightarrow> entry_digests \<Rightarrow> entry_digests" where
  "digests_retain es cache =
     (if length cache \<le> length es then cache
      else filter (\<lambda>(i, _). list_ex (\<lambda>e. te_id e = i) es) cache)"

section \<open>The transcript\<close>

record transcript =
  entries :: "transcript_entry list"
  item_indices :: "ustring \<Rightarrow> nat option"
  stream_state :: stream_state
  stream_label :: ustring
  images :: "ustring \<Rightarrow> image_artifact list option"
  local_files :: "ustring \<Rightarrow> (ustring \<times> ustring) list option"
  history_retention :: history_retention
  prefix_fingerprints :: "ustring list option option"
  digest_cache :: entry_digests
  proven :: proven_chain

definition new_transcript :: transcript where
  "new_transcript =
     \<lparr>entries = [], item_indices = Map.empty, stream_state = Idle, stream_label = lit ''Nakode'',
      images = Map.empty, local_files = Map.empty, history_retention = Whole,
      prefix_fingerprints = None, digest_cache = [], proven = no_chain\<rparr>"

text \<open>A clone starts without a proven chain; the other caches are carried over.\<close>

definition clone_transcript :: "transcript \<Rightarrow> transcript" where
  "clone_transcript t = t\<lparr>proven := no_chain\<rparr>"

definition share_entry_digests :: "entry_digests \<Rightarrow> transcript \<Rightarrow> transcript" where
  "share_entry_digests cache t = t\<lparr>digest_cache := cache\<rparr>"

definition prune_entry_digests :: "transcript \<Rightarrow> transcript" where
  "prune_entry_digests t = t\<lparr>digest_cache := digests_retain (entries t) (digest_cache t)\<rparr>"

subsection \<open>Reads\<close>

definition has_earlier_entries :: "transcript \<Rightarrow> bool" where
  "has_earlier_entries t \<longleftrightarrow> history_retention t = Truncated"

definition stream_active :: "transcript \<Rightarrow> bool" where
  "stream_active t \<longleftrightarrow> stream_state t = Active"

definition image_at :: "ustring \<Rightarrow> nat \<Rightarrow> transcript \<Rightarrow> image_bytes option" where
  "image_at key i t =
     (case images t key of None \<Rightarrow> None
      | Some xs \<Rightarrow> if i < length xs then Some (ia_image (xs ! i)) else None)"

definition image_artifacts :: "transcript \<Rightarrow> transcript_entry \<Rightarrow> (ustring \<times> image_bytes) list" where
  "image_artifacts t entry =
     (case te_key entry of None \<Rightarrow> []
      | Some key \<Rightarrow> (case images t key of None \<Rightarrow> []
                      | Some xs \<Rightarrow> map (\<lambda>a. (ia_label a, ia_image a)) xs))"

definition local_files_of :: "ustring \<Rightarrow> transcript \<Rightarrow> (ustring \<times> ustring) list" where
  "local_files_of key t = (case local_files t key of None \<Rightarrow> [] | Some fs \<Rightarrow> fs)"

definition stored_images :: "transcript \<Rightarrow> stored_image list" where
  "stored_images t =
     concat (map (\<lambda>entry. List.map_filter (\<lambda>(label, image).
         map_option (\<lambda>key. \<lparr>si_entry_key = key, si_label = label, si_image = image\<rparr>) (te_key entry))
       (image_artifacts t entry)) (entries t))"

definition user_source_transport_for_turn :: "ustring \<Rightarrow> transcript \<Rightarrow> ustring option" where
  "user_source_transport_for_turn turn t =
     Option.bind (List.find (\<lambda>e. te_kind e = User \<and> te_owner_turn_id e = Some turn) (entries t))
       te_source_transport"

subsection \<open>Recording a change\<close>

definition changed_from :: "nat \<Rightarrow> transcript \<Rightarrow> transcript" where
  "changed_from index t =
     t\<lparr>prefix_fingerprints := None,
       proven := (proven t)\<lparr>unchanged := min (unchanged (proven t)) index\<rparr>\<rparr>"

definition changed_at_key :: "ustring \<Rightarrow> transcript \<Rightarrow> transcript" where
  "changed_at_key key t =
     changed_from (case item_indices t key of Some i \<Rightarrow> i | None \<Rightarrow> length (entries t)) t"

text \<open>\<open>self.entries[index] = ...\<close>, and the same for the entry a key is indexed at.\<close>

definition at_index ::
  "(transcript_entry \<Rightarrow> transcript_entry) \<Rightarrow> nat \<Rightarrow> transcript \<Rightarrow> transcript option" where
  "at_index f i t =
     (if i < length (entries t)
      then Some (t\<lparr>entries := (entries t)[i := f (entries t ! i)]\<rparr>) else None)"

definition at_key ::
  "(transcript_entry \<Rightarrow> transcript_entry) \<Rightarrow> ustring \<Rightarrow> transcript \<Rightarrow> transcript option" where
  "at_key f key t = (case item_indices t key of None \<Rightarrow> Some t | Some i \<Rightarrow> at_index f i t)"

subsection \<open>Operations on the whole transcript\<close>

definition mark_history_truncated :: "transcript \<Rightarrow> transcript" where
  "mark_history_truncated t = (changed_from 0 t)\<lparr>history_retention := Truncated\<rparr>"

definition set_local_files :: "ustring \<Rightarrow> (ustring \<times> ustring) list \<Rightarrow> transcript \<Rightarrow> transcript" where
  "set_local_files key fs t =
     (let t = changed_from 0 t in
      t\<lparr>local_files := (local_files t)(key := if fs = [] then None else Some fs)\<rparr>)"

definition set_labeled_images ::
  "ustring \<Rightarrow> (ustring \<times> image_bytes) list \<Rightarrow> transcript \<Rightarrow> transcript" where
  "set_labeled_images key xs t =
     (let t = changed_from 0 t in
      t\<lparr>images := (images t)(key := if xs = [] then None
          else Some (map (\<lambda>(label, image). \<lparr>ia_label = label, ia_image = image\<rparr>) xs))\<rparr>)"

definition set_images :: "ustring \<Rightarrow> image_bytes list \<Rightarrow> transcript \<Rightarrow> transcript" where
  "set_images key xs t =
     set_labeled_images key
       (map (\<lambda>(i, image). (if length xs > 1 then lit ''Image '' @ show_nat (i + 1)
                            else lit ''Image'', image)) (enumerate 0 xs))
       (changed_from 0 t)"

definition restore_images :: "stored_image list \<Rightarrow> transcript \<Rightarrow> transcript" where
  "restore_images xs t =
     (let t = changed_from 0 t in
      t\<lparr>images := fold (\<lambda>s m. m(si_entry_key s \<mapsto>
          (case m (si_entry_key s) of None \<Rightarrow> [] | Some old \<Rightarrow> old) @
          [\<lparr>ia_label = si_label s, ia_image = si_image s\<rparr>])) xs (images t)\<rparr>)"

definition clear_transcript :: "transcript \<Rightarrow> transcript" where
  "clear_transcript t =
     (changed_from 0 t)\<lparr>entries := [], item_indices := Map.empty, images := Map.empty,
       local_files := Map.empty, stream_state := Idle, history_retention := Whole\<rparr>"

definition set_stream_active :: "bool \<Rightarrow> transcript \<Rightarrow> transcript" where
  "set_stream_active active t =
     (changed_from 0 t)\<lparr>stream_state := if active then Active else Idle\<rparr>"

definition set_stream_label :: "ustring \<Rightarrow> transcript \<Rightarrow> transcript" where
  "set_stream_label label t = (changed_from 0 t)\<lparr>stream_label := label\<rparr>"

definition retain_entry_ids :: "ustring \<Rightarrow> transcript \<Rightarrow> transcript" where
  "retain_entry_ids session t =
     (changed_from 0 t)\<lparr>entries := map (\<lambda>(i, e). e\<lparr>te_id := lit ''retained:'' @ session @ lit '':'' @
         (case te_key e of None \<Rightarrow> show_nat i | Some key \<Rightarrow> key)\<rparr>) (enumerate 0 (entries t))\<rparr>"

definition set_source_transport_for_user_turn :: "ustring \<Rightarrow> ustring \<Rightarrow> transcript \<Rightarrow> transcript" where
  "set_source_transport_for_user_turn turn transport t =
     (changed_from 0 t)\<lparr>entries := map (\<lambda>e.
         if te_kind e = User \<and> te_owner_turn_id e = Some turn \<and> te_source_transport e = None
         then e\<lparr>te_source_transport := Some transport\<rparr> else e) (entries t)\<rparr>"

definition finish_running :: "entry_status \<Rightarrow> transcript \<Rightarrow> transcript" where
  "finish_running status t =
     (changed_from 0 t)\<lparr>entries := map (\<lambda>e. if te_status e = Running then e\<lparr>te_status := status\<rparr> else e)
         (entries t), stream_state := Idle\<rparr>"

subsection \<open>Operations on one entry\<close>

definition fresh_entry ::
  "ustring \<Rightarrow> nat \<Rightarrow> ustring option \<Rightarrow> entry_kind \<Rightarrow> ustring \<Rightarrow> ustring \<Rightarrow> entry_status \<Rightarrow> transcript_entry" where
  "fresh_entry uuid now key kind title body status =
     \<lparr>te_coordination_json = None, te_id = uuid, te_key = key, te_kind = kind, te_title = title,
      te_body = body, te_status = status, te_created_at_ms = Some now, te_provider_id = None,
      te_model_id = None, te_owner_turn_id = None, te_reasoning_effort = None,
      te_fast_mode = None, te_source_transport = None, te_tool_audit_json = None\<rparr>"

definition restore :: "transcript_entry \<Rightarrow> transcript \<Rightarrow> transcript option" where
  "restore entry t =
     (let t = (case te_key entry of Some key \<Rightarrow> changed_at_key key t
               | None \<Rightarrow> changed_from (length (entries t)) t) in
      case Option.bind (te_key entry) (item_indices t) of
        Some i \<Rightarrow> at_index (\<lambda>_. entry) i t
      | None \<Rightarrow>
          let i = length (entries t);
              t = (case te_key entry of Some key \<Rightarrow> t\<lparr>item_indices := (item_indices t)(key \<mapsto> i)\<rparr>
                   | None \<Rightarrow> t) in
          Some (t\<lparr>entries := entries t @ [entry]\<rparr>))"

definition push ::
  "ustring \<Rightarrow> nat \<Rightarrow> entry_kind \<Rightarrow> ustring \<Rightarrow> ustring \<Rightarrow> entry_status \<Rightarrow> transcript \<Rightarrow> transcript" where
  "push uuid now kind title body status t =
     (changed_from (length (entries t)) t)\<lparr>entries := entries t @ [fresh_entry uuid now None kind title body status]\<rparr>"

text \<open>The two upserts share their insertion of a new keyed entry.\<close>

definition push_keyed :: "ustring \<Rightarrow> transcript_entry \<Rightarrow> transcript \<Rightarrow> transcript" where
  "push_keyed key entry t =
     t\<lparr>entries := entries t @ [entry], item_indices := (item_indices t)(key \<mapsto> length (entries t))\<rparr>"

definition upsert ::
  "ustring \<Rightarrow> nat \<Rightarrow> ustring \<Rightarrow> entry_kind \<Rightarrow> ustring \<Rightarrow> ustring \<Rightarrow> entry_status \<Rightarrow> transcript \<Rightarrow> transcript option" where
  "upsert uuid now key kind title body status t =
     (let t = changed_at_key key t in
      case item_indices t key of
        Some i \<Rightarrow> at_index (\<lambda>e. e\<lparr>te_kind := kind, te_title := title, te_body := body, te_status := status\<rparr>) i t
      | None \<Rightarrow> Some (push_keyed key (fresh_entry uuid now (Some key) kind title body status) t))"

definition append_delta ::
  "ustring \<Rightarrow> nat \<Rightarrow> ustring \<Rightarrow> entry_kind \<Rightarrow> ustring \<Rightarrow> ustring \<Rightarrow> transcript \<Rightarrow> transcript option" where
  "append_delta uuid now key kind title delta t =
     (let t = changed_at_key key t in
      case item_indices t key of
        Some i \<Rightarrow> at_index (\<lambda>e. e\<lparr>te_body := te_body e @ delta, te_status := Running\<rparr>) i t
      | None \<Rightarrow> Some (push_keyed key (fresh_entry uuid now (Some key) kind title delta Running) t))"

definition set_coordination :: "ustring \<Rightarrow> ustring option \<Rightarrow> transcript \<Rightarrow> transcript option" where
  "set_coordination prompt_id js t =
     (let key = lit ''user:'' @ prompt_id in
      at_key (\<lambda>e. e\<lparr>te_coordination_json := js\<rparr>) key (changed_at_key key t))"

definition set_created_at_ms :: "ustring \<Rightarrow> nat option \<Rightarrow> transcript \<Rightarrow> transcript option" where
  "set_created_at_ms key ms t = at_key (\<lambda>e. e\<lparr>te_created_at_ms := ms\<rparr>) key (changed_at_key key t)"

definition set_origin :: "ustring \<Rightarrow> ustring option \<Rightarrow> ustring option \<Rightarrow> transcript \<Rightarrow> transcript option" where
  "set_origin key provider model t =
     at_key (\<lambda>e. e\<lparr>te_provider_id := (if te_provider_id e = None then provider else te_provider_id e),
                   te_model_id := (if te_model_id e = None then model else te_model_id e)\<rparr>)
       key (changed_at_key key t)"

definition set_model_options :: "ustring \<Rightarrow> ustring option \<Rightarrow> bool \<Rightarrow> transcript \<Rightarrow> transcript option" where
  "set_model_options key effort fast t =
     at_key (\<lambda>e. e\<lparr>te_reasoning_effort := effort, te_fast_mode := Some fast\<rparr>) key (changed_at_key key t)"

definition set_turn_attribution ::
  "ustring \<Rightarrow> ustring \<Rightarrow> ustring option \<Rightarrow> bool \<Rightarrow> transcript \<Rightarrow> transcript option" where
  "set_turn_attribution key turn effort fast t =
     at_key (\<lambda>e. if te_owner_turn_id e = None
                  then e\<lparr>te_owner_turn_id := Some turn, te_reasoning_effort := effort, te_fast_mode := Some fast\<rparr>
                  else e) key (changed_at_key key t)"

definition set_source_transport :: "ustring \<Rightarrow> ustring option \<Rightarrow> transcript \<Rightarrow> transcript option" where
  "set_source_transport key transport t =
     at_key (\<lambda>e. if te_source_transport e = None then e\<lparr>te_source_transport := transport\<rparr> else e)
       key (changed_at_key key t)"

definition set_tool_audit :: "ustring \<Rightarrow> ustring option \<Rightarrow> transcript \<Rightarrow> transcript option" where
  "set_tool_audit key audit t =
     (let t = changed_at_key key t in
      if audit = None then Some t else at_key (\<lambda>e. e\<lparr>te_tool_audit_json := audit\<rparr>) key t)"

definition set_status :: "ustring \<Rightarrow> entry_status \<Rightarrow> transcript \<Rightarrow> transcript option" where
  "set_status key status t = at_key (\<lambda>e. e\<lparr>te_status := status\<rparr>) key (changed_at_key key t)"

definition finish_running_entry :: "ustring \<Rightarrow> entry_status \<Rightarrow> transcript \<Rightarrow> transcript option" where
  "finish_running_entry key status t =
     at_key (\<lambda>e. if te_status e = Running then e\<lparr>te_status := status\<rparr> else e) key (changed_at_key key t)"

definition replace_body :: "ustring \<Rightarrow> ustring \<Rightarrow> entry_status \<Rightarrow> transcript \<Rightarrow> transcript option" where
  "replace_body key body status t =
     at_key (\<lambda>e. e\<lparr>te_body := body, te_status := status\<rparr>) key (changed_at_key key t)"

text \<open>\<open>Vec::remove\<close> and \<open>Vec::insert\<close>.\<close>

definition vec_remove :: "nat \<Rightarrow> 'a list \<Rightarrow> ('a \<times> 'a list) option" where
  "vec_remove i xs = (if i < length xs then Some (xs ! i, take i xs @ drop (Suc i) xs) else None)"

definition vec_insert :: "nat \<Rightarrow> 'a \<Rightarrow> 'a list \<Rightarrow> 'a list option" where
  "vec_insert i x xs = (if i \<le> length xs then Some (take i xs @ x # drop i xs) else None)"

definition index_entries :: "transcript_entry list \<Rightarrow> ustring \<Rightarrow> nat option" where
  "index_entries es =
     fold (\<lambda>(i, e) m. case te_key e of Some key \<Rightarrow> m(key \<mapsto> i) | None \<Rightarrow> m) (enumerate 0 es) Map.empty"

definition reindex :: "transcript \<Rightarrow> transcript" where
  "reindex t =
     (let m = index_entries (entries t) in
      t\<lparr>prefix_fingerprints := None, item_indices := m,
        images := (\<lambda>key. if m key = None then None else images t key),
        local_files := (\<lambda>key. if m key = None then None else local_files t key)\<rparr>)"

definition move_before :: "ustring \<Rightarrow> ustring \<Rightarrow> transcript \<Rightarrow> transcript option" where
  "move_before key anchor t =
     (let t = changed_at_key anchor t in
      case item_indices t key of None \<Rightarrow> Some t
      | Some i \<Rightarrow>
          (case item_indices t anchor of None \<Rightarrow> Some t
           | Some a \<Rightarrow>
               if i < a then Some t
               else (case vec_remove i (entries t) of None \<Rightarrow> None
                     | Some (e, rest) \<Rightarrow>
                         map_option (\<lambda>es. reindex (t\<lparr>entries := es\<rparr>)) (vec_insert a e rest))))"

definition remove :: "ustring \<Rightarrow> transcript \<Rightarrow> transcript option" where
  "remove key t =
     (let t = changed_at_key key t in
      case item_indices t key of None \<Rightarrow> Some t
      | Some i \<Rightarrow> map_option (\<lambda>(_, rest). reindex (t\<lparr>entries := rest\<rparr>)) (vec_remove i (entries t)))"

section \<open>Mutations\<close>

text \<open>Every mutator, with its arguments.\<close>

datatype mutation =
  MarkHistoryTruncated
| SetLocalFiles ustring "(ustring \<times> ustring) list"
| SetLabeledImages ustring "(ustring \<times> image_bytes) list"
| SetImages ustring "image_bytes list"
| RestoreImages "stored_image list"
| Clear
| SetStreamActive bool
| SetStreamLabel ustring
| RetainEntryIds ustring
| SetSourceTransportForUserTurn ustring ustring
| FinishRunning entry_status
| Restore transcript_entry
| Push ustring nat entry_kind ustring ustring entry_status
| Upsert ustring nat ustring entry_kind ustring ustring entry_status
| AppendDelta ustring nat ustring entry_kind ustring ustring
| SetCoordination ustring "ustring option"
| SetCreatedAtMs ustring "nat option"
| SetOrigin ustring "ustring option" "ustring option"
| SetModelOptions ustring "ustring option" bool
| SetTurnAttribution ustring ustring "ustring option" bool
| SetSourceTransport ustring "ustring option"
| SetToolAudit ustring "ustring option"
| SetStatus ustring entry_status
| FinishRunningEntry ustring entry_status
| ReplaceBody ustring ustring entry_status
| MoveBefore ustring ustring
| Remove ustring

fun mutate :: "mutation \<Rightarrow> transcript \<Rightarrow> transcript option" where
  "mutate MarkHistoryTruncated t = Some (mark_history_truncated t)"
| "mutate (SetLocalFiles key fs) t = Some (set_local_files key fs t)"
| "mutate (SetLabeledImages key xs) t = Some (set_labeled_images key xs t)"
| "mutate (SetImages key xs) t = Some (set_images key xs t)"
| "mutate (RestoreImages xs) t = Some (restore_images xs t)"
| "mutate Clear t = Some (clear_transcript t)"
| "mutate (SetStreamActive active) t = Some (set_stream_active active t)"
| "mutate (SetStreamLabel label) t = Some (set_stream_label label t)"
| "mutate (RetainEntryIds session) t = Some (retain_entry_ids session t)"
| "mutate (SetSourceTransportForUserTurn turn transport) t =
     Some (set_source_transport_for_user_turn turn transport t)"
| "mutate (FinishRunning status) t = Some (finish_running status t)"
| "mutate (Restore entry) t = restore entry t"
| "mutate (Push uuid now kind title body status) t = Some (push uuid now kind title body status t)"
| "mutate (Upsert uuid now key kind title body status) t = upsert uuid now key kind title body status t"
| "mutate (AppendDelta uuid now key kind title delta) t = append_delta uuid now key kind title delta t"
| "mutate (SetCoordination prompt_id js) t = set_coordination prompt_id js t"
| "mutate (SetCreatedAtMs key ms) t = set_created_at_ms key ms t"
| "mutate (SetOrigin key provider model) t = set_origin key provider model t"
| "mutate (SetModelOptions key effort fast) t = set_model_options key effort fast t"
| "mutate (SetTurnAttribution key turn effort fast) t = set_turn_attribution key turn effort fast t"
| "mutate (SetSourceTransport key transport) t = set_source_transport key transport t"
| "mutate (SetToolAudit key audit) t = set_tool_audit key audit t"
| "mutate (SetStatus key status) t = set_status key status t"
| "mutate (FinishRunningEntry key status) t = finish_running_entry key status t"
| "mutate (ReplaceBody key body status) t = replace_body key body status t"
| "mutate (MoveBefore key anchor) t = move_before key anchor t"
| "mutate (Remove key) t = remove key t"

end
