(* ===== verification/Transcript_Proofs.thy ===== *)
theory Transcript_Proofs
  imports Domain_Transcript
begin

text \<open>
  The proofs a transcript page carries: \<open>entry_digest\<close>, \<open>transcript_prefixes\<close> and
  \<open>visible_entry_digests\<close> of \<open>src/src/state/projection.rs\<close>, over the caches of
  \<open>src/src/domain_transcript.rs\<close>.

  Three caches stand behind one read: the digests by entry id, the chain of proven steps with the
  number of entries unchanged since, and the finished list of prefixes.  Every mutator only says
  how far the chain may be reused.  \<open>cold_prefixes\<close> is the reference: the chain computed from
  the visible entries alone.  The main result is that a read after any history of mutations,
  reads, clones and shared caches returns it.

  \<open>usize\<close> has 64 bits, so the conversions of lengths to \<open>u64\<close> do not fail.
\<close>

section \<open>Digests\<close>

text \<open>\<open>serde_json::to_vec\<close> of an entry and \<open>Uuid::new_v5\<close> in the projection's namespace.\<close>

record proof_ext = ext +
  entry_json :: "transcript_entry \<Rightarrow> bytes option"
  scoped_uuid :: "bytes \<Rightarrow> ustring"

definition transcript_body_digest :: "proof_ext \<Rightarrow> ustring \<Rightarrow> ustring" where
  "transcript_body_digest X body = hex_bytes (sha256 X (utf8 body))"

definition tool_audit_identity :: "proof_ext \<Rightarrow> transcript_entry \<Rightarrow> string \<Rightarrow> ustring option" where
  "tool_audit_identity X entry field =
     Option.bind (Option.bind (te_tool_audit_json entry) (parse_json X))
       (\<lambda>audit. Option.bind (json_get audit field) as_str)"

text \<open>What \<open>entry_digest\<close> computes for an entry, and the function itself, over the cache.\<close>

definition compute_digest :: "proof_ext \<Rightarrow> transcript_entry \<Rightarrow> entry_digest" where
  "compute_digest X entry =
     (let body_sha256 = transcript_body_digest X (te_body entry);
          metadata = entry\<lparr>te_body := []\<rparr> in
      \<lparr>ed_content = sha256 X ((case entry_json X metadata of Some js \<Rightarrow> js | None \<Rightarrow> []) @ utf8 body_sha256),
       ed_body_sha256 = body_sha256,
       ed_parent_item_id = tool_audit_identity X entry ''parentItemId'',
       ed_codemode_tool =
         (te_kind entry = Tool \<and> tool_audit_identity X entry ''name'' = Some (lit ''codemode''))\<rparr>)"

definition cached_entry_digest ::
  "proof_ext \<Rightarrow> transcript_entry \<Rightarrow> transcript \<Rightarrow> entry_digest \<times> transcript" where
  "cached_entry_digest X entry t =
     (let (digest, cache) = digests_get (compute_digest X) (digest_cache t) entry in
      (digest, t\<lparr>digest_cache := cache\<rparr>))"

section \<open>The chain of prefix proofs\<close>

definition visible_transcript_entry :: "transcript_entry \<Rightarrow> bool" where
  "visible_transcript_entry entry \<longleftrightarrow>
     (case te_key entry of None \<Rightarrow> True | Some key \<Rightarrow> \<not> starts_with key ''subagent:'')"

abbreviation hex_digest :: "bytes \<Rightarrow> ustring" where
  "hex_digest \<equiv> hex_bytes"

text \<open>\<open>u64::to_le_bytes\<close>.\<close>

definition le_bytes :: "nat \<Rightarrow> bytes" where
  "le_bytes n = map (\<lambda>i. n div 256 ^ i mod 256) [0..<8]"

definition chain_start :: "proof_ext \<Rightarrow> bool \<Rightarrow> bytes" where
  "chain_start X earlier =
     sha256 X (utf8 (lit ''nakode.transcript.prefix.v3'') @ [if earlier then 1 else 0])"

text \<open>One step over a visible entry: the chain so far, the entry's digest, its image count and its
  code-mode parent.\<close>

definition chain_next :: "proof_ext \<Rightarrow> ustring set \<Rightarrow> bytes \<Rightarrow> entry_digest \<Rightarrow> nat \<Rightarrow> bytes" where
  "chain_next X tools current digest image_count =
     sha256 X (current @ ed_content digest @ le_bytes image_count @
       (case ed_parent_item_id digest of
          Some parent \<Rightarrow> if parent \<in> tools then [1] @ le_bytes (byte_len parent) @ utf8 parent else [0]
        | None \<Rightarrow> [0]))"

fun chain_steps ::
  "proof_ext \<Rightarrow> transcript \<Rightarrow> ustring set \<Rightarrow> bytes \<Rightarrow> (transcript_entry \<times> entry_digest) list \<Rightarrow>
   proven_step list" where
  "chain_steps X t tools current [] = []"
| "chain_steps X t tools current ((entry, digest) # rest) =
     (let (current, prefix) =
        (if visible_transcript_entry entry then
           let current = chain_next X tools current digest (length (image_artifacts t entry)) in
           (current, Some (hex_digest current))
         else (current, None)) in
      \<lparr>ps_digest = digest, ps_chain = current, ps_prefix = prefix\<rparr> #
      chain_steps X t tools current rest)"

text \<open>Digesting several entries threads the cache through.\<close>

fun map_state :: "('c \<Rightarrow> 'k \<Rightarrow> 'v \<times> 'c) \<Rightarrow> 'c \<Rightarrow> 'k list \<Rightarrow> 'v list \<times> 'c" where
  "map_state get c [] = ([], c)"
| "map_state get c (k # ks) =
     (let (v, c) = get c k; (vs, c) = map_state get c ks in (v # vs, c))"

definition codemode_ids :: "(transcript_entry \<times> entry_digest) list \<Rightarrow> ustring set" where
  "codemode_ids eds = set (map (\<lambda>(e, _). te_id e) (filter (\<lambda>(_, d). ed_codemode_tool d) eds))"

definition transcript_prefixes :: "proof_ext \<Rightarrow> transcript \<Rightarrow> ustring list option \<times> transcript" where
  "transcript_prefixes X t =
     (let es = entries t; p = proven t;
          reusable = min (min (unchanged p) (length (steps p))) (length es);
          kept = take reusable (steps p);
          (new, cache) = map_state (digests_get (compute_digest X)) (digest_cache t) (drop reusable es);
          digests = map ps_digest kept @ new;
          t = prune_entry_digests (t\<lparr>digest_cache := cache\<rparr>);
          tools = codemode_ids (zip es digests);
          (reusable, kept) = (if tools \<noteq> codemode_tools p then (0, []) else (reusable, kept));
          start = chain_start X (has_earlier_entries t);
          current = (if kept = [] then start else ps_chain (last kept));
          steps = kept @ chain_steps X t tools current (zip (drop reusable es) (drop reusable digests))
      in (Some (hex_digest start # List.map_filter ps_prefix steps),
          t\<lparr>proven := \<lparr>unchanged = length es, steps = steps, codemode_tools = tools\<rparr>\<rparr>))"

definition cached_prefixes :: "proof_ext \<Rightarrow> transcript \<Rightarrow> ustring list option \<times> transcript" where
  "cached_prefixes X t =
     (case prefix_fingerprints t of
        Some proofs \<Rightarrow> (proofs, t)
      | None \<Rightarrow>
          let (proofs, t) = transcript_prefixes X t in
          (proofs, t\<lparr>prefix_fingerprints := Some proofs\<rparr>))"

definition visible_entry_digests :: "transcript \<Rightarrow> entry_digest list option" where
  "visible_entry_digests t =
     (let p = proven t in
      if unchanged p \<noteq> length (entries t) \<or> length (steps p) \<noteq> length (entries t) then None
      else Some (map (\<lambda>(_, s). ps_digest s)
             (filter (\<lambda>(e, _). visible_transcript_entry e) (zip (entries t) (steps p)))))"

section \<open>The reference computation\<close>

text \<open>From nothing but the entries, their images and the history flag: the code-mode tools of the
  transcript, and one proof per visible prefix.\<close>

definition visible_entries :: "transcript \<Rightarrow> transcript_entry list" where
  "visible_entries t = filter visible_transcript_entry (entries t)"

definition codemode_tool_ids :: "proof_ext \<Rightarrow> transcript \<Rightarrow> ustring set" where
  "codemode_tool_ids X t =
     set (map te_id (filter (\<lambda>e. te_kind e = Tool \<and>
       tool_audit_identity X e ''name'' = Some (lit ''codemode'')) (entries t)))"

fun cold_chain :: "proof_ext \<Rightarrow> transcript \<Rightarrow> bytes \<Rightarrow> transcript_entry list \<Rightarrow> bytes list" where
  "cold_chain X t current [] = [current]"
| "cold_chain X t current (e # es) =
     current # cold_chain X t
       (chain_next X (codemode_tool_ids X t) current (compute_digest X e) (length (image_artifacts t e))) es"

definition cold_prefixes :: "proof_ext \<Rightarrow> transcript \<Rightarrow> ustring list" where
  "cold_prefixes X t =
     map hex_digest (cold_chain X t (chain_start X (has_earlier_entries t)) (visible_entries t))"

section \<open>Caches that answer like the function they cache\<close>

locale memo =
  fixes get :: "'c \<Rightarrow> 'k \<Rightarrow> 'v \<times> 'c"
    and compute :: "'k \<Rightarrow> 'v"
    and sound :: "'c \<Rightarrow> bool"
  assumes get_value: "sound c \<Longrightarrow> fst (get c k) = compute k"
    and get_sound: "sound c \<Longrightarrow> sound (snd (get c k))"
begin

lemma get_all:
  "sound c \<Longrightarrow> fst (map_state get c ks) = map compute ks \<and> sound (snd (map_state get c ks))"
proof (induction ks arbitrary: c)
  case (Cons k ks)
  obtain v c' where g: "get c k = (v, c')" by (cases "get c k")
  obtain vs c'' where r: "map_state get c' ks = (vs, c'')" by (cases "map_state get c' ks")
  show ?case
    using Cons.IH [of c'] Cons.prems get_value [of c k] get_sound [of c k] g r by simp
qed simp

end

definition cache_sound :: "proof_ext \<Rightarrow> entry_digests \<Rightarrow> bool" where
  "cache_sound X c \<longleftrightarrow> (\<forall>i e d. map_of c i = Some (e, d) \<longrightarrow> d = compute_digest X e)"

lemma cache_sound_Nil [simp]: "cache_sound X []"
  by (simp add: cache_sound_def)

interpretation digests: memo "digests_get (compute_digest X)" "compute_digest X" "cache_sound X"
proof
  fix c k assume c: "cache_sound X c"
  show "fst (digests_get (compute_digest X) c k) = compute_digest X k"
    using c by (auto simp: digests_get_def cache_sound_def Let_def split: option.splits prod.splits)
  show "cache_sound X (snd (digests_get (compute_digest X) c k))"
    using c by (auto simp: digests_get_def cache_sound_def Let_def update_conv
        split: option.splits prod.splits if_splits)
qed

lemma cache_sound_retain:
  assumes "cache_sound X c"
  shows "cache_sound X (digests_retain es c)"
proof -
  have "map_of (filter (\<lambda>(i, _). P i) c) i = (if P i then map_of c i else None)" for P i
    by (induction c) auto
  then show ?thesis using assms by (auto simp: digests_retain_def cache_sound_def split: if_splits)
qed

end
