(* ===== verification/Transcript_Chain.thy ===== *)
theory Transcript_Chain
  imports Transcript_Proofs
begin

text \<open>
  Why a read of the prefix proofs returns the reference chain.  \<open>chain_ok\<close> says that the steps a
  transcript may reuse are the ones a computation from scratch would start with; every mutator
  keeps it because the entries below the index it reports are untouched (\<open>touched\<close>), and a read
  extends it to the whole transcript.
\<close>

section \<open>Steps\<close>

text \<open>Images are looked up by key in the image table alone.\<close>

lemma image_artifacts_cong: "images t' = images t \<Longrightarrow> image_artifacts t' e = image_artifacts t e"
  by (simp add: image_artifacts_def cong: option.case_cong)

lemma image_artifacts_caches [simp]:
  "image_artifacts (t\<lparr>digest_cache := c\<rparr>) e = image_artifacts t e"
  "image_artifacts (t\<lparr>prefix_fingerprints := v\<rparr>) e = image_artifacts t e"
  "image_artifacts (t\<lparr>proven := p\<rparr>) e = image_artifacts t e"
  by (rule image_artifacts_cong, simp)+

abbreviation digested :: "proof_ext \<Rightarrow> transcript_entry list \<Rightarrow> (transcript_entry \<times> entry_digest) list" where
  "digested X es \<equiv> map (\<lambda>e. (e, compute_digest X e)) es"

definition chain_after :: "bytes \<Rightarrow> proven_step list \<Rightarrow> bytes" where
  "chain_after current ss = (if ss = [] then current else ps_chain (last ss))"

lemma chain_after_simps [simp]:
  "chain_after current [] = current"
  "chain_after current (s # ss) = chain_after (ps_chain s) ss"
  by (simp_all add: chain_after_def)

lemma length_chain_steps [simp]: "length (chain_steps X t T current eds) = length eds"
  by (induction X t T current eds rule: chain_steps.induct) (simp_all add: Let_def split: prod.splits)

lemma digests_chain_steps [simp]: "map ps_digest (chain_steps X t T current eds) = map snd eds"
  by (induction X t T current eds rule: chain_steps.induct) (simp_all add: Let_def split: prod.splits)

lemma chain_steps_append:
  "chain_steps X t T current (xs @ ys) =
     chain_steps X t T current xs @
     chain_steps X t T (chain_after current (chain_steps X t T current xs)) ys"
  by (induction X t T current xs rule: chain_steps.induct) (simp_all add: Let_def split: prod.splits)

lemma take_chain_steps:
  "take n (chain_steps X t T current eds) = chain_steps X t T current (take n eds)"
proof (induction eds arbitrary: n current)
  case (Cons a eds)
  then show ?case by (cases a; cases n) (simp_all add: Let_def)
qed simp

text \<open>Steps read the transcript only for the number of images of the entries they cover.\<close>

lemma chain_steps_cong:
  assumes "\<And>e. e \<in> set es \<Longrightarrow> length (image_artifacts t' e) = length (image_artifacts t e)"
  shows "chain_steps X t' T current (digested X es) = chain_steps X t T current (digested X es)"
  using assms by (induction es arbitrary: current) (simp_all add: Let_def)

lemma steps_prove_cold:
  "hex_digest current # List.map_filter ps_prefix (chain_steps X t (codemode_tool_ids X t) current (digested X es)) =
     map hex_digest (cold_chain X t current (filter visible_transcript_entry es))"
  by (induction es arbitrary: current) (auto simp: Let_def List.map_filter_simps)

lemma codemode_ids_digested [simp]:
  "codemode_ids (digested X (entries t)) = codemode_tool_ids X t"
  by (auto simp: codemode_ids_def codemode_tool_ids_def compute_digest_def Let_def image_iff)

section \<open>What may be reused\<close>

definition reusable_steps :: "transcript \<Rightarrow> nat" where
  "reusable_steps t =
     min (min (unchanged (proven t)) (length (steps (proven t)))) (length (entries t))"

definition chain_ok :: "proof_ext \<Rightarrow> transcript \<Rightarrow> bool" where
  "chain_ok X t \<longleftrightarrow>
     take (reusable_steps t) (steps (proven t)) =
     chain_steps X t (codemode_tools (proven t)) (chain_start X (has_earlier_entries t))
       (digested X (take (reusable_steps t) (entries t)))"

definition full_chain :: "proof_ext \<Rightarrow> transcript \<Rightarrow> proven_chain" where
  "full_chain X t =
     \<lparr>unchanged = length (entries t),
      steps = chain_steps X t (codemode_tool_ids X t) (chain_start X (has_earlier_entries t))
        (digested X (entries t)),
      codemode_tools = codemode_tool_ids X t\<rparr>"

lemma chain_ok_full:
  assumes "proven t = full_chain X t"
  shows "chain_ok X t"
  unfolding chain_ok_def reusable_steps_def assms by (simp add: full_chain_def)

lemma chain_ok_none: "unchanged (proven t) = 0 \<or> steps (proven t) = [] \<or> entries t = [] \<Longrightarrow> chain_ok X t"
  by (auto simp: chain_ok_def reusable_steps_def)

text \<open>The read: with sound caches it returns the reference and leaves the full chain.\<close>

lemma transcript_prefixes_cold:
  assumes ok: "chain_ok X t" and sound: "cache_sound X (digest_cache t)"
  obtains c where "cache_sound X c"
    "transcript_prefixes X t = (Some (cold_prefixes X t), t\<lparr>digest_cache := c, proven := full_chain X t\<rparr>)"
proof -
  let ?es = "entries t" and ?n = "reusable_steps t" and ?T = "codemode_tools (proven t)"
  let ?kept = "take ?n (steps (proven t))" and ?start = "chain_start X (has_earlier_entries t)"
  obtain new c where m: "map_state (digests_get (compute_digest X)) (digest_cache t) (drop ?n ?es) = (new, c)"
    by (cases "map_state (digests_get (compute_digest X)) (digest_cache t) (drop ?n ?es)")
  then have new: "new = map (compute_digest X) (drop ?n ?es)" and c: "cache_sound X c"
    using digests.get_all [OF sound, of "drop ?n ?es"] by simp_all
  have kept: "?kept = chain_steps X t ?T ?start (digested X (take ?n ?es))"
    using ok by (simp add: chain_ok_def)
  have "map ps_digest ?kept @ new = map (compute_digest X) (take ?n ?es @ drop ?n ?es)"
    unfolding kept new by (simp add: comp_def flip: map_append)
  then have digests: "map ps_digest ?kept @ new = map (compute_digest X) ?es"
    unfolding append_take_drop_id .
  have zip: "zip (drop k ?es) (drop k (map (compute_digest X) ?es)) = digested X (drop k ?es)" for k
    by (simp add: zip_map2 drop_map zip_same_conv_map comp_def)
  have all: "zip ?es (map (compute_digest X) ?es) = digested X ?es"
    using zip [of 0] by simp
  let ?c = "digests_retain ?es c" and ?T' = "codemode_tool_ids X t"
  have steps: "chain_steps X t ?T' ?start (digested X ?es) =
      ?kept @ chain_steps X t ?T' (chain_after ?start ?kept) (digested X (drop ?n ?es))" if "?T' = ?T"
  proof -
    have "digested X ?es = digested X (take ?n ?es) @ digested X (drop ?n ?es)"
      by (simp flip: map_append)
    then show ?thesis unfolding kept that by (simp only: chain_steps_append)
  qed
  have frame: "chain_steps X (t\<lparr>digest_cache := d\<rparr>) T cur eds = chain_steps X t T cur eds" for d T cur eds
    by (induction X t T cur eds rule: chain_steps.induct) (simp_all add: Let_def)
  let ?t = "t\<lparr>digest_cache := ?c\<rparr>"
  have prune: "prune_entry_digests (t\<lparr>digest_cache := c\<rparr>) = ?t"
    by (simp add: prune_entry_digests_def)
  have early: "has_earlier_entries ?t = has_earlier_entries t" by (simp add: has_earlier_entries_def)
  have "transcript_prefixes X t =
      (Some (hex_digest ?start # List.map_filter ps_prefix (steps (full_chain X t))),
       ?t\<lparr>proven := full_chain X t\<rparr>)"
  proof (cases "?T' = ?T")
    case True
    show ?thesis
      unfolding transcript_prefixes_def Let_def reusable_steps_def [symmetric] m prod.case digests all
        codemode_ids_digested prune early frame zip full_chain_def steps [OF True] chain_after_def
      using True by simp
  next
    case False
    then show ?thesis
      unfolding transcript_prefixes_def Let_def reusable_steps_def [symmetric] m prod.case digests all
        codemode_ids_digested prune early frame full_chain_def
      by simp (simp add: zip_map2 comp_def zip_same_conv_map)
  qed
  also have "hex_digest ?start # List.map_filter ps_prefix (steps (full_chain X t)) = cold_prefixes X t"
    using steps_prove_cold [of ?start X t ?es] by (simp add: full_chain_def cold_prefixes_def visible_entries_def)
  finally show ?thesis using that cache_sound_retain [OF c] by fastforce
qed

section \<open>Mutators leave the reusable part alone\<close>

definition touched :: "nat \<Rightarrow> transcript \<Rightarrow> transcript \<Rightarrow> bool" where
  "touched n t t' \<longleftrightarrow>
     prefix_fingerprints t' = None \<and> digest_cache t' = digest_cache t \<and>
     proven t' = (proven t)\<lparr>unchanged := min (unchanged (proven t)) n\<rparr> \<and>
     (n = 0 \<or>
      has_earlier_entries t' = has_earlier_entries t \<and> take n (entries t') = take n (entries t) \<and>
      (\<forall>e \<in> set (take n (entries t)). image_artifacts t' e = image_artifacts t e))"

lemma touched_chain_ok:
  assumes ok: "chain_ok X t" and touched: "touched n t t'"
  shows "chain_ok X t'"
proof (cases "n = 0")
  case True
  then show ?thesis using touched by (intro chain_ok_none) (simp add: touched_def)
next
  case False
  let ?r = "reusable_steps t" and ?r' = "reusable_steps t'"
  have p: "steps (proven t') = steps (proven t)" "codemode_tools (proven t') = codemode_tools (proven t)"
    and u: "unchanged (proven t') = min (unchanged (proven t)) n"
    and same: "take n (entries t') = take n (entries t)" "has_earlier_entries t' = has_earlier_entries t"
    and counts: "\<And>e. e \<in> set (take n (entries t)) \<Longrightarrow> image_artifacts t' e = image_artifacts t e"
    using touched False by (auto simp: touched_def)
  have "length (take n (entries t')) = length (take n (entries t))" by (simp only: same)
  then have le: "?r' \<le> ?r" "?r' \<le> n"
    by (auto simp: reusable_steps_def p u)
  have es: "take ?r' (entries t') = take ?r' (entries t)"
    using same(1) le(2) by (metis min.absorb1 take_take)
  have sub: "set (take ?r' (entries t)) \<subseteq> set (take n (entries t))"
    using le(2) by (rule set_take_subset_set_take)
  have "take ?r' (steps (proven t')) = take ?r' (take ?r (steps (proven t)))"
    using le(1) by (simp add: p min_absorb1)
  also have "\<dots> = chain_steps X t (codemode_tools (proven t)) (chain_start X (has_earlier_entries t))
      (digested X (take ?r' (entries t)))"
    using ok le(1) by (simp add: chain_ok_def take_chain_steps take_map min_absorb1)
  also have "\<dots> = chain_steps X t' (codemode_tools (proven t)) (chain_start X (has_earlier_entries t))
      (digested X (take ?r' (entries t)))"
    using counts sub by (intro chain_steps_cong [symmetric]) (metis subsetD)
  finally show ?thesis by (simp add: chain_ok_def p same es)
qed

lemma touched_caches [simp]:
  "touched n t t' \<Longrightarrow> prefix_fingerprints t' = None"
  "touched n t t' \<Longrightarrow> digest_cache t' = digest_cache t"
  by (simp_all add: touched_def)

lemma changed_from_fields [simp]:
  "entries (changed_from n t) = entries t" "item_indices (changed_from n t) = item_indices t"
  "images (changed_from n t) = images t" "history_retention (changed_from n t) = history_retention t"
  "digest_cache (changed_from n t) = digest_cache t" "local_files (changed_from n t) = local_files t"
  "prefix_fingerprints (changed_from n t) = None" "stream_state (changed_from n t) = stream_state t"
  "stream_label (changed_from n t) = stream_label t"
  "proven (changed_from n t) = (proven t)\<lparr>unchanged := min (unchanged (proven t)) n\<rparr>"
  by (simp_all add: changed_from_def)

lemma changed_at_key_fields [simp]:
  "entries (changed_at_key k t) = entries t" "item_indices (changed_at_key k t) = item_indices t"
  "images (changed_at_key k t) = images t" "history_retention (changed_at_key k t) = history_retention t"
  "digest_cache (changed_at_key k t) = digest_cache t" "local_files (changed_at_key k t) = local_files t"
  by (simp_all add: changed_at_key_def)

lemma touchedI:
  assumes "prefix_fingerprints t' = None" "digest_cache t' = digest_cache t"
    "proven t' = (proven t)\<lparr>unchanged := min (unchanged (proven t)) n\<rparr>"
    "n = 0 \<or> history_retention t' = history_retention t \<and> take n (entries t') = take n (entries t) \<and>
      images t' = images t"
  shows "touched n t t'"
proof -
  have "images t' = images t \<Longrightarrow> image_artifacts t' e = image_artifacts t e" for e
    by (rule image_artifacts_cong)
  then show ?thesis using assms unfolding touched_def has_earlier_entries_def
    by (cases "n = 0") simp_all
qed

lemma changed_at_key_touched: "\<exists>n. touched n t (changed_at_key k t)"
  unfolding changed_at_key_def by (rule exI, rule touchedI) simp_all

lemma at_key_touched:
  assumes "at_key f k (changed_at_key k t) = Some t'"
  shows "\<exists>n. touched n t t'"
proof (cases "item_indices t k")
  case None
  then show ?thesis using assms changed_at_key_touched by (auto simp: at_key_def)
next
  case (Some i)
  then have "touched i t t'"
    using assms by (intro touchedI) (auto simp: at_key_def at_index_def changed_at_key_def split: if_splits)
  then show ?thesis by blast
qed

lemma appended_touched:
  assumes "t' = (changed_from (length (entries t)) t)\<lparr>entries := entries t @ es, item_indices := m\<rparr>"
  shows "\<exists>n. touched n t t'"
  using assms by (intro exI [of _ "length (entries t)"] touchedI) simp_all

lemma whole_touched:
  "prefix_fingerprints t' = None \<Longrightarrow> digest_cache t' = digest_cache t \<Longrightarrow>
   proven t' = (proven t)\<lparr>unchanged := 0\<rparr> \<Longrightarrow> \<exists>n. touched n t t'"
  by (rule exI [of _ 0], rule touchedI) simp_all

lemma index_entries_fold:
  "fold (\<lambda>(i, e) m. case te_key e of Some key \<Rightarrow> m(key \<mapsto> i) | None \<Rightarrow> m) (enumerate n es) m k = None \<longleftrightarrow>
   m k = None \<and> (\<forall>e \<in> set es. te_key e \<noteq> Some k)"
  by (induction es arbitrary: n m) (auto split: option.splits)

lemma index_entries_None: "index_entries es k = None \<longleftrightarrow> (\<forall>e \<in> set es. te_key e \<noteq> Some k)"
  by (simp add: index_entries_def index_entries_fold)

lemma reindex_artifacts:
  "e \<in> set (entries t) \<Longrightarrow> image_artifacts (reindex t) e = image_artifacts t e"
  by (auto simp: image_artifacts_def reindex_def Let_def index_entries_None split: option.splits)

lemma reindex_fields [simp]:
  "entries (reindex t) = entries t" "history_retention (reindex t) = history_retention t"
  "digest_cache (reindex t) = digest_cache t" "proven (reindex t) = proven t"
  "prefix_fingerprints (reindex t) = None" "item_indices (reindex t) = index_entries (entries t)"
  by (simp_all add: reindex_def Let_def)

lemma reindexed_touched:
  assumes "take n es = take n (entries t)" "n \<le> length es"
  shows "touched n t (reindex ((changed_from n t)\<lparr>entries := es\<rparr>))"
proof -
  have "image_artifacts (reindex ((changed_from n t)\<lparr>entries := es\<rparr>)) e = image_artifacts t e"
    if "e \<in> set (take n (entries t))" for e
  proof -
    have "e \<in> set es" using that assms(1) by (metis in_set_takeD)
    then have "image_artifacts (reindex ((changed_from n t)\<lparr>entries := es\<rparr>)) e =
        image_artifacts ((changed_from n t)\<lparr>entries := es\<rparr>) e"
      by (intro reindex_artifacts) simp
    also have "\<dots> = image_artifacts t e" by (rule image_artifacts_cong) simp
    finally show ?thesis .
  qed
  then have "\<forall>e \<in> set (take n (entries t)). image_artifacts (reindex ((changed_from n t)\<lparr>entries := es\<rparr>)) e =
      image_artifacts t e" by blast
  then show ?thesis
    unfolding touched_def has_earlier_entries_def by (intro conjI disjI2) (simp_all add: assms(1))
qed

end
