(* ===== verification/Transcript_History.thy ===== *)
theory Transcript_History
  imports Transcript_Chain "HOL-Library.Multiset"
begin

text \<open>
  What holds of a transcript after any history of mutations, proof reads, clones and shared
  caches (\<open>transcript_history\<close>).

  \<^item> \<open>indexes\<close>: the key table is exactly the positions of the keyed entries, so no operation
    indexes out of range.
  \<^item> \<open>spec_mutate\<close> is what each mutator does to the list of entries, by keys alone; the indexed
    operations refine it.
  \<^item> The proof caches are sound, so a read returns the reference chain.
\<close>

section \<open>Histories\<close>

inductive transcript_history :: "proof_ext \<Rightarrow> transcript \<Rightarrow> bool" for X where
  new: "transcript_history X new_transcript"
| mutate: "transcript_history X t \<Longrightarrow> mutate m t = Some t' \<Longrightarrow> transcript_history X t'"
| prefixes: "transcript_history X t \<Longrightarrow> transcript_history X (snd (cached_prefixes X t))"
| digest: "transcript_history X t \<Longrightarrow> transcript_history X (snd (cached_entry_digest X e t))"
| clone: "transcript_history X t \<Longrightarrow> transcript_history X (clone_transcript t)"
| share: "transcript_history X t \<Longrightarrow> transcript_history X u \<Longrightarrow>
    transcript_history X (share_entry_digests (digest_cache u) t)"
| forget: "transcript_history X t \<Longrightarrow> transcript_history X (share_entry_digests [] t)"

section \<open>Mutators and the caches\<close>

lemmas whole_defs = mark_history_truncated_def set_local_files_def set_labeled_images_def set_images_def
  restore_images_def clear_transcript_def set_stream_active_def set_stream_label_def retain_entry_ids_def
  set_source_transport_for_user_turn_def finish_running_def Let_def

lemmas keyed_defs = set_coordination_def set_created_at_ms_def set_origin_def set_model_options_def
  set_turn_attribution_def set_source_transport_def set_tool_audit_def set_status_def
  finish_running_entry_def replace_body_def

lemma push_keyed_touched:
  assumes "item_indices t key = None"
  shows "\<exists>n. touched n t (push_keyed key e (changed_at_key key t))"
  by (rule appended_touched [where t = t and es = "[e]" and m = "(item_indices t)(key \<mapsto> length (entries t))"])
    (simp add: push_keyed_def changed_at_key_def assms)

lemma upserted_touched:
  assumes "(case item_indices t key of Some i \<Rightarrow> at_index f i (changed_at_key key t)
            | None \<Rightarrow> Some (push_keyed key e (changed_at_key key t))) = Some t'"
  shows "\<exists>n. touched n t t'"
proof (cases "item_indices t key")
  case None
  then show ?thesis using assms push_keyed_touched by auto
next
  case (Some i)
  then have "at_key f key (changed_at_key key t) = Some t'" using assms by (simp add: at_key_def)
  then show ?thesis by (rule at_key_touched)
qed

lemma restore_touched:
  assumes "restore e t = Some t'"
  shows "\<exists>n. touched n t t'"
proof (cases "te_key e")
  case None
  then have "t' = (changed_from (length (entries t)) t)\<lparr>entries := entries t @ [e], item_indices := item_indices t\<rparr>"
    using assms by (auto simp: restore_def changed_from_def)
  then show ?thesis by (rule appended_touched)
next
  case (Some key)
  then have "(case item_indices t key of Some i \<Rightarrow> at_index (\<lambda>_. e) i (changed_at_key key t)
      | None \<Rightarrow> Some (push_keyed key e (changed_at_key key t))) = Some t'"
    using assms by (auto simp: restore_def Let_def push_keyed_def split: option.splits)
  then show ?thesis by (rule upserted_touched)
qed

lemma move_before_touched:
  assumes "move_before key anchor t = Some t'"
  shows "\<exists>n. touched n t t'"
proof (cases "item_indices t key = None \<or> item_indices t anchor = None \<or>
    the (item_indices t key) < the (item_indices t anchor)")
  case True
  then have "t' = changed_at_key anchor t"
    using assms by (auto simp: move_before_def Let_def split: option.splits)
  then show ?thesis using changed_at_key_touched by blast
next
  case False
  then obtain i a where idx: "item_indices t key = Some i" "item_indices t anchor = Some a" "a \<le> i"
    by auto
  then have i: "i < length (entries t)"
    using assms by (simp add: move_before_def vec_remove_def split: if_splits)
  define rest where "rest = take i (entries t) @ drop (Suc i) (entries t)"
  have rest: "a \<le> length rest" "take a rest = take a (entries t)" "a \<le> length (entries t)"
    using idx i by (simp_all add: rest_def)
  have "vec_remove i (entries t) = Some (entries t ! i, rest)"
    using i by (simp add: vec_remove_def rest_def)
  then have "t' = reindex ((changed_from a t)\<lparr>entries := take a rest @ entries t ! i # drop a rest\<rparr>)"
    using assms idx rest(1) by (simp add: move_before_def vec_insert_def changed_at_key_def)
  moreover have "touched a t (reindex ((changed_from a t)\<lparr>entries := take a rest @ entries t ! i # drop a rest\<rparr>))"
    using rest by (intro reindexed_touched) simp_all
  ultimately show ?thesis by blast
qed

lemma remove_touched:
  assumes "remove key t = Some t'"
  shows "\<exists>n. touched n t t'"
proof -
  consider "t' = changed_at_key key t"
  | i where "i < length (entries t)"
      "t' = reindex ((changed_from i t)\<lparr>entries := take i (entries t) @ drop (Suc i) (entries t)\<rparr>)"
    using assms
    by (auto simp: remove_def Let_def vec_remove_def changed_at_key_def split: option.splits if_splits)
  then show ?thesis
  proof cases
    case 1
    then show ?thesis using changed_at_key_touched by blast
  next
    case 2
    then show ?thesis by (auto intro!: exI [of _ i] reindexed_touched)
  qed
qed

lemma set_tool_audit_touched:
  "set_tool_audit key audit t = Some t' \<Longrightarrow> \<exists>n. touched n t t'"
  using changed_at_key_touched at_key_touched
  by (fastforce simp: set_tool_audit_def Let_def split: if_splits)

lemma push_touched: "\<exists>n. touched n t (push uuid now kind title body status t)"
  by (rule appended_touched [where t = t and m = "item_indices t"]) (simp add: push_def changed_from_def)

lemma mutate_touched:
  assumes "mutate m t = Some t'"
  shows "\<exists>n. touched n t t'"
proof (cases m)
  case (Restore e)
  then show ?thesis using assms restore_touched by simp
next
  case (Push uuid now kind title body status)
  then show ?thesis using assms push_touched by auto
next
  case (Upsert uuid now key kind title body status)
  then show ?thesis using assms by (auto simp: upsert_def Let_def intro: upserted_touched)
next
  case (AppendDelta uuid now key kind title delta)
  then show ?thesis using assms by (auto simp: append_delta_def Let_def intro: upserted_touched)
next
  case (SetToolAudit key audit)
  then show ?thesis using assms set_tool_audit_touched by simp
next
  case (MoveBefore key anchor)
  then show ?thesis using assms move_before_touched by simp
next
  case (Remove key)
  then show ?thesis using assms remove_touched by simp
qed (insert assms, ((simp add: keyed_defs Let_def; erule at_key_touched)
  | (rule whole_touched; force simp: whole_defs))+)

section \<open>The key table\<close>

text \<open>\<open>indexes m ks\<close>: the table holds exactly the positions of the keys.\<close>

definition indexes :: "(ustring \<Rightarrow> nat option) \<Rightarrow> ustring option list \<Rightarrow> bool" where
  "indexes m ks \<longleftrightarrow> (\<forall>k i. m k = Some i \<longleftrightarrow> i < length ks \<and> ks ! i = Some k)"

abbreviation keyed :: "transcript \<Rightarrow> bool" where
  "keyed t \<equiv> indexes (item_indices t) (map te_key (entries t))"

lemma indexes_Nil [simp]: "indexes Map.empty []"
  by (simp add: indexes_def)

lemma indexes_None: "indexes m ks \<Longrightarrow> m k = None \<longleftrightarrow> Some k \<notin> set ks"
  by (metis indexes_def in_set_conv_nth not_None_eq)

lemma indexes_append:
  "indexes m ks \<Longrightarrow> indexes m (ks @ [None])"
  "indexes m ks \<Longrightarrow> m k = None \<Longrightarrow> indexes (m(k \<mapsto> length ks)) (ks @ [Some k])"
  by (auto simp: indexes_def nth_append less_Suc_eq) (metis option.distinct(1))

lemma indexes_unique: "indexes m ks \<Longrightarrow> i < length ks \<Longrightarrow> j < length ks \<Longrightarrow>
    ks ! i = Some k \<Longrightarrow> ks ! j = Some k \<Longrightarrow> i = j"
  by (metis indexes_def option.inject)

definition unique_keys :: "transcript_entry list \<Rightarrow> bool" where
  "unique_keys es \<longleftrightarrow> distinct (List.map_filter te_key es)"

lemma unique_keys_simps [simp]:
  "unique_keys []"
  "unique_keys (e # es) \<longleftrightarrow> unique_keys es \<and> (\<forall>k. te_key e = Some k \<longrightarrow> (\<forall>d \<in> set es. te_key d \<noteq> Some k))"
  by (auto simp: unique_keys_def List.map_filter_simps List.map_filter_def split: option.splits; force)+

lemma unique_keys_mset: "mset es = mset ds \<Longrightarrow> unique_keys es \<longleftrightarrow> unique_keys ds"
proof -
  assume "mset es = mset ds"
  then have "mset (List.map_filter te_key es) = mset (List.map_filter te_key ds)"
    by (simp add: List.map_filter_def)
  then show ?thesis unfolding unique_keys_def by (rule mset_eq_imp_distinct_iff)
qed

lemma unique_keysI:
  "(\<And>i j k. i < length es \<Longrightarrow> j < length es \<Longrightarrow> te_key (es ! i) = Some k \<Longrightarrow>
     te_key (es ! j) = Some k \<Longrightarrow> i = j) \<Longrightarrow> unique_keys es"
proof (induction es)
  case (Cons e es)
  have "unique_keys es"
  proof (rule Cons.IH)
    fix i j k
    assume "i < length es" "j < length es" "te_key (es ! i) = Some k" "te_key (es ! j) = Some k"
    then show "i = j" using Cons.prems [of "Suc i" "Suc j" k] by simp
  qed
  moreover have "te_key d \<noteq> Some k" if e: "te_key e = Some k" and mem: "d \<in> set es" for d k
  proof
    assume d: "te_key d = Some k"
    obtain j where "j < length es" "es ! j = d" using mem by (auto simp: in_set_conv_nth)
    then show False using Cons.prems [of 0 "Suc j" k] e d by simp
  qed
  ultimately show ?case unfolding unique_keys_simps by blast
qed simp

lemma indexes_unique_keys: "indexes m (map te_key es) \<Longrightarrow> unique_keys es"
  using indexes_unique [of m "map te_key es"] by (intro unique_keysI) simp

lemma index_entries_snoc:
  "index_entries (es @ [e]) =
     (case te_key e of Some k \<Rightarrow> (index_entries es)(k \<mapsto> length es) | None \<Rightarrow> index_entries es)"
  unfolding index_entries_def by (simp add: enumerate_append_eq)

lemma index_entries_indexes: "unique_keys es \<Longrightarrow> indexes (index_entries es) (map te_key es)"
proof (induction es rule: rev_induct)
  case Nil
  then show ?case by (simp add: index_entries_def)
next
  case (snoc e es)
  have "unique_keys (e # es)" using snoc.prems unique_keys_mset [of "es @ [e]" "e # es"] by simp
  then have u: "unique_keys es" and new: "te_key e = Some k \<Longrightarrow> index_entries es k = None" for k
    by (auto simp: index_entries_None)
  show ?case
  proof (cases "te_key e")
    case None
    then show ?thesis using indexes_append(1) [OF snoc.IH [OF u]] by (simp add: index_entries_snoc)
  next
    case (Some k)
    then show ?thesis
      using indexes_append(2) [OF snoc.IH [OF u] new [OF Some]]
      by (simp only: index_entries_snoc option.case length_map list.map map_append)
  qed
qed

section \<open>What the mutators do to the entries\<close>

definition update_key ::
  "ustring \<Rightarrow> (transcript_entry \<Rightarrow> transcript_entry) \<Rightarrow> transcript_entry list \<Rightarrow> transcript_entry list" where
  "update_key k f es = map (\<lambda>e. if te_key e = Some k then f e else e) es"

definition has_key :: "ustring \<Rightarrow> transcript_entry list \<Rightarrow> bool" where
  "has_key k es \<longleftrightarrow> list_ex (\<lambda>e. te_key e = Some k) es"

definition upsert_key ::
  "ustring \<Rightarrow> (transcript_entry \<Rightarrow> transcript_entry) \<Rightarrow> transcript_entry \<Rightarrow> transcript_entry list \<Rightarrow>
   transcript_entry list" where
  "upsert_key k f new es = (if has_key k es then update_key k f es else es @ [new])"

text \<open>\<open>move_key\<close> brings the entry of \<open>k\<close> to just before the entry of \<open>anchor\<close>, when it is after it.\<close>

definition move_key :: "ustring \<Rightarrow> ustring \<Rightarrow> transcript_entry list \<Rightarrow> transcript_entry list" where
  "move_key k anchor es =
     (let before = takeWhile (\<lambda>e. te_key e \<noteq> Some anchor) es;
          behind = dropWhile (\<lambda>e. te_key e \<noteq> Some anchor) es in
      if k \<noteq> anchor
      then before @ filter (\<lambda>e. te_key e = Some k) behind @ filter (\<lambda>e. te_key e \<noteq> Some k) behind
      else es)"

fun spec_mutate :: "mutation \<Rightarrow> transcript_entry list \<Rightarrow> transcript_entry list" where
  "spec_mutate Clear es = []"
| "spec_mutate (RetainEntryIds session) es =
     map (\<lambda>i. (es ! i)\<lparr>te_id := lit ''retained:'' @ session @ lit '':'' @
       (case te_key (es ! i) of None \<Rightarrow> show_nat i | Some key \<Rightarrow> key)\<rparr>) [0..<length es]"
| "spec_mutate (SetSourceTransportForUserTurn turn transport) es =
     map (\<lambda>e. if te_kind e = User \<and> te_owner_turn_id e = Some turn \<and> te_source_transport e = None
               then e\<lparr>te_source_transport := Some transport\<rparr> else e) es"
| "spec_mutate (FinishRunning status) es =
     map (\<lambda>e. if te_status e = Running then e\<lparr>te_status := status\<rparr> else e) es"
| "spec_mutate (Restore entry) es =
     (case te_key entry of None \<Rightarrow> es @ [entry] | Some key \<Rightarrow> upsert_key key (\<lambda>_. entry) entry es)"
| "spec_mutate (Push uuid now kind title body status) es =
     es @ [fresh_entry uuid now None kind title body status]"
| "spec_mutate (Upsert uuid now key kind title body status) es =
     upsert_key key (\<lambda>e. e\<lparr>te_kind := kind, te_title := title, te_body := body, te_status := status\<rparr>)
       (fresh_entry uuid now (Some key) kind title body status) es"
| "spec_mutate (AppendDelta uuid now key kind title delta) es =
     upsert_key key (\<lambda>e. e\<lparr>te_body := te_body e @ delta, te_status := Running\<rparr>)
       (fresh_entry uuid now (Some key) kind title delta Running) es"
| "spec_mutate (SetCoordination prompt_id js) es =
     update_key (lit ''user:'' @ prompt_id) (\<lambda>e. e\<lparr>te_coordination_json := js\<rparr>) es"
| "spec_mutate (SetCreatedAtMs key ms) es = update_key key (\<lambda>e. e\<lparr>te_created_at_ms := ms\<rparr>) es"
| "spec_mutate (SetOrigin key provider model) es =
     update_key key (\<lambda>e. e\<lparr>te_provider_id := (if te_provider_id e = None then provider else te_provider_id e),
       te_model_id := (if te_model_id e = None then model else te_model_id e)\<rparr>) es"
| "spec_mutate (SetModelOptions key effort fast) es =
     update_key key (\<lambda>e. e\<lparr>te_reasoning_effort := effort, te_fast_mode := Some fast\<rparr>) es"
| "spec_mutate (SetTurnAttribution key turn effort fast) es =
     update_key key (\<lambda>e. if te_owner_turn_id e = None
       then e\<lparr>te_owner_turn_id := Some turn, te_reasoning_effort := effort, te_fast_mode := Some fast\<rparr>
       else e) es"
| "spec_mutate (SetSourceTransport key transport) es =
     update_key key (\<lambda>e. if te_source_transport e = None then e\<lparr>te_source_transport := transport\<rparr> else e) es"
| "spec_mutate (SetToolAudit key audit) es =
     (if audit = None then es else update_key key (\<lambda>e. e\<lparr>te_tool_audit_json := audit\<rparr>) es)"
| "spec_mutate (SetStatus key status) es = update_key key (\<lambda>e. e\<lparr>te_status := status\<rparr>) es"
| "spec_mutate (FinishRunningEntry key status) es =
     update_key key (\<lambda>e. if te_status e = Running then e\<lparr>te_status := status\<rparr> else e) es"
| "spec_mutate (ReplaceBody key body status) es =
     update_key key (\<lambda>e. e\<lparr>te_body := body, te_status := status\<rparr>) es"
| "spec_mutate (MoveBefore key anchor) es = move_key key anchor es"
| "spec_mutate (Remove key) es = filter (\<lambda>e. te_key e \<noteq> Some key) es"
| "spec_mutate _ es = es"

lemma has_key_iff: "has_key k es \<longleftrightarrow> Some k \<in> te_key ` set es"
  unfolding has_key_def list_ex_iff image_iff by metis

lemma update_key_absent: "\<not> has_key k es \<Longrightarrow> update_key k f es = es"
  unfolding has_key_def update_key_def by (rule map_idI) (simp add: list_ex_iff)

lemma keyed_None: "keyed t \<Longrightarrow> item_indices t k = None \<longleftrightarrow> \<not> has_key k (entries t)"
  using indexes_None [of "item_indices t" "map te_key (entries t)" k] by (simp add: has_key_iff)

text \<open>The entry of an indexed key, and the entries around it.\<close>

lemma keyed_split:
  assumes "keyed t" "item_indices t k = Some i"
  obtains xs e ys where "entries t = xs @ e # ys" "length xs = i" "te_key e = Some k"
    "\<not> has_key k xs" "\<not> has_key k ys"
proof -
  have i: "i < length (entries t)" "te_key (entries t ! i) = Some k"
    using assms by (auto simp: indexes_def)
  let ?xs = "take i (entries t)" and ?e = "entries t ! i" and ?ys = "drop (Suc i) (entries t)"
  have es: "entries t = ?xs @ ?e # ?ys" by (rule id_take_nth_drop [OF i(1)])
  have "unique_keys (?e # ?xs @ ?ys)"
    using indexes_unique_keys [OF assms(1)] unique_keys_mset [of "entries t" "?e # ?xs @ ?ys"] es
    by (metis mset.simps(2) mset_append union_mset_add_mset_right)
  then have "\<not> has_key k (?xs @ ?ys)" using i(2) by (auto simp: has_key_iff)
  then have "\<not> has_key k ?xs" "\<not> has_key k ?ys" by (simp_all add: has_key_iff image_Un)
  moreover have "length ?xs = i" using i(1) by simp
  ultimately show ?thesis using that [of ?xs ?e ?ys] es i(2) by blast
qed

text \<open>\<open>refines t r es\<close>: the operation does not panic, leaves the entries \<open>es\<close> and a right key table.\<close>

definition refines :: "transcript option \<Rightarrow> transcript_entry list \<Rightarrow> bool" where
  "refines r es \<longleftrightarrow> (\<exists>t'. r = Some t' \<and> entries t' = es \<and> keyed t')"

lemma refinesI: "entries t' = es \<Longrightarrow> indexes (item_indices t') (map te_key es) \<Longrightarrow> refines (Some t') es"
  by (auto simp: refines_def)

lemma at_key_refines:
  assumes "keyed t" "\<And>e. te_key e = Some k \<Longrightarrow> te_key (f e) = Some k"
  shows "refines (at_key f k t) (update_key k f (entries t))"
proof (cases "item_indices t k")
  case None
  then show ?thesis
    using assms(1) keyed_None [OF assms(1), of k]
    by (auto simp: at_key_def update_key_absent intro!: refinesI)
next
  case (Some i)
  then obtain xs e ys where s: "entries t = xs @ e # ys" "length xs = i" "te_key e = Some k"
    "\<not> has_key k xs" "\<not> has_key k ys"
    using keyed_split [OF assms(1)] by blast
  have "update_key k f (entries t) = xs @ f e # ys"
    using s update_key_absent [of k xs f] update_key_absent [of k ys f]
    by (simp add: update_key_def)
  moreover have "at_key f k t = Some (t\<lparr>entries := xs @ f e # ys\<rparr>)"
    using Some s by (auto simp: at_key_def at_index_def)
  ultimately show ?thesis
    using assms s by (auto intro!: refinesI)
qed

lemma push_keyed_refines:
  assumes "keyed t" "\<not> has_key k (entries t)" "te_key e = Some k"
  shows "refines (Some (push_keyed k e t)) (entries t @ [e])"
  using indexes_append(2) [OF assms(1), of k] keyed_None [OF assms(1), of k] assms
  by (intro refinesI) (simp_all add: push_keyed_def)

lemma upserted_refines:
  assumes "keyed t" "\<And>e. te_key e = Some k \<Longrightarrow> te_key (f e) = Some k" "te_key new = Some k"
  shows "refines (case item_indices t k of Some i \<Rightarrow> at_index f i t
    | None \<Rightarrow> Some (push_keyed k new t)) (upsert_key k f new (entries t))"
proof (cases "item_indices t k")
  case None
  then show ?thesis
    using push_keyed_refines [OF assms(1) _ assms(3)] keyed_None [OF assms(1), of k]
    by (simp add: upsert_key_def)
next
  case (Some i)
  then show ?thesis
    using at_key_refines [OF assms(1,2)] keyed_None [OF assms(1), of k]
    by (simp add: upsert_key_def at_key_def)
qed

lemma same_keys_refines:
  assumes "keyed t" "map te_key (entries t') = map te_key (entries t)" "item_indices t' = item_indices t"
    "entries t' = es"
  shows "refines (Some t') es"
  using assms by (metis refinesI)

lemma reindexed_refines:
  assumes "keyed t" "mset es \<subseteq># mset (entries t)"
  shows "refines (Some (reindex (t'\<lparr>entries := es\<rparr>))) es"
proof -
  obtain ds where "mset (entries t) = mset (es @ ds)"
    using assms(2) by (metis ex_mset mset_append subset_mset.le_iff_add)
  then have "unique_keys (es @ ds)"
    using indexes_unique_keys [OF assms(1)] unique_keys_mset by blast
  then have "unique_keys es" by (simp add: unique_keys_def List.map_filter_def)
  then show ?thesis by (intro refinesI index_entries_indexes) (simp_all add: index_entries_indexes)
qed

lemma filter_absent: "\<not> has_key k es \<Longrightarrow> filter (\<lambda>e. te_key e \<noteq> Some k) es = es"
    "\<not> has_key k es \<Longrightarrow> filter (\<lambda>e. te_key e = Some k) es = []"
  by (auto simp: has_key_def list_ex_iff filter_empty_conv)

lemma remove_refines:
  assumes "keyed t"
  shows "refines (remove key t) (filter (\<lambda>e. te_key e \<noteq> Some key) (entries t))"
proof (cases "item_indices t key")
  case None
  then show ?thesis
    using assms keyed_None [OF assms, of key] filter_absent(1)
    by (auto simp: remove_def Let_def intro!: same_keys_refines)
next
  case (Some i)
  then obtain xs e ys where s: "entries t = xs @ e # ys" "length xs = i" "te_key e = Some key"
    "\<not> has_key key xs" "\<not> has_key key ys"
    using keyed_split [OF assms] by blast
  have "remove key t = Some (reindex ((changed_at_key key t)\<lparr>entries := xs @ ys\<rparr>))"
    using Some s by (simp add: remove_def Let_def vec_remove_def)
  moreover have "filter (\<lambda>e. te_key e \<noteq> Some key) (entries t) = xs @ ys"
    using s filter_absent(1) by simp
  moreover have "mset (xs @ ys) \<subseteq># mset (entries t)" using s by simp
  ultimately show ?thesis using reindexed_refines [OF assms] by simp
qed

lemma before_key:
  assumes "\<not> has_key k xs" "te_key e = Some k"
  shows "takeWhile (\<lambda>e. te_key e \<noteq> Some k) (xs @ e # ys) = xs"
    "dropWhile (\<lambda>e. te_key e \<noteq> Some k) (xs @ e # ys) = e # ys"
  using assms by (auto simp: has_key_def list_ex_iff)

lemma move_key_same:
  assumes "k = anchor \<or> \<not> has_key k (dropWhile (\<lambda>e. te_key e \<noteq> Some anchor) es)"
  shows "move_key k anchor es = es"
  using assms by (auto simp: move_key_def Let_def filter_absent)

lemma split_order:
  assumes "xs @ e # ys = us @ d # vs" "length xs < length us"
  obtains ws where "us = xs @ e # ws" "ys = ws @ d # vs"
  using assms by (auto simp: append_eq_append_conv2 Cons_eq_append_conv)

lemma vec_split:
  "vec_remove (length xs) (xs @ e # ys) = Some (e, xs @ ys)"
  "vec_insert (length xs) d (xs @ ys) = Some (xs @ d # ys)"
  by (simp_all add: vec_remove_def vec_insert_def)

lemma move_before_refines:
  assumes "keyed t"
  shows "refines (move_before key anchor t) (move_key key anchor (entries t))"
proof (cases "item_indices t anchor")
  case None
  then have "\<not> has_key anchor (entries t)" using keyed_None [OF assms] by blast
  then have none: "dropWhile (\<lambda>e. te_key e \<noteq> Some anchor) (entries t) = []"
    by (simp add: has_key_def list_ex_iff)
  have "move_key key anchor (entries t) = entries t"
    by (rule move_key_same) (simp only: none has_key_def list_ex_iff list.set empty_iff bex_simps simp_thms)
  moreover have "move_before key anchor t = Some (changed_at_key anchor t)"
    using None by (simp add: move_before_def Let_def split: option.splits)
  ultimately show ?thesis using assms by (auto intro!: same_keys_refines)
next
  case (Some a)
  then obtain xs ea ys where s: "entries t = xs @ ea # ys" "length xs = a" "te_key ea = Some anchor"
    "\<not> has_key anchor xs" "\<not> has_key anchor ys"
    using keyed_split [OF assms] by blast
  note split = before_key [OF s(4,3), of ys, folded s(1)]
  show ?thesis
  proof (cases "item_indices t key")
    case None
    then have "\<not> has_key key (entries t)" using keyed_None [OF assms] by blast
    then have "move_key key anchor (entries t) = entries t"
      unfolding s(1) using split s(1) by (intro move_key_same) (simp add: has_key_def)
    moreover have "move_before key anchor t = Some (changed_at_key anchor t)"
      using None by (simp add: move_before_def Let_def)
    ultimately show ?thesis using assms by (auto intro!: same_keys_refines)
  next
    case key: (Some i)
    then obtain us ek vs where u: "entries t = us @ ek # vs" "length us = i" "te_key ek = Some key"
      "\<not> has_key key us" "\<not> has_key key vs"
      using keyed_split [OF assms] by blast
    have eq: "xs @ ea # ys = us @ ek # vs" using s(1) u(1) by simp
    consider "i < a" | "i = a" | "a < i" by linarith
    then show ?thesis
    proof cases
      case 1
      then obtain ws where "vs = ws @ ea # ys"
        using split_order [OF eq [symmetric]] s(2) u(2) by blast
      then have "\<not> has_key key (ea # ys)" using u(5) by (simp add: has_key_def)
      then have "move_key key anchor (entries t) = entries t"
        using split by (intro move_key_same) simp
      moreover have "move_before key anchor t = Some (changed_at_key anchor t)"
        using Some key 1 by (simp add: move_before_def Let_def)
      ultimately show ?thesis using assms by (auto intro!: same_keys_refines)
    next
      case 2
      then have "us = xs" "ek = ea" using eq s(2) u(2) by (metis append_eq_append_conv list.inject)+
      then have "key = anchor" using u(3) s(3) by simp
      then have "move_key key anchor (entries t) = entries t" by (intro move_key_same) simp
      moreover have "move_before key anchor t = Some (reindex ((changed_at_key anchor t)\<lparr>entries := entries t\<rparr>))"
        using Some key 2 s(1) s(2) [symmetric]
        by (simp add: move_before_def Let_def vec_remove_def vec_insert_def)
      ultimately show ?thesis using reindexed_refines [OF assms, of "entries t"] by simp
    next
      case 3
      then obtain ws where w: "us = xs @ ea # ws" "ys = ws @ ek # vs"
        using split_order [OF eq] s(2) u(2) by blast
      have "key \<noteq> anchor" using s(3,5) u(3) w(2) by (auto simp: has_key_def)
      moreover have "te_key ea \<noteq> Some key" "\<not> has_key key ws"
        using u(4) w(1) by (auto simp: has_key_def)
      ultimately have "move_key key anchor (entries t) = xs @ ek # ea # ws @ vs"
        using split w(2) u(3,5) filter_absent by (simp add: move_key_def Let_def)
      moreover have "move_before key anchor t =
          Some (reindex ((changed_at_key anchor t)\<lparr>entries := xs @ ek # ea # ws @ vs\<rparr>))"
      proof -
        have "vec_remove i (entries t) = Some (ek, us @ vs)"
          using vec_split(1) [of us ek vs] u(1,2) by simp
        moreover have "vec_insert a ek (us @ vs) = Some (xs @ ek # ea # ws @ vs)"
          using vec_split(2) [of xs ek "ea # ws @ vs"] s(2) w(1) by simp
        ultimately show ?thesis using Some key 3 by (simp add: move_before_def Let_def)
      qed
      moreover have "mset (xs @ ek # ea # ws @ vs) \<subseteq># mset (entries t)"
        using s(1) w(2) by simp
      ultimately show ?thesis using reindexed_refines [OF assms] by simp
    qed
  qed
qed

lemma restore_refines:
  assumes "keyed t"
  shows "refines (restore e t) (spec_mutate (Restore e) (entries t))"
proof (cases "te_key e")
  case None
  then show ?thesis
    using indexes_append(1) [OF assms] by (auto simp: restore_def Let_def intro!: refinesI)
next
  case (Some key)
  have "restore e t = (case item_indices (changed_at_key key t) key of
      Some i \<Rightarrow> at_index (\<lambda>_. e) i (changed_at_key key t)
    | None \<Rightarrow> Some (push_keyed key e (changed_at_key key t)))"
    using Some by (simp add: restore_def Let_def push_keyed_def split: option.splits)
  then show ?thesis
    using upserted_refines [of "changed_at_key key t" key "\<lambda>_. e" e] assms Some by simp
qed

lemma keyed_changed: "keyed t \<Longrightarrow> keyed (changed_at_key k t)"
  by simp

lemma update_refines:
  assumes "keyed t" "\<And>e. te_key e = Some k \<Longrightarrow> te_key (f e) = Some k"
  shows "refines (at_key f k (changed_at_key k t)) (update_key k f (entries t))"
  using at_key_refines [OF keyed_changed [OF assms(1)] assms(2)] by simp

lemma upsert_refines:
  assumes "keyed t"
  shows "refines (upsert uuid now key kind title body status t)
    (spec_mutate (Upsert uuid now key kind title body status) (entries t))"
  using upserted_refines [OF keyed_changed [OF assms, of key], of key
      "\<lambda>e. e\<lparr>te_kind := kind, te_title := title, te_body := body, te_status := status\<rparr>"
      "fresh_entry uuid now (Some key) kind title body status"]
  by (simp add: upsert_def Let_def fresh_entry_def)

lemma append_delta_refines:
  assumes "keyed t"
  shows "refines (append_delta uuid now key kind title delta t)
    (spec_mutate (AppendDelta uuid now key kind title delta) (entries t))"
  using upserted_refines [OF keyed_changed [OF assms, of key], of key
      "\<lambda>e. e\<lparr>te_body := te_body e @ delta, te_status := Running\<rparr>"
      "fresh_entry uuid now (Some key) kind title delta Running"]
  by (simp add: append_delta_def Let_def fresh_entry_def)

lemma map_enumerate: "map (\<lambda>(i, e). f i e) (enumerate 0 es) = map (\<lambda>i. f i (es ! i)) [0..<length es]"
  by (rule nth_equalityI) (simp_all add: nth_enumerate_eq)

lemma mutate_refines:
  assumes "keyed t"
  shows "refines (mutate m t) (spec_mutate m (entries t))"
proof (cases m)
  case (RetainEntryIds session)
  then show ?thesis
    using assms
    by (auto simp: retain_entry_ids_def map_enumerate comp_def intro!: same_keys_refines nth_equalityI)
next
  case (Restore e)
  then show ?thesis using restore_refines [OF assms] by simp
next
  case (Upsert uuid now key kind title body status)
  then show ?thesis using upsert_refines [OF assms] by simp
next
  case (AppendDelta uuid now key kind title delta)
  then show ?thesis using append_delta_refines [OF assms] by simp
next
  case (Push uuid now kind title body status)
  then show ?thesis
    using indexes_append(1) [OF assms] by (auto simp: push_def fresh_entry_def intro!: refinesI)
next
  case (SetToolAudit key audit)
  then show ?thesis
    using update_refines [OF assms, of key "\<lambda>e. e\<lparr>te_tool_audit_json := audit\<rparr>"] assms
    by (auto simp: set_tool_audit_def Let_def intro!: same_keys_refines)
next
  case (MoveBefore key anchor)
  then show ?thesis using move_before_refines [OF assms] by simp
next
  case (Remove key)
  then show ?thesis using remove_refines [OF assms] by simp
next
  case Clear
  then show ?thesis by (auto simp: clear_transcript_def intro!: refinesI)
qed (insert assms, ((simp add: keyed_defs Let_def; rule update_refines; simp)
  | (simp add: whole_defs split del: if_split; rule same_keys_refines [OF assms]; simp add: comp_def))+)

section \<open>Invariants of every history\<close>

definition memo_ok :: "proof_ext \<Rightarrow> transcript \<Rightarrow> bool" where
  "memo_ok X t \<longleftrightarrow> (\<forall>v. prefix_fingerprints t = Some v \<longrightarrow> v = Some (cold_prefixes X t))"

definition proofs_ok :: "proof_ext \<Rightarrow> transcript \<Rightarrow> bool" where
  "proofs_ok X t \<longleftrightarrow> cache_sound X (digest_cache t) \<and> chain_ok X t \<and> memo_ok X t"

lemma cold_chain_cong:
  assumes "entries t' = entries t" "images t' = images t"
  shows "cold_chain X t' c es = cold_chain X t c es"
proof -
  have ids: "codemode_tool_ids X t' = codemode_tool_ids X t" by (simp add: codemode_tool_ids_def assms(1))
  have "image_artifacts t' e = image_artifacts t e" for e by (rule image_artifacts_cong [OF assms(2)])
  then show ?thesis by (induction es arbitrary: c) (simp_all add: ids)
qed

lemma cold_prefixes_cong:
  "entries t' = entries t \<Longrightarrow> images t' = images t \<Longrightarrow> history_retention t' = history_retention t \<Longrightarrow>
   cold_prefixes X t' = cold_prefixes X t"
  unfolding cold_prefixes_def visible_entries_def has_earlier_entries_def
  by (simp only: cold_chain_cong [of t' t X])

lemma chain_ok_cong:
  assumes "entries t' = entries t" "images t' = images t" "history_retention t' = history_retention t"
    "proven t' = proven t"
  shows "chain_ok X t' \<longleftrightarrow> chain_ok X t"
proof -
  have "chain_steps X t' T c (digested X es) = chain_steps X t T c (digested X es)" for T c es
    by (rule chain_steps_cong, rule arg_cong [of _ _ length], rule image_artifacts_cong [OF assms(2)])
  then show ?thesis using assms by (simp add: chain_ok_def reusable_steps_def has_earlier_entries_def)
qed

text \<open>A read of the proofs: what it returns and what it leaves.\<close>

lemma cached_prefixes_cold:
  assumes "proofs_ok X t"
  obtains c p where "cached_prefixes X t =
      (Some (cold_prefixes X t), t\<lparr>digest_cache := c, proven := p, prefix_fingerprints := Some (Some (cold_prefixes X t))\<rparr>)"
    "cache_sound X c" "p = proven t \<and> prefix_fingerprints t \<noteq> None \<or> p = full_chain X t"
proof (cases "prefix_fingerprints t")
  case None
  obtain c where c: "cache_sound X c"
    "transcript_prefixes X t = (Some (cold_prefixes X t), t\<lparr>digest_cache := c, proven := full_chain X t\<rparr>)"
    using assms transcript_prefixes_cold unfolding proofs_ok_def by blast
  then show ?thesis using None that [of "full_chain X t" c] by (simp add: cached_prefixes_def)
next
  case (Some v)
  then have "cached_prefixes X t = (Some (cold_prefixes X t), t\<lparr>digest_cache := digest_cache t,
      proven := proven t, prefix_fingerprints := Some (Some (cold_prefixes X t))\<rparr>)"
    using assms by (simp add: cached_prefixes_def proofs_ok_def memo_ok_def)
  then show ?thesis using assms Some that by (fastforce simp: proofs_ok_def)
qed

lemma full_chain_cong: "full_chain X (t\<lparr>digest_cache := c, proven := p, prefix_fingerprints := v\<rparr>) = full_chain X t"
proof -
  have "chain_steps X (t\<lparr>digest_cache := c, proven := p, prefix_fingerprints := v\<rparr>) T d (digested X es) =
      chain_steps X t T d (digested X es)" for T d es
    by (rule chain_steps_cong) simp
  then show ?thesis by (simp add: full_chain_def codemode_tool_ids_def has_earlier_entries_def)
qed

lemma proofs_ok_prefixes:
  assumes ok: "proofs_ok X t"
  shows "proofs_ok X (snd (cached_prefixes X t))"
proof -
  obtain c p where r: "cached_prefixes X t = (Some (cold_prefixes X t),
      t\<lparr>digest_cache := c, proven := p, prefix_fingerprints := Some (Some (cold_prefixes X t))\<rparr>)"
    and c: "cache_sound X c" and p: "p = proven t \<and> prefix_fingerprints t \<noteq> None \<or> p = full_chain X t"
    by (rule cached_prefixes_cold [OF ok])
  let ?t = "t\<lparr>digest_cache := c, proven := p, prefix_fingerprints := Some (Some (cold_prefixes X t))\<rparr>"
  have "chain_ok X ?t"
  proof (cases "p = full_chain X t")
    case True
    then show ?thesis by (intro chain_ok_full) (simp add: full_chain_cong)
  next
    case False
    then have "chain_ok X ?t = chain_ok X t" using p by (intro chain_ok_cong) simp_all
    then show ?thesis using ok by (simp add: proofs_ok_def)
  qed
  moreover have "cold_prefixes X ?t = cold_prefixes X t" by (rule cold_prefixes_cong) simp_all
  ultimately show ?thesis using c r by (simp add: proofs_ok_def memo_ok_def)
qed

lemma proofs_ok_cache:
  assumes "proofs_ok X t" "cache_sound X c"
  shows "proofs_ok X (t\<lparr>digest_cache := c\<rparr>)"
proof -
  have "chain_ok X (t\<lparr>digest_cache := c\<rparr>) = chain_ok X t" by (rule chain_ok_cong) simp_all
  moreover have "cold_prefixes X (t\<lparr>digest_cache := c\<rparr>) = cold_prefixes X t" by (rule cold_prefixes_cong) simp_all
  ultimately show ?thesis using assms by (simp add: proofs_ok_def memo_ok_def)
qed

lemma proofs_ok_clone: "proofs_ok X t \<Longrightarrow> proofs_ok X (clone_transcript t)"
  using cold_prefixes_cong [of "clone_transcript t" t X]
  by (auto simp: proofs_ok_def memo_ok_def clone_transcript_def no_chain_def intro!: chain_ok_none)

lemma cached_entry_digest_value:
  assumes "cache_sound X (digest_cache t)"
  obtains c where "cached_entry_digest X e t = (compute_digest X e, t\<lparr>digest_cache := c\<rparr>)" "cache_sound X c"
  using digests.get_value [OF assms, of e] digests.get_sound [OF assms, of e]
  by (cases "digests_get (compute_digest X) (digest_cache t) e") (simp add: cached_entry_digest_def)

lemma touched_proofs_ok:
  assumes "proofs_ok X t" "touched n t t'"
  shows "proofs_ok X t'"
  using assms touched_chain_ok by (auto simp: proofs_ok_def memo_ok_def)

lemma history_proofs_ok: "transcript_history X t \<Longrightarrow> proofs_ok X t"
proof (induction rule: transcript_history.induct)
  case new
  show ?case by (simp add: proofs_ok_def memo_ok_def new_transcript_def chain_ok_none)
next
  case (mutate t m t')
  then show ?case using mutate_touched touched_proofs_ok by blast
next
  case (prefixes t)
  then show ?case by (simp add: proofs_ok_prefixes)
next
  case (digest t e)
  obtain c where "cached_entry_digest X e t = (compute_digest X e, t\<lparr>digest_cache := c\<rparr>)" "cache_sound X c"
    using digest.IH cached_entry_digest_value unfolding proofs_ok_def by blast
  then show ?case using proofs_ok_cache [OF digest.IH] by simp
next
  case (clone t)
  then show ?case by (simp add: proofs_ok_clone)
next
  case (share t u)
  then show ?case using proofs_ok_cache [OF share.IH(1)] by (simp add: share_entry_digests_def proofs_ok_def)
next
  case (forget t)
  then show ?case using proofs_ok_cache by (simp add: share_entry_digests_def)
qed

lemma history_keyed: "transcript_history X t \<Longrightarrow> keyed t"
proof (induction rule: transcript_history.induct)
  case new
  show ?case by (simp add: new_transcript_def)
next
  case (mutate t m t')
  then show ?case using mutate_refines [of t m] by (auto simp: refines_def)
next
  case (prefixes t)
  obtain c p where "cached_prefixes X t = (Some (cold_prefixes X t),
      t\<lparr>digest_cache := c, proven := p, prefix_fingerprints := Some (Some (cold_prefixes X t))\<rparr>)"
    using cached_prefixes_cold [OF history_proofs_ok [OF prefixes.hyps]] by metis
  then show ?case using prefixes.IH by simp
qed (auto simp: cached_entry_digest_def clone_transcript_def share_entry_digests_def split: prod.splits)

end
