(* ===== verification/Utf8_Slices.thy ===== *)
theory Utf8_Slices
  imports Nakode_Prelude
begin

text \<open>
  Byte offsets into a string: \<open>str::is_char_boundary\<close> and the slices \<open>&s[..i]\<close> and \<open>&s[i..]\<close> over
  texts kept as lists of characters.  \<open>split_at\<close> is \<open>None\<close> where the slice would panic.
  \<open>boundary_from\<close> is the loop that moves a byte offset up to the next character boundary.
\<close>

fun split_at :: "ustring \<Rightarrow> nat \<Rightarrow> (ustring \<times> ustring) option" where
  "split_at s 0 = Some ([], s)"
| "split_at [] (Suc i) = None"
| "split_at (c # s) (Suc i) =
     (if len_utf8 c \<le> Suc i
      then map_option (\<lambda>(a, b). (c # a, b)) (split_at s (Suc i - len_utf8 c)) else None)"

definition is_char_boundary :: "ustring \<Rightarrow> nat \<Rightarrow> bool" where
  "is_char_boundary s i \<longleftrightarrow> split_at s i \<noteq> None"

lemma split_at_Some: "split_at s i = Some (a, b) \<longleftrightarrow> s = a @ b \<and> byte_len a = i"
proof (induction s i arbitrary: a rule: split_at.induct)
  case (3 c s i)
  show ?case
  proof (cases a)
    case Nil
    then show ?thesis by auto
  next
    case (Cons d a')
    then show ?thesis using 3 [of a'] by (auto split: prod.splits)
  qed
qed auto

lemma boundary_iff: "is_char_boundary s i \<longleftrightarrow> (\<exists>a b. s = a @ b \<and> byte_len a = i)"
  unfolding is_char_boundary_def not_None_eq split_paired_Ex split_at_Some ..

lemma boundary_simps [simp]:
  "is_char_boundary s 0" "is_char_boundary s (byte_len s)"
  by (auto simp: boundary_iff)

lemma boundary_append [simp]: "is_char_boundary (a @ b) (byte_len a)"
  by (auto simp: boundary_iff)

lemma boundary_le: "is_char_boundary s i \<Longrightarrow> i \<le> byte_len s"
  by (auto simp: boundary_iff)

function boundary_from :: "ustring \<Rightarrow> nat \<Rightarrow> nat \<Rightarrow> nat" where
  "boundary_from s start stop =
     (if start < stop \<and> \<not> is_char_boundary s start then boundary_from s (start + 1) stop else start)"
  by pat_completeness auto
termination by (relation "measure (\<lambda>(s, start, stop). stop - start)") auto

declare boundary_from.simps [simp del]

text \<open>The loop stops at the first boundary.\<close>

lemma boundary_from_first:
  assumes "start \<le> stop" "is_char_boundary s stop"
  shows "is_char_boundary s (boundary_from s start stop)" "start \<le> boundary_from s start stop"
    "boundary_from s start stop \<le> stop"
    "start \<le> i \<Longrightarrow> i < boundary_from s start stop \<Longrightarrow> \<not> is_char_boundary s i"
  using assms
proof (induction s start stop rule: boundary_from.induct)
  case (1 s start stop)
  note unfold = boundary_from.simps [of s start stop]
  {
    case 1
    then show ?case using "1.IH"(1) unfold by (auto simp: not_less)
  next
    case 2
    then show ?case using "1.IH"(2) unfold by auto
  next
    case 3
    then show ?case using "1.IH"(3) unfold by auto
  next
    case 4
    then show ?case using "1.IH"(4) unfold by (cases "i = start") (auto split: if_splits)
  }
qed

text \<open>A character is at most four bytes long, so the next boundary is at most three bytes away.\<close>

lemma boundary_gap:
  assumes "i \<le> byte_len s"
  shows "\<exists>j. i \<le> j \<and> j < i + 4 \<and> is_char_boundary s j"
  using assms
proof (induction s arbitrary: i)
  case Nil
  then show ?case by (auto intro!: exI [of _ 0])
next
  case (Cons c s)
  show ?case
  proof (cases "i < len_utf8 c")
    case True
    show ?thesis
    proof (cases "i = 0")
      case False
      have "is_char_boundary ([c] @ s) (byte_len [c])" by (rule boundary_append)
      then show ?thesis using True False len_utf8_bounds(2) [of c] by (auto intro!: exI [of _ "len_utf8 c"])
    qed (auto intro!: exI [of _ 0])
  next
    case False
    then have "i - len_utf8 c \<le> byte_len s" using Cons.prems by simp
    then obtain j where j: "i - len_utf8 c \<le> j" "j < i - len_utf8 c + 4" "is_char_boundary s j"
      using Cons.IH by blast
    then obtain a b where "s = a @ b" "byte_len a = j" by (auto simp: boundary_iff)
    then have "is_char_boundary ((c # a) @ b) (byte_len (c # a))" by (intro boundary_append)
    then show ?thesis using j False \<open>s = a @ b\<close> \<open>byte_len a = j\<close>
      by (intro exI [of _ "j + len_utf8 c"]) (auto simp: add.commute)
  qed
qed

text \<open>\<open>&s[i..]\<close>, where it does not panic.\<close>

definition str_from :: "ustring \<Rightarrow> nat \<Rightarrow> ustring" where
  "str_from s i = (case split_at s i of Some (_, b) \<Rightarrow> b | None \<Rightarrow> [])"

lemma str_from_append [simp]: "str_from (a @ b) (byte_len a) = b"
proof -
  have "split_at (a @ b) (byte_len a) = Some (a, b)" by (simp add: split_at_Some)
  then show ?thesis by (simp add: str_from_def)
qed

lemma str_from_split:
  assumes "is_char_boundary s i"
  obtains a where "s = a @ str_from s i" "byte_len a = i"
  using assms by (auto simp: boundary_iff)

text \<open>\<open>&s[..i]\<close>, likewise.\<close>

definition str_to :: "ustring \<Rightarrow> nat \<Rightarrow> ustring" where
  "str_to s i = (case split_at s i of Some (a, _) \<Rightarrow> a | None \<Rightarrow> [])"

lemma str_to_append [simp]: "str_to (a @ b) (byte_len a) = a"
proof -
  have "split_at (a @ b) (byte_len a) = Some (a, b)" by (simp add: split_at_Some)
  then show ?thesis by (simp add: str_to_def)
qed

text \<open>The scan back from a boundary \<open>stop\<close> over at most \<open>n\<close> bytes finds the longest run of whole
  characters that fits.\<close>

lemma boundary_scan:
  obtains c d where "a = c @ d" "boundary_from (a @ b) (byte_len a - n) (byte_len a) = byte_len c"
    "byte_len d \<le> n" "c \<noteq> [] \<Longrightarrow> n < len_utf8 (last c) + byte_len d"
proof -
  define k where "k = boundary_from (a @ b) (byte_len a - n) (byte_len a)"
  note first = boundary_from_first [of "byte_len a - n" "byte_len a" "a @ b", folded k_def]
  have i: "is_char_boundary (a @ b) k" "byte_len a - n \<le> k" "k \<le> byte_len a"
    using first(1-3) by simp_all
  from i(1) obtain c e where ce: "a @ b = c @ e" "byte_len c = k" by (auto simp: boundary_iff)
  obtain d where d: "a = c @ d"
  proof -
    obtain us where us: "a = c @ us \<or> c = a @ us"
      using ce(1) unfolding append_eq_append_conv2 by blast
    moreover have "us = []" if "c = a @ us"
    proof -
      have "byte_len a + byte_len us \<le> byte_len a" using ce(2) i(3) that by simp
      then show ?thesis by simp
    qed
    ultimately show ?thesis using that by fastforce
  qed
  have "n < len_utf8 (last c) + byte_len d" if "c \<noteq> []"
  proof (rule ccontr)
    assume small: "\<not> n < len_utf8 (last c) + byte_len d"
    have c: "c = butlast c @ [last c]" using that by simp
    have len: "byte_len c = byte_len (butlast c) + len_utf8 (last c)"
      by (subst c) simp
    have "is_char_boundary (butlast c @ ([last c] @ d @ b)) (byte_len (butlast c))"
      by (rule boundary_append)
    moreover have "butlast c @ ([last c] @ d @ b) = a @ b" using d c by (metis append.assoc)
    ultimately have "is_char_boundary (a @ b) (byte_len (butlast c))" by (simp only:)
    moreover have "byte_len a - n \<le> byte_len (butlast c)" using small len d by simp
    moreover have "byte_len (butlast c) < k" using len ce(2) len_utf8_pos [of "last c"] by linarith
    ultimately show False using first(4) by simp
  qed
  moreover have "byte_len d \<le> n" using i(2) ce(2) d by simp
  ultimately show ?thesis by (intro that [OF d, folded k_def, OF ce(2) [symmetric]])
qed

end
