(* ===== verification/Transcript_Windows.thy ===== *)
theory Transcript_Windows
  imports Transcript_Proofs Utf8_Slices
begin

text \<open>
  Reading one entry's body by byte windows: \<open>transcript_body_window\<close> of
  \<open>src/src/state/projection.rs\<close>.  The part of the domain state it reads, the session's transcript
  and the transcripts of delegated runs, is the record \<open>transcripts\<close>.  \<open>usize\<close> has 64 bits, so a
  \<open>u64\<close> cursor always converts.

  \<open>body_window_exact\<close> is the outcome for a valid cursor; the property is that a client which pages
  backward from the end, each time from the start of the window before, reassembles the body.
\<close>

definition MAX_TRANSCRIPT_ENTRY_BODY_BYTES :: nat where
  "MAX_TRANSCRIPT_ENTRY_BODY_BYTES = 256 * 1024"

record transcripts =
  session_transcript :: transcript
  run_transcripts :: "ustring \<Rightarrow> transcript option"

definition owner_transcript :: "transcripts \<Rightarrow> ustring option \<Rightarrow> transcript option" where
  "owner_transcript st run_id =
     (case run_id of Some r \<Rightarrow> run_transcripts st r | None \<Rightarrow> Some (session_transcript st))"

definition transcript_entry_body :: "transcripts \<Rightarrow> ustring option \<Rightarrow> ustring \<Rightarrow> ustring option" where
  "transcript_entry_body st run_id entry_id =
     Option.bind (owner_transcript st run_id)
       (\<lambda>t. map_option te_body (List.find (\<lambda>e. te_id e = entry_id) (entries t)))"

datatype body_window_error =
  EntryNotFound
| LimitOutOfBounds (actual: nat) (maximum: nat)
| CursorOutOfBounds (actual: nat) (total: nat)
| CursorNotUtf8Boundary (actual: nat)
| LimitTooSmallForCharacter (minimum: nat)

record body_window =
  bw_body_sha256 :: ustring
  bw_entry_id :: ustring
  bw_body :: ustring
  bw_start_byte :: nat
  bw_total_bytes :: nat
  bw_has_earlier :: bool

definition transcript_body_window ::
  "proof_ext \<Rightarrow> transcripts \<Rightarrow> ustring option \<Rightarrow> ustring \<Rightarrow> nat \<Rightarrow> nat option \<Rightarrow>
   body_window_error + body_window" where
  "transcript_body_window X st run_id entry_id limit before =
     (if limit = 0 \<or> limit > MAX_TRANSCRIPT_ENTRY_BODY_BYTES
      then Inl (LimitOutOfBounds limit MAX_TRANSCRIPT_ENTRY_BODY_BYTES)
      else case transcript_entry_body st run_id entry_id of
        None \<Rightarrow> Inl EntryNotFound
      | Some body \<Rightarrow>
          let stop = (case before of None \<Rightarrow> byte_len body | Some i \<Rightarrow> i) in
          if stop > byte_len body then Inl (CursorOutOfBounds stop (byte_len body))
          else if \<not> is_char_boundary body stop then Inl (CursorNotUtf8Boundary stop)
          else
            let start = boundary_from body (stop - limit) stop in
            if start = stop \<and> stop > 0
            then Inl (LimitTooSmallForCharacter
                   (case rev (str_to body stop) of [] \<Rightarrow> 1 | c # _ \<Rightarrow> len_utf8 c))
            else Inr \<lparr>bw_body_sha256 = transcript_body_digest X body, bw_entry_id = entry_id,
                   bw_body = str_from (str_to body stop) start, bw_start_byte = start,
                   bw_total_bytes = byte_len body, bw_has_earlier = start > 0\<rparr>)"

text \<open>A cursor at a boundary: the window is the longest run of whole characters before it that fits
  the limit, and only a character wider than the limit is refused.\<close>

lemma body_window_exact:
  assumes "transcript_entry_body st run_id entry_id = Some (a @ b)"
    and "0 < limit" "limit \<le> MAX_TRANSCRIPT_ENTRY_BODY_BYTES"
    and "before = Some (byte_len a) \<or> before = None \<and> b = []"
  shows "(\<exists>c d. a = c @ d \<and> byte_len d \<le> limit \<and> (c \<noteq> [] \<longrightarrow> limit < len_utf8 (last c) + byte_len d) \<and>
      (a \<noteq> [] \<longrightarrow> d \<noteq> []) \<and>
      transcript_body_window X st run_id entry_id limit before =
        Inr \<lparr>bw_body_sha256 = transcript_body_digest X (a @ b), bw_entry_id = entry_id, bw_body = d,
          bw_start_byte = byte_len c, bw_total_bytes = byte_len (a @ b), bw_has_earlier = (c \<noteq> [])\<rparr>)
    \<or> (a \<noteq> [] \<and> limit < len_utf8 (last a) \<and>
      transcript_body_window X st run_id entry_id limit before = Inl (LimitTooSmallForCharacter (len_utf8 (last a))))"
proof -
  have stop: "(case before of None \<Rightarrow> byte_len (a @ b) | Some i \<Rightarrow> i) = byte_len a"
    using assms(4) by auto
  obtain c d where cd: "a = c @ d" "boundary_from (a @ b) (byte_len a - limit) (byte_len a) = byte_len c"
    "byte_len d \<le> limit" "c \<noteq> [] \<Longrightarrow> limit < len_utf8 (last c) + byte_len d"
    using boundary_scan [of a b limit] by metis
  have w: "transcript_body_window X st run_id entry_id limit before =
      (if byte_len c = byte_len a \<and> byte_len a > 0
       then Inl (LimitTooSmallForCharacter (case rev a of [] \<Rightarrow> 1 | c # _ \<Rightarrow> len_utf8 c))
       else Inr \<lparr>bw_body_sha256 = transcript_body_digest X (a @ b), bw_entry_id = entry_id,
          bw_body = str_from a (byte_len c), bw_start_byte = byte_len c,
          bw_total_bytes = byte_len (a @ b), bw_has_earlier = byte_len c > 0\<rparr>)"
  proof -
    have "\<not> byte_len (a @ b) < byte_len a" by simp
    then show ?thesis
      using assms(1-3) by (simp add: transcript_body_window_def stop cd(2) Let_def del: byte_len_simps)
  qed
  show ?thesis
  proof (cases "d = [] \<and> a \<noteq> []")
    case True
    then have "(case rev a of [] \<Rightarrow> 1 | c # _ \<Rightarrow> len_utf8 c) = len_utf8 (last a)"
      by (cases a rule: rev_cases) simp_all
    then have "transcript_body_window X st run_id entry_id limit before =
        Inl (LimitTooSmallForCharacter (len_utf8 (last a)))"
      using True cd(1) w by auto
    then show ?thesis using True cd(1,4) by auto
  next
    case False
    then have "\<not> (byte_len c = byte_len a \<and> byte_len a > 0)" using cd(1) by auto
    moreover have "str_from a (byte_len c) = d" using cd(1) by simp
    ultimately have "transcript_body_window X st run_id entry_id limit before =
        Inr \<lparr>bw_body_sha256 = transcript_body_digest X (a @ b), bw_entry_id = entry_id, bw_body = d,
          bw_start_byte = byte_len c, bw_total_bytes = byte_len (a @ b), bw_has_earlier = (c \<noteq> [])\<rparr>"
      using w by simp
    then show ?thesis using False cd(1,3,4) by blast
  qed
qed

text \<open>A client that pages backward: each window starts where the next one, to its left, ends.\<close>

fun read_back :: "(nat option \<Rightarrow> body_window_error + body_window) \<Rightarrow> nat \<Rightarrow> nat option \<Rightarrow> ustring option" where
  "read_back get 0 cursor = None"
| "read_back get (Suc n) cursor =
     (case get cursor of Inl _ \<Rightarrow> None
      | Inr w \<Rightarrow> if bw_has_earlier w
                 then map_option (\<lambda>r. r @ bw_body w) (read_back get n (Some (bw_start_byte w)))
                 else Some (bw_body w))"

lemma read_back_prefix:
  assumes "transcript_entry_body st run_id entry_id = Some (a @ b)"
    and "4 \<le> limit" "limit \<le> MAX_TRANSCRIPT_ENTRY_BODY_BYTES"
    and "before = Some (byte_len a) \<or> before = None \<and> b = []" "length a < n"
  shows "read_back (transcript_body_window X st run_id entry_id limit) n before = Some a"
  using assms(1,4,5)
proof (induction n arbitrary: a b before)
  case (Suc n)
  have pos: "0 < limit" using assms(2) by simp
  have "\<not> limit < len_utf8 (last a)" using assms(2) len_utf8_bounds(2) [of "last a"] by linarith
  then obtain c d where cd: "a = c @ d" "a \<noteq> [] \<longrightarrow> d \<noteq> []" and w:
    "transcript_body_window X st run_id entry_id limit before =
        Inr \<lparr>bw_body_sha256 = transcript_body_digest X (a @ b), bw_entry_id = entry_id, bw_body = d,
          bw_start_byte = byte_len c, bw_total_bytes = byte_len (a @ b), bw_has_earlier = (c \<noteq> [])\<rparr>"
    using body_window_exact [OF Suc.prems(1) _ assms(3) Suc.prems(2), of X] pos by blast
  show ?case
  proof (cases "c = []")
    case True
    then show ?thesis using w cd by simp
  next
    case False
    then have "length c < n" using cd Suc.prems(3) by (cases d) auto
    moreover have "transcript_entry_body st run_id entry_id = Some (c @ (d @ b))"
      using Suc.prems(1) cd(1) by simp
    ultimately have "read_back (transcript_body_window X st run_id entry_id limit) n (Some (byte_len c)) = Some c"
      by (intro Suc.IH [of c "d @ b"]) simp_all
    then show ?thesis using w cd False by simp
  qed
qed simp

end
