(* ===== verification/Transcript_Pages.thy ===== *)
theory Transcript_Pages
  imports Transcript_History Transcript_Windows
begin

text \<open>
  Pages of a transcript: \<open>projected_transcript_page\<close> of \<open>src/src/state/projection.rs\<close> and what it
  builds on.  A page covers the visible entries that end at a cursor, newest first until the row
  limit or the byte budget is used up, and carries the proofs of the prefixes before and through
  it.  The protocol's kinds and statuses have the source's names, so the two conversions
  (\<open>entry_kind\<close>, \<open>entry_status\<close>) are the identity here.

  A read returns the page with the transcript whose caches it filled.
\<close>

definition MAX_TRANSCRIPT_PAGE_ENTRIES :: nat where "MAX_TRANSCRIPT_PAGE_ENTRIES = 128"
definition MAX_TRANSCRIPT_PAGE_BODY_BYTES :: nat where "MAX_TRANSCRIPT_PAGE_BODY_BYTES = 512 * 1024"
definition MAX_TRANSCRIPT_SNAPSHOT_ENTRIES :: nat where "MAX_TRANSCRIPT_SNAPSHOT_ENTRIES = 256"
definition MAX_TRANSCRIPT_SNAPSHOT_BODY_BYTES :: nat where
  "MAX_TRANSCRIPT_SNAPSHOT_BODY_BYTES = 1024 * 1024"
definition TRANSCRIPT_WINDOW_ALIGNMENT :: nat where "TRANSCRIPT_WINDOW_ALIGNMENT = 64"

section \<open>Views\<close>

record entry_view =
  ev_coordination_json :: "ustring option"
  ev_body_sha256 :: ustring
  ev_id :: ustring
  ev_kind :: entry_kind
  ev_title :: ustring
  ev_body :: ustring
  ev_body_start_byte :: nat
  ev_body_total_bytes :: nat
  ev_status :: entry_status
  ev_artifacts :: "ustring list"
  ev_created_at_ms :: "nat option"
  ev_provider_id :: "ustring option"
  ev_model_id :: "ustring option"
  ev_owner_turn_id :: "ustring option"
  ev_resolved_reasoning_effort :: "ustring option"
  ev_resolved_fast_mode :: "bool option"
  ev_source_transport :: "ustring option"
  ev_source_prompt_id :: "ustring option"
  ev_tool_audit_json :: "ustring option"
  ev_parent_tool_entry_id :: "ustring option"

record page_view =
  pg_prefix_before :: ustring
  pg_prefix_through :: ustring
  pg_next_before_entry_id :: "ustring option"
  pg_entries :: "entry_view list"
  pg_has_earlier :: bool
  pg_stream_active :: bool
  pg_stream_label :: ustring
  pg_current_owner_entry :: "entry_view option"
  pg_current_owner_omitted_tool_calls :: nat

definition utf8_tail :: "ustring \<Rightarrow> nat \<Rightarrow> ustring" where
  "utf8_tail s maximum_bytes =
     (if byte_len s \<le> maximum_bytes then s
      else str_from s (boundary_from s (byte_len s - maximum_bytes) (byte_len s)))"

definition projection_scoped_id :: "proof_ext \<Rightarrow> string \<Rightarrow> ustring \<Rightarrow> ustring" where
  "projection_scoped_id X kind s = scoped_uuid X (utf8 (lit kind @ lit '':'' @ s))"

definition transcript_artifact_id :: "proof_ext \<Rightarrow> ustring \<Rightarrow> nat \<Rightarrow> ustring" where
  "transcript_artifact_id X entry_id i = projection_scoped_id X ''artifact'' (entry_id @ lit '':'' @ show_nat i)"

definition parent_tool_entry_id :: "proof_ext \<Rightarrow> transcript \<Rightarrow> transcript_entry \<Rightarrow> ustring option" where
  "parent_tool_entry_id X t entry =
     Option.bind (tool_audit_identity X entry ''parentItemId'') (\<lambda>parent.
       map_option te_id (List.find (\<lambda>c. te_kind c = Tool \<and> te_id c = parent \<and>
         tool_audit_identity X c ''name'' = Some (lit ''codemode'')) (entries t)))"

definition coordination_notice :: ustring where
  "coordination_notice = lit ''Coordination messages omitted; open the full session transcript.''"

definition transcript_entry_view ::
  "proof_ext \<Rightarrow> transcript \<Rightarrow> transcript_entry \<Rightarrow> entry_digest \<Rightarrow> ustring \<Rightarrow> bool \<Rightarrow> bool \<Rightarrow> entry_view" where
  "transcript_entry_view X t entry digest body include_audit include_coordination =
     (let view = \<lparr>ev_coordination_json = (if include_coordination then te_coordination_json entry else None),
        ev_body_sha256 = ed_body_sha256 digest, ev_id = te_id entry, ev_kind = te_kind entry,
        ev_title = te_title entry, ev_body = body,
        ev_body_start_byte = byte_len (te_body entry) - byte_len body,
        ev_body_total_bytes = byte_len (te_body entry), ev_status = te_status entry,
        ev_artifacts = map (transcript_artifact_id X (te_id entry)) [0..<length (image_artifacts t entry)],
        ev_created_at_ms = te_created_at_ms entry, ev_provider_id = te_provider_id entry,
        ev_model_id = te_model_id entry, ev_owner_turn_id = te_owner_turn_id entry,
        ev_resolved_reasoning_effort = te_reasoning_effort entry, ev_resolved_fast_mode = te_fast_mode entry,
        ev_source_transport = te_source_transport entry,
        ev_source_prompt_id = (if te_kind entry = User
          then Option.bind (te_key entry) (\<lambda>key. if starts_with key ''user:'' then Some (drop 5 key) else None)
          else None),
        ev_tool_audit_json = (if include_audit then te_tool_audit_json entry else None),
        ev_parent_tool_entry_id = parent_tool_entry_id X t entry\<rparr> in
      if te_coordination_json entry \<noteq> None \<and> \<not> include_coordination then
        let stub = take (min (byte_len body) (length coordination_notice)) coordination_notice in
        view\<lparr>ev_kind := System,
          ev_title := lit ''Coordination messages omitted from this bounded view; open the full transcript'',
          ev_body := stub, ev_body_start_byte := 0, ev_body_total_bytes := byte_len stub,
          ev_body_sha256 := transcript_body_digest X stub, ev_artifacts := [],
          ev_source_prompt_id := None\<rparr>
      else view)"

section \<open>Pages\<close>

definition opt_len :: "ustring option \<Rightarrow> nat" where
  "opt_len s = (case s of None \<Rightarrow> 0 | Some s \<Rightarrow> byte_len s)"

text \<open>\<open>digest_of\<close>: from the proven chain, or from the cache.\<close>

definition digest_of ::
  "proof_ext \<Rightarrow> entry_digest list option \<Rightarrow> nat \<Rightarrow> transcript_entry \<Rightarrow> entry_digests \<Rightarrow>
   entry_digest \<times> entry_digests" where
  "digest_of X digests i entry cache =
     (case digests of
        Some ds \<Rightarrow> if i < length ds then (ds ! i, cache) else digests_get (compute_digest X) cache entry
      | None \<Rightarrow> digests_get (compute_digest X) cache entry)"

text \<open>The loop over the rows, newest first, with what it has projected, the bytes that remain and the
  digest cache: when it breaks, and what one row adds.\<close>

definition audit_bytes :: "transcript_entry \<Rightarrow> nat" where
  "audit_bytes entry = opt_len (te_tool_audit_json entry) + opt_len (te_coordination_json entry)"

definition page_full :: "transcript_entry \<Rightarrow> entry_view list \<Rightarrow> nat \<Rightarrow> bool" where
  "page_full entry projected remaining \<longleftrightarrow>
     projected \<noteq> [] \<and> (audit_bytes entry > remaining \<or> remaining = 0 \<and> te_body entry \<noteq> [])"

definition page_row ::
  "proof_ext \<Rightarrow> transcript \<Rightarrow> entry_digest list option \<Rightarrow> nat \<times> transcript_entry \<Rightarrow> nat \<Rightarrow>
   entry_digests \<Rightarrow> entry_view \<times> nat \<times> entry_digests" where
  "page_row X t digests row remaining cache =
     (let (i, entry) = row;
          include_audit = (audit_bytes entry \<le> remaining);
          remaining = (if include_audit then remaining - audit_bytes entry else remaining);
          body = utf8_tail (te_body entry) (min remaining MAX_TRANSCRIPT_ENTRY_BODY_BYTES);
          remaining = remaining - byte_len body;
          (digest, cache) = digest_of X digests i entry cache in
      (transcript_entry_view X t entry digest body include_audit include_audit, remaining, cache))"

primrec page_rows ::
  "proof_ext \<Rightarrow> transcript \<Rightarrow> entry_digest list option \<Rightarrow> (nat \<times> transcript_entry) list \<Rightarrow>
   entry_view list \<Rightarrow> nat \<Rightarrow> entry_digests \<Rightarrow> entry_view list \<times> entry_digests" where
  "page_rows X t digests [] projected remaining cache = (projected, cache)"
| "page_rows X t digests (row # rows) projected remaining cache =
     (if page_full (snd row) projected remaining then (projected, cache)
      else case page_row X t digests row remaining cache of
        (view, remaining, cache) \<Rightarrow>
          page_rows X t digests rows (projected @ [view]) remaining cache)"

definition position :: "('a \<Rightarrow> bool) \<Rightarrow> 'a list \<Rightarrow> nat option" where
  "position P xs = (if list_ex P xs then Some (length (takeWhile (\<lambda>x. \<not> P x) xs)) else None)"

definition omitted_owner_tool_calls ::
  "transcript_entry list \<Rightarrow> transcript_entry option \<Rightarrow> entry_view list \<Rightarrow> nat" where
  "omitted_owner_tool_calls es current_owner projected =
     (case Option.bind current_owner te_owner_turn_id of None \<Rightarrow> 0
      | Some turn \<Rightarrow> length (filter (\<lambda>e. (te_kind e = Tool \<or> te_kind e = Diff) \<and>
          te_owner_turn_id e = Some turn \<and> \<not> list_ex (\<lambda>v. ev_id v = te_id e) projected) es))"

definition projected_current_owner ::
  "proof_ext \<Rightarrow> transcript \<Rightarrow> transcript_entry option \<Rightarrow> entry_view list \<Rightarrow> ustring option \<Rightarrow> bool \<Rightarrow>
   entry_view option \<times> transcript" where
  "projected_current_owner X t current_owner projected reserved include_coordination =
     (case current_owner of None \<Rightarrow> (None, t)
      | Some entry \<Rightarrow>
          (case List.find (\<lambda>v. ev_id v = te_id entry) projected of
             Some v \<Rightarrow> (Some (v\<lparr>ev_body := [], ev_body_start_byte := ev_body_total_bytes v\<rparr>), t)
           | None \<Rightarrow>
               let (digest, t) = cached_entry_digest X entry t in
               (Some (transcript_entry_view X t entry digest
                  (case reserved of Some b \<Rightarrow> b | None \<Rightarrow> []) False include_coordination), t)))"

definition current_owner_of :: "transcript_entry list \<Rightarrow> ustring option \<Rightarrow> transcript_entry option" where
  "current_owner_of es before =
     (if before = None then List.find (\<lambda>e. te_kind e = User) (rev es) else None)"

text \<open>The bytes set aside for the current owner's entry before the rows are projected.\<close>

definition page_stop :: "transcript_entry list \<Rightarrow> ustring option \<Rightarrow> nat option" where
  "page_stop es before =
     (case before of None \<Rightarrow> Some (length es) | Some b \<Rightarrow> position (\<lambda>e. te_id e = b) es)"

definition owner_outside_window :: "transcript_entry list \<Rightarrow> transcript_entry option \<Rightarrow> nat \<Rightarrow> nat \<Rightarrow> bool" where
  "owner_outside_window es owner stop limit =
     (case owner of None \<Rightarrow> False
      | Some o' \<Rightarrow> (case position (\<lambda>e. te_id e = te_id o') (take stop es) of
          None \<Rightarrow> False | Some i \<Rightarrow> i < stop - limit))"

definition reserved_coordination_bytes :: "transcript_entry option \<Rightarrow> nat \<Rightarrow> nat" where
  "reserved_coordination_bytes owner budget =
     (case Option.bind owner te_coordination_json of None \<Rightarrow> 0
      | Some js \<Rightarrow> if byte_len js \<le> budget then byte_len js else 0)"

definition reserved_owner_body ::
  "transcript_entry list \<Rightarrow> transcript_entry option \<Rightarrow> nat \<Rightarrow> nat \<Rightarrow> nat \<Rightarrow> ustring option" where
  "reserved_owner_body es owner stop limit budget =
     (if owner_outside_window es owner stop limit
      then map_option (\<lambda>o'. utf8_tail (te_body o') (min budget MAX_TRANSCRIPT_ENTRY_BODY_BYTES)) owner
      else None)"

definition projected_transcript_page ::
  "proof_ext \<Rightarrow> transcript \<Rightarrow> ustring option \<Rightarrow> nat \<Rightarrow> nat \<Rightarrow> page_view option \<times> transcript" where
  "projected_transcript_page X t before limit body_budget =
     (let es = visible_entries t in
      case page_stop es before of
        None \<Rightarrow> (None, t)
      | Some stop \<Rightarrow>
          let owner = current_owner_of es before;
              reserved_coordination = reserved_coordination_bytes owner body_budget;
              budget = body_budget - reserved_coordination;
              reserved = reserved_owner_body es owner stop limit budget;
              remaining = budget - opt_len reserved;
              (proofs, t) = cached_prefixes X t in
          case proofs of
            None \<Rightarrow> (None, t)
          | Some proofs \<Rightarrow>
              let (rows, cache) = page_rows X t (visible_entry_digests t)
                     (take limit (rev (enumerate 0 (take stop es)))) [] remaining (digest_cache t);
                  t = t\<lparr>digest_cache := cache\<rparr>;
                  projected = rev rows;
                  start = stop - length projected in
              if start < length proofs \<and> stop < length proofs then
                let (owner_view, t) = projected_current_owner X t owner projected reserved (reserved_coordination > 0) in
                (Some \<lparr>pg_prefix_before = proofs ! start, pg_prefix_through = proofs ! stop,
                   pg_next_before_entry_id = (if start > 0 then
                     (case projected of [] \<Rightarrow> None | v # _ \<Rightarrow> Some (ev_id v)) else None),
                   pg_entries = projected,
                   pg_has_earlier = (has_earlier_entries t \<or> length projected < stop),
                   pg_stream_active = (before = None \<and> stream_active t),
                   pg_stream_label = stream_label t, pg_current_owner_entry = owner_view,
                   pg_current_owner_omitted_tool_calls = omitted_owner_tool_calls es owner projected\<rparr>, t)
              else (None, t))"

definition aligned_newest_window :: "nat \<Rightarrow> nat \<Rightarrow> nat" where
  "aligned_newest_window len limit =
     (if len \<le> limit \<or> limit \<le> TRANSCRIPT_WINDOW_ALIGNMENT then limit
      else len - ((len - limit) + (TRANSCRIPT_WINDOW_ALIGNMENT - 1)) div TRANSCRIPT_WINDOW_ALIGNMENT
                 * TRANSCRIPT_WINDOW_ALIGNMENT)"

text \<open>The snapshot's page (its \<open>None\<close> is the source's \<open>expect\<close>), and the two paged queries.\<close>

definition transcript_page :: "proof_ext \<Rightarrow> transcript \<Rightarrow> page_view option \<times> transcript" where
  "transcript_page X t =
     projected_transcript_page X t None
       (aligned_newest_window (length (visible_entries t)) MAX_TRANSCRIPT_SNAPSHOT_ENTRIES)
       MAX_TRANSCRIPT_SNAPSHOT_BODY_BYTES"

definition session_transcript_page ::
  "proof_ext \<Rightarrow> transcripts \<Rightarrow> ustring option \<Rightarrow> nat \<Rightarrow> page_view option \<times> transcripts" where
  "session_transcript_page X st before limit =
     (let (page, t) = projected_transcript_page X (session_transcript st) before
        (min limit MAX_TRANSCRIPT_PAGE_ENTRIES) MAX_TRANSCRIPT_PAGE_BODY_BYTES in
      (page, st\<lparr>session_transcript := t\<rparr>))"

definition run_transcript_page ::
  "proof_ext \<Rightarrow> transcripts \<Rightarrow> ustring \<Rightarrow> ustring option \<Rightarrow> nat \<Rightarrow> page_view option \<times> transcripts" where
  "run_transcript_page X st run_id before limit =
     (case run_transcripts st run_id of None \<Rightarrow> (None, st)
      | Some t \<Rightarrow>
          let (page, t) = projected_transcript_page X t before
            (min limit MAX_TRANSCRIPT_PAGE_ENTRIES) MAX_TRANSCRIPT_PAGE_BODY_BYTES in
          (page, st\<lparr>run_transcripts := (run_transcripts st)(run_id \<mapsto> t)\<rparr>))"

end
