(* ===== verification/Transcript_Paging.thy ===== *)
theory Transcript_Paging
  imports Transcript_Pages
begin

text \<open>
  What a page holds.  \<open>page_rows_spec\<close> is the loop: the rows it projects are the newest ones, they
  fit the bytes it was given, and at least one is taken.  \<open>page_outcome\<close> is the whole read, for a
  transcript whose caches are sound.
\<close>

section \<open>Tails, views and digests\<close>

lemma utf8_tail_spec:
  obtains c where "s = c @ utf8_tail s n" "byte_len (utf8_tail s n) \<le> n"
    "c \<noteq> [] \<Longrightarrow> n < len_utf8 (last c) + byte_len (utf8_tail s n)"
proof (cases "byte_len s \<le> n")
  case True
  then show ?thesis using that [of "[]"] by (simp add: utf8_tail_def)
next
  case False
  obtain c d where cd: "s = c @ d" "boundary_from (s @ []) (byte_len s - n) (byte_len s) = byte_len c"
    "byte_len d \<le> n" "c \<noteq> [] \<Longrightarrow> n < len_utf8 (last c) + byte_len d"
    using boundary_scan [of s "[]" n] by metis
  have "boundary_from s (byte_len s - n) (byte_len s) = byte_len c" using cd(2) by simp
  then have "utf8_tail s n = str_from s (byte_len c)" using False by (simp add: utf8_tail_def)
  then have "utf8_tail s n = d" using cd(1) by simp
  then show ?thesis using that cd(1,3,4) by simp
qed

lemma utf8_tail_le: "byte_len (utf8_tail s n) \<le> n"
  using utf8_tail_spec [of s n] by metis

definition view_bytes :: "entry_view \<Rightarrow> nat" where
  "view_bytes v = byte_len (ev_body v) + opt_len (ev_tool_audit_json v) + opt_len (ev_coordination_json v)"

lemma opt_len_simps [simp]: "opt_len None = 0" "opt_len (Some s) = byte_len s"
  by (simp_all add: opt_len_def)

lemma ev_id_view [simp]: "ev_id (transcript_entry_view X t e d b inc c) = te_id e"
  by (simp add: transcript_entry_view_def Let_def)

lemma notice_ascii: "byte_len (take n coordination_notice) = length (take n coordination_notice)"
proof -
  have "\<forall>c \<in> set coordination_notice. len_utf8 c = 1"
    by (simp add: coordination_notice_def lit_def len_utf8_def)
  then have "\<forall>c \<in> set (take n coordination_notice). len_utf8 c = 1" by (auto dest: in_set_takeD)
  moreover have "\<forall>c \<in> set s. len_utf8 c = 1 \<Longrightarrow> byte_len s = length s" for s
    by (induction s) simp_all
  ultimately show ?thesis by blast
qed

lemma view_bytes_le:
  "view_bytes (transcript_entry_view X t e d body inc inc) \<le> byte_len body + (if inc then audit_bytes e else 0)"
  using notice_ascii [of "min (byte_len body) (length coordination_notice)"]
  by (auto simp: transcript_entry_view_def Let_def view_bytes_def audit_bytes_def)

definition digests_ok :: "proof_ext \<Rightarrow> transcript_entry list \<Rightarrow> entry_digest list option \<Rightarrow> bool" where
  "digests_ok X es digests \<longleftrightarrow> digests = None \<or> digests = Some (map (compute_digest X) es)"

lemma visible_digests_ok:
  assumes "chain_ok X t"
  shows "digests_ok X (visible_entries t) (visible_entry_digests t)"
proof (cases "unchanged (proven t) = length (entries t) \<and> length (steps (proven t)) = length (entries t)")
  case True
  then have "reusable_steps t = length (entries t)" by (simp add: reusable_steps_def)
  then have "steps (proven t) = chain_steps X t (codemode_tools (proven t))
      (chain_start X (has_earlier_entries t)) (digested X (entries t))"
    using assms True by (simp add: chain_ok_def)
  then have ds: "map ps_digest (steps (proven t)) = map (compute_digest X) (entries t)" by simp
  have "map (\<lambda>(_, s). ps_digest s) (filter (\<lambda>(e, _). visible_transcript_entry e) (zip es ss)) =
      map (compute_digest X) (filter visible_transcript_entry es)"
    if "map ps_digest ss = map (compute_digest X) es" for es and ss :: "proven_step list"
    using that by (induction es arbitrary: ss) (auto simp: map_eq_Cons_conv)
  from this [OF ds] show ?thesis
    using True by (simp add: digests_ok_def visible_entry_digests_def visible_entries_def Let_def)
qed (auto simp: digests_ok_def visible_entry_digests_def Let_def)

lemma digest_of_sound:
  assumes "digests_ok X es digests" "cache_sound X cache" "i < length es" "es ! i = e"
  obtains cache' where "digest_of X digests i e cache = (compute_digest X e, cache')" "cache_sound X cache'"
    "cache' = cache \<or> cache' = snd (digests_get (compute_digest X) cache e)"
  using digests.get_value [OF assms(2), of e] digests.get_sound [OF assms(2), of e] assms
  by (cases "digests_get (compute_digest X) cache e") (auto simp: digest_of_def digests_ok_def)

section \<open>The loop\<close>

lemma page_row_spec:
  assumes "digests_ok X es digests" "cache_sound X cache" "i < length es" "es ! i = e"
  obtains body inc remaining' cache' where
    "page_row X t digests (i, e) remaining cache =
       (transcript_entry_view X t e (compute_digest X e) body inc inc, remaining', cache')"
    "byte_len body + (if inc then audit_bytes e else 0) + remaining' \<le> remaining"
    "inc \<longleftrightarrow> audit_bytes e \<le> remaining"
    "cache_sound X cache'" "cache' = cache \<or> cache' = snd (digests_get (compute_digest X) cache e)"
proof -
  obtain cache' where c: "digest_of X digests i e cache = (compute_digest X e, cache')"
    "cache_sound X cache'" "cache' = cache \<or> cache' = snd (digests_get (compute_digest X) cache e)"
    by (rule digest_of_sound [OF assms])
  define inc where "inc = (audit_bytes e \<le> remaining)"
  define r where "r = (if inc then remaining - audit_bytes e else remaining)"
  define body where "body = utf8_tail (te_body e) (min r MAX_TRANSCRIPT_ENTRY_BODY_BYTES)"
  have body: "byte_len body \<le> r"
    using utf8_tail_le [of "te_body e" "min r MAX_TRANSCRIPT_ENTRY_BODY_BYTES"] by (simp add: body_def)
  have "page_row X t digests (i, e) remaining cache =
      (transcript_entry_view X t e (compute_digest X e) body inc inc, r - byte_len body, cache')"
    unfolding page_row_def Let_def prod.case inc_def [symmetric] r_def [symmetric] body_def [symmetric] c(1) ..
  moreover have "byte_len body + (if inc then audit_bytes e else 0) + (r - byte_len body) \<le> remaining"
    using body by (auto simp: r_def inc_def)
  ultimately show ?thesis by (rule that) (use c inc_def in auto)
qed

text \<open>A projected view: of which entry, whole or without its envelopes.\<close>

definition row_view :: "proof_ext \<Rightarrow> transcript \<Rightarrow> nat \<Rightarrow> transcript_entry \<Rightarrow> entry_view \<Rightarrow> bool" where
  "row_view X t remaining e v \<longleftrightarrow>
     (\<exists>body inc. v = transcript_entry_view X t e (compute_digest X e) body inc inc \<and>
        (inc \<longrightarrow> audit_bytes e \<le> remaining))"

lemma row_view_mono: "row_view X t r e v \<Longrightarrow> r \<le> r' \<Longrightarrow> row_view X t r' e v"
  unfolding row_view_def by (elim exE conjE, intro exI conjI, assumption) (auto dest: le_trans)

lemma row_view_id: "row_view X t r e v \<Longrightarrow> ev_id v = te_id e"
  by (auto simp: row_view_def)

lemma page_rows_spec:
  assumes "digests_ok X es digests" "cache_sound X cache"
    "\<forall>(i, e) \<in> set rows. i < length es \<and> es ! i = e"
  shows "\<exists>k new cache'. page_rows X t digests rows projected remaining cache = (projected @ new, cache') \<and>
      k \<le> length rows \<and> list_all2 (row_view X t remaining) (map snd (take k rows)) new \<and>
      sum_list (map view_bytes new) \<le> remaining \<and> cache_sound X cache' \<and>
      (rows \<noteq> [] \<and> projected = [] \<longrightarrow> 0 < k)"
  using assms(2,3)
proof (induction rows arbitrary: projected remaining cache)
  case Nil
  then show ?case by auto
next
  case (Cons row rows)
  obtain i e where row: "row = (i, e)" by (cases row)
  show ?case
  proof (cases "page_full e projected remaining")
    case True
    then show ?thesis using Cons.prems(1) row
      by (intro exI [of _ 0] exI [of _ "[]"] exI [of _ cache]) (auto simp: page_full_def)
  next
    case False
    have i: "i < length es" "es ! i = e" using Cons.prems(2) row by auto
    obtain body inc r c where p: "page_row X t digests (i, e) remaining cache =
       (transcript_entry_view X t e (compute_digest X e) body inc inc, r, c)"
      and le: "byte_len body + (if inc then audit_bytes e else 0) + r \<le> remaining"
      and inc: "inc \<longleftrightarrow> audit_bytes e \<le> remaining" and c: "cache_sound X c"
      using page_row_spec [OF assms(1) Cons.prems(1) i] by metis
    let ?v = "transcript_entry_view X t e (compute_digest X e) body inc inc"
    have "\<forall>(i, e) \<in> set rows. i < length es \<and> es ! i = e" using Cons.prems(2) by simp
    from Cons.IH [OF c this, of "projected @ [?v]" r] obtain k new c' where
      IH: "page_rows X t digests rows (projected @ [?v]) r c = ((projected @ [?v]) @ new, c')"
        "k \<le> length rows" "list_all2 (row_view X t r) (map snd (take k rows)) new"
        "sum_list (map view_bytes new) \<le> r" "cache_sound X c'" by auto
    have "row_view X t remaining e ?v" using inc by (auto simp: row_view_def)
    moreover have "list_all2 (row_view X t remaining) (map snd (take k rows)) new"
      using IH(3) by (rule list_all2_mono) (use le in \<open>auto intro: row_view_mono\<close>)
    moreover have "view_bytes ?v \<le> byte_len body + (if inc then audit_bytes e else 0)"
      by (rule view_bytes_le)
    ultimately show ?thesis
      using IH False p le row
      by (intro exI [of _ "Suc k"] exI [of _ "?v # new"] exI [of _ c']) auto
  qed
qed

section \<open>The read\<close>

text \<open>Reads change the caches alone.\<close>

definition same_content :: "transcript \<Rightarrow> transcript \<Rightarrow> bool" where
  "same_content t t' \<longleftrightarrow>
     (\<exists>c p v. t' = t\<lparr>digest_cache := c, proven := p, prefix_fingerprints := v\<rparr>)"

lemma same_contentD:
  assumes "same_content t t'"
  shows "entries t' = entries t" "images t' = images t" "history_retention t' = history_retention t"
    "visible_entries t' = visible_entries t" "cold_prefixes X t' = cold_prefixes X t"
    "has_earlier_entries t' = has_earlier_entries t" "stream_active t' = stream_active t"
    "image_artifacts t' e = image_artifacts t e"
    "transcript_entry_view X t' e d body inc c = transcript_entry_view X t e d body inc c"
proof -
  show eq: "entries t' = entries t" "images t' = images t" "history_retention t' = history_retention t"
    using assms by (auto simp: same_content_def)
  then show "visible_entries t' = visible_entries t" "has_earlier_entries t' = has_earlier_entries t"
    by (simp_all add: visible_entries_def has_earlier_entries_def)
  show "stream_active t' = stream_active t"
    using assms by (auto simp: same_content_def stream_active_def)
  show "cold_prefixes X t' = cold_prefixes X t" by (rule cold_prefixes_cong [OF eq])
  show arts: "image_artifacts t' e = image_artifacts t e" for e by (rule image_artifacts_cong [OF eq(2)])
  show "transcript_entry_view X t' e d body inc c = transcript_entry_view X t e d body inc c"
    by (simp add: transcript_entry_view_def parent_tool_entry_id_def arts eq)
qed

lemma same_content_cache: "same_content t t' \<Longrightarrow> same_content t (t'\<lparr>digest_cache := c\<rparr>)"
proof -
  assume "same_content t t'"
  then obtain d p v where "t' = t\<lparr>digest_cache := d, proven := p, prefix_fingerprints := v\<rparr>"
    by (auto simp: same_content_def)
  then have "t'\<lparr>digest_cache := c\<rparr> = t\<lparr>digest_cache := c, proven := p, prefix_fingerprints := v\<rparr>"
    by simp
  then show ?thesis unfolding same_content_def by blast
qed

lemma length_cold_prefixes [simp]: "length (cold_prefixes X t) = Suc (length (visible_entries t))"
proof -
  have "length (cold_chain X t c es) = Suc (length es)" for c es
    by (induction es arbitrary: c) simp_all
  then show ?thesis by (simp add: cold_prefixes_def)
qed

lemma read_prefixes:
  assumes "proofs_ok X t"
  obtains t' where "cached_prefixes X t = (Some (cold_prefixes X t), t')" "same_content t t'" "proofs_ok X t'"
proof -
  obtain c p where "cached_prefixes X t = (Some (cold_prefixes X t),
      t\<lparr>digest_cache := c, proven := p, prefix_fingerprints := Some (Some (cold_prefixes X t))\<rparr>)"
    using cached_prefixes_cold [OF assms] by metis
  then show ?thesis using that proofs_ok_prefixes [OF assms] by (fastforce simp: same_content_def)
qed

lemma current_owner_read:
  assumes "proofs_ok X t"
  obtains v c where "projected_current_owner X t owner projected reserved include_coord = (v, t\<lparr>digest_cache := c\<rparr>)"
    "proofs_ok X (t\<lparr>digest_cache := c\<rparr>)"
    "v = (case owner of None \<Rightarrow> None
      | Some e \<Rightarrow> (case List.find (\<lambda>v. ev_id v = te_id e) projected of
           Some v \<Rightarrow> Some (v\<lparr>ev_body := [], ev_body_start_byte := ev_body_total_bytes v\<rparr>)
         | None \<Rightarrow> Some (transcript_entry_view X (t\<lparr>digest_cache := c\<rparr>) e (compute_digest X e)
                        (case reserved of Some b \<Rightarrow> b | None \<Rightarrow> []) False include_coord)))"
proof (cases "\<exists>e. owner = Some e \<and> List.find (\<lambda>v. ev_id v = te_id e) projected = None")
  case True
  then obtain e where e: "owner = Some e" "List.find (\<lambda>v. ev_id v = te_id e) projected = None" by blast
  have sound: "cache_sound X (digest_cache t)" using assms by (simp add: proofs_ok_def)
  obtain c where c: "cached_entry_digest X e t = (compute_digest X e, t\<lparr>digest_cache := c\<rparr>)" "cache_sound X c"
    by (rule cached_entry_digest_value [OF sound])
  show ?thesis
    by (rule that [OF _ proofs_ok_cache [OF assms c(2)]])
      (simp_all add: projected_current_owner_def e c(1))
next
  case False
  then show ?thesis
    using assms
    by (intro that [where c = "digest_cache t"]) (auto simp: projected_current_owner_def split: option.splits)
qed

lemma newest_rows:
  assumes "stop \<le> length es" "k \<le> limit"
  shows "map snd (take k (take limit (rev (enumerate 0 (take stop es))))) = rev (drop (stop - k) (take stop es))"
proof -
  have "map snd (take k (take limit (rev (enumerate 0 (take stop es))))) = take k (rev (take stop es))"
    using assms(2) by (simp add: take_map [symmetric] rev_map [symmetric] min_absorb1)
  then show ?thesis using assms(1) by (simp add: take_rev)
qed

definition page_bytes_left :: "transcript \<Rightarrow> ustring option \<Rightarrow> nat \<Rightarrow> nat \<Rightarrow> nat \<Rightarrow> nat" where
  "page_bytes_left t before stop limit budget =
     (let es = visible_entries t; owner = current_owner_of es before;
          left = budget - reserved_coordination_bytes owner budget in
      left - opt_len (reserved_owner_body es owner stop limit left))"

lemma page_outcome:
  assumes ok: "proofs_ok X t" and stop: "page_stop (visible_entries t) before = Some stop"
    and le: "stop \<le> length (visible_entries t)"
  obtains page t' start where
    "projected_transcript_page X t before limit budget = (Some page, t')" "same_content t t'" "proofs_ok X t'"
    "start \<le> stop" "stop - start \<le> limit" "0 < limit \<and> 0 < stop \<longrightarrow> start < stop"
    "list_all2 (row_view X t (page_bytes_left t before stop limit budget))
       (drop start (take stop (visible_entries t))) (pg_entries page)"
    "sum_list (map view_bytes (pg_entries page)) \<le> page_bytes_left t before stop limit budget"
    "pg_prefix_before page = cold_prefixes X t ! start" "pg_prefix_through page = cold_prefixes X t ! stop"
    "pg_next_before_entry_id page =
       (if 0 < start \<and> start < stop then Some (te_id (visible_entries t ! start)) else None)"
    "pg_has_earlier page \<longleftrightarrow> has_earlier_entries t \<or> 0 < start"
    "pg_current_owner_entry page =
      (let es = visible_entries t; owner = current_owner_of es before;
           reserve = reserved_coordination_bytes owner budget in
       case owner of None \<Rightarrow> None
       | Some e \<Rightarrow> (case List.find (\<lambda>v. ev_id v = te_id e) (pg_entries page) of
            Some v \<Rightarrow> Some (v\<lparr>ev_body := [], ev_body_start_byte := ev_body_total_bytes v\<rparr>)
          | None \<Rightarrow> Some (transcript_entry_view X t e (compute_digest X e)
              (case reserved_owner_body es owner stop limit (budget - reserve) of Some b \<Rightarrow> b | None \<Rightarrow> [])
              False (0 < reserve))))"
proof -
  let ?es = "visible_entries t" and ?owner = "current_owner_of (visible_entries t) before"
  let ?reserve = "reserved_coordination_bytes ?owner budget"
  let ?reserved = "reserved_owner_body ?es ?owner stop limit (budget - ?reserve)"
  let ?R = "page_bytes_left t before stop limit budget"
  let ?rows = "take limit (rev (enumerate 0 (take stop ?es)))"
  have R: "?R = budget - ?reserve - opt_len ?reserved" by (simp add: page_bytes_left_def Let_def)
  obtain t1 where t1: "cached_prefixes X t = (Some (cold_prefixes X t), t1)" "same_content t t1" "proofs_ok X t1"
    by (rule read_prefixes [OF ok])
  note c1 = same_contentD [OF t1(2)]
  have digests: "digests_ok X ?es (visible_entry_digests t1)"
    using visible_digests_ok [of X t1] t1(3) c1(4) by (simp add: proofs_ok_def)
  have sound: "cache_sound X (digest_cache t1)" using t1(3) by (simp add: proofs_ok_def)
  have "\<forall>(i, e) \<in> set ?rows. i < length ?es \<and> ?es ! i = e"
    by (auto dest!: in_set_takeD simp: in_set_enumerate_eq nth_take)
  from page_rows_spec [OF digests sound this, of t1 "[]" ?R]
  obtain k new c where rows: "page_rows X t1 (visible_entry_digests t1) ?rows [] ?R (digest_cache t1) = (new, c)"
    "k \<le> length ?rows" "list_all2 (row_view X t1 ?R) (map snd (take k ?rows)) new"
    "sum_list (map view_bytes new) \<le> ?R" "cache_sound X c" "?rows \<noteq> [] \<longrightarrow> 0 < k"
    unfolding append_Nil by blast
  have k: "k \<le> limit" "k \<le> stop" using rows(2) le by auto
  let ?start = "stop - k"
  have "list_all2 (row_view X t1 ?R) (rev (drop ?start (take stop ?es))) new"
    using rows(3) newest_rows [OF le k(1)] by simp
  then have views1: "list_all2 (row_view X t1 ?R) (drop ?start (take stop ?es)) (rev new)"
    by (subst list_all2_rev1 [symmetric]) simp
  have views: "list_all2 (row_view X t ?R) (drop ?start (take stop ?es)) (rev new)"
  proof -
    have "row_view X t1 ?R = row_view X t ?R" by (intro ext) (simp add: row_view_def c1(9))
    then show ?thesis using views1 by simp
  qed
  have len: "length new = k" using list_all2_lengthD [OF views1] k le by simp
  let ?t2 = "t1\<lparr>digest_cache := c\<rparr>"
  have t2: "same_content t ?t2" "proofs_ok X ?t2"
    using same_content_cache [OF t1(2)] proofs_ok_cache [OF t1(3) rows(5)] by simp_all
  obtain v c' where owner: "projected_current_owner X ?t2 ?owner (rev new) ?reserved (0 < ?reserve) =
      (v, ?t2\<lparr>digest_cache := c'\<rparr>)" "proofs_ok X (?t2\<lparr>digest_cache := c'\<rparr>)"
    and v: "v = (case ?owner of None \<Rightarrow> None
      | Some e \<Rightarrow> (case List.find (\<lambda>v. ev_id v = te_id e) (rev new) of
           Some v \<Rightarrow> Some (v\<lparr>ev_body := [], ev_body_start_byte := ev_body_total_bytes v\<rparr>)
         | None \<Rightarrow> Some (transcript_entry_view X (?t2\<lparr>digest_cache := c'\<rparr>) e (compute_digest X e)
                        (case ?reserved of Some b \<Rightarrow> b | None \<Rightarrow> []) False (0 < ?reserve))))"
    by (rule current_owner_read [OF t2(2)])
  let ?t3 = "?t2\<lparr>digest_cache := c'\<rparr>"
  have t3: "same_content t ?t3" by (rule same_content_cache [OF t2(1)])
  have bounds: "?start < length (cold_prefixes X t)" "stop < length (cold_prefixes X t)" using le by simp_all
  let ?page = "\<lparr>pg_prefix_before = cold_prefixes X t ! ?start, pg_prefix_through = cold_prefixes X t ! stop,
      pg_next_before_entry_id = (if ?start > 0 then
        (case rev new of [] \<Rightarrow> None | v # _ \<Rightarrow> Some (ev_id v)) else None),
      pg_entries = rev new, pg_has_earlier = (has_earlier_entries ?t3 \<or> k < stop),
      pg_stream_active = (before = None \<and> stream_active ?t3),
      pg_stream_label = stream_label ?t3, pg_current_owner_entry = v,
      pg_current_owner_omitted_tool_calls = omitted_owner_tool_calls ?es ?owner (rev new)\<rparr>"
  have read: "projected_transcript_page X t before limit budget = (Some ?page, ?t3)"
    unfolding projected_transcript_page_def Let_def stop option.case t1(1) prod.case R [symmetric] rows(1)
      length_rev len owner(1)
    using bounds by simp
  have start: "0 < limit \<and> 0 < stop \<longrightarrow> ?start < stop"
  proof
    assume "0 < limit \<and> 0 < stop"
    then have "?rows \<noteq> []" using le by (auto simp: enumerate_eq_zip)
    then show "?start < stop" using rows(6) k by auto
  qed
  have next_id: "(case rev new of [] \<Rightarrow> None | v # _ \<Rightarrow> Some (ev_id v)) =
      (if ?start < stop then Some (te_id (?es ! ?start)) else None)"
  proof (cases "k = 0")
    case False
    then have "drop ?start (take stop ?es) = ?es ! ?start # drop (Suc ?start) (take stop ?es)"
      using k le by (subst Cons_nth_drop_Suc [symmetric]) simp_all
    then obtain w ws where "rev new = w # ws" "row_view X t ?R (?es ! ?start) w"
      using views by (auto simp: list_all2_Cons1)
    then show ?thesis using False k by (simp add: row_view_id)
  qed (use len in simp)
  show ?thesis
  proof (rule that [OF read t3 owner(2)])
    show "pg_next_before_entry_id ?page =
        (if 0 < ?start \<and> ?start < stop then Some (te_id (?es ! ?start)) else None)"
      using next_id by simp
    show "pg_has_earlier ?page \<longleftrightarrow> has_earlier_entries t \<or> 0 < ?start"
      using same_contentD(6) [OF t3] by auto
    show "pg_current_owner_entry ?page = (let es = visible_entries t; owner = current_owner_of es before;
           reserve = reserved_coordination_bytes owner budget in
       case owner of None \<Rightarrow> None
       | Some e \<Rightarrow> (case List.find (\<lambda>v. ev_id v = te_id e) (pg_entries ?page) of
            Some v \<Rightarrow> Some (v\<lparr>ev_body := [], ev_body_start_byte := ev_body_total_bytes v\<rparr>)
          | None \<Rightarrow> Some (transcript_entry_view X t e (compute_digest X e)
              (case reserved_owner_body es owner stop limit (budget - reserve) of Some b \<Rightarrow> b | None \<Rightarrow> [])
              False (0 < reserve))))"
      using v same_contentD(9) [OF t3] by (simp add: Let_def cong: option.case_cong)
  qed (use start k views rows(4) in \<open>simp_all add: rev_map [symmetric]\<close>)
qed

end
