(* ===== verification/Transcript_Guarantees.thy ===== *)
theory Transcript_Guarantees
  imports Transcript_Paging
begin

text \<open>
  What the server promises about a transcript: its mutators act on the entry they name, the proofs
  it serves are those of a computation from scratch, and its bounded reads (pages of entries,
  windows of a body, the live snapshot) cover everything, link up and stay within their budgets.
\<close>

section \<open>A sample\<close>

definition sample_proof_ext :: proof_ext where
  "sample_proof_ext = \<lparr>sha256 = (\<lambda>b. b), command_json = (\<lambda>_. None), json_text = (\<lambda>_. []),
     completion_json = (\<lambda>_. []), parse_completion = (\<lambda>_. None),
     guess_format = (\<lambda>_. Inr (Some Png)), header_dimensions = (\<lambda>_. Inr (1, 1)),
     mime_type = (\<lambda>_. []), decode_image = (\<lambda>_. Inr ()), parse_json = (\<lambda>_. None),
     uuid_v5 = (\<lambda>b. b), sqlite_text = (\<lambda>_. []), entry_json = (\<lambda>e. Some (te_id e @ te_title e)),
     scoped_uuid = (\<lambda>b. b)\<rparr>"

definition run_mutations :: "mutation list \<Rightarrow> transcript \<Rightarrow> transcript" where
  "run_mutations ms t = fold (\<lambda>m t. the (mutate m t)) ms t"

lemma history_the_mutate: "transcript_history X t \<Longrightarrow> transcript_history X (the (mutate m t))"
  using mutate_refines [OF history_keyed, of X t m]
  by (auto simp: refines_def intro: transcript_history.mutate)

lemma history_run: "transcript_history X t \<Longrightarrow> transcript_history X (run_mutations ms t)"
  by (induction ms arbitrary: t) (auto simp: run_mutations_def history_the_mutate)

lemma entries_run:
  "transcript_history X t \<Longrightarrow> entries (run_mutations ms t) = fold spec_mutate ms (entries t)"
proof (induction ms arbitrary: t)
  case (Cons m ms)
  have "entries (the (mutate m t)) = spec_mutate m (entries t)"
    using mutate_refines [OF history_keyed [OF Cons.prems], of m] by (auto simp: refines_def)
  then show ?case
    using Cons.IH [OF history_the_mutate [OF Cons.prems]] by (simp add: run_mutations_def)
qed (simp add: run_mutations_def)

definition sample_mutations :: "mutation list" where
  "sample_mutations =
     [Upsert [1] 5 (lit ''user:a'') User [] [104, 0x20AC, 105] Complete,
      AppendDelta [2] 6 (lit ''b'') Assistant [] [65], AppendDelta [3] 7 (lit ''b'') Assistant [] [66],
      Upsert [4] 8 (lit ''subagent:c'') Tool [] [] Running, Push [5] 9 Warning [] [67] Complete]"

definition sample_transcript :: transcript where
  "sample_transcript = run_mutations sample_mutations new_transcript"

lemma sample_history: "transcript_history X sample_transcript"
  unfolding sample_transcript_def by (intro history_run transcript_history.new)

lemma sample_entries:
  "entries sample_transcript =
     [fresh_entry [1] 5 (Some (lit ''user:a'')) User [] [104, 0x20AC, 105] Complete,
      fresh_entry [2] 6 (Some (lit ''b'')) Assistant [] [65, 66] Running,
      fresh_entry [4] 8 (Some (lit ''subagent:c'')) Tool [] [] Running,
      fresh_entry [5] 9 None Warning [] [67] Complete]"
  unfolding sample_transcript_def entries_run [OF transcript_history.new]
  by (simp add: sample_mutations_def new_transcript_def upsert_key_def has_key_def update_key_def fresh_entry_def)

lemma sample_visible:
  "visible_entries sample_transcript =
     [fresh_entry [1] 5 (Some (lit ''user:a'')) User [] [104, 0x20AC, 105] Complete,
      fresh_entry [2] 6 (Some (lit ''b'')) Assistant [] [65, 66] Running,
      fresh_entry [5] 9 None Warning [] [67] Complete]"
  by (simp add: visible_entries_def sample_entries visible_transcript_entry_def fresh_entry_def)

section \<open>Mutators\<close>

text \<open>C9: After any history no mutator panics (an index taken from the key table is always in
  range), and the entries it leaves are the ones the key alone determines: the entry of that key
  updated and every other kept, a new key appended, an entry moved or removed, and nothing else.\<close>

theorem mutators_refine_keyed_list:
  assumes "transcript_history X t"
  shows "\<exists>t'. mutate m t = Some t' \<and> entries t' = spec_mutate m (entries t) \<and> transcript_history X t'"
  using mutate_refines [OF history_keyed [OF assms], of m] transcript_history.mutate [OF assms]
  by (auto simp: refines_def)

theorem mutators_refine_keyed_list_witness:
  "\<exists>t'. mutate (MoveBefore (lit ''b'') (lit ''user:a'')) sample_transcript = Some t' \<and>
     map te_id (entries t') = [[2], [1], [4], [5]]"
proof -
  obtain t' where t': "mutate (MoveBefore (lit ''b'') (lit ''user:a'')) sample_transcript = Some t'"
    "entries t' = spec_mutate (MoveBefore (lit ''b'') (lit ''user:a'')) (entries sample_transcript)"
    using mutators_refine_keyed_list [OF sample_history] by blast
  then show ?thesis by (simp add: sample_entries move_key_def fresh_entry_def)
qed

section \<open>Proofs\<close>

text \<open>C7: Whatever mutations, earlier reads, clones and shared digest caches a transcript has been
  through, reading its prefix proofs returns exactly the chain computed from scratch over its visible
  entries, and every digest the reuse of the chain hands out is the digest of the entry as it is.\<close>

theorem incremental_proofs_exact:
  assumes "transcript_history X t"
  shows "fst (cached_prefixes X t) = Some (cold_prefixes X t) \<and>
    visible_entry_digests t \<in> {None, Some (map (compute_digest X) (visible_entries t))} \<and>
    fst (cached_entry_digest X e t) = compute_digest X e"
proof -
  have ok: "proofs_ok X t" by (rule history_proofs_ok [OF assms])
  then have "fst (cached_prefixes X t) = Some (cold_prefixes X t)" using read_prefixes by (metis fst_conv)
  moreover have "digests_ok X (visible_entries t) (visible_entry_digests t)"
    using ok by (simp add: proofs_ok_def visible_digests_ok)
  moreover have "fst (cached_entry_digest X e t) = compute_digest X e"
    using ok cached_entry_digest_value unfolding proofs_ok_def by (metis fst_conv)
  ultimately show ?thesis by (auto simp: digests_ok_def)
qed

theorem incremental_proofs_exact_witness:
  "let t = snd (cached_prefixes sample_proof_ext sample_transcript);
       t' = run_mutations [SetStatus (lit ''b'') Complete, Remove (lit ''user:a'')] t in
   fst (cached_prefixes sample_proof_ext t') = Some (cold_prefixes sample_proof_ext t')"
proof -
  have "transcript_history sample_proof_ext (run_mutations [SetStatus (lit ''b'') Complete, Remove (lit ''user:a'')]
      (snd (cached_prefixes sample_proof_ext sample_transcript)))"
    by (intro history_run transcript_history.prefixes sample_history)
  from incremental_proofs_exact [OF this] show ?thesis by (simp add: Let_def)
qed

section \<open>Windows of a body\<close>

text \<open>C24: A client that reads an entry's body by windows of at least four bytes, paging backward from
  the end by the start byte of the window before, meets no error and reassembles the body exactly, with
  one more window than the body has characters at most.\<close>

theorem body_windows_roundtrip:
  assumes "transcript_entry_body st run_id entry_id = Some body"
    and "4 \<le> limit" "limit \<le> MAX_TRANSCRIPT_ENTRY_BODY_BYTES"
  shows "read_back (transcript_body_window X st run_id entry_id limit) (length body + 1) None = Some body"
  using read_back_prefix [of st run_id entry_id body "[]" limit None "length body + 1" X] assms by simp

definition sample_transcripts :: transcripts where
  "sample_transcripts = \<lparr>session_transcript = sample_transcript, run_transcripts = Map.empty\<rparr>"

theorem body_windows_roundtrip_witness:
  "read_back (transcript_body_window sample_proof_ext sample_transcripts None [1] 4) 4 None = Some [104, 0x20AC, 105]"
proof -
  have "transcript_entry_body sample_transcripts None [1] = Some [104, 0x20AC, 105]"
    by (simp add: transcript_entry_body_def owner_transcript_def sample_transcripts_def sample_entries fresh_entry_def)
  from body_windows_roundtrip [OF this, of 4 sample_proof_ext]
  have "read_back (transcript_body_window sample_proof_ext sample_transcripts None [1] 4)
      (length [104, 0x20AC, 105::nat] + 1) None = Some [104, 0x20AC, 105]"
    by (simp add: MAX_TRANSCRIPT_ENTRY_BODY_BYTES_def del: read_back.simps)
  moreover have "length [104, 0x20AC, 105::nat] + 1 = 4" by simp
  ultimately show ?thesis by (simp only:)
qed

section \<open>Page reads are reads of a history\<close>

text \<open>Every cache a page read fills is filled by proof reads and digest reads, so the transcript a page
  leaves is again one of a history.\<close>

lemma history_digest_of:
  assumes "transcript_history X (t\<lparr>digest_cache := c\<rparr>)"
  shows "transcript_history X (t\<lparr>digest_cache := snd (digest_of X ds i e c)\<rparr>)"
proof -
  have "transcript_history X (t\<lparr>digest_cache := snd (digests_get (compute_digest X) c e)\<rparr>)"
    using transcript_history.digest [OF assms, of e] by (simp add: cached_entry_digest_def split: prod.splits)
  then show ?thesis using assms by (auto simp: digest_of_def split: option.splits)
qed

lemma history_page_rows:
  "transcript_history X (t\<lparr>digest_cache := c\<rparr>) \<Longrightarrow>
   transcript_history X (t\<lparr>digest_cache := snd (page_rows X u ds rows projected remaining c)\<rparr>)"
proof (induction rows arbitrary: projected remaining c)
  case (Cons row rows)
  obtain v r c' where row: "page_row X u ds row remaining c = (v, r, c')" by (cases "page_row X u ds row remaining c")
  then have "c' = snd (digest_of X ds (fst row) (snd row) c)"
    by (auto simp: page_row_def Let_def split: prod.splits)
  then have "transcript_history X (t\<lparr>digest_cache := c'\<rparr>)" using history_digest_of [OF Cons.prems] by simp
  then show ?case using Cons.IH Cons.prems row by simp
qed simp

lemma history_current_owner:
  assumes "transcript_history X w" "projected_current_owner X w owner p b c = (v, y)"
  shows "transcript_history X y"
proof -
  have "cached_entry_digest X e w = (x, z) \<Longrightarrow> transcript_history X z" for e x z
    using transcript_history.digest [OF assms(1), of e] by simp
  then show ?thesis using assms by (auto simp: projected_current_owner_def split: option.splits prod.splits)
qed

lemma history_projected_page:
  assumes "transcript_history X t"
  shows "transcript_history X (snd (projected_transcript_page X t before limit budget))"
proof -
  obtain proofs u where u: "cached_prefixes X t = (proofs, u)" by (cases "cached_prefixes X t")
  have hist: "transcript_history X u" using transcript_history.prefixes [OF assms] u by simp
  have rows: "transcript_history X (u\<lparr>digest_cache := c\<rparr>)"
    if "page_rows X u ds rs p n (digest_cache u) = (r, c)" for ds rs p n r c
    using history_page_rows [where t = u and u = u and c = "digest_cache u" and X = X] hist that
    by (metis (no_types) snd_conv transcript.surjective transcript.update_convs(9))
  show ?thesis
    using assms hist history_current_owner [OF rows] rows
    by (auto simp: projected_transcript_page_def Let_def u split: option.splits prod.splits)
qed

section \<open>Pages\<close>

text \<open>A client that pages backward through a session, newest page first.\<close>

fun read_pages ::
  "proof_ext \<Rightarrow> nat \<Rightarrow> nat \<Rightarrow> ustring option \<Rightarrow> transcripts \<Rightarrow> page_view list option" where
  "read_pages X 0 limit before st = None"
| "read_pages X (Suc n) limit before st =
     (case session_transcript_page X st before limit of
        (None, _) \<Rightarrow> None
      | (Some page, st) \<Rightarrow>
          (case pg_next_before_entry_id page of
             None \<Rightarrow> Some [page]
           | Some cursor \<Rightarrow> map_option (\<lambda>pages. page # pages) (read_pages X n limit (Some cursor) st)))"

abbreviation page_ids :: "page_view \<Rightarrow> ustring list" where
  "page_ids page \<equiv> map ev_id (pg_entries page)"

definition linked :: "page_view list \<Rightarrow> bool" where
  "linked pages \<longleftrightarrow> successively (\<lambda>later earlier. pg_prefix_before later = pg_prefix_through earlier) pages"

lemma session_page_outcome:
  assumes "proofs_ok X (session_transcript st)" "es = visible_entries (session_transcript st)"
    "page_stop es before = Some stop" "stop \<le> length es" "0 < limit"
  obtains page st' start where "session_transcript_page X st before limit = (Some page, st')"
    "proofs_ok X (session_transcript st')" "visible_entries (session_transcript st') = es"
    "cold_prefixes X (session_transcript st') = cold_prefixes X (session_transcript st)"
    "start \<le> stop" "0 < stop \<longrightarrow> start < stop" "page_ids page = map te_id (drop start (take stop es))"
    "pg_prefix_before page = cold_prefixes X (session_transcript st) ! start"
    "pg_prefix_through page = cold_prefixes X (session_transcript st) ! stop"
    "pg_next_before_entry_id page = (if 0 < start then Some (te_id (es ! start)) else None)"
proof -
  let ?t = "session_transcript st" and ?n = "min limit MAX_TRANSCRIPT_PAGE_ENTRIES"
  have n: "0 < ?n" using assms(5) by (simp add: MAX_TRANSCRIPT_PAGE_ENTRIES_def)
  show ?thesis
  proof (rule page_outcome [OF assms(1), of before stop ?n MAX_TRANSCRIPT_PAGE_BODY_BYTES])
    show "page_stop (visible_entries ?t) before = Some stop" "stop \<le> length (visible_entries ?t)"
      using assms(2-4) by simp_all
  next
    fix page t' start
    assume p: "projected_transcript_page X ?t before ?n MAX_TRANSCRIPT_PAGE_BODY_BYTES = (Some page, t')"
      "same_content ?t t'" "proofs_ok X t'" "start \<le> stop"
      and lt: "0 < ?n \<and> 0 < stop \<longrightarrow> start < stop"
      and rows: "list_all2 (row_view X ?t (page_bytes_left ?t before stop ?n MAX_TRANSCRIPT_PAGE_BODY_BYTES))
        (drop start (take stop (visible_entries ?t))) (pg_entries page)"
      and q: "pg_prefix_before page = cold_prefixes X ?t ! start"
      "pg_prefix_through page = cold_prefixes X ?t ! stop"
      "pg_next_before_entry_id page =
        (if 0 < start \<and> start < stop then Some (te_id (visible_entries ?t ! start)) else None)"
    have ids: "page_ids page = map te_id (drop start (take stop es))"
      using rows unfolding assms(2) by (induction rule: list_all2_induct) (auto dest: row_view_id)
    have "0 < stop \<longrightarrow> start < stop" using lt n by blast
    then show ?thesis
      using p(3,4) q ids same_contentD(4,5) [OF p(2)] assms(2)
      by (intro that [of page "st\<lparr>session_transcript := t'\<rparr>" start])
        (auto simp: session_transcript_page_def p(1))
  qed
qed

lemma position_unique:
  assumes "distinct (map f xs)" "i < length xs"
  shows "position (\<lambda>x. f x = f (xs ! i)) xs = Some i"
proof -
  have "takeWhile (\<lambda>x. f x \<noteq> f (xs ! i)) xs = take i xs"
  proof (rule takeWhile_eq_take_P_nth)
    fix j assume "j < i" "j < length xs"
    then show "f (xs ! j) \<noteq> f (xs ! i)" using assms by (simp add: distinct_conv_nth)
  qed simp
  moreover have "list_ex (\<lambda>x. f x = f (xs ! i)) xs"
    using assms(2) by (auto simp: list_ex_iff intro!: bexI [of _ "xs ! i"])
  ultimately show ?thesis using assms(2) by (simp add: position_def)
qed

lemma read_pages_upto:
  assumes "proofs_ok X (session_transcript st)" "visible_entries (session_transcript st) = es"
    "cold_prefixes X (session_transcript st) = ps"
    "distinct (map te_id es)" "0 < limit" "stop \<le> length es" "stop < n" "page_stop es before = Some stop"
  shows "\<exists>pages. read_pages X n limit before st = Some pages \<and> pages \<noteq> [] \<and>
    concat (rev (map page_ids pages)) = map te_id (take stop es) \<and> linked pages \<and>
    pg_prefix_through (hd pages) = ps ! stop \<and> pg_prefix_before (last pages) = ps ! 0"
  using assms(1-3,6-8)
proof (induction n arbitrary: st stop before)
  case (Suc n)
  obtain page st' start where p: "session_transcript_page X st before limit = (Some page, st')"
    "proofs_ok X (session_transcript st')" "visible_entries (session_transcript st') = es"
    "cold_prefixes X (session_transcript st') = ps"
    "start \<le> stop" "0 < stop \<longrightarrow> start < stop" "page_ids page = map te_id (drop start (take stop es))"
    "pg_prefix_before page = ps ! start" "pg_prefix_through page = ps ! stop"
    "pg_next_before_entry_id page = (if 0 < start then Some (te_id (es ! start)) else None)"
    using session_page_outcome [OF Suc.prems(1) Suc.prems(2) [symmetric] Suc.prems(6,4) assms(5)]
    unfolding Suc.prems(3) by blast
  show ?case
  proof (cases "start = 0")
    case True
    then show ?thesis using p by (auto simp: linked_def)
  next
    case False
    then have start: "start < stop" "start < length es" "start < n" using p(5,6) Suc.prems(4,5) by auto
    have "page_stop es (Some (te_id (es ! start))) = Some start"
      using position_unique [OF assms(4) start(2)] by (simp add: page_stop_def)
    from Suc.IH [OF p(2-4) _ start(3) this] start(2)
    obtain pages where q: "read_pages X n limit (Some (te_id (es ! start))) st' = Some pages" "pages \<noteq> []"
      "concat (rev (map page_ids pages)) = map te_id (take start es)" "linked pages"
      "pg_prefix_through (hd pages) = ps ! start" "pg_prefix_before (last pages) = ps ! 0"
      by auto
    have "take start es @ drop start (take stop es) = take stop es"
      using start(1) by (metis append_take_drop_id min.absorb1 order_less_imp_le take_take)
    then have "map te_id (take start es) @ map te_id (drop start (take stop es)) = map te_id (take stop es)"
      by (metis map_append)
    then have "concat (rev (map page_ids (page # pages))) = map te_id (take stop es)"
      using p(7) q(3) by simp
    moreover have "linked (page # pages)" using q(2,4,5) p(8) by (cases pages) (auto simp: linked_def)
    moreover have "read_pages X (Suc n) limit before st = Some (page # pages)" using False p(1,10) q(1) by simp
    ultimately show ?thesis using p(9) q(2,6) by (intro exI [of _ "page # pages"]) simp
  qed
qed simp

text \<open>C8: Paging backward through a session, each time from the cursor the page before returned, ends
  after at most one page per visible entry plus one; the pages together hold every visible entry exactly
  once and in order, each page's proof of what comes before it is the proof through the page that
  precedes it, and the outermost proofs are those of the empty prefix and of the whole transcript.\<close>

theorem session_pages_cover:
  assumes "transcript_history X (session_transcript st)"
    and "distinct (map te_id (visible_entries (session_transcript st)))" "0 < limit"
  shows "\<exists>pages. read_pages X (length (visible_entries (session_transcript st)) + 1) limit None st = Some pages \<and>
    concat (rev (map page_ids pages)) = map te_id (visible_entries (session_transcript st)) \<and>
    linked pages \<and>
    pg_prefix_through (hd pages) = last (cold_prefixes X (session_transcript st)) \<and>
    pg_prefix_before (last pages) = hd (cold_prefixes X (session_transcript st))"
proof -
  let ?es = "visible_entries (session_transcript st)" and ?ps = "cold_prefixes X (session_transcript st)"
  have ne: "?ps \<noteq> []" using length_cold_prefixes [of X "session_transcript st"] by force
  have "\<exists>pages. read_pages X (length ?es + 1) limit None st = Some pages \<and> pages \<noteq> [] \<and>
    concat (rev (map page_ids pages)) = map te_id (take (length ?es) ?es) \<and> linked pages \<and>
    pg_prefix_through (hd pages) = ?ps ! length ?es \<and> pg_prefix_before (last pages) = ?ps ! 0"
    by (rule read_pages_upto [OF history_proofs_ok [OF assms(1)] refl refl assms(2,3)])
      (simp_all add: page_stop_def)
  then show ?thesis using ne by (auto simp: last_conv_nth hd_conv_nth)
qed

theorem session_pages_cover_witness:
  "\<exists>pages. read_pages sample_proof_ext 4 2 None sample_transcripts = Some pages \<and>
    concat (rev (map page_ids pages)) = [[1], [2], [5]] \<and> linked pages"
proof -
  have st: "session_transcript sample_transcripts = sample_transcript" by (simp add: sample_transcripts_def)
  have "distinct (map te_id (visible_entries (session_transcript sample_transcripts)))"
    by (simp add: st sample_visible fresh_entry_def)
  from session_pages_cover [OF _ this, of sample_proof_ext 2] sample_history st
  have "\<exists>pages. read_pages sample_proof_ext (length (visible_entries sample_transcript) + 1) 2 None sample_transcripts =
      Some pages \<and> concat (rev (map page_ids pages)) = map te_id (visible_entries sample_transcript) \<and> linked pages"
    by auto
  moreover have "length (visible_entries sample_transcript) + 1 = 4"
    "map te_id (visible_entries sample_transcript) = [[1], [2], [5]]"
    by (simp_all add: sample_visible fresh_entry_def)
  ultimately show ?thesis by (simp only:)
qed

section \<open>Budgets\<close>

lemma page_stop_le: "page_stop es before = Some stop \<Longrightarrow> stop \<le> length es"
  by (auto simp: page_stop_def position_def split: option.splits if_splits intro: length_takeWhile_le)

lemma reserved_le:
  "reserved_coordination_bytes owner budget \<le> budget"
  "opt_len (reserved_owner_body es owner stop limit left) \<le> left"
proof -
  show "reserved_coordination_bytes owner budget \<le> budget"
    by (auto simp: reserved_coordination_bytes_def split: option.splits)
  have "byte_len (utf8_tail s (min left MAX_TRANSCRIPT_ENTRY_BODY_BYTES)) \<le> left" for s
    using utf8_tail_le [of s "min left MAX_TRANSCRIPT_ENTRY_BODY_BYTES"] by simp
  then show "opt_len (reserved_owner_body es owner stop limit left) \<le> left"
    by (cases owner) (simp_all add: reserved_owner_body_def)
qed

lemma coordination_reserved:
  "te_coordination_json o' = Some js \<Longrightarrow> byte_len js \<le> budget \<Longrightarrow>
   reserved_coordination_bytes (Some o') budget = byte_len js"
  by (simp add: reserved_coordination_bytes_def)

lemma row_of_view: "list_all2 P xs ys \<Longrightarrow> y \<in> set ys \<Longrightarrow> \<exists>x \<in> set xs. P x y"
  by (induction rule: list_all2_induct) auto

text \<open>The owner's anchor, whether copied from its row or projected on its own.\<close>

lemma anchor_bytes_row:
  assumes "row_view X t left o' v" "left \<le> budget" "te_tool_audit_json o' = None"
  shows "view_bytes (v\<lparr>ev_body := [], ev_body_start_byte := s\<rparr>) \<le> reserved_coordination_bytes (Some o') budget"
proof -
  obtain body inc where v: "v = transcript_entry_view X t o' (compute_digest X o') body inc inc"
    and inc: "inc \<Longrightarrow> audit_bytes o' \<le> left"
    using assms(1) by (auto simp: row_view_def)
  have "opt_len (te_coordination_json o') \<le> reserved_coordination_bytes (Some o') budget" if inc
    using inc [OF that] assms(2) coordination_reserved [of o' _ budget]
    by (cases "te_coordination_json o'") (auto simp: audit_bytes_def)
  then show ?thesis
    unfolding v by (auto simp: transcript_entry_view_def Let_def view_bytes_def assms(3))
qed

lemma anchor_bytes_own:
  assumes "te_tool_audit_json o' = None"
  shows "view_bytes (transcript_entry_view X t o' d body False (0 < reserved_coordination_bytes (Some o') budget))
    \<le> byte_len body + reserved_coordination_bytes (Some o') budget"
  using notice_ascii [of "min (byte_len body) (length coordination_notice)"] assms
  by (auto simp: transcript_entry_view_def Let_def view_bytes_def reserved_coordination_bytes_def
      split: option.splits if_splits)

lemma current_owner_mem: "current_owner_of es before = Some o' \<Longrightarrow> o' \<in> set es \<and> te_kind o' = User"
  using find_Some_set [of "\<lambda>e. te_kind e = User" "rev es" o'] by (auto simp: current_owner_of_def split: if_splits)

text \<open>The entry pinned to a page: a row of the page without its body, or the owner with a body of its own.\<close>

definition pinned_owner :: "proof_ext \<Rightarrow> transcript \<Rightarrow> nat \<Rightarrow> ustring option \<Rightarrow> entry_view list \<Rightarrow> transcript_entry \<Rightarrow> entry_view" where
  "pinned_owner X t reserve body views e =
     (case List.find (\<lambda>v. ev_id v = te_id e) views of
        Some v \<Rightarrow> v\<lparr>ev_body := [], ev_body_start_byte := ev_body_total_bytes v\<rparr>
      | None \<Rightarrow> transcript_entry_view X t e (compute_digest X e) (case body of Some b \<Rightarrow> b | None \<Rightarrow> []) False (0 < reserve))"

lemma pinned_owner_bytes:
  assumes ids: "distinct (map te_id (visible_entries t))" and o': "o' \<in> set (visible_entries t)" "te_tool_audit_json o' = None"
    and rows: "list_all2 (row_view X t R) (drop start (take stop (visible_entries t))) views"
    and fits: "reserved_coordination_bytes (Some o') budget + opt_len body + R \<le> budget"
  shows "view_bytes (pinned_owner X t (reserved_coordination_bytes (Some o') budget) body views o')
    \<le> reserved_coordination_bytes (Some o') budget + opt_len body"
proof (cases "List.find (\<lambda>v. ev_id v = te_id o') views")
  case None
  then show ?thesis
    using anchor_bytes_own [OF o'(2), of X t "compute_digest X o'" "case body of Some b \<Rightarrow> b | None \<Rightarrow> []" budget]
    by (cases body) (auto simp: pinned_owner_def)
next
  case (Some v)
  then have v: "v \<in> set views" "ev_id v = te_id o'" using find_Some_set by fastforce+
  then obtain e where e: "e \<in> set (drop start (take stop (visible_entries t)))" "row_view X t R e v"
    using row_of_view [OF rows] by blast
  then have "e \<in> set (visible_entries t)" by (auto dest: in_set_dropD in_set_takeD)
  moreover have "te_id e = te_id o'" using row_view_id [OF e(2)] v(2) by simp
  ultimately have "e = o'" using distinct_key_eq [OF ids] o'(1) by blast
  then show ?thesis
    using anchor_bytes_row [of X t R o' v budget] e(2) o'(2) fits Some by (simp add: pinned_owner_def trans_le_add1)
qed

text \<open>C23: A page holds at most \<open>limit\<close> rows, and the bodies, coordination and tool-audit envelopes of
  its rows together with those of the pinned owner entry stay within the byte budget.  (Entry ids are
  unique and a user's entry carries no tool audit.)\<close>

theorem page_within_budget:
  assumes "transcript_history X t" "distinct (map te_id (visible_entries t))"
    and "\<forall>e \<in> set (visible_entries t). te_kind e = User \<longrightarrow> te_tool_audit_json e = None"
    and "projected_transcript_page X t before limit budget = (Some page, t')"
  shows "length (pg_entries page) \<le> limit \<and>
    sum_list (map view_bytes (pg_entries page)) +
      (case pg_current_owner_entry page of None \<Rightarrow> 0 | Some v \<Rightarrow> view_bytes v) \<le> budget"
proof -
  let ?es = "visible_entries t" and ?owner = "current_owner_of (visible_entries t) before"
  let ?reserve = "reserved_coordination_bytes ?owner budget"
  obtain stop where stop: "page_stop ?es before = Some stop"
    using assms(4) by (cases "page_stop ?es before") (auto simp: projected_transcript_page_def)
  let ?body = "reserved_owner_body ?es ?owner stop limit (budget - ?reserve)"
  let ?R = "page_bytes_left t before stop limit budget"
  have fits: "?reserve + opt_len ?body + ?R \<le> budget"
    using reserved_le(1) [of ?owner budget] reserved_le(2) [of ?es ?owner stop limit "budget - ?reserve"]
    by (simp add: page_bytes_left_def Let_def)
  show ?thesis
  proof (rule page_outcome [OF history_proofs_ok [OF assms(1)] stop page_stop_le [OF stop], of limit budget])
    fix page' t'' start
    assume p: "projected_transcript_page X t before limit budget = (Some page', t'')" "start \<le> stop" "stop - start \<le> limit"
      and rows: "list_all2 (row_view X t ?R) (drop start (take stop ?es)) (pg_entries page')"
      and sum: "sum_list (map view_bytes (pg_entries page')) \<le> ?R"
      and anchor: "pg_current_owner_entry page' =
        (let es = visible_entries t; owner = current_owner_of es before;
             reserve = reserved_coordination_bytes owner budget in
         case owner of None \<Rightarrow> None
         | Some e \<Rightarrow> (case List.find (\<lambda>v. ev_id v = te_id e) (pg_entries page') of
              Some v \<Rightarrow> Some (v\<lparr>ev_body := [], ev_body_start_byte := ev_body_total_bytes v\<rparr>)
            | None \<Rightarrow> Some (transcript_entry_view X t e (compute_digest X e)
                (case reserved_owner_body es owner stop limit (budget - reserve) of Some b \<Rightarrow> b | None \<Rightarrow> [])
                False (0 < reserve))))"
    have page: "page' = page" using assms(4) p(1) by simp
    have pinned: "pg_current_owner_entry page' = map_option (pinned_owner X t ?reserve ?body (pg_entries page')) ?owner"
      unfolding anchor by (cases ?owner) (simp_all add: pinned_owner_def Let_def split: option.splits)
    have "length (pg_entries page) \<le> limit"
      using list_all2_lengthD [OF rows] p(2,3) page_stop_le [OF stop] page by simp
    moreover have "(case pg_current_owner_entry page' of None \<Rightarrow> 0 | Some v \<Rightarrow> view_bytes v) \<le> ?reserve + opt_len ?body"
    proof (cases ?owner)
      case (Some o')
      then show ?thesis
        using pinned_owner_bytes [OF assms(2) _ _ rows, of o' budget ?body] current_owner_mem [OF Some] assms(3) fits
        by (simp add: pinned)
    qed (simp add: pinned)
    ultimately show ?thesis using sum fits page by simp
  qed
qed

theorem page_within_budget_witness:
  "\<exists>page t'. projected_transcript_page sample_proof_ext sample_transcript None 1 4 = (Some page, t') \<and>
     length (pg_entries page) \<le> 1 \<and> sum_list (map view_bytes (pg_entries page)) \<le> 4"
proof -
  have stop: "page_stop (visible_entries sample_transcript) None = Some 3"
    by (simp add: page_stop_def sample_visible)
  obtain page t' where p: "projected_transcript_page sample_proof_ext sample_transcript None 1 4 = (Some page, t')"
    by (rule page_outcome [OF history_proofs_ok [OF sample_history] stop page_stop_le [OF stop]])
  have "distinct (map te_id (visible_entries sample_transcript))"
    "\<forall>e \<in> set (visible_entries sample_transcript). te_kind e = User \<longrightarrow> te_tool_audit_json e = None"
    by (simp_all add: sample_visible fresh_entry_def)
  from page_within_budget [OF sample_history this p] p show ?thesis by auto
qed

section \<open>The live snapshot\<close>

lemma rounded_up_64:
  fixes m :: nat
  shows "m \<le> 64 * ((m + 63) div 64) \<and> 64 * ((m + 63) div 64) \<le> m + 63"
proof -
  have "m + 63 = 64 * ((m + 63) div 64) + (m + 63) mod 64" "(m + 63) mod 64 < 64" by simp_all
  then show ?thesis by linarith
qed

text \<open>A page whose entries fit into its bytes holds all the entries it was asked for.\<close>

definition entry_bytes :: "transcript_entry \<Rightarrow> nat" where
  "entry_bytes e = audit_bytes e + byte_len (te_body e)"

lemma utf8_tail_shorter: "byte_len (utf8_tail s n) \<le> byte_len s"
proof -
  obtain c where "s = c @ utf8_tail s n" by (rule utf8_tail_spec)
  from arg_cong [OF this, of byte_len] show ?thesis by simp
qed

lemma page_rows_complete:
  "sum_list (map (entry_bytes \<circ> snd) rows) \<le> remaining \<Longrightarrow>
   length (fst (page_rows X t digests rows projected remaining cache)) = length projected + length rows"
proof (induction rows arbitrary: projected remaining cache)
  case (Cons row rows)
  obtain i e where row: "row = (i, e)" by (cases row)
  have fits: "audit_bytes e + byte_len (te_body e) + sum_list (map (entry_bytes \<circ> snd) rows) \<le> remaining"
    using Cons.prems by (simp add: row entry_bytes_def [of e] comp_def)
  have "te_body e = []" if "remaining = 0" using fits that byte_len_eq_0 [of "te_body e"] by linarith
  with fits have "\<not> page_full (snd row) projected remaining" by (auto simp: page_full_def row)
  moreover obtain v r c where step: "page_row X t digests row remaining cache = (v, r, c)" by (metis prod_cases3)
  moreover have "sum_list (map (entry_bytes \<circ> snd) rows) \<le> r"
    using step fits utf8_tail_shorter [of "te_body e" "min (remaining - audit_bytes e) MAX_TRANSCRIPT_ENTRY_BODY_BYTES"]
    by (auto simp: page_row_def row Let_def split: prod.splits)
  ultimately show ?case using Cons.IH [of r "projected @ [v]" c] by (simp add: comp_def)
qed simp

lemma page_complete:
  assumes page: "projected_transcript_page X t before limit budget = (Some page, t')"
    and stop: "page_stop (visible_entries t) before = Some stop" "stop \<le> length (visible_entries t)"
    and fits: "sum_list (map entry_bytes (drop (stop - limit) (take stop (visible_entries t)))) \<le> page_bytes_left t before stop limit budget"
  shows "length (pg_entries page) = min limit stop"
proof -
  let ?rows = "take limit (rev (enumerate 0 (take stop (visible_entries t))))"
  have "map snd ?rows = rev (drop (stop - limit) (take stop (visible_entries t)))"
    by (simp add: take_map [symmetric] rev_map [symmetric] take_rev)
      (use stop(2) in \<open>simp add: drop_map [symmetric] min_def\<close>)
  then have "sum_list (map (entry_bytes \<circ> snd) ?rows) = sum_list (map entry_bytes (drop (stop - limit) (take stop (visible_entries t))))"
    by (metis map_map rev_map sum_list.rev)
  then have "length (fst (page_rows X u ds ?rows [] (page_bytes_left t before stop limit budget) c)) = min limit stop" for u ds c
    using page_rows_complete [of ?rows "page_bytes_left t before stop limit budget" X u ds "[]" c] fits stop(2)
    by (simp add: min_def)
  then show ?thesis
    using page stop(1)
    by (auto simp: projected_transcript_page_def page_bytes_left_def Let_def
        split: prod.splits option.splits if_splits) (metis fst_conv)+
qed

text \<open>C25: The snapshot's page always exists (its \<open>expect\<close> never fails).  Its rows are the newest entries from
  some entry on, at most 256 and at least one, and never from before a boundary that is a multiple of 64,
  the start of the transcript while it has at most 256 entries and else between 193 and 256 entries from its
  end.  The page starts exactly at that boundary when the bodies and envelopes from there on fit into
  its bytes.\<close>

theorem snapshot_page_aligned:
  assumes "transcript_history X t"
  shows "\<exists>page t' boundary start. let es = visible_entries t; n = length es in
    transcript_page X t = (Some page, t') \<and> map ev_id (pg_entries page) = map te_id (drop start es) \<and>
    (if n = 0 then start = 0 else start < n) \<and>
    boundary mod 64 = 0 \<and> n - boundary \<le> 256 \<and> (if n \<le> 256 then boundary = 0 else 192 < n - boundary) \<and>
    boundary \<le> start \<and>
    (sum_list (map entry_bytes (drop boundary es))
       \<le> page_bytes_left t None n (aligned_newest_window n MAX_TRANSCRIPT_SNAPSHOT_ENTRIES) MAX_TRANSCRIPT_SNAPSHOT_BODY_BYTES \<longrightarrow>
     start = boundary)"
proof -
  let ?n = "length (visible_entries t)" and ?w = "aligned_newest_window (length (visible_entries t)) MAX_TRANSCRIPT_SNAPSHOT_ENTRIES"
  let ?B = "MAX_TRANSCRIPT_SNAPSHOT_BODY_BYTES"
  have w: "?w = (if ?n \<le> 256 then 256 else ?n - (?n - 256 + 63) div 64 * 64)"
    by (simp add: aligned_newest_window_def MAX_TRANSCRIPT_SNAPSHOT_ENTRIES_def TRANSCRIPT_WINDOW_ALIGNMENT_def)
  have window: "(?n - ?w) mod 64 = 0 \<and> 192 < ?w \<and> ?w \<le> 256 \<and> ?w \<le> ?n" if "?n > 256"
  proof -
    define q where "q = (?n - 256 + 63) div 64"
    have "?n - 256 \<le> 64 * q" "64 * q \<le> ?n - 256 + 63" unfolding q_def using rounded_up_64 by blast+
    moreover have "?w = ?n - q * 64" using w that by (simp add: q_def)
    moreover have "64 * q \<le> ?n" using calculation(2) that by linarith
    ultimately show ?thesis using that by (auto simp: algebra_simps)
  qed
  have boundary: "(?n - ?w) mod 64 = 0 \<and> ?n - (?n - ?w) \<le> 256 \<and> (if ?n \<le> 256 then ?n - ?w = 0 else 192 < ?n - (?n - ?w))"
    using w window by (cases "?n \<le> 256") auto
  have "0 < ?w" using w window by (cases "?n \<le> 256") auto
  have stop: "page_stop (visible_entries t) None = Some ?n" by (simp add: page_stop_def)
  show ?thesis
  proof (rule page_outcome [OF history_proofs_ok [OF assms] stop order_refl, of ?w ?B])
    fix page t' start
    assume p: "projected_transcript_page X t None ?w ?B = (Some page, t')"
      and start: "start \<le> ?n" "?n - start \<le> ?w" "0 < ?w \<and> 0 < ?n \<longrightarrow> start < ?n"
      and rows: "list_all2 (row_view X t (page_bytes_left t None ?n ?w ?B)) (drop start (take ?n (visible_entries t))) (pg_entries page)"
    have ids: "map ev_id (pg_entries page) = map te_id (drop start (visible_entries t))"
      using rows unfolding take_all_iff [THEN iffD2, OF order_refl]
      by (induction rule: list_all2_induct) (auto dest: row_view_id)
    have "start = ?n - ?w" if "sum_list (map entry_bytes (drop (?n - ?w) (visible_entries t))) \<le> page_bytes_left t None ?n ?w ?B"
    proof -
      have "length (pg_entries page) = min ?w ?n" using page_complete [OF p stop order_refl] that by simp
      then show ?thesis using list_all2_lengthD [OF rows] start(1) by auto
    qed
    then show ?thesis
      using p ids start boundary \<open>0 < ?w\<close>
      by (intro exI [of _ page] exI [of _ t'] exI [of _ "?n - ?w"] exI [of _ start]) (auto simp: transcript_page_def Let_def)
  qed
qed

theorem snapshot_page_aligned_witness:
  "\<exists>page t'. transcript_page sample_proof_ext sample_transcript = (Some page, t') \<and> map ev_id (pg_entries page) = [[1], [2], [5]]"
proof -
  have n: "length (visible_entries sample_transcript) = 3" by (simp add: sample_visible)
  have "sum_list (map entry_bytes (visible_entries sample_transcript)) \<le>
      page_bytes_left sample_transcript None 3 (aligned_newest_window 3 MAX_TRANSCRIPT_SNAPSHOT_ENTRIES) MAX_TRANSCRIPT_SNAPSHOT_BODY_BYTES"
    by (simp add: sample_visible fresh_entry_def entry_bytes_def audit_bytes_def page_bytes_left_def current_owner_of_def
        reserved_coordination_bytes_def reserved_owner_body_def owner_outside_window_def aligned_newest_window_def
        MAX_TRANSCRIPT_SNAPSHOT_ENTRIES_def MAX_TRANSCRIPT_SNAPSHOT_BODY_BYTES_def TRANSCRIPT_WINDOW_ALIGNMENT_def
        len_utf8_def Let_def split: option.splits)
  with snapshot_page_aligned [OF sample_history, of sample_proof_ext] n
  have "\<exists>page t'. transcript_page sample_proof_ext sample_transcript = (Some page, t') \<and>
      map ev_id (pg_entries page) = map te_id (visible_entries sample_transcript)"
    by (auto simp: Let_def)
  then show ?thesis by (simp add: sample_visible fresh_entry_def)
qed

end
