(* ===== verification/Tool_Arguments.thy ===== *)
theory Tool_Arguments
  imports Protocol
begin

text \<open>Reading the arguments of a tool call: \<open>required_string\<close> of \<open>src/src/tools/mod.rs\<close>.\<close>

definition required_string :: "json \<Rightarrow> string \<Rightarrow> ustring + ustring" where
  "required_string arguments name =
     (case Option.bind (json_get arguments name) as_str of
        Some s \<Rightarrow> if s \<noteq> [] then Inr s else Inl (lit ''missing non-empty string argument '' @ lit name)
      | None \<Rightarrow> Inl (lit ''missing non-empty string argument '' @ lit name))"

lemma required_string_nonempty: "required_string arguments name = Inr s \<Longrightarrow> s \<noteq> []"
  by (auto simp: required_string_def split: option.splits if_splits)

end
