(* ===== verification/Todo_Tool.thy ===== *)
theory Todo_Tool
  imports Tool_Arguments "HOL-Library.Multiset"
begin

text \<open>
  The session's task list: \<open>src/src/tools/todo.rs\<close> over the data of \<open>src/src/backend.rs\<close>.  Every
  operation takes the phases by mutable reference, so it returns its result with the phases it
  leaves, on an error too.  \<open>apply_operation\<close> is the tool call, \<open>todo_execute\<close> adds the
  cancellation check and the event that tells clients about the new list.
\<close>

section \<open>Data\<close>

datatype todo_status = Pending | InProgress | Completed | Abandoned

record todo_item =
  ti_content :: ustring
  ti_status :: todo_status

record todo_phase =
  tp_name :: ustring
  tp_tasks :: "todo_item list"

type_synonym todo_result = "(ustring + unit) \<times> todo_phase list"

section \<open>Arguments\<close>

definition task_from_value :: "json \<Rightarrow> ustring + todo_item" where
  "task_from_value item =
     (case map_option trim (as_str item) of
        Some content \<Rightarrow> if content \<noteq> [] then Inr \<lparr>ti_content = content, ti_status = Pending\<rparr>
          else Inl (lit ''todo items must be non-empty strings'')
      | None \<Rightarrow> Inl (lit ''todo items must be non-empty strings''))"

definition tasks_from_value :: "json \<Rightarrow> string \<Rightarrow> ustring + todo_item list" where
  "tasks_from_value v field =
     (case Option.bind (json_get v field) as_array of
        Some items \<Rightarrow> if items \<noteq> [] then rmap task_from_value items
          else Inl (lit ''todo requires a non-empty '' @ lit field @ lit '' array'')
      | None \<Rightarrow> Inl (lit ''todo requires a non-empty '' @ lit field @ lit '' array''))"

definition phase_from_value :: "json \<Rightarrow> string \<Rightarrow> ustring + todo_phase" where
  "phase_from_value v field =
     rbind (required_string v field) (\<lambda>name.
     rbind (tasks_from_value v ''items'') (\<lambda>tasks.
       Inr \<lparr>tp_name = trim name, tp_tasks = tasks\<rparr>))"

section \<open>Checks and messages\<close>

fun unique_tasks :: "todo_item list \<Rightarrow> ustring set \<Rightarrow> ustring + ustring set" where
  "unique_tasks [] seen = Inr seen"
| "unique_tasks (task # tasks) seen =
     (if ti_content task \<in> seen then Inl (lit ''duplicate todo task: '' @ ti_content task)
      else unique_tasks tasks (insert (ti_content task) seen))"

fun unique_phases :: "todo_phase list \<Rightarrow> ustring set \<Rightarrow> ustring set \<Rightarrow> ustring + unit" where
  "unique_phases [] names contents = Inr ()"
| "unique_phases (phase # phases) names contents =
     (if tp_name phase \<in> names then Inl (lit ''duplicate todo phase: '' @ tp_name phase)
      else rbind (unique_tasks (tp_tasks phase) contents)
             (unique_phases phases (insert (tp_name phase) names)))"

definition validate_unique :: "todo_phase list \<Rightarrow> ustring + unit" where
  "validate_unique phases = unique_phases phases {} {}"

definition all_tasks :: "todo_phase list \<Rightarrow> todo_item list" where
  "all_tasks phases = concat (map tp_tasks phases)"

fun join :: "ustring \<Rightarrow> ustring list \<Rightarrow> ustring" where
  "join sep [] = []"
| "join sep [s] = s"
| "join sep (s # ss) = s @ sep @ join sep ss"

definition missing_task_message :: "todo_phase list \<Rightarrow> ustring \<Rightarrow> ustring" where
  "missing_task_message phases requested =
     (let available = map (\<lambda>task. lit ''- '' @ ti_content task) (all_tasks phases) in
      if available = [] then lit ''todo task not found: '' @ requested @ lit ''; the todo list is empty''
      else lit ''todo task not found: '' @ requested @ [10] @ lit ''Use one of these exact task values:'' @
        [10] @ join [10] available)"

fun status_marker :: "todo_status \<Rightarrow> string" where
  "status_marker Pending = ''[ ]''"
| "status_marker InProgress = ''[~]''"
| "status_marker Completed = ''[x]''"
| "status_marker Abandoned = ''[-]''"

definition render_phases :: "todo_phase list \<Rightarrow> ustring" where
  "render_phases phases =
     (if phases = [] then lit ''todo list is empty''
      else join [10] (concat (map (\<lambda>(i, phase).
        (show_nat (i + 1) @ lit ''. '' @ tp_name phase) #
        map (\<lambda>task. lit ''  '' @ lit (status_marker (ti_status task)) @ lit '' '' @ ti_content task)
          (tp_tasks phase)) (enumerate 0 phases))))"

section \<open>Operations\<close>

text \<open>The first element that satisfies a test, updated in place.\<close>

fun update_first :: "('a \<Rightarrow> bool) \<Rightarrow> ('a \<Rightarrow> 'a) \<Rightarrow> 'a list \<Rightarrow> 'a list" where
  "update_first P f [] = []"
| "update_first P f (x # xs) = (if P x then f x # xs else x # update_first P f xs)"

definition initialize :: "todo_phase list \<Rightarrow> json \<Rightarrow> todo_result" where
  "initialize phases arguments =
     (case rbind
        (case Option.bind (json_get arguments ''list'') as_array of
           Some entries \<Rightarrow>
             if entries = [] then Inl (lit ''todo init list must not be empty'')
             else rmap (\<lambda>entry. phase_from_value entry ''phase'') entries
         | None \<Rightarrow> rbind (tasks_from_value arguments ''items'')
             (\<lambda>tasks. Inr [\<lparr>tp_name = lit ''Todos'', tp_tasks = tasks\<rparr>]))
        (\<lambda>replacement. rbind (validate_unique replacement) (\<lambda>_. Inr replacement)) of
        Inl e \<Rightarrow> (Inl e, phases)
      | Inr replacement \<Rightarrow> (Inr (), replacement))"

definition append_tasks :: "todo_phase list \<Rightarrow> json \<Rightarrow> todo_result" where
  "append_tasks phases arguments =
     (case rbind (required_string arguments ''phase'')
        (\<lambda>name. rbind (tasks_from_value arguments ''items'') (\<lambda>additions. Inr (name, additions))) of
        Inl e \<Rightarrow> (Inl e, phases)
      | Inr (name, additions) \<Rightarrow>
          let phases =
            (if list_ex (\<lambda>p. tp_name p = name) phases
             then update_first (\<lambda>p. tp_name p = name) (\<lambda>p. p\<lparr>tp_tasks := tp_tasks p @ additions\<rparr>) phases
             else phases @ [\<lparr>tp_name = name, tp_tasks = additions\<rparr>]) in
          (validate_unique phases, phases))"

definition holds_task :: "ustring \<Rightarrow> todo_phase \<Rightarrow> bool" where
  "holds_task content p \<longleftrightarrow> list_ex (\<lambda>task. ti_content task = content) (tp_tasks p)"

definition set_task_status :: "todo_phase list \<Rightarrow> ustring \<Rightarrow> todo_status \<Rightarrow> todo_result" where
  "set_task_status phases content status =
     (if list_ex (holds_task content) phases
      then (Inr (), update_first (holds_task content) (\<lambda>p. p\<lparr>tp_tasks :=
             update_first (\<lambda>task. ti_content task = content) (\<lambda>task. task\<lparr>ti_status := status\<rparr>) (tp_tasks p)\<rparr>)
             phases)
      else (Inl (missing_task_message phases content), phases))"

definition set_target_status :: "todo_phase list \<Rightarrow> json \<Rightarrow> todo_status \<Rightarrow> todo_result" where
  "set_target_status phases arguments status =
     (case Option.bind (json_get arguments ''task'') as_str of
        Some task \<Rightarrow> set_task_status phases task status
      | None \<Rightarrow>
          (case required_string arguments ''phase'' of
             Inl e \<Rightarrow> (Inl e, phases)
           | Inr name \<Rightarrow>
               if list_ex (\<lambda>p. tp_name p = name) phases
               then (Inr (), update_first (\<lambda>p. tp_name p = name)
                 (\<lambda>p. p\<lparr>tp_tasks := map (\<lambda>task. task\<lparr>ti_status := status\<rparr>) (tp_tasks p)\<rparr>) phases)
               else (Inl (lit ''todo phase not found: '' @ name), phases)))"

fun remove_first :: "('a \<Rightarrow> bool) \<Rightarrow> 'a list \<Rightarrow> 'a list" where
  "remove_first P [] = []"
| "remove_first P (x # xs) = (if P x then xs else x # remove_first P xs)"

definition remove_target :: "todo_phase list \<Rightarrow> json \<Rightarrow> todo_result" where
  "remove_target phases arguments =
     (case Option.bind (json_get arguments ''task'') as_str of
        Some content \<Rightarrow>
          if list_ex (holds_task content) phases
          then (Inr (), filter (\<lambda>p. tp_tasks p \<noteq> []) (update_first (holds_task content)
                 (\<lambda>p. p\<lparr>tp_tasks := remove_first (\<lambda>task. ti_content task = content) (tp_tasks p)\<rparr>) phases))
          else (Inl (missing_task_message phases content), phases)
      | None \<Rightarrow>
          (case Option.bind (json_get arguments ''phase'') as_str of
             Some name \<Rightarrow>
               let kept = filter (\<lambda>p. tp_name p \<noteq> name) phases in
               (if length kept < length phases then Inr () else Inl (lit ''todo phase not found: '' @ name), kept)
           | None \<Rightarrow> (Inr (), [])))"

definition promote_next_task :: "todo_phase list \<Rightarrow> todo_phase list" where
  "promote_next_task phases =
     (if list_ex (\<lambda>task. ti_status task = InProgress) (all_tasks phases) then phases
      else update_first (\<lambda>p. list_ex (\<lambda>task. ti_status task = Pending) (tp_tasks p))
        (\<lambda>p. p\<lparr>tp_tasks := update_first (\<lambda>task. ti_status task = Pending)
               (\<lambda>task. task\<lparr>ti_status := InProgress\<rparr>) (tp_tasks p)\<rparr>) phases)"

definition run_operation :: "todo_phase list \<Rightarrow> json \<Rightarrow> ustring \<Rightarrow> todo_result" where
  "run_operation phases arguments op =
     (if op = lit ''view'' then (Inr (), phases)
      else if op = lit ''init'' then initialize phases arguments
      else if op = lit ''append'' then append_tasks phases arguments
      else if op = lit ''start'' then
        (case required_string arguments ''task'' of
           Inl e \<Rightarrow> (Inl e, phases) | Inr task \<Rightarrow> set_task_status phases task InProgress)
      else if op = lit ''done'' then set_target_status phases arguments Completed
      else if op = lit ''drop'' then set_target_status phases arguments Abandoned
      else if op = lit ''rm'' then remove_target phases arguments
      else (Inl (lit ''unsupported todo operation '' @ op), phases))"

definition apply_operation :: "todo_phase list \<Rightarrow> json \<Rightarrow> (ustring + ustring) \<times> todo_phase list" where
  "apply_operation phases arguments =
     (case required_string arguments ''op'' of
        Inl e \<Rightarrow> (Inl e, phases)
      | Inr op \<Rightarrow>
          (case run_operation phases arguments op of
             (Inl e, phases) \<Rightarrow> (Inl e, phases)
           | (Inr _, phases) \<Rightarrow>
               let phases = (if op = lit ''view'' \<or> op = lit ''start'' then phases
                             else promote_next_task phases) in
               (Inr (render_phases phases), phases)))"

text \<open>The tool call: the result, the list, and the list sent to clients.\<close>

definition todo_execute ::
  "bool \<Rightarrow> todo_phase list \<Rightarrow> json \<Rightarrow> (ustring + ustring) \<times> todo_phase list \<times> todo_phase list option" where
  "todo_execute cancelled phases arguments =
     (if cancelled then (Inl (lit ''todo operation interrupted''), phases, None)
      else case apply_operation phases arguments of
        (Inr out, phases) \<Rightarrow> (Inr out, phases, Some phases)
      | (Inl e, phases) \<Rightarrow> (Inl e, phases, None))"

section \<open>Unique names and contents\<close>

definition unique_list :: "todo_phase list \<Rightarrow> bool" where
  "unique_list phases \<longleftrightarrow>
     distinct (map tp_name phases) \<and> distinct (map ti_content (all_tasks phases))"

lemma all_tasks_simps [simp]:
  "all_tasks [] = []" "all_tasks (p # ps) = tp_tasks p @ all_tasks ps"
  "all_tasks (ps @ qs) = all_tasks ps @ all_tasks qs"
  by (simp_all add: all_tasks_def)

lemma unique_tasks_Inr:
  "unique_tasks tasks seen = Inr seen' \<longleftrightarrow>
     distinct (map ti_content tasks) \<and> ti_content ` set tasks \<inter> seen = {} \<and>
     seen' = seen \<union> ti_content ` set tasks"
  by (induction tasks seen rule: unique_tasks.induct) auto

lemma unique_phases_Inr:
  "unique_phases phases names contents = Inr () \<longleftrightarrow>
     unique_list phases \<and> tp_name ` set phases \<inter> names = {} \<and>
     ti_content ` set (all_tasks phases) \<inter> contents = {}"
proof (induction phases arbitrary: names contents)
  case (Cons p ps)
  define A where "A = tp_name ` set ps"
  define B where "B = ti_content ` set (all_tasks ps)"
  define C where "C = ti_content ` set (tp_tasks p)"
  have "unique_phases (p # ps) names contents = Inr () \<longleftrightarrow> tp_name p \<notin> names \<and>
      distinct (map ti_content (tp_tasks p)) \<and> C \<inter> contents = {} \<and>
      unique_list ps \<and> A \<inter> insert (tp_name p) names = {} \<and> B \<inter> (contents \<union> C) = {}"
    by (simp only: unique_phases.simps rbind_eq_Inr unique_tasks_Inr Cons.IH A_def B_def C_def split: if_splits) auto
  moreover have "unique_list (p # ps) \<longleftrightarrow> tp_name p \<notin> A \<and> distinct (map ti_content (tp_tasks p)) \<and>
      C \<inter> B = {} \<and> unique_list ps"
    by (auto simp: unique_list_def A_def B_def C_def)
  moreover have "tp_name ` set (p # ps) = insert (tp_name p) A"
    "ti_content ` set (all_tasks (p # ps)) = C \<union> B"
    by (simp_all add: A_def B_def C_def image_Un)
  ultimately show ?case by (simp only:) blast
qed (simp add: unique_list_def)

lemma validate_unique_iff: "validate_unique phases = Inr () \<longleftrightarrow> unique_list phases"
  by (simp add: validate_unique_def unique_phases_Inr)

lemma map_update_first: "(\<And>x. g (f x) = g x) \<Longrightarrow> map g (update_first P f xs) = map g xs"
  by (induction xs) auto

text \<open>Updates of the tasks of one phase that keep or drop contents.\<close>

lemma contents_update_first:
  assumes "\<And>ts. map ti_content (f ts) = map ti_content ts"
  shows "map ti_content (all_tasks (update_first P (\<lambda>p. p\<lparr>tp_tasks := f (tp_tasks p)\<rparr>) ps)) =
    map ti_content (all_tasks ps)"
  by (induction ps) (simp_all add: assms)

lemma unique_update_first:
  assumes "unique_list ps" "\<And>ts. map ti_content (f ts) = map ti_content ts"
  shows "unique_list (update_first P (\<lambda>p. p\<lparr>tp_tasks := f (tp_tasks p)\<rparr>) ps)"
  using assms(1) contents_update_first [of f P ps, OF assms(2)]
  by (simp add: unique_list_def map_update_first)

lemma status_keeps_contents:
  "map ti_content (update_first P (\<lambda>task. task\<lparr>ti_status := s\<rparr>) ts) = map ti_content ts"
  "map ti_content (map (\<lambda>task. task\<lparr>ti_status := s\<rparr>) ts) = map ti_content ts"
  by (simp_all add: map_update_first comp_def)

lemma unique_set_task_status: "unique_list ps \<Longrightarrow> unique_list (snd (set_task_status ps c s))"
  by (auto simp: set_task_status_def intro!: unique_update_first status_keeps_contents)

lemma unique_set_target_status: "unique_list ps \<Longrightarrow> unique_list (snd (set_target_status ps a s))"
  by (auto simp: set_target_status_def unique_set_task_status intro!: unique_update_first status_keeps_contents
      split: option.splits sum.splits)

lemma unique_promote: "unique_list ps \<Longrightarrow> unique_list (promote_next_task ps)"
  by (auto simp: promote_next_task_def intro!: unique_update_first status_keeps_contents)

lemma remove_first_subset: "set (remove_first P xs) \<subseteq> set xs"
  by (induction xs) auto

lemma distinct_remove_first: "distinct (map g xs) \<Longrightarrow> distinct (map g (remove_first P xs))"
  by (induction xs) (auto dest: subsetD [OF remove_first_subset])

lemma all_tasks_filter:
  "all_tasks (filter (\<lambda>p. tp_tasks p \<noteq> []) ps) = all_tasks ps"
  "set (all_tasks (filter P ps)) \<subseteq> set (all_tasks ps)"
  by (induction ps) auto

lemma unique_filter: "unique_list ps \<Longrightarrow> unique_list (filter P ps)"
  by (induction ps) (auto simp: unique_list_def dest: subsetD [OF all_tasks_filter(2)])

lemma unique_remove_task:
  assumes "unique_list ps"
  shows "unique_list (update_first P (\<lambda>p. p\<lparr>tp_tasks := remove_first Q (tp_tasks p)\<rparr>) ps)"
proof -
  have sub: "set (all_tasks (update_first P (\<lambda>p. p\<lparr>tp_tasks := remove_first Q (tp_tasks p)\<rparr>) qs)) \<subseteq> set (all_tasks qs)" for qs
    by (induction qs) (auto dest: subsetD [OF remove_first_subset])
  have "distinct (map ti_content (all_tasks (update_first P (\<lambda>p. p\<lparr>tp_tasks := remove_first Q (tp_tasks p)\<rparr>) qs)))"
    if "distinct (map ti_content (all_tasks qs))" for qs
    using that
    by (induction qs) (auto simp: distinct_remove_first dest: subsetD [OF remove_first_subset] subsetD [OF sub])
  then show ?thesis using assms by (simp add: unique_list_def map_update_first)
qed

lemma unique_remove_target: "unique_list ps \<Longrightarrow> unique_list (snd (remove_target ps a))"
  by (auto simp: remove_target_def Let_def unique_filter unique_remove_task split: option.splits)
    (simp add: unique_list_def)

section \<open>What a call does\<close>

definition progressing :: "todo_phase list \<Rightarrow> bool" where
  "progressing phases \<longleftrightarrow>
     list_ex (\<lambda>task. ti_status task = InProgress) (all_tasks phases) \<or>
     \<not> list_ex (\<lambda>task. ti_status task = Pending) (all_tasks phases)"

lemma update_first_ex: "list_ex P xs \<Longrightarrow> (\<And>x. Q (f x)) \<Longrightarrow> list_ex Q (update_first P f xs)"
  by (induction xs) auto

lemma promoted_progresses: "progressing (promote_next_task ps)"
proof (cases "progressing ps")
  case True
  then show ?thesis
  proof (cases "list_ex (\<lambda>task. ti_status task = InProgress) (all_tasks ps)")
    case False
    then have none: "\<not> list_ex (\<lambda>task. ti_status task = Pending) (all_tasks ps)"
      using True by (simp add: progressing_def)
    then have "update_first (\<lambda>p. list_ex (\<lambda>task. ti_status task = Pending) (tp_tasks p)) f ps = ps" for f
      by (induction ps) auto
    then show ?thesis using False True by (simp add: promote_next_task_def)
  qed (simp add: promote_next_task_def progressing_def)
next
  case False
  then have busy: "\<not> list_ex (\<lambda>task. ti_status task = InProgress) (all_tasks ps)"
    and pending: "list_ex (\<lambda>task. ti_status task = Pending) (all_tasks ps)"
    by (simp_all add: progressing_def)
  have "list_ex (\<lambda>task. ti_status task = InProgress) (all_tasks (update_first
      (\<lambda>p. list_ex (\<lambda>task. ti_status task = Pending) (tp_tasks p))
      (\<lambda>p. p\<lparr>tp_tasks := update_first (\<lambda>task. ti_status task = Pending)
             (\<lambda>task. task\<lparr>ti_status := InProgress\<rparr>) (tp_tasks p)\<rparr>) ps))"
    using pending by (induction ps) (auto intro: update_first_ex)
  then show ?thesis using busy by (simp add: progressing_def promote_next_task_def)
qed

lemma run_operation_unique:
  assumes "unique_list phases" "run_operation phases arguments op = (r, phases')"
    "r = Inr () \<or> op \<noteq> lit ''append''"
  shows "unique_list phases'"
proof -
  have init: "unique_list (snd (initialize phases arguments))"
    using assms(1) by (auto simp: initialize_def validate_unique_iff split: sum.splits)
  have app: "fst (append_tasks phases arguments) = Inr () \<Longrightarrow> unique_list (snd (append_tasks phases arguments))"
    by (auto simp: append_tasks_def Let_def validate_unique_iff split: sum.splits)
  have "run_operation phases arguments op \<in>
      {(Inr (), phases), initialize phases arguments, set_target_status phases arguments Completed,
       set_target_status phases arguments Abandoned, remove_target phases arguments} \<or>
    (op = lit ''append'' \<and> run_operation phases arguments op = append_tasks phases arguments) \<or>
    snd (run_operation phases arguments op) = phases \<or>
    (\<exists>task. run_operation phases arguments op = set_task_status phases task InProgress)"
    by (auto simp: run_operation_def split: sum.splits)
  then show ?thesis
    using assms init app unique_set_task_status [OF assms(1)] unique_set_target_status [OF assms(1)]
      unique_remove_target [OF assms(1)]
    by (elim disjE exE insertE) (metis snd_conv fst_conv empty_iff)+
qed

lemma run_operation_error:
  assumes "run_operation phases arguments op = (Inl e, phases')" "op \<noteq> lit ''append''"
  shows "phases' = phases"
proof -
  have "filter (\<lambda>p. tp_name p \<noteq> name) phases = phases"
    if "\<not> length (filter (\<lambda>p. tp_name p \<noteq> name) phases) < length phases" for name
    using that length_filter_less [of _ phases "\<lambda>p. tp_name p \<noteq> name"]
    by (intro filter_True) blast
  then show ?thesis
    using assms
    by (auto simp: run_operation_def initialize_def set_target_status_def set_task_status_def
        remove_target_def Let_def split: if_splits sum.splits option.splits)
qed

text \<open>C31: A call of the todo tool on a list without duplicates: on success the list it leaves has no
  duplicate phase or task, is the one rendered to the model and the one sent to clients, and after every
  operation but \<open>view\<close> and \<open>start\<close> some task is in progress unless none is pending; on an error nothing
  is sent and, for every operation but \<open>append\<close>, the list is unchanged.\<close>

theorem todo_call_outcome:
  assumes "unique_list phases" "todo_execute cancelled phases arguments = (r, phases', sent)"
  shows "case r of
      Inr out \<Rightarrow> unique_list phases' \<and> sent = Some phases' \<and> out = render_phases phases' \<and>
        (required_string arguments ''op'' \<notin> {Inr (lit ''view''), Inr (lit ''start'')} \<longrightarrow> progressing phases')
    | Inl e \<Rightarrow> sent = None \<and> (required_string arguments ''op'' \<noteq> Inr (lit ''append'') \<longrightarrow> phases' = phases)"
proof (cases "required_string arguments ''op''")
  case (Inl e)
  then have "\<exists>e'. r = Inl e' \<and> phases' = phases \<and> sent = None"
    using assms(2) by (cases r) (auto simp: todo_execute_def apply_operation_def split: if_splits)
  then show ?thesis by auto
next
  case (Inr op)
  obtain r1 ps where run: "run_operation phases arguments op = (r1, ps)"
    by (cases "run_operation phases arguments op")
  show ?thesis
  proof (cases r1)
    case (Inl e)
    then show ?thesis
      using assms(2) Inr run run_operation_error [of phases arguments op e ps]
      by (auto simp: todo_execute_def apply_operation_def split: if_splits)
  next
    case (Inr u)
    then have "unique_list ps" using run_operation_unique [OF assms(1) run] by simp
    then show ?thesis
      using assms(2) Inr \<open>required_string arguments ''op'' = Inr op\<close> run
      by (auto simp: todo_execute_def apply_operation_def Let_def unique_promote promoted_progresses split: if_splits)
  qed
qed

definition sample_list :: "todo_phase list" where
  "sample_list = [\<lparr>tp_name = [65], tp_tasks = [\<lparr>ti_content = [97], ti_status = InProgress\<rparr>,
     \<lparr>ti_content = [98], ti_status = Pending\<rparr>]\<rparr>]"

definition call :: "(string \<times> json) list \<Rightarrow> json" where
  "call args = JObj (map (\<lambda>(k, v). (lit k, v)) args)"

lemma unique_sample: "unique_list sample_list"
  by (simp add: unique_list_def sample_list_def)

theorem todo_call_outcome_witness:
  "\<exists>out phases'. todo_execute False sample_list (call [(''op'', JStr (lit ''done'')), (''task'', JStr [97])]) =
      (Inr out, phases', Some phases') \<and> progressing phases' \<and>
      map ti_status (all_tasks phases') = [Completed, InProgress]"
proof -
  let ?a = "call [(''op'', JStr (lit ''done'')), (''task'', JStr [97])]"
  let ?ps = "[\<lparr>tp_name = [65], tp_tasks = [\<lparr>ti_content = [97], ti_status = Completed\<rparr>,
     \<lparr>ti_content = [98], ti_status = InProgress\<rparr>]\<rparr>]"
  have run: "todo_execute False sample_list ?a = (Inr (render_phases ?ps), ?ps, Some ?ps)"
    by (simp add: todo_execute_def apply_operation_def run_operation_def call_def required_string_def
        set_target_status_def set_task_status_def holds_task_def promote_next_task_def sample_list_def Let_def)
  have op: "required_string ?a ''op'' = Inr (lit ''done'')" by (simp add: required_string_def call_def)
  from todo_call_outcome [OF unique_sample run] have "progressing ?ps" by (simp add: op)
  with run show ?thesis by auto
qed

text \<open>The calls of an agent one after another: their answers and the list they leave.\<close>

primrec todo_calls :: "json list \<Rightarrow> todo_phase list \<Rightarrow> (ustring + ustring) list \<times> todo_phase list" where
  "todo_calls [] phases = ([], phases)"
| "todo_calls (a # as) phases =
     (case todo_execute False phases a of (answer, phases, _) \<Rightarrow>
        map_prod ((#) answer) id (todo_calls as phases))"

lemma update_first_adds:
  "list_ex P ps \<Longrightarrow> mset (all_tasks (update_first P (\<lambda>p. p\<lparr>tp_tasks := tp_tasks p @ additions\<rparr>) ps)) =
     mset (all_tasks ps) + mset additions"
  by (induction ps) auto

lemma append_tasks_adds:
  assumes "required_string a ''phase'' = Inr name" "tasks_from_value a ''items'' = Inr additions"
  obtains ps' where "append_tasks ps a = (validate_unique ps', ps')" "mset (all_tasks ps') = mset (all_tasks ps) + mset additions"
  using assms update_first_adds by (auto simp: append_tasks_def Let_def)

lemma append_tasks_grows: "mset (all_tasks ps) \<subseteq># mset (all_tasks (snd (append_tasks ps a)))"
proof (cases "required_string a ''phase''")
  case (Inr name)
  show ?thesis
  proof (cases "tasks_from_value a ''items''")
    case additions: (Inr additions)
    obtain ps' where "append_tasks ps a = (validate_unique ps', ps')" "mset (all_tasks ps') = mset (all_tasks ps) + mset additions"
      by (rule append_tasks_adds [OF Inr additions])
    then show ?thesis by simp
  qed (simp add: append_tasks_def Inr)
qed (simp add: append_tasks_def)

lemma distinct_map_subset_mset:
  assumes "mset xs \<subseteq># mset ys" "distinct (map g ys)"
  shows "distinct (map g xs)"
proof -
  obtain zs where "mset ys = mset (xs @ zs)" using assms(1) by (metis ex_mset mset_append mset_subset_eq_exists_conv)
  then have "mset (map g ys) = mset (map g (xs @ zs))" by simp
  from mset_eq_imp_distinct_iff [OF this] assms(2) show ?thesis by simp
qed

lemma append_refused:
  assumes "\<not> distinct (map ti_content (all_tasks ps))" and op: "required_string a ''op'' = Inr (lit ''append'')"
  shows "\<exists>e ps'. todo_execute False ps a = (Inl e, ps', None) \<and> mset (all_tasks ps) \<subseteq># mset (all_tasks ps')"
proof (cases "append_tasks ps a")
  case (Pair r ps')
  have grows: "mset (all_tasks ps) \<subseteq># mset (all_tasks ps')" using append_tasks_grows [of ps a] Pair by simp
  have "r \<noteq> Inr ()"
    using Pair assms(1) distinct_map_subset_mset [OF grows, of ti_content]
    by (auto simp: append_tasks_def Let_def validate_unique_iff unique_list_def split: sum.splits)
  then have "\<exists>e. r = Inl e" by (cases r) auto
  then show ?thesis using grows Pair op by (auto simp: todo_execute_def apply_operation_def run_operation_def)
qed

lemma appends_refused:
  assumes "\<not> distinct (map ti_content (all_tasks ps))" "\<forall>a \<in> set later. required_string a ''op'' = Inr (lit ''append'')"
  shows "list_all isl (fst (todo_calls later ps)) \<and> mset (all_tasks ps) \<subseteq># mset (all_tasks (snd (todo_calls later ps)))"
  using assms
proof (induction later arbitrary: ps)
  case (Cons a later)
  obtain e ps' where a: "todo_execute False ps a = (Inl e, ps', None)" "mset (all_tasks ps) \<subseteq># mset (all_tasks ps')"
    using append_refused [OF Cons.prems(1), of a] Cons.prems(2) by auto
  have "\<not> distinct (map ti_content (all_tasks ps'))"
    using distinct_map_subset_mset [OF a(2), of ti_content] Cons.prems(1) by blast
  from Cons.IH [OF this] Cons.prems(2) a show ?case by (auto intro: subset_mset.order_trans)
qed simp

text \<open>C40: \<open>append\<close> stores its additions before it checks them.  A call that adds a task the list (or the
  call itself) already has is answered with an error and sends no update, but all its additions are in
  the list then; and as many calls of \<open>append\<close> as follow, whatever they add, each is refused and the
  duplicates stay.  (\<open>init\<close> replaces the list, and \<open>rm\<close> can remove them.)\<close>

theorem refused_append_sticks:
  assumes "required_string arguments ''op'' = Inr (lit ''append'')"
    and "required_string arguments ''phase'' = Inr name" "tasks_from_value arguments ''items'' = Inr additions"
    and "\<not> distinct (map ti_content (all_tasks phases @ additions))"
    and "\<forall>a \<in> set later. required_string a ''op'' = Inr (lit ''append'')"
  shows "\<exists>e phases'. todo_execute False phases arguments = (Inl e, phases', None) \<and>
    mset (all_tasks phases') = mset (all_tasks phases) + mset additions \<and>
    list_all isl (fst (todo_calls later phases')) \<and>
    mset (all_tasks phases') \<subseteq># mset (all_tasks (snd (todo_calls later phases')))"
proof -
  obtain phases' where add: "append_tasks phases arguments = (validate_unique phases', phases')"
    "mset (all_tasks phases') = mset (all_tasks phases) + mset additions"
    by (rule append_tasks_adds [OF assms(2,3)])
  have dup: "\<not> distinct (map ti_content (all_tasks phases'))"
    using distinct_map_subset_mset [of "all_tasks phases @ additions" "all_tasks phases'" ti_content] add(2) assms(4) by auto
  then have "validate_unique phases' \<noteq> Inr ()" by (simp add: validate_unique_iff unique_list_def)
  then obtain e where "validate_unique phases' = Inl e" by (cases "validate_unique phases'") auto
  then have "todo_execute False phases arguments = (Inl e, phases', None)"
    using add(1) assms(1) by (simp add: todo_execute_def apply_operation_def run_operation_def)
  with add(2) appends_refused [OF dup assms(5)] show ?thesis by blast
qed

theorem refused_append_sticks_witness:
  "\<exists>e phases'. todo_execute False sample_list
       (call [(''op'', JStr (lit ''append'')), (''phase'', JStr [65]), (''items'', JArr [JStr [98]])]) = (Inl e, phases', None) \<and>
     map ti_content (all_tasks sample_list) = [[97], [98]] \<and>
     mset (all_tasks phases') = mset (all_tasks sample_list) + {#\<lparr>ti_content = [98], ti_status = Pending\<rparr>#} \<and>
     list_all isl (fst (todo_calls [call [(''op'', JStr (lit ''append'')), (''phase'', JStr [66]), (''items'', JArr [JStr [99]])]] phases'))"
proof -
  let ?a = "call [(''op'', JStr (lit ''append'')), (''phase'', JStr [65]), (''items'', JArr [JStr [98]])]"
  let ?b = "call [(''op'', JStr (lit ''append'')), (''phase'', JStr [66]), (''items'', JArr [JStr [99]])]"
  have "required_string ?a ''op'' = Inr (lit ''append'')" "required_string ?b ''op'' = Inr (lit ''append'')"
    "required_string ?a ''phase'' = Inr [65]" "tasks_from_value ?a ''items'' = Inr [\<lparr>ti_content = [98], ti_status = Pending\<rparr>]"
    by (simp_all add: call_def required_string_def tasks_from_value_def task_from_value_def
        trim_def trim_start_def trim_end_def is_whitespace_def)
  moreover have "map ti_content (all_tasks sample_list) = [[97], [98]]" by (simp add: sample_list_def)
  ultimately show ?thesis
    using refused_append_sticks [of ?a "[65]" "[\<lparr>ti_content = [98], ti_status = Pending\<rparr>]" sample_list "[?b]"] by auto
qed

end
