(* ===== verification/Edit_Tool.thy ===== *)
theory Edit_Tool
  imports Tool_Arguments Utf8_Slices Truncation
begin

text \<open>
  Editing a file by text replacement: \<open>src/src/tools/edit.rs\<close>.  \<open>unique_match\<close> finds the one place
  an edit is about, exactly or after normalization, and \<open>edit_contents\<close> replaces all of them in the
  file's text; \<open>edit_file\<close> is the tool call around it, whose value on success is the text it writes
  (the message with the diff is not modelled).

  The Unicode crates are the record \<open>unicode_text\<close>: extended grapheme clusters and NFKC.  The
  path resolution, the file system and the cancellation token are arguments; the \<open>k\<close>-th look at
  the token is \<open>cancelled k\<close>.  Where a slice would panic the result is \<open>None\<close>.
\<close>

record unicode_text =
  graphemes :: "ustring \<Rightarrow> ustring list"
  nfkc :: "ustring \<Rightarrow> ustring"

section \<open>Line endings and searching\<close>

text \<open>\<open>replace("\r\n", "\n").replace('\r', "\n")\<close>, \<open>replace('\n', "\r\n")\<close> and \<open>contains\<close>.\<close>

fun crlf_to_lf :: "ustring \<Rightarrow> ustring" where
  "crlf_to_lf [] = []"
| "crlf_to_lf (c # s) =
     (if c = 13 \<and> s \<noteq> [] \<and> hd s = 10 then crlf_to_lf s else c # crlf_to_lf s)"

definition normalize_newlines :: "ustring \<Rightarrow> ustring" where
  "normalize_newlines s = map (\<lambda>c. if c = 13 then 10 else c) (crlf_to_lf s)"

definition lf_to_crlf :: "ustring \<Rightarrow> ustring" where
  "lf_to_crlf s = concat (map (\<lambda>c. if c = 10 then [13, 10] else [c]) s)"

fun contains :: "ustring \<Rightarrow> ustring \<Rightarrow> bool" where
  "contains pat [] = (pat = [])"
| "contains pat (c # s) = (prefix pat (c # s) \<or> contains pat s)"

text \<open>\<open>match_indices\<close>: byte offsets of the matches from left to right, each search going on behind the
  match before.  The pattern is never empty here.\<close>

function match_from :: "ustring \<Rightarrow> nat \<Rightarrow> ustring \<Rightarrow> nat list" where
  "match_from pat i [] = []"
| "match_from pat i (c # s) =
     (if pat \<noteq> [] \<and> prefix pat (c # s)
      then i # match_from pat (i + byte_len pat) (drop (length pat) (c # s))
      else match_from pat (i + len_utf8 c) s)"
  by pat_completeness auto
termination by (relation "measure (\<lambda>(pat, i, s). length s)") auto

definition match_indices :: "ustring \<Rightarrow> ustring \<Rightarrow> nat list" where
  "match_indices pat s = match_from pat 0 s"

section \<open>Normalized text\<close>

record normalized =
  nt_text :: ustring
  nt_boundaries :: "nat option list"

definition normalize_character :: "uchar \<Rightarrow> uchar" where
  "normalize_character c =
     (if c \<in> {0x2018, 0x2019, 0x201A, 0x201B} then 39
      else if c \<in> {0x201C, 0x201D, 0x201E, 0x201F} then 34
      else if c \<in> {0x2010, 0x2011, 0x2012, 0x2013, 0x2014, 0x2015, 0x2212} then 45
      else if c \<in> {0xA0, 0x2002, 0x2003, 0x2004, 0x2005, 0x2006, 0x2007, 0x2008, 0x2009, 0x200A,
                   0x202F, 0x205F, 0x3000} then 32
      else c)"

definition resize :: "nat \<Rightarrow> 'a \<Rightarrow> 'a list \<Rightarrow> 'a list" where
  "resize n x xs = take n xs @ replicate (n - length xs) x"

definition set_boundary :: "nat \<Rightarrow> nat option list \<Rightarrow> nat \<Rightarrow> nat option list" where
  "set_boundary i bs b = bs[i := Some b]"

definition append_normalized_unit :: "normalized \<Rightarrow> ustring \<Rightarrow> nat \<Rightarrow> nat \<Rightarrow> normalized" where
  "append_normalized_unit nt unit original_start original_end =
     (let bs = set_boundary (byte_len (nt_text nt)) (nt_boundaries nt) original_start;
          text = nt_text nt @ unit in
      \<lparr>nt_text = text,
       nt_boundaries = set_boundary (byte_len text) (resize (byte_len text + 1) None bs) original_end\<rparr>)"

text \<open>The graphemes of a line with their byte ranges in the file, trailing white space dropped.\<close>

fun grapheme_units :: "unicode_text \<Rightarrow> nat \<Rightarrow> ustring list \<Rightarrow> (nat \<times> nat \<times> ustring) list" where
  "grapheme_units U start [] = []"
| "grapheme_units U start (g # gs) =
     (start, start + byte_len g, map normalize_character (nfkc U g)) #
     grapheme_units U (start + byte_len g) gs"

definition line_units :: "unicode_text \<Rightarrow> nat \<Rightarrow> ustring \<Rightarrow> (nat \<times> nat \<times> ustring) list" where
  "line_units U start line =
     rev (dropWhile (\<lambda>(_, _, text). list_all is_whitespace text) (rev (grapheme_units U start (graphemes U line))))"

definition normalize_segment :: "unicode_text \<Rightarrow> ustring \<Rightarrow> normalized \<times> nat \<Rightarrow> normalized \<times> nat" where
  "normalize_segment U segment st =
     (let (nt, offset) = st;
          has_newline = (segment \<noteq> [] \<and> last segment = 10);
          line = (if has_newline then butlast segment else segment);
          nt = fold (\<lambda>(s, e, text) nt. append_normalized_unit nt text s e) (line_units U offset line) nt;
          line_end = offset + byte_len line;
          nt = nt\<lparr>nt_boundaries := set_boundary (byte_len (nt_text nt)) (nt_boundaries nt) line_end\<rparr>;
          nt = (if has_newline then append_normalized_unit nt [10] line_end (line_end + 1) else nt) in
      (nt, offset + byte_len segment))"

definition normalize_for_fuzzy_match :: "unicode_text \<Rightarrow> ustring \<Rightarrow> normalized" where
  "normalize_for_fuzzy_match U s =
     (let (nt, _) = fold (normalize_segment U) (split_inclusive 10 s) (\<lparr>nt_text = [], nt_boundaries = [Some 0]\<rparr>, 0) in
      nt\<lparr>nt_boundaries := set_boundary (byte_len (nt_text nt)) (nt_boundaries nt) (byte_len s)\<rparr>)"

definition boundary_get :: "nat option list \<Rightarrow> nat \<Rightarrow> nat option" where
  "boundary_get bs i = (if i < length bs then bs ! i else None)"

definition fuzzy_matches :: "unicode_text \<Rightarrow> normalized \<Rightarrow> ustring \<Rightarrow> (nat \<times> nat) list" where
  "fuzzy_matches U contents old_text =
     (let old = nt_text (normalize_for_fuzzy_match U old_text) in
      if old = [] then []
      else remdups_adj (List.map_filter (\<lambda>start.
        Option.bind (boundary_get (nt_boundaries contents) start) (\<lambda>original_start.
        map_option (\<lambda>original_end. (original_start, original_end - original_start))
          (boundary_get (nt_boundaries contents) (start + byte_len old))))
        (match_indices old (nt_text contents))))"

section \<open>Matching and replacing\<close>

definition duplicate_match_error :: "ustring \<Rightarrow> nat list \<Rightarrow> ustring \<Rightarrow> nat \<Rightarrow> string \<Rightarrow> ustring" where
  "duplicate_match_error contents indexes path edit_index match_kind =
     (let ls = map (\<lambda>i. show_nat (length (filter (\<lambda>c. c = 10) (str_to contents i)) + 1)) (take 8 indexes) in
      lit ''edit '' @ show_nat (edit_index + 1) @ lit '' matched multiple '' @ lit match_kind @ lit '' in '' @
      path @ lit '' at lines '' @
      (case ls of [] \<Rightarrow> [] | l # ls \<Rightarrow> l @ concat (map (\<lambda>l. lit '', '' @ l) ls)) @
      lit ''; keep oldText small but add enough surrounding context to make it unique'')"

definition unique_match ::
  "unicode_text \<Rightarrow> ustring \<Rightarrow> normalized \<Rightarrow> ustring \<Rightarrow> ustring \<Rightarrow> nat \<Rightarrow> nat \<Rightarrow> ustring + nat \<times> nat" where
  "unique_match U contents normalized_contents old_text path edit_index total_edits =
     (let exact = match_indices old_text contents in
      if length exact > 1 then Inl (duplicate_match_error contents exact path edit_index ''locations'')
      else
        let fuzzy = fuzzy_matches U normalized_contents old_text in
        if length fuzzy > 1
        then Inl (duplicate_match_error contents (map fst fuzzy) path edit_index ''normalized locations'')
        else
          (case exact of i # _ \<Rightarrow> Inr (i, byte_len old_text)
           | [] \<Rightarrow>
               (case fuzzy of m # _ \<Rightarrow> Inr m
                | [] \<Rightarrow> Inl ((if total_edits = 1 then lit ''edit'' else lit ''edit '' @ show_nat (edit_index + 1)) @
                    lit '' could not find oldText in '' @ path @
                    lit ''; re-read the surrounding lines before retrying''))))"

record matched_edit =
  me_index :: nat
  me_length :: nat
  me_replacement :: ustring

definition match_edit ::
  "unicode_text \<Rightarrow> ustring \<Rightarrow> ustring \<Rightarrow> nat \<Rightarrow> nat \<Rightarrow> json \<Rightarrow> ustring + matched_edit" where
  "match_edit U original path total_edits edit_index edit =
     rbind (required_string edit ''oldText'') (\<lambda>old.
     rbind (case Option.bind (json_get edit ''newText'') as_str of
          Some s \<Rightarrow> Inr s
        | None \<Rightarrow> Inl (lit ''edit '' @ show_nat (edit_index + 1) @ lit '' is missing string argument newText'')) (\<lambda>new.
     rbind (unique_match U original (normalize_for_fuzzy_match U original) (normalize_newlines old) path
          edit_index total_edits) (\<lambda>(index, length).
       Inr \<lparr>me_index = index, me_length = length, me_replacement = normalize_newlines new\<rparr>)))"

text \<open>\<open>String::replace_range\<close>.\<close>

definition replace_range :: "ustring \<Rightarrow> matched_edit \<Rightarrow> ustring option" where
  "replace_range s m =
     (case split_at s (me_index m) of None \<Rightarrow> None
      | Some (a, rest) \<Rightarrow>
          (case split_at rest (me_length m) of None \<Rightarrow> None
           | Some (_, b) \<Rightarrow> Some (a @ me_replacement m @ b)))"

definition overlap :: "matched_edit list \<Rightarrow> bool" where
  "overlap ms \<longleftrightarrow> \<not> successively (\<lambda>a b. me_index a + me_length a \<le> me_index b) ms"

text \<open>The replacements, the last one first.\<close>

definition replace_all :: "matched_edit list \<Rightarrow> ustring \<Rightarrow> ustring option" where
  "replace_all ms s = foldr (\<lambda>m r. Option.bind r (\<lambda>s. replace_range s m)) ms (Some s)"

definition bom :: uchar where "bom = 0xFEFF"

text \<open>From the file's text and the matched edits to the text to write.\<close>

definition without_bom :: "ustring \<Rightarrow> ustring" where
  "without_bom raw = (if raw \<noteq> [] \<and> hd raw = bom then tl raw else raw)"

definition edit_contents ::
  "ustring \<Rightarrow> ustring \<Rightarrow> matched_edit list \<Rightarrow> (ustring + ustring) option" where
  "edit_contents raw supplied matched =
     (let original = normalize_newlines (without_bom raw);
          crlf = contains [13, 10] (without_bom raw);
          matched = sort_key me_index matched in
      if overlap matched
      then Some (Inl (lit ''edit replacements overlap; merge nearby changes into one edits[] entry''))
      else case replace_all matched original of
        None \<Rightarrow> None
      | Some updated \<Rightarrow>
          if updated = original
          then Some (Inl (lit ''edit made no changes to '' @ supplied @
            lit ''; oldText and newText resolve to identical content''))
          else Some (Inr ((if raw \<noteq> [] \<and> hd raw = bom then [bom] else []) @
            (if crlf then lf_to_crlf updated else updated))))"

text \<open>The loop over the edits, with the look at the token before each.\<close>

fun match_edits ::
  "unicode_text \<Rightarrow> (nat \<Rightarrow> bool) \<Rightarrow> ustring \<Rightarrow> ustring \<Rightarrow> nat \<Rightarrow> nat \<Rightarrow> json list \<Rightarrow> ustring + matched_edit list" where
  "match_edits U cancelled original path count i [] = Inr []"
| "match_edits U cancelled original path count i (edit # edits) =
     (if cancelled (i + 1) then Inl (lit ''edit interrupted'')
      else rbind (match_edit U original path count i edit) (\<lambda>m.
           rbind (match_edits U cancelled original path count (i + 1) edits) (\<lambda>ms. Inr (m # ms))))"

definition edit_file ::
  "unicode_text \<Rightarrow> (nat \<Rightarrow> bool) \<Rightarrow> (ustring \<Rightarrow> ustring + ustring) \<Rightarrow> (ustring \<Rightarrow> ustring + ustring) \<Rightarrow>
   (ustring \<Rightarrow> ustring \<Rightarrow> ustring + unit) \<Rightarrow> json \<Rightarrow> (ustring + ustring) option" where
  "edit_file U cancelled resolve read write arguments =
     (if cancelled 0 then Some (Inl (lit ''edit interrupted''))
      else case rbind (required_string arguments ''path'') (\<lambda>supplied.
           rbind (resolve supplied) (\<lambda>path.
           rbind (case Option.bind (json_get arguments ''edits'') as_array of
               Some edits \<Rightarrow> if edits \<noteq> [] then Inr edits else Inl (lit ''edit requires a non-empty edits array'')
             | None \<Rightarrow> Inl (lit ''edit requires a non-empty edits array'')) (\<lambda>edits.
           rbind (case read path of Inl e \<Rightarrow> Inl (lit ''could not edit '' @ supplied @ lit '': '' @ e) | Inr raw \<Rightarrow> Inr raw) (\<lambda>raw.
           rbind (match_edits U cancelled (normalize_newlines (without_bom raw)) supplied (length edits) 0 edits)
             (\<lambda>matched. Inr (supplied, path, edits, raw, matched)))))) of
        Inl e \<Rightarrow> Some (Inl e)
      | Inr (supplied, path, edits, raw, matched) \<Rightarrow>
          map_option (\<lambda>r. rbind r (\<lambda>updated.
            if cancelled (length edits + 1) then Inl (lit ''edit interrupted'')
            else rbind (write path updated) (\<lambda>_. Inr updated)))
            (edit_contents raw supplied matched))"

section \<open>Boundaries\<close>

text \<open>Every offset the normalization records is a character boundary of the text it normalizes.\<close>

definition boundaries_in :: "ustring \<Rightarrow> normalized \<Rightarrow> bool" where
  "boundaries_in s nt \<longleftrightarrow> (\<forall>b. Some b \<in> set (nt_boundaries nt) \<longrightarrow> is_char_boundary s b)"

lemma set_boundary_in:
  "Some b \<in> set (set_boundary i bs v) \<Longrightarrow> Some b \<in> set bs \<or> b = v"
  using set_update_subset_insert [of bs i "Some v"] by (auto simp: set_boundary_def)

lemma resize_in: "Some b \<in> set (resize n None bs) \<Longrightarrow> Some b \<in> set bs"
  by (auto simp: resize_def dest: in_set_takeD split: if_splits)

lemma append_unit_in:
  "boundaries_in s nt \<Longrightarrow> is_char_boundary s a \<Longrightarrow> is_char_boundary s b \<Longrightarrow>
   boundaries_in s (append_normalized_unit nt text a b)"
  by (auto simp: boundaries_in_def append_normalized_unit_def Let_def dest!: set_boundary_in resize_in)

lemma append_units_in:
  "boundaries_in s nt \<Longrightarrow> \<forall>(a, b, text) \<in> set us. is_char_boundary s a \<and> is_char_boundary s b \<Longrightarrow>
   boundaries_in s (fold (\<lambda>(a, b, text) nt. append_normalized_unit nt text a b) us nt)"
  by (induction us arbitrary: nt) (auto intro!: append_unit_in)

lemma grapheme_units_in:
  assumes "s = pre @ concat gs @ post"
  shows "\<forall>(a, b, text) \<in> set (grapheme_units U (byte_len pre) gs). is_char_boundary s a \<and> is_char_boundary s b"
  using assms
proof (induction gs arbitrary: pre)
  case (Cons g gs)
  have "s = (pre @ g) @ concat gs @ post" using Cons.prems by simp
  from Cons.IH [OF this] have rest: "\<forall>(a, b, text) \<in> set (grapheme_units U (byte_len pre + byte_len g) gs).
      is_char_boundary s a \<and> is_char_boundary s b" by simp
  have "is_char_boundary s (byte_len pre)" "is_char_boundary s (byte_len (pre @ g))"
    using Cons.prems boundary_append [of pre] boundary_append [of "pre @ g" "concat gs @ post"] by simp_all
  then show ?case using rest by simp
qed simp

lemma line_units_in:
  assumes "concat (graphemes U line) = line" "s = pre @ line @ post"
  shows "\<forall>(a, b, text) \<in> set (line_units U (byte_len pre) line). is_char_boundary s a \<and> is_char_boundary s b"
proof (rule ballI)
  fix x assume "x \<in> set (line_units U (byte_len pre) line)"
  then have x: "x \<in> set (grapheme_units U (byte_len pre) (graphemes U line))"
    by (auto simp: line_units_def dest: set_dropWhileD)
  have "s = pre @ concat (graphemes U line) @ post" using assms by simp
  from bspec [OF grapheme_units_in [OF this] x]
  show "case x of (a, b, text) \<Rightarrow> is_char_boundary s a \<and> is_char_boundary s b" .
qed

lemma normalize_segment_in:
  assumes graphemes: "\<And>line. concat (graphemes U line) = line"
    and s: "s = pre @ segment @ post" and nt: "boundaries_in s nt"
    and r: "normalize_segment U segment (nt, byte_len pre) = (nt', offset)"
  shows "boundaries_in s nt'" "offset = byte_len (pre @ segment)"
proof -
  define nl where "nl = (segment \<noteq> [] \<and> last segment = 10)"
  define line where "line = (if nl then butlast segment else segment)"
  have seg: "segment = line @ (if nl then [10] else [])"
    by (cases segment rule: rev_cases) (simp_all add: line_def nl_def)
  have lines: "\<forall>(a, b, text) \<in> set (line_units U (byte_len pre) line). is_char_boundary s a \<and> is_char_boundary s b"
    by (rule line_units_in [OF graphemes, of s pre line "(if nl then [10] else []) @ post"]) (simp add: s seg)
  have ends: "is_char_boundary s (byte_len pre + byte_len line)"
    "nl \<Longrightarrow> is_char_boundary s (byte_len pre + byte_len line + 1)"
    using boundary_append [of "pre @ line" "(if nl then [10] else []) @ post"]
      boundary_append [of "pre @ line @ [10]" post] s seg by (simp_all add: len_utf8_def)
  let ?units = "fold (\<lambda>(a, b, text) nt. append_normalized_unit nt text a b) (line_units U (byte_len pre) line) nt"
  let ?line = "?units\<lparr>nt_boundaries := set_boundary (byte_len (nt_text ?units)) (nt_boundaries ?units)
      (byte_len pre + byte_len line)\<rparr>"
  have "boundaries_in s ?units" by (rule append_units_in [OF nt lines])
  then have "boundaries_in s ?line"
    using ends(1) by (auto simp: boundaries_in_def dest!: set_boundary_in)
  moreover have "nt' = (if nl then append_normalized_unit ?line [10] (byte_len pre + byte_len line)
      (byte_len pre + byte_len line + 1) else ?line)" "offset = byte_len pre + byte_len segment"
    using r unfolding normalize_segment_def Let_def prod.case nl_def [symmetric] line_def [symmetric] by simp_all
  ultimately show "boundaries_in s nt'" "offset = byte_len (pre @ segment)"
    using ends append_unit_in by simp_all
qed

lemma normalize_segments_in:
  assumes "\<And>line. concat (graphemes U line) = line" "s = pre @ concat segs @ post" "boundaries_in s nt"
  shows "boundaries_in s (fst (fold (normalize_segment U) segs (nt, byte_len pre)))"
  using assms(2,3)
proof (induction segs arbitrary: pre nt)
  case (Cons seg segs)
  obtain nt' offset where r: "normalize_segment U seg (nt, byte_len pre) = (nt', offset)"
    by (cases "normalize_segment U seg (nt, byte_len pre)")
  have "s = pre @ seg @ (concat segs @ post)" using Cons.prems(1) by simp
  note step = normalize_segment_in [OF assms(1) this Cons.prems(2) r]
  have "s = (pre @ seg) @ concat segs @ post" using Cons.prems(1) by simp
  from Cons.IH [OF this step(1)] show ?case using r step(2) by simp
qed simp

lemma normalized_boundaries:
  assumes "\<And>line. concat (graphemes U line) = line"
  shows "boundaries_in s (normalize_for_fuzzy_match U s)"
proof -
  have "boundaries_in s (fst (fold (normalize_segment U) (split_inclusive 10 s)
      (\<lparr>nt_text = [], nt_boundaries = [Some 0]\<rparr>, byte_len [])))"
    by (rule normalize_segments_in [OF assms, where post = "[]"]) (simp_all add: boundaries_in_def)
  then show ?thesis
    by (auto simp: normalize_for_fuzzy_match_def boundaries_in_def split: prod.splits dest!: set_boundary_in)
qed

section \<open>Matches\<close>

lemma match_from_occurrence:
  "i \<in> set (match_from pat k s) \<Longrightarrow> \<exists>a b. s = a @ pat @ b \<and> i = k + byte_len a"
proof (induction pat k s rule: match_from.induct)
  case (2 pat k c s)
  show ?case
  proof (cases "pat \<noteq> [] \<and> prefix pat (c # s)")
    case True
    then obtain rest where rest: "c # s = pat @ rest" by (auto simp: prefix_def)
    show ?thesis
    proof (cases "i = k")
      case True
      then show ?thesis using rest by (intro exI [of _ "[]"] exI [of _ rest]) simp
    next
      case False
      then have "i \<in> set (match_from pat (k + byte_len pat) (drop (length pat) (c # s)))"
        using "2.prems" True by simp
      then obtain a b where "drop (length pat) (c # s) = a @ pat @ b" "i = k + byte_len pat + byte_len a"
        using "2.IH"(1) [OF True] by blast
      then show ?thesis using rest by (intro exI [of _ "pat @ a"] exI [of _ b]) simp
    qed
  next
    case False
    then have "i \<in> set (match_from pat (k + len_utf8 c) s)" using "2.prems" by (auto split: if_splits)
    then obtain a b where "s = a @ pat @ b" "i = k + len_utf8 c + byte_len a"
      using "2.IH"(2) [OF False] by blast
    then show ?thesis by (intro exI [of _ "c # a"] exI [of _ b]) simp
  qed
qed simp

lemma match_occurrence: "i \<in> set (match_indices pat s) \<Longrightarrow> \<exists>a b. s = a @ pat @ b \<and> i = byte_len a"
  using match_from_occurrence [of i pat 0 s] by (simp add: match_indices_def)

definition region :: "ustring \<Rightarrow> nat \<Rightarrow> nat \<Rightarrow> bool" where
  "region s i len \<longleftrightarrow> is_char_boundary s i \<and> is_char_boundary s (i + len)"

lemma boundary_get_in: "boundaries_in s nt \<Longrightarrow> boundary_get (nt_boundaries nt) i = Some b \<Longrightarrow> is_char_boundary s b"
  by (auto simp: boundaries_in_def boundary_get_def split: if_splits) (metis nth_mem)

lemma fuzzy_region:
  assumes "boundaries_in s nt" "(i, len) \<in> set (fuzzy_matches U nt old)"
  shows "region s i len"
proof -
  obtain x y stop where "boundary_get (nt_boundaries nt) x = Some i"
    "boundary_get (nt_boundaries nt) y = Some stop" and len: "len = stop - i"
    using assms(2)
    by (auto simp: fuzzy_matches_def Let_def List.map_filter_def bind_eq_Some_conv split: if_splits)
  then have "is_char_boundary s i" "is_char_boundary s stop" using boundary_get_in [OF assms(1)] by blast+
  then show ?thesis using len by (cases "i \<le> stop") (simp_all add: region_def)
qed

lemma unique_match_region:
  assumes "boundaries_in s nt" "unique_match U s nt old path k n = Inr (i, len)"
  shows "region s i len"
    "match_indices old s = [] \<or> (\<exists>a b. s = a @ old @ b \<and> i = byte_len a \<and> len = byte_len old)"
proof -
  consider (exact) js where "match_indices old s = i # js" "len = byte_len old"
    | (fuzzy) ms where "match_indices old s = []" "fuzzy_matches U nt old = (i, len) # ms"
    using assms(2) by (auto simp: unique_match_def Let_def split: if_splits list.splits)
  then have "region s i len \<and>
    (match_indices old s = [] \<or> (\<exists>a b. s = a @ old @ b \<and> i = byte_len a \<and> len = byte_len old))"
  proof cases
    case exact
    then obtain a b where "s = a @ old @ b" "i = byte_len a" using match_occurrence [of i old s] by auto
    then show ?thesis
      using exact boundary_append [of a "old @ b"] boundary_append [of "a @ old" b] by (auto simp: region_def)
  next
    case fuzzy
    then show ?thesis using fuzzy_region [OF assms(1), of i len U old] by simp
  qed
  then show "region s i len"
    "match_indices old s = [] \<or> (\<exists>a b. s = a @ old @ b \<and> i = byte_len a \<and> len = byte_len old)" by auto
qed

text \<open>What a matched edit is to its request: a region of the file and, where the old text occurs
  literally, the region of that occurrence.\<close>

definition edit_region :: "ustring \<Rightarrow> json \<Rightarrow> matched_edit \<Rightarrow> bool" where
  "edit_region original edit m \<longleftrightarrow>
     region original (me_index m) (me_length m) \<and>
     (\<exists>old new. required_string edit ''oldText'' = Inr old \<and>
        Option.bind (json_get edit ''newText'') as_str = Some new \<and>
        me_replacement m = normalize_newlines new \<and>
        (match_indices (normalize_newlines old) original = [] \<or>
         (\<exists>a b. original = a @ normalize_newlines old @ b \<and> me_index m = byte_len a \<and>
            me_length m = byte_len (normalize_newlines old))))"

lemma match_edit_region:
  assumes "\<And>line. concat (graphemes U line) = line" "match_edit U original path n k edit = Inr m"
  shows "edit_region original edit m"
proof -
  obtain old new i len where r: "required_string edit ''oldText'' = Inr old"
    "Option.bind (json_get edit ''newText'') as_str = Some new"
    "unique_match U original (normalize_for_fuzzy_match U original) (normalize_newlines old) path k n = Inr (i, len)"
    "m = \<lparr>me_index = i, me_length = len, me_replacement = normalize_newlines new\<rparr>"
    using assms(2) by (auto simp: match_edit_def split: option.splits prod.splits)
  show ?thesis
    using unique_match_region [OF normalized_boundaries [OF assms(1)] r(3)] r by (auto simp: edit_region_def)
qed

lemma match_edits_regions:
  assumes "\<And>line. concat (graphemes U line) = line" "match_edits U cancelled original path n k edits = Inr ms"
  shows "list_all2 (edit_region original) edits ms"
  using assms(2)
proof (induction edits arbitrary: k ms)
  case (Cons edit edits)
  then show ?case using match_edit_region [OF assms(1)] by (auto split: if_splits)
qed simp

section \<open>Simultaneous replacement\<close>

text \<open>All replacements in one pass over the text, from left to right: \<open>s\<close> is what is left of the text
  from byte \<open>pos\<close> on.\<close>

fun splice :: "nat \<Rightarrow> ustring \<Rightarrow> matched_edit list \<Rightarrow> ustring" where
  "splice pos s [] = s"
| "splice pos s (m # ms) =
     str_to s (me_index m - pos) @ me_replacement m @
     splice (me_index m + me_length m) (str_from s (me_index m + me_length m - pos)) ms"

lemma region_split:
  assumes "region (pre @ rest) i len" "byte_len pre \<le> i"
  obtains a x b where "rest = a @ x @ b" "byte_len (pre @ a) = i" "byte_len x = len"
proof -
  obtain A B where A: "pre @ rest = A @ B" "byte_len A = i" using assms(1) by (auto simp: region_def boundary_iff)
  obtain C D where C: "pre @ rest = C @ D" "byte_len C = i + len" using assms(1) by (auto simp: region_def boundary_iff)
  have le: "\<exists>u. Y = X @ u" if "X @ P = Y @ Q" "byte_len X \<le> byte_len Y" for X P Y Q :: ustring
  proof -
    consider u where "X = Y @ u" | u where "Y = X @ u" using \<open>X @ P = Y @ Q\<close> by (auto simp: append_eq_append_conv2)
    then show ?thesis
    proof cases
      case 1
      then have "byte_len u = 0" using \<open>byte_len X \<le> byte_len Y\<close> by simp
      then show ?thesis using 1 by simp
    qed blast
  qed
  obtain a where a: "A = pre @ a" using le [OF A(1)] A(2) assms(2) by auto
  have "A @ B = C @ D" using A(1) C(1) by simp
  then obtain x where x: "C = A @ x" using le [of A B C D] A(2) C(2) by auto
  have "rest = a @ x @ D" using C(1) x a by simp
  then show ?thesis using that a x A(2) C(2) by simp
qed

lemma replace_all_splice:
  assumes "\<forall>m \<in> set ms. region (pre @ rest) (me_index m) (me_length m)"
    and "successively (\<lambda>a b. me_index a + me_length a \<le> me_index b) ms"
    and "ms \<noteq> [] \<Longrightarrow> byte_len pre \<le> me_index (hd ms)"
  shows "replace_all ms (pre @ rest) = Some (pre @ splice (byte_len pre) rest ms)"
  using assms
proof (induction ms arbitrary: pre rest)
  case (Cons m ms)
  have "region (pre @ rest) (me_index m) (me_length m)" "byte_len pre \<le> me_index m"
    using Cons.prems(1,3) by simp_all
  then obtain a x b where abx: "rest = a @ x @ b" "byte_len (pre @ a) = me_index m" "byte_len x = me_length m"
    by (rule region_split)
  let ?pre = "pre @ a @ x"
  have pos: "byte_len ?pre = me_index m + me_length m" using abx by simp
  have "replace_all ms (?pre @ b) = Some (?pre @ splice (byte_len ?pre) b ms)"
  proof (rule Cons.IH)
    show "\<forall>m \<in> set ms. region (?pre @ b) (me_index m) (me_length m)" using Cons.prems(1) abx(1) by simp
    show "successively (\<lambda>a b. me_index a + me_length a \<le> me_index b) ms"
      using Cons.prems(2) by (cases ms) simp_all
    show "ms \<noteq> [] \<Longrightarrow> byte_len ?pre \<le> me_index (hd ms)"
      using Cons.prems(2) unfolding pos by (cases ms) simp_all
  qed
  then have ms: "replace_all ms (pre @ rest) = Some ((pre @ a) @ x @ splice (me_index m + me_length m) b ms)"
    using abx(1) pos by simp
  have "split_at ((pre @ a) @ x @ t) (me_index m) = Some (pre @ a, x @ t)" for t
    using abx(2) by (simp only: split_at_Some simp_thms)
  moreover have "split_at (x @ t) (me_length m) = Some (x, t)" for t
    using abx(3) by (simp add: split_at_Some)
  ultimately have "replace_range ((pre @ a) @ x @ t) m = Some ((pre @ a) @ me_replacement m @ t)" for t
    by (simp only: replace_range_def option.case prod.case)
  then have "replace_all (m # ms) (pre @ rest) =
      Some ((pre @ a) @ me_replacement m @ splice (me_index m + me_length m) b ms)"
    using ms by (simp add: replace_all_def)
  moreover have "str_to rest (me_index m - byte_len pre) = a"
  proof -
    have "me_index m - byte_len pre = byte_len a" using abx(2) by simp
    then show ?thesis using abx(1) by simp
  qed
  moreover have "str_from rest (me_index m + me_length m - byte_len pre) = b"
  proof -
    have "me_index m + me_length m - byte_len pre = byte_len (a @ x)" using abx(2,3) by simp
    then show ?thesis using abx(1) str_from_append [of "a @ x" b] by simp
  qed
  ultimately show ?case by simp
qed (simp add: replace_all_def)

text \<open>What an edit of a file's text should be, from the matched regions: refused when two overlap or
  nothing changes, else every region replaced at once.\<close>

definition simultaneous_edit :: "ustring \<Rightarrow> ustring \<Rightarrow> matched_edit list \<Rightarrow> ustring + ustring" where
  "simultaneous_edit raw supplied matched =
     (let original = normalize_newlines (without_bom raw);
          updated = splice 0 original (sort_key me_index matched) in
      if overlap (sort_key me_index matched)
      then Inl (lit ''edit replacements overlap; merge nearby changes into one edits[] entry'')
      else if updated = original
      then Inl (lit ''edit made no changes to '' @ supplied @
        lit ''; oldText and newText resolve to identical content'')
      else Inr ((if raw \<noteq> [] \<and> hd raw = bom then [bom] else []) @
        (if contains [13, 10] (without_bom raw) then lf_to_crlf updated else updated)))"

text \<open>C28: When all edits of a call are matched, each is a region of the original text between character
  boundaries (the literal occurrence where there is one), and replacing them one after the other from the
  last to the first never panics and gives what replacing them all at once gives.\<close>

theorem edits_apply_simultaneously:
  assumes "\<And>line. concat (graphemes U line) = line"
    and "match_edits U cancelled (normalize_newlines (without_bom raw)) supplied (length edits) 0 edits = Inr matched"
  shows "list_all2 (edit_region (normalize_newlines (without_bom raw))) edits matched \<and>
    edit_contents raw supplied matched = Some (simultaneous_edit raw supplied matched)"
proof -
  let ?s = "normalize_newlines (without_bom raw)" and ?ms = "sort_key me_index matched"
  have all: "list_all2 (edit_region ?s) edits matched" by (rule match_edits_regions [OF assms])
  then have "\<forall>m \<in> set matched. region ?s (me_index m) (me_length m)"
    by (induction rule: list_all2_induct) (auto simp: edit_region_def)
  then have "replace_all ?ms ([] @ ?s) = Some ([] @ splice (byte_len []) ?s ?ms)" if "\<not> overlap ?ms"
    using that by (intro replace_all_splice) (simp_all add: overlap_def)
  then show ?thesis
    using all by (simp add: edit_contents_def simultaneous_edit_def Let_def)
qed

definition sample_unicode :: unicode_text where
  "sample_unicode = \<lparr>graphemes = map (\<lambda>c. [c]), nfkc = (\<lambda>s. s)\<rparr>"

lemma sample_graphemes: "concat (graphemes sample_unicode line) = line"
  by (induction line) (simp_all add: sample_unicode_def)

definition sample_edit :: "ustring \<Rightarrow> ustring \<Rightarrow> json" where
  "sample_edit old new = JObj [(lit ''oldText'', JStr old), (lit ''newText'', JStr new)]"

lemmas edit_simps = sample_edit_def sample_unicode_def match_edit_def required_string_def unique_match_def
  normalize_newlines_def without_bom_def bom_def match_indices_def fuzzy_matches_def
  normalize_for_fuzzy_match_def normalize_segment_def line_units_def append_normalized_unit_def
  set_boundary_def resize_def normalize_character_def len_utf8_def Let_def is_whitespace_def
  boundary_get_def List.map_filter_simps

theorem edits_apply_simultaneously_witness:
  "\<exists>matched. match_edits sample_unicode (\<lambda>_. False) [97, 98] [112] 2 0
      [sample_edit [98] [99, 100], sample_edit [97] []] = Inr matched \<and>
     edit_contents [97, 98] [112] matched = Some (simultaneous_edit [97, 98] [112] matched)"
proof -
  have raw: "normalize_newlines (without_bom [97, 98]) = [97, 98]"
    by (simp add: normalize_newlines_def without_bom_def bom_def)
  obtain matched where m: "match_edits sample_unicode (\<lambda>_. False) [97, 98] [112] 2 0
      [sample_edit [98] [99, 100], sample_edit [97] []] = Inr matched"
    by (simp add: edit_simps)
  have "match_edits sample_unicode (\<lambda>_. False) (normalize_newlines (without_bom [97, 98])) [112]
      (length [sample_edit [98] [99, 100], sample_edit [97] []]) 0
      [sample_edit [98] [99, 100], sample_edit [97] []] = Inr matched"
  proof -
    have two: "length [sample_edit [98] [99, 100], sample_edit [97] []] = 2" by simp
    show ?thesis by (subst raw, subst two, rule m)
  qed
  from edits_apply_simultaneously [OF sample_graphemes this] show ?thesis using m by blast
qed

section \<open>Where the text of the tool and the code differ\<close>

text \<open>The old text must be unique in the file, but occurrences that overlap count as one: the two
  places of \<open>aa\<close> in \<open>aaa\<close> are accepted and the first is replaced.\<close>

lemma overlapping_occurrence_accepted:
  "unique_match sample_unicode [97, 97, 97] (normalize_for_fuzzy_match sample_unicode [97, 97, 97]) [97, 97] [112] 0 1 =
     Inr (0, 2)"
  by (simp add: edit_simps)

text \<open>In a file with both kinds of line ending, an edit of one word rewrites every line ending.\<close>

lemma mixed_endings_rewritten:
  "edit_contents [97, 13, 10, 98, 10, 99] [112] [\<lparr>me_index = 0, me_length = 1, me_replacement = [120]\<rparr>] =
     Some (Inr [120, 13, 10, 98, 13, 10, 99])"
  by (simp add: edit_contents_def normalize_newlines_def without_bom_def bom_def overlap_def replace_all_def
      replace_range_def len_utf8_def lf_to_crlf_def Let_def)

end
