(* ===== verification/Session_Sync.thy ===== *)
theory Session_Sync
  imports Protocol "HOL-Library.AList" "HOL-Library.Sublist"
begin

text \<open>
  The server's incremental history of session publications:
  \<open>src/src/server/session_sync.rs\<close>.  A client takes a snapshot with a cursor and later asks for the
  batches published since; the history is bounded in bytes, batches, sessions and age, and answers
  \<open>ResetRequired\<close> where it cannot replay everything.

  A \<open>HashMap\<close> whose values are summed is an association list with distinct keys.  The serializer of
  a batch of events is the record \<open>codec\<close>; an \<open>Instant\<close> is a natural, and subtraction saturates.
\<close>

record 'e codec =
  encode_events :: "'e list \<Rightarrow> bytes"
  decode_events :: "bytes \<Rightarrow> 'e list option"

record sync_cursor =
  sc_session :: ustring
  sc_incarnation :: ustring
  sc_revision :: nat

record 'e change_batch =
  cb_base :: sync_cursor
  cb_next :: sync_cursor
  cb_events :: "'e list"

datatype 'e session_changes = Changes sync_cursor "'e change_batch list" | ResetRequired

record stored_batch =
  hb_base :: nat
  hb_next :: nat
  hb_at :: nat
  hb_encoded :: bytes

record history =
  hi_cursor :: sync_cursor
  hi_batches :: "stored_batch list"

record histories =
  hs_sessions :: "(ustring \<times> history) list"
  hs_order :: "ustring list"
  hs_max_bytes :: nat
  hs_max_batches :: nat
  hs_max_sessions :: nat
  hs_max_age :: nat

definition default_histories :: histories where
  "default_histories =
     \<lparr>hs_sessions = [], hs_order = [], hs_max_bytes = 8 * 1024 * 1024, hs_max_batches = 256,
      hs_max_sessions = 64, hs_max_age = 120000\<rparr>"

section \<open>The operations\<close>

definition observes :: "histories \<Rightarrow> ustring \<Rightarrow> bool" where
  "observes h sid \<longleftrightarrow> map_of (hs_sessions h) sid \<noteq> None"

definition forget_session :: "ustring \<Rightarrow> histories \<Rightarrow> histories" where
  "forget_session sid h =
     h\<lparr>hs_sessions := AList.delete sid (hs_sessions h), hs_order := filter (\<lambda>i. i \<noteq> sid) (hs_order h)\<rparr>"

definition history_bytes :: "history \<Rightarrow> nat" where
  "history_bytes hist = sum_list (map (\<lambda>b. length (hb_encoded b)) (hi_batches hist))"

definition retained_bytes :: "histories \<Rightarrow> nat" where
  "retained_bytes h = sum_list (map (history_bytes \<circ> snd) (hs_sessions h))"

definition retained_batches :: "histories \<Rightarrow> nat" where
  "retained_batches h = sum_list (map (length \<circ> hi_batches \<circ> snd) (hs_sessions h))"

definition within_limits :: "histories \<Rightarrow> bool" where
  "within_limits h \<longleftrightarrow> retained_bytes h \<le> hs_max_bytes h \<and> retained_batches h \<le> hs_max_batches h \<and>
     length (hs_sessions h) \<le> hs_max_sessions h"

function enforce_limits :: "histories \<Rightarrow> histories" where
  "enforce_limits h =
     (if within_limits h then h
      else case hs_order h of
        [] \<Rightarrow> h
      | oldest # order \<Rightarrow>
          enforce_limits (h\<lparr>hs_order := order, hs_sessions := AList.delete oldest (hs_sessions h)\<rparr>))"
  by pat_completeness auto
termination by (relation "measure (\<lambda>h. length (hs_order h))") auto

declare enforce_limits.simps [simp del]

definition expire :: "nat \<Rightarrow> histories \<Rightarrow> histories" where
  "expire now h =
     h\<lparr>hs_sessions := map (\<lambda>(sid, hist).
         (sid, hist\<lparr>hi_batches := dropWhile (\<lambda>b. now - hb_at b \<ge> hs_max_age h) (hi_batches hist)\<rparr>))
       (hs_sessions h)\<rparr>"

definition start_history :: "ustring \<Rightarrow> ustring \<Rightarrow> nat \<Rightarrow> histories \<Rightarrow> sync_cursor \<times> histories" where
  "start_history uuid sid revision h =
     (let h = forget_session sid h;
          cursor = \<lparr>sc_session = sid, sc_incarnation = uuid, sc_revision = revision\<rparr> in
      (cursor, enforce_limits (h\<lparr>
         hs_sessions := AList.update sid \<lparr>hi_cursor = cursor, hi_batches = []\<rparr> (hs_sessions h),
         hs_order := hs_order h @ [sid]\<rparr>)))"

definition establish :: "ustring \<Rightarrow> ustring \<Rightarrow> nat \<Rightarrow> histories \<Rightarrow> sync_cursor \<times> histories" where
  "establish uuid sid revision h =
     (case map_of (hs_sessions h) sid of
        Some hist \<Rightarrow>
          if sc_revision (hi_cursor hist) = revision then (hi_cursor hist, h)
          else start_history uuid sid revision h
      | None \<Rightarrow> start_history uuid sid revision h)"

definition append_batch :: "nat \<Rightarrow> nat \<Rightarrow> bytes \<Rightarrow> history \<Rightarrow> history" where
  "append_batch next now encoded hist =
     hist\<lparr>hi_batches := hi_batches hist @ [\<lparr>hb_base = sc_revision (hi_cursor hist), hb_next = next,
         hb_at = now, hb_encoded = encoded\<rparr>],
       hi_cursor := (hi_cursor hist)\<lparr>sc_revision := next\<rparr>\<rparr>"

definition record_changes ::
  "'e codec \<Rightarrow> ustring \<Rightarrow> nat option \<Rightarrow> nat \<Rightarrow> 'e list \<Rightarrow> nat \<Rightarrow> histories \<Rightarrow> histories" where
  "record_changes C sid base next events now h =
     (let h = expire now h in
      case map_of (hs_sessions h) sid of
        None \<Rightarrow> h
      | Some hist \<Rightarrow>
          if base \<noteq> Some (sc_revision (hi_cursor hist)) \<or> next \<le> sc_revision (hi_cursor hist)
          then forget_session sid h
          else if length (encode_events C events) > hs_max_bytes h then forget_session sid h
          else enforce_limits
            (h\<lparr>hs_sessions := AList.update sid (append_batch next now (encode_events C events) hist) (hs_sessions h),
               hs_order := filter (\<lambda>i. i \<noteq> sid) (hs_order h) @ [sid]\<rparr>))"

text \<open>The loop over the batches a cursor lacks: \<open>None\<close> where the chain is broken or a batch does not
  decode, and the revision reached.\<close>

primrec replay ::
  "'e codec \<Rightarrow> sync_cursor \<Rightarrow> nat \<Rightarrow> stored_batch list \<Rightarrow> ('e change_batch list \<times> nat) option" where
  "replay C cursor revision [] = Some ([], revision)"
| "replay C cursor revision (b # bs) =
     (if hb_base b \<noteq> revision then None
      else case decode_events C (hb_encoded b) of
        None \<Rightarrow> None
      | Some events \<Rightarrow>
          map_option (\<lambda>(batches, reached).
              (\<lparr>cb_base = cursor\<lparr>sc_revision := hb_base b\<rparr>, cb_next = cursor\<lparr>sc_revision := hb_next b\<rparr>,
                cb_events = events\<rparr> # batches, reached))
            (replay C cursor (hb_next b) bs))"

definition changes_since ::
  "'e codec \<Rightarrow> sync_cursor \<Rightarrow> nat \<Rightarrow> histories \<Rightarrow> 'e session_changes \<times> histories" where
  "changes_since C cursor now h =
     (let h = expire now h in
      case map_of (hs_sessions h) (sc_session cursor) of
        None \<Rightarrow> (ResetRequired, h)
      | Some hist \<Rightarrow>
          if sc_incarnation cursor \<noteq> sc_incarnation (hi_cursor hist) \<or>
             sc_revision cursor > sc_revision (hi_cursor hist) then (ResetRequired, h)
          else (case replay C cursor (sc_revision cursor)
                  (filter (\<lambda>b. hb_next b > sc_revision cursor) (hi_batches hist)) of
             None \<Rightarrow> (ResetRequired, h)
           | Some (batches, reached) \<Rightarrow>
               if reached \<noteq> sc_revision (hi_cursor hist) then (ResetRequired, h)
               else (Changes (hi_cursor hist) batches, h)))"

section \<open>What every operation keeps\<close>

text \<open>Every session with a history is queued exactly once for eviction, a history holds no batch beyond
  its revision, and the limits are respected.\<close>

definition queued :: "histories \<Rightarrow> bool" where
  "queued h \<longleftrightarrow> distinct (map fst (hs_sessions h)) \<and> distinct (hs_order h) \<and>
     set (hs_order h) = set (map fst (hs_sessions h))"

definition settled :: "history \<Rightarrow> bool" where
  "settled hist \<longleftrightarrow> (\<forall>b \<in> set (hi_batches hist). hb_next b \<le> sc_revision (hi_cursor hist))"

definition all_settled :: "histories \<Rightarrow> bool" where
  "all_settled h \<longleftrightarrow>
     (\<forall>sid hist. map_of (hs_sessions h) sid = Some hist \<longrightarrow> settled hist \<and> sc_session (hi_cursor hist) = sid)"

abbreviation same_limits :: "histories \<Rightarrow> histories \<Rightarrow> bool" where
  "same_limits h h' \<equiv> hs_max_bytes h' = hs_max_bytes h \<and> hs_max_batches h' = hs_max_batches h \<and>
     hs_max_sessions h' = hs_max_sessions h \<and> hs_max_age h' = hs_max_age h"

definition histories_ok :: "histories \<Rightarrow> bool" where
  "histories_ok h \<longleftrightarrow> queued h \<and> within_limits h \<and> all_settled h"

lemma lookup_simps [simp]:
  "map_of (AList.update k v xs) = (map_of xs)(k \<mapsto> v)"
  "map_of (AList.delete k xs) = (map_of xs)(k := None)"
  by (simp_all add: update_conv' delete_conv')

lemma queued_drop:
  assumes "queued h" "set ks = set (hs_order h) - {k}" "distinct ks"
  shows "queued (h\<lparr>hs_order := ks, hs_sessions := AList.delete k (hs_sessions h)\<rparr>)"
  using assms unfolding queued_def by (simp add: delete_keys distinct_removeAll set_removeAll)

lemma queued_forget: "queued h \<Longrightarrow> queued (forget_session k h)"
  using queued_drop [of h "filter (\<lambda>i. i \<noteq> k) (hs_order h)" k]
  by (auto simp: forget_session_def queued_def delete_keys)

lemma queued_enqueue:
  assumes "queued h"
  shows "queued (h\<lparr>hs_sessions := AList.update k v (hs_sessions h),
      hs_order := filter (\<lambda>i. i \<noteq> k) (hs_order h) @ [k]\<rparr>)"
proof -
  have "distinct (map fst (AList.update k v (hs_sessions h)))"
    using assms by (simp add: queued_def distinct_update)
  moreover have "set (map fst (AList.update k v (hs_sessions h))) = insert k (set (map fst (hs_sessions h)))"
    by (simp add: dom_update)
  ultimately show ?thesis using assms by (auto simp: queued_def)
qed

text \<open>Eviction drops whole sessions, oldest first, until the limits hold.\<close>

lemma enforce_limits_spec:
  assumes "queued h"
  shows "queued (enforce_limits h) \<and> within_limits (enforce_limits h) \<and> same_limits h (enforce_limits h) \<and>
    map_of (hs_sessions (enforce_limits h)) \<subseteq>\<^sub>m map_of (hs_sessions h)"
  using assms
proof (induction h rule: enforce_limits.induct)
  case (1 h)
  show ?case
  proof (cases "within_limits h")
    case True
    then show ?thesis using 1 by (subst (1 2 3 4 5 6 7) enforce_limits.simps) simp
  next
    case False
    then obtain k ks where order: "hs_order h = k # ks"
      using 1 (2) by (cases "hs_order h") (auto simp: queued_def within_limits_def retained_bytes_def retained_batches_def)
    let ?h = "h\<lparr>hs_order := ks, hs_sessions := AList.delete k (hs_sessions h)\<rparr>"
    have "queued ?h" by (rule queued_drop [OF 1(2)]) (use 1(2) order in \<open>auto simp: queued_def\<close>)
    moreover have "enforce_limits h = enforce_limits ?h"
      using False order by (subst enforce_limits.simps) simp
    moreover have "map_of (hs_sessions ?h) \<subseteq>\<^sub>m map_of (hs_sessions h)" by simp
    ultimately show ?thesis
      using 1(1) [OF False order] map_le_trans by (auto simp del: lookup_simps)
  qed
qed

lemma enforce_lookup:
  assumes "queued h" "map_of (hs_sessions (enforce_limits h)) t = Some hist"
  shows "map_of (hs_sessions h) t = Some hist"
proof -
  have "map_of (hs_sessions (enforce_limits h)) \<subseteq>\<^sub>m map_of (hs_sessions h)"
    using enforce_limits_spec [OF assms(1)] by blast
  then show ?thesis using assms(2) unfolding map_le_def by (metis domI)
qed

definition aged :: "nat \<Rightarrow> nat \<Rightarrow> history \<Rightarrow> history" where
  "aged now max_age hist = hist\<lparr>hi_batches := dropWhile (\<lambda>b. now - hb_at b \<ge> max_age) (hi_batches hist)\<rparr>"

lemma lookup_expire [simp]:
  "map_of (hs_sessions (expire now h)) sid = map_option (aged now (hs_max_age h)) (map_of (hs_sessions h) sid)"
  unfolding expire_def aged_def [symmetric] by (simp add: map_of_map)

lemma expire_limits [simp]: "same_limits h (expire now h)" "hs_order (expire now h) = hs_order h"
  by (simp_all add: expire_def)

lemma aged_simps [simp]: "hi_cursor (aged now n hist) = hi_cursor hist"
  "suffix (hi_batches (aged now n hist)) (hi_batches hist)"
  by (simp_all add: aged_def suffix_dropWhile)

lemma settled_aged: "settled hist \<Longrightarrow> settled (aged now n hist)"
  using set_mono_suffix [OF aged_simps(2), of now n hist] by (auto simp: settled_def)

lemma sum_list_suffix: "suffix xs ys \<Longrightarrow> sum_list (map f xs) \<le> (sum_list (map f ys) :: nat)"
  by (auto simp: suffix_def)

lemma expire_ok:
  assumes "histories_ok h"
  shows "histories_ok (expire now h)"
proof -
  have keys: "map fst (hs_sessions (expire now h)) = map fst (hs_sessions h)"
    by (simp add: expire_def case_prod_unfold)
  have "history_bytes (aged now n hist) \<le> history_bytes hist" "length (hi_batches (aged now n hist)) \<le> length (hi_batches hist)"
    for n hist unfolding history_bytes_def by (rule sum_list_suffix suffix_length_le aged_simps)+
  then have "retained_bytes (expire now h) \<le> retained_bytes h" "retained_batches (expire now h) \<le> retained_batches h"
    unfolding retained_bytes_def retained_batches_def expire_def aged_def [symmetric]
    by (auto simp: comp_def case_prod_unfold intro!: sum_list_mono)
  moreover have "length (hs_sessions (expire now h)) = length (hs_sessions h)" by (simp add: expire_def)
  ultimately show ?thesis
    using assms settled_aged unfolding histories_ok_def within_limits_def queued_def all_settled_def keys by auto
qed

text \<open>What may be retained after an operation is what it wrote, or less.\<close>

lemma enforce_ok:
  assumes "queued h" "all_settled h"
  shows "histories_ok (enforce_limits h)"
proof -
  have "all_settled (enforce_limits h)"
    using assms(2) enforce_lookup [OF assms(1)] unfolding all_settled_def by blast
  then show ?thesis using enforce_limits_spec [OF assms(1)] unfolding histories_ok_def by blast
qed

lemma forget_ok: "histories_ok h \<Longrightarrow> histories_ok (forget_session sid h)"
proof -
  assume ok: "histories_ok h"
  have sub: "sum_list (map f (AList.delete sid xs)) \<le> (sum_list (map f xs) :: nat)" for f :: "ustring \<times> history \<Rightarrow> nat" and xs
    by (induction xs) auto
  have "length (AList.delete sid (hs_sessions h)) \<le> length (hs_sessions h)" by (rule length_delete_le)
  then have "within_limits (forget_session sid h)"
    using ok sub [of "history_bytes \<circ> snd" "hs_sessions h"] sub [of "length \<circ> hi_batches \<circ> snd" "hs_sessions h"]
    by (simp add: histories_ok_def within_limits_def retained_bytes_def retained_batches_def forget_session_def)
  then show ?thesis
    using ok queued_forget by (auto simp: histories_ok_def all_settled_def forget_session_def)
qed

lemma start_ok: "histories_ok h \<Longrightarrow> histories_ok (snd (start_history uuid sid revision h))"
  unfolding start_history_def Let_def snd_conv forget_session_def
  by (rule enforce_ok)
    (use queued_enqueue [of "forget_session sid h" sid "\<lparr>hi_cursor = \<lparr>sc_session = sid, sc_incarnation = uuid,
       sc_revision = revision\<rparr>, hi_batches = []\<rparr>"] queued_forget [of h sid] in
     \<open>auto simp: histories_ok_def all_settled_def settled_def forget_session_def\<close>)

lemma establish_ok: "histories_ok h \<Longrightarrow> histories_ok (snd (establish uuid sid revision h))"
  by (auto simp: establish_def start_ok split: option.splits)

lemma all_settled_update:
  assumes "all_settled h" "settled hist" "sc_session (hi_cursor hist) = sid"
  shows "all_settled (h\<lparr>hs_sessions := AList.update sid hist (hs_sessions h), hs_order := order\<rparr>)"
  unfolding all_settled_def
proof (intro allI impI)
  fix t k
  assume "map_of (hs_sessions (h\<lparr>hs_sessions := AList.update sid hist (hs_sessions h), hs_order := order\<rparr>)) t = Some k"
  then have "t = sid \<and> k = hist \<or> map_of (hs_sessions h) t = Some k" by (simp split: if_splits)
  then show "settled k \<and> sc_session (hi_cursor k) = t" using assms unfolding all_settled_def by blast
qed

lemma record_ok:
  assumes "histories_ok h"
  shows "histories_ok (record_changes C sid base next events now h)"
proof -
  let ?h = "expire now h"
  have ok: "queued ?h" "all_settled ?h" "histories_ok ?h"
    using expire_ok [OF assms] unfolding histories_ok_def by blast+
  have "histories_ok (enforce_limits (?h\<lparr>hs_sessions := AList.update sid (append_batch next now e hist) (hs_sessions ?h),
      hs_order := filter (\<lambda>i. i \<noteq> sid) (hs_order ?h) @ [sid]\<rparr>))"
    if "map_of (hs_sessions ?h) sid = Some hist" "sc_revision (hi_cursor hist) < next" for hist e
  proof (rule enforce_ok [OF queued_enqueue [OF ok(1)] all_settled_update [OF ok(2)]])
    have hist: "settled hist" "sc_session (hi_cursor hist) = sid"
      using ok(2) that(1) unfolding all_settled_def by blast+
    then show "settled (append_batch next now e hist)"
      using that(2) by (auto simp: settled_def append_batch_def)
    show "sc_session (hi_cursor (append_batch next now e hist)) = sid"
      using hist(2) by (simp add: append_batch_def)
  qed
  then show ?thesis
    using ok(3) forget_ok [OF ok(3)]
    by (simp add: record_changes_def Let_def del: lookup_expire expire_limits split: option.splits)
qed

lemma changes_ok: "histories_ok h \<Longrightarrow> histories_ok (snd (changes_since C cursor now h))"
  using expire_ok by (auto simp: changes_since_def Let_def simp del: lookup_expire split: option.splits prod.splits)

end
