(* ===== verification/Session_Replay.thy ===== *)
theory Session_Replay
  imports Session_Sync
begin

text \<open>
  What a client of the incremental history is promised: whatever happens to any session between its
  cursor and its read, the batches it is given are all that was published in between, without gaps;
  the history stays within its limits; and a client that reads in time is not sent back to a
  snapshot.
\<close>

section \<open>Histories of operations\<close>

datatype 'e sync_op =
  Sync_establish ustring ustring nat
| Sync_record ustring "nat option" nat "'e list" nat
| Sync_read sync_cursor nat
| Sync_remove ustring

primrec sync_step :: "'e codec \<Rightarrow> 'e sync_op \<Rightarrow> histories \<Rightarrow> histories" where
  "sync_step C (Sync_establish uuid sid revision) h = snd (establish uuid sid revision h)"
| "sync_step C (Sync_record sid base next events now) h = record_changes C sid base next events now h"
| "sync_step C (Sync_read cursor now) h = snd (changes_since C cursor now h)"
| "sync_step C (Sync_remove sid) h = forget_session sid h"

definition run_sync :: "'e codec \<Rightarrow> 'e sync_op list \<Rightarrow> histories \<Rightarrow> histories" where
  "run_sync C ops h = fold (sync_step C) ops h"

lemma sync_step_ok: "histories_ok h \<Longrightarrow> histories_ok (sync_step C op h)"
  by (cases op) (simp_all add: establish_ok record_ok changes_ok forget_ok)

lemma sync_run_ok: "histories_ok h \<Longrightarrow> histories_ok (run_sync C ops h)"
  unfolding run_sync_def by (induction ops arbitrary: h) (simp_all add: sync_step_ok)

lemma sync_default_ok: "histories_ok default_histories"
  by (simp add: histories_ok_def queued_def within_limits_def all_settled_def default_histories_def
      retained_bytes_def retained_batches_def)

text \<open>What the records of one session leave in its history, and the events they publish.\<close>

primrec logged_op :: "'e codec \<Rightarrow> ustring \<Rightarrow> 'e sync_op \<Rightarrow> stored_batch list" where
  "logged_op C sid (Sync_establish u s r) = []"
| "logged_op C sid (Sync_record s base next events now) =
     (if s = sid then [\<lparr>hb_base = (case base of Some b \<Rightarrow> b | None \<Rightarrow> 0), hb_next = next, hb_at = now,
        hb_encoded = encode_events C events\<rparr>] else [])"
| "logged_op C sid (Sync_read c now) = []"
| "logged_op C sid (Sync_remove s) = []"

primrec published_op :: "ustring \<Rightarrow> 'e sync_op \<Rightarrow> 'e list list" where
  "published_op sid (Sync_establish u s r) = []"
| "published_op sid (Sync_record s base next events now) = (if s = sid then [events] else [])"
| "published_op sid (Sync_read c now) = []"
| "published_op sid (Sync_remove s) = []"

definition recorded_events :: "ustring \<Rightarrow> 'e sync_op list \<Rightarrow> 'e list list" where
  "recorded_events sid ops = concat (map (published_op sid) ops)"

definition logged :: "'e codec \<Rightarrow> ustring \<Rightarrow> 'e sync_op list \<Rightarrow> stored_batch list" where
  "logged C sid ops = concat (map (logged_op C sid) ops)"

lemma logged_published: "map hb_encoded (logged C sid ops) = map (encode_events C) (recorded_events sid ops)"
proof -
  have "map hb_encoded (logged_op C sid op) = map (encode_events C) (published_op sid op)" for op
    by (cases op) simp_all
  then show ?thesis by (induction ops) (simp_all add: logged_def recorded_events_def)
qed

section \<open>Gapless runs of batches\<close>

fun gapless :: "nat \<Rightarrow> stored_batch list \<Rightarrow> nat \<Rightarrow> bool" where
  "gapless r [] r' \<longleftrightarrow> r = r'"
| "gapless r (b # bs) r' \<longleftrightarrow> hb_base b = r \<and> r < hb_next b \<and> gapless (hb_next b) bs r'"

lemma gapless_append: "gapless r (xs @ ys) r' \<longleftrightarrow> (\<exists>m. gapless r xs m \<and> gapless m ys r')"
  by (induction r xs r' rule: gapless.induct) auto

lemma gapless_next: "gapless r bs r' \<Longrightarrow> r \<le> r' \<and> (\<forall>b \<in> set bs. r < hb_next b \<and> r \<le> hb_base b)"
  by (induction r bs r' rule: gapless.induct) fastforce+

lemma gapless_late:
  assumes "gapless r (xs @ b # ys) r'" "xs \<noteq> []"
  shows "r < hb_base b"
proof -
  obtain m where "gapless r xs m" "hb_base b = m" using assms(1) by (auto simp: gapless_append)
  then show ?thesis using assms(2) gapless_next [of "hb_next (hd xs)" "tl xs" m] by (cases xs) auto
qed

section \<open>A history that a cursor is a point of\<close>

definition lookup_history :: "histories \<Rightarrow> ustring \<Rightarrow> history option" where
  "lookup_history h sid = map_of (hs_sessions h) sid"

text \<open>While the cursor's incarnation lives, the history ends with what was logged since, but for
  batches that aged away at the front.\<close>

definition follows :: "sync_cursor \<Rightarrow> stored_batch list \<Rightarrow> histories \<Rightarrow> bool" where
  "follows c log h \<longleftrightarrow>
     (\<forall>hist. lookup_history h (sc_session c) = Some hist \<longrightarrow>
        sc_incarnation (hi_cursor hist) = sc_incarnation c \<longrightarrow>
        (\<exists>old. suffix (hi_batches hist) (old @ log) \<and> (\<forall>b \<in> set old. hb_next b \<le> sc_revision c) \<and>
           gapless (sc_revision c) log (sc_revision (hi_cursor hist)) \<and> hi_cursor hist =
             c\<lparr>sc_revision := sc_revision (hi_cursor hist)\<rparr>))"

lemma followsI:
  assumes "\<And>hist. lookup_history h (sc_session c) = Some hist \<Longrightarrow>
      sc_incarnation (hi_cursor hist) = sc_incarnation c \<Longrightarrow>
      \<exists>old. suffix (hi_batches hist) (old @ log) \<and> (\<forall>b \<in> set old. hb_next b \<le> sc_revision c) \<and>
        gapless (sc_revision c) log (sc_revision (hi_cursor hist)) \<and>
        hi_cursor hist = c\<lparr>sc_revision := sc_revision (hi_cursor hist)\<rparr>"
  shows "follows c log h"
  using assms unfolding follows_def by blast

lemma follows_sub:
  assumes "follows c log h"
    and "lookup_history h' (sc_session c) = None \<or> lookup_history h' (sc_session c) = lookup_history h (sc_session c)"
  shows "follows c log h'"
  using assms unfolding follows_def by auto

lemma follows_expire:
  assumes "follows c log h"
  shows "follows c log (expire now h)"
proof (rule followsI)
  fix hist
  assume look: "lookup_history (expire now h) (sc_session c) = Some hist"
    and inc: "sc_incarnation (hi_cursor hist) = sc_incarnation c"
  then obtain hist' where h': "lookup_history h (sc_session c) = Some hist'" "hist = aged now (hs_max_age h) hist'"
    by (auto simp: lookup_history_def)
  then obtain old where o: "suffix (hi_batches hist') (old @ log)" "\<forall>b \<in> set old. hb_next b \<le> sc_revision c"
    "gapless (sc_revision c) log (sc_revision (hi_cursor hist'))"
    "hi_cursor hist' = c\<lparr>sc_revision := sc_revision (hi_cursor hist')\<rparr>"
    using assms inc unfolding follows_def by auto
  have "suffix (hi_batches hist) (old @ log)"
    using o(1) h'(2) suffix_order.order_trans [OF aged_simps(2)] by simp
  then show "\<exists>old. suffix (hi_batches hist) (old @ log) \<and> (\<forall>b \<in> set old. hb_next b \<le> sc_revision c) \<and>
      gapless (sc_revision c) log (sc_revision (hi_cursor hist)) \<and>
      hi_cursor hist = c\<lparr>sc_revision := sc_revision (hi_cursor hist)\<rparr>"
    using o h'(2) by (intro exI [of _ old]) simp
qed

lemma start_lookup:
  assumes "queued h" "start_history u s r h = (c, h')" "lookup_history h' t = Some hist"
  shows "if t = s then hist = \<lparr>hi_cursor = c, hi_batches = []\<rparr> else lookup_history h t = Some hist"
proof -
  let ?h = "(forget_session s h)\<lparr>hs_sessions := AList.update s \<lparr>hi_cursor = c, hi_batches = []\<rparr>
      (hs_sessions (forget_session s h)), hs_order := hs_order (forget_session s h) @ [s]\<rparr>"
  have "queued ?h"
    using queued_enqueue [OF queued_forget [OF assms(1), of s], of s "\<lparr>hi_cursor = c, hi_batches = []\<rparr>"]
    by (simp add: forget_session_def)
  moreover have "h' = enforce_limits ?h" using assms(2) by (auto simp: start_history_def Let_def)
  ultimately have "map_of (hs_sessions ?h) t = Some hist"
    using assms(3) enforce_lookup unfolding lookup_history_def by blast
  then show ?thesis by (auto simp: lookup_history_def forget_session_def split: if_splits)
qed

lemma record_lookup:
  assumes "queued h" "lookup_history (record_changes C s base next events now h) t = Some hist"
  shows "\<exists>hist'. lookup_history (expire now h) t = Some hist' \<and>
    (if t = s then base = Some (sc_revision (hi_cursor hist')) \<and> sc_revision (hi_cursor hist') < next \<and>
       hist = append_batch next now (encode_events C events) hist'
     else hist = hist')"
proof (cases "lookup_history (expire now h) s")
  case None
  then have "record_changes C s base next events now h = expire now h"
    by (simp add: record_changes_def lookup_history_def Let_def)
  then show ?thesis using None assms(2) by auto
next
  case (Some hist')
  let ?h = "expire now h"
  let ?w = "?h\<lparr>hs_sessions := AList.update s (append_batch next now (encode_events C events) hist') (hs_sessions ?h),
      hs_order := filter (\<lambda>i. i \<noteq> s) (hs_order ?h) @ [s]\<rparr>"
  have keys: "map fst (hs_sessions ?h) = map fst (hs_sessions h)" by (simp add: expire_def case_prod_unfold)
  have "queued ?h" using assms(1) unfolding queued_def keys by simp
  then have w: "queued ?w" by (rule queued_enqueue)
  have step: "record_changes C s base next events now h = forget_session s ?h \<or>
      record_changes C s base next events now h = enforce_limits ?w \<and>
      base = Some (sc_revision (hi_cursor hist')) \<and> sc_revision (hi_cursor hist') < next"
    using Some by (auto simp: record_changes_def lookup_history_def Let_def simp del: lookup_expire expire_limits)
  then show ?thesis
  proof
    assume "record_changes C s base next events now h = forget_session s ?h"
    then show ?thesis using assms(2) by (auto simp: lookup_history_def forget_session_def split: if_splits)
  next
    assume e: "record_changes C s base next events now h = enforce_limits ?w \<and>
      base = Some (sc_revision (hi_cursor hist')) \<and> sc_revision (hi_cursor hist') < next"
    have "map_of (hs_sessions (enforce_limits ?w)) t = Some hist"
      using assms(2) unfolding lookup_history_def conjunct1 [OF e] .
    then have "map_of (hs_sessions ?w) t = Some hist" by (rule enforce_lookup [OF w])
    then show ?thesis using e Some by (auto simp: lookup_history_def simp del: lookup_expire split: if_splits)
  qed
qed

lemma follows_record:
  assumes "follows c log h" "queued h"
  shows "follows c (log @ logged_op C (sc_session c) (Sync_record s base next events now))
    (record_changes C s base next events now h)"
proof (rule followsI)
  let ?h = "record_changes C s base next events now h"
  fix hist
  assume look: "lookup_history ?h (sc_session c) = Some hist"
    and inc: "sc_incarnation (hi_cursor hist) = sc_incarnation c"
  obtain hist' where h': "lookup_history (expire now h) (sc_session c) = Some hist'"
    and new: "if sc_session c = s
      then base = Some (sc_revision (hi_cursor hist')) \<and> sc_revision (hi_cursor hist') < next \<and>
        hist = append_batch next now (encode_events C events) hist' else hist = hist'"
    using record_lookup [OF assms(2) look] by blast
  have inc': "sc_incarnation (hi_cursor hist') = sc_incarnation c"
    using inc new by (auto simp: append_batch_def split: if_splits)
  obtain old where o: "suffix (hi_batches hist') (old @ log)" "\<forall>b \<in> set old. hb_next b \<le> sc_revision c"
    "gapless (sc_revision c) log (sc_revision (hi_cursor hist'))"
    "hi_cursor hist' = c\<lparr>sc_revision := sc_revision (hi_cursor hist')\<rparr>"
    using follows_expire [OF assms(1), of now] h' inc' unfolding follows_def by blast
  show "\<exists>old. suffix (hi_batches hist) (old @ log @ logged_op C (sc_session c) (Sync_record s base next events now)) \<and>
      (\<forall>b \<in> set old. hb_next b \<le> sc_revision c) \<and>
      gapless (sc_revision c) (log @ logged_op C (sc_session c) (Sync_record s base next events now))
        (sc_revision (hi_cursor hist)) \<and> hi_cursor hist = c\<lparr>sc_revision := sc_revision (hi_cursor hist)\<rparr>"
  proof (cases "sc_session c = s")
    case True
    let ?b = "\<lparr>hb_base = sc_revision (hi_cursor hist'), hb_next = next, hb_at = now, hb_encoded = encode_events C events\<rparr>"
    have "suffix (hi_batches hist' @ [?b]) ((old @ log) @ [?b])" using o(1) by (auto simp: suffix_def)
    moreover have "hi_cursor hist = c\<lparr>sc_revision := next\<rparr>"
    proof -
      have "hi_cursor hist = (hi_cursor hist')\<lparr>sc_revision := next\<rparr>" using new True by (simp add: append_batch_def)
      also have "\<dots> = c\<lparr>sc_revision := next\<rparr>" by (subst o(4)) simp
      finally show ?thesis .
    qed
    ultimately show ?thesis
      using new True o(2,3) by (intro exI [of _ old]) (auto simp: append_batch_def gapless_append)
  next
    case False
    then show ?thesis using new o by (intro exI [of _ old]) auto
  qed
qed

lemma follows_step:
  assumes "follows c log h" "queued h"
    and "\<forall>s r. op \<noteq> Sync_establish (sc_incarnation c) s r"
  shows "follows c (log @ logged_op C (sc_session c) op) (sync_step C op h)"
proof (cases op)
  case (Sync_establish u s r)
  have "follows c log (snd (start_history u s r h))"
  proof (rule followsI)
    fix hist
    assume look: "lookup_history (snd (start_history u s r h)) (sc_session c) = Some hist"
      and inc: "sc_incarnation (hi_cursor hist) = sc_incarnation c"
    obtain k h' where k: "start_history u s r h = (k, h')" by (cases "start_history u s r h")
    then have "sc_incarnation k = u" by (auto simp: start_history_def Let_def)
    then have "sc_incarnation k \<noteq> sc_incarnation c" using assms(3) Sync_establish by auto
    then have "lookup_history h (sc_session c) = Some hist"
      using start_lookup [OF assms(2) k, of "sc_session c" hist] look inc k by (auto split: if_splits)
    then show "\<exists>old. suffix (hi_batches hist) (old @ log) \<and> (\<forall>b \<in> set old. hb_next b \<le> sc_revision c) \<and>
        gapless (sc_revision c) log (sc_revision (hi_cursor hist)) \<and>
        hi_cursor hist = c\<lparr>sc_revision := sc_revision (hi_cursor hist)\<rparr>"
      using assms(1) inc unfolding follows_def by blast
  qed
  then show ?thesis
    using assms(1) Sync_establish by (auto simp: establish_def split: option.splits)
next
  case (Sync_record s base new events now)
  then show ?thesis using follows_record [OF assms(1,2), of C s base new events now] by (simp only: sync_step.simps)
next
  case (Sync_read k now)
  have "snd (changes_since C k now h) = expire now h"
    by (auto simp: changes_since_def Let_def simp del: lookup_expire split: option.splits prod.splits)
  then show ?thesis using follows_expire [OF assms(1)] Sync_read by simp
next
  case (Sync_remove s)
  then show ?thesis
    using follows_sub [OF assms(1), of "forget_session s h"]
    by (auto simp: lookup_history_def forget_session_def)
qed

lemma follows_run:
  assumes "follows c log h" "histories_ok h" "\<forall>s r. Sync_establish (sc_incarnation c) s r \<notin> set ops"
  shows "follows c (log @ logged C (sc_session c) ops) (run_sync C ops h)"
  using assms
proof (induction ops arbitrary: log h)
  case (Cons op ops)
  have "follows c (log @ logged_op C (sc_session c) op) (sync_step C op h)"
    using Cons.prems by (intro follows_step) (auto simp: histories_ok_def)
  from Cons.IH [OF this sync_step_ok [OF Cons.prems(2)]] Cons.prems(3)
  show ?case by (simp add: run_sync_def logged_def)
qed (simp add: run_sync_def logged_def)

section \<open>Reading\<close>

lemma replay_all:
  assumes "\<And>es. decode_events C (encode_events C es) = Some es"
    and "gapless r log r'" "map hb_encoded log = map (encode_events C) ess"
  shows "\<exists>batches. replay C c r log = Some (batches, r') \<and> map cb_events batches = ess \<and>
    map cb_base batches = map (\<lambda>b. c\<lparr>sc_revision := hb_base b\<rparr>) log \<and>
    map cb_next batches = map (\<lambda>b. c\<lparr>sc_revision := hb_next b\<rparr>) log"
  using assms(2,3)
proof (induction r log r' arbitrary: ess rule: gapless.induct)
  case (2 r b bs r')
  obtain es ess' where ess: "ess = es # ess'" "hb_encoded b = encode_events C es"
    "map hb_encoded bs = map (encode_events C) ess'"
    using 2(3) by (cases ess) auto
  obtain batches where "replay C c (hb_next b) bs = Some (batches, r')" "map cb_events batches = ess'"
    "map cb_base batches = map (\<lambda>b. c\<lparr>sc_revision := hb_base b\<rparr>) bs"
    "map cb_next batches = map (\<lambda>b. c\<lparr>sc_revision := hb_next b\<rparr>) bs"
    using 2(1) [OF _ ess(3)] 2(2) by auto
  then show ?case using 2(2) ess(1,2) assms(1) by simp
qed simp

text \<open>The batches beyond the cursor: all of the log, or a proper end of it that no replay accepts.\<close>

lemma beyond_cursor:
  assumes "suffix bs (old @ log)" "\<forall>b \<in> set old. hb_next b \<le> r" "gapless r log r'"
  shows "filter (\<lambda>b. hb_next b > r) bs = log \<or>
    (\<exists>pre. pre \<noteq> [] \<and> log = pre @ filter (\<lambda>b. hb_next b > r) bs)"
proof -
  have log: "\<forall>b \<in> set log. r < hb_next b" using gapless_next [OF assms(3)] by blast
  obtain front where "old @ log = front @ bs" using assms(1) by (auto simp: suffix_def)
  then consider (more) us where "old = front @ us" "bs = us @ log" | (less) us where "log = us @ bs"
    by (auto simp: append_eq_append_conv2)
  then show ?thesis
  proof cases
    case more
    then have "filter (\<lambda>b. hb_next b > r) us = []" using assms(2) by (auto simp: filter_empty_conv not_less)
    then show ?thesis using more(2) log by (auto simp: filter_id_conv)
  next
    case less
    then have "filter (\<lambda>b. hb_next b > r) bs = bs" using log by (auto simp: filter_id_conv)
    then show ?thesis using less by (cases "us = []") auto
  qed
qed

lemma replay_gap:
  assumes "gapless r log r'" "log = pre @ bs" "pre \<noteq> []"
  shows "replay C c r bs = None \<or> (\<exists>batches. replay C c r bs = Some (batches, r) \<and> r \<noteq> r')"
proof (cases bs)
  case Nil
  then have "r < r'" using assms gapless_next [of "hb_next (hd pre)" "tl pre" r'] by (cases pre) auto
  then show ?thesis using Nil by simp
next
  case (Cons b bs')
  then have "r < hb_base b" using gapless_late [of r pre b bs' r'] assms by simp
  then show ?thesis using Cons by simp
qed

lemma read_follows:
  assumes decode: "\<And>es. decode_events C (encode_events C es) = Some es"
    and f: "follows c log h" and enc: "map hb_encoded log = map (encode_events C) ess"
    and r: "changes_since C c now h = (Changes cur batches, h')"
  shows "map cb_events batches = ess \<and> map cb_base batches = map (\<lambda>b. c\<lparr>sc_revision := hb_base b\<rparr>) log \<and>
    map cb_next batches = map (\<lambda>b. c\<lparr>sc_revision := hb_next b\<rparr>) log \<and>
    gapless (sc_revision c) log (sc_revision cur) \<and> cur = c\<lparr>sc_revision := sc_revision cur\<rparr>"
proof -
  let ?late = "\<lambda>hist. filter (\<lambda>b. hb_next b > sc_revision c) (hi_batches hist)"
  obtain hist reached where look: "lookup_history (expire now h) (sc_session c) = Some hist"
    and inc: "sc_incarnation (hi_cursor hist) = sc_incarnation c"
    and rep: "replay C c (sc_revision c) (?late hist) = Some (batches, reached)"
    and cur: "reached = sc_revision (hi_cursor hist)" "cur = hi_cursor hist"
    using r by (auto simp: changes_since_def lookup_history_def Let_def simp del: lookup_expire
        split: option.splits if_splits prod.splits)
  obtain old where o: "suffix (hi_batches hist) (old @ log)" "\<forall>b \<in> set old. hb_next b \<le> sc_revision c"
    "gapless (sc_revision c) log (sc_revision (hi_cursor hist))"
    "hi_cursor hist = c\<lparr>sc_revision := sc_revision (hi_cursor hist)\<rparr>"
    using follows_expire [OF f, of now] look inc unfolding follows_def by blast
  from beyond_cursor [OF o(1-3)] have late: "?late hist = log"
  proof
    assume "\<exists>pre. pre \<noteq> [] \<and> log = pre @ ?late hist"
    then obtain pre where "pre \<noteq> []" "log = pre @ ?late hist" by blast
    from replay_gap [OF o(3) this(2,1), of C c] have "reached \<noteq> sc_revision (hi_cursor hist)"
      unfolding rep by simp
    then show ?thesis using cur(1) by contradiction
  qed
  obtain batches' where b: "replay C c (sc_revision c) log = Some (batches', sc_revision (hi_cursor hist))"
    "map cb_events batches' = ess" "map cb_base batches' = map (\<lambda>b. c\<lparr>sc_revision := hb_base b\<rparr>) log"
    "map cb_next batches' = map (\<lambda>b. c\<lparr>sc_revision := hb_next b\<rparr>) log"
    using replay_all [OF decode o(3) enc, of c] by blast
  have "batches' = batches" using rep b(1) unfolding late by simp
  then show ?thesis using b(2-4) o(3,4) unfolding cur(2) by blast
qed

lemma gapless_linked:
  assumes "gapless r log r'" "map cb_base batches = map (\<lambda>b. c\<lparr>sc_revision := hb_base b\<rparr>) log"
    "map cb_next batches = map (\<lambda>b. c\<lparr>sc_revision := hb_next b\<rparr>) log"
  shows "successively (\<lambda>b b'. cb_next b = cb_base b') batches \<and>
    (if batches = [] then r' = r
     else cb_base (hd batches) = c\<lparr>sc_revision := r\<rparr> \<and> cb_next (last batches) = c\<lparr>sc_revision := r'\<rparr>)"
  using assms
proof (induction r log r' arbitrary: batches rule: gapless.induct)
  case (2 r b bs r')
  obtain x xs where x: "batches = x # xs" using 2(3) by (cases batches) auto
  show ?case
  proof (cases xs)
    case Nil
    then have "bs = []" using 2(3) x by auto
    then show ?thesis using 2(2-4) x Nil by auto
  next
    case (Cons y ys)
    have "gapless (hb_next b) bs r'" "map cb_base xs = map (\<lambda>b. c\<lparr>sc_revision := hb_base b\<rparr>) bs"
      "map cb_next xs = map (\<lambda>b. c\<lparr>sc_revision := hb_next b\<rparr>) bs" "cb_base x = c\<lparr>sc_revision := r\<rparr>"
      "cb_next x = c\<lparr>sc_revision := hb_next b\<rparr>"
      using 2(2-4) x by auto
    then show ?thesis using 2(1) [of xs] x Cons by (simp add: successively_Cons)
  qed
qed auto

lemma establish_follows:
  assumes "histories_ok h" "establish u sid r h = (c, h')"
  shows "follows c [] h' \<and> sc_session c = sid \<and> histories_ok h' \<and> sc_revision c = r"
proof -
  have ok: "histories_ok h'" using establish_ok [OF assms(1), of u sid r] assms(2) by simp
  have "start_history u sid r h = (c, h') \<or>
      (\<exists>hist. lookup_history h sid = Some hist \<and> hi_cursor hist = c \<and> h = h' \<and> sc_revision (hi_cursor hist) = r)"
    using assms(2) unfolding establish_def lookup_history_def
    by (cases "map_of (hs_sessions h) sid") (simp_all split: if_splits)
  then consider (kept) hist where "lookup_history h sid = Some hist" "c = hi_cursor hist" "h' = h" "sc_revision c = r"
    | (new) "start_history u sid r h = (c, h')"
    by blast
  then show ?thesis
  proof cases
    case kept
    then have hist: "settled hist" "sc_session c = sid"
      using assms(1) unfolding histories_ok_def all_settled_def lookup_history_def by blast+
    have "follows c [] h'"
      using kept hist by (intro followsI exI [of _ "hi_batches hist"]) (auto simp: settled_def)
    then show ?thesis using hist(2) ok kept(4) by blast
  next
    case new
    then have c: "sc_session c = sid" "sc_revision c = r" by (auto simp: start_history_def Let_def)
    have "queued h" using assms(1) by (simp add: histories_ok_def)
    then have "follows c [] h'"
      using start_lookup [OF _ new, of "sc_session c"] c by (intro followsI exI [of _ "[]"]) auto
    then show ?thesis using c ok by blast
  qed
qed

section \<open>Limits\<close>

lemma enforce_same_limits [simp]: "same_limits h (enforce_limits h)"
proof (induction h rule: enforce_limits.induct)
  case (1 h)
  show ?case
  proof (cases "within_limits h \<or> hs_order h = []")
    case True
    then have "enforce_limits h = h" by (subst enforce_limits.simps) auto
    then show ?thesis by simp
  next
    case False
    then obtain k ks where order: "\<not> within_limits h" "hs_order h = k # ks" by (cases "hs_order h") auto
    then have "enforce_limits h = enforce_limits (h\<lparr>hs_order := ks, hs_sessions := AList.delete k (hs_sessions h)\<rparr>)"
      by (subst enforce_limits.simps) simp
    then show ?thesis using 1 [OF order] by simp
  qed
qed

lemma step_limits: "same_limits h (sync_step C op h)"
proof -
  have forget: "same_limits h (forget_session s h)" for s h by (simp add: forget_session_def)
  then have "same_limits h (snd (establish u s r h))" for u s r
    by (simp add: establish_def start_history_def Let_def split: option.splits)
  moreover have "same_limits h (record_changes C s b n es now h)" for s b n es now
    using forget [where h = "expire now h"]
    by (simp add: record_changes_def Let_def split: option.splits)
  moreover have "same_limits h (snd (changes_since C c now h))" for c now
    by (simp add: changes_since_def Let_def split: option.splits prod.splits)
  ultimately show ?thesis using forget by (cases op) simp_all
qed

lemma run_limits: "same_limits h (run_sync C ops h)"
  unfolding run_sync_def
proof (induction ops arbitrary: h)
  case (Cons op ops)
  then show ?case using step_limits [where h = h and C = C and op = op] by (simp only: fold.simps comp_apply)
qed simp

text \<open>Eviction keeps the newest session when its history alone is within the limits.\<close>

lemma enforce_keeps_newest:
  assumes "queued h" "hs_order h = ks @ [sid]" "map_of (hs_sessions h) sid = Some hist"
    and "history_bytes hist \<le> hs_max_bytes h" "length (hi_batches hist) \<le> hs_max_batches h" "1 \<le> hs_max_sessions h"
  shows "map_of (hs_sessions (enforce_limits h)) sid = Some hist \<and> (\<exists>ks. hs_order (enforce_limits h) = ks @ [sid])"
  using assms
proof (induction h arbitrary: ks rule: enforce_limits.induct)
  case (1 h)
  show ?case
  proof (cases "within_limits h")
    case True
    then have "enforce_limits h = h" by (subst enforce_limits.simps) simp
    then show ?thesis using 1 by auto
  next
    case False
    show ?thesis
    proof (cases ks)
      case Nil
      then have "set (map fst (hs_sessions h)) = {sid}" "distinct (map fst (hs_sessions h))"
        using 1(2,3) by (auto simp: queued_def)
      moreover from this have "length (map fst (hs_sessions h)) = 1" using distinct_card by fastforce
      ultimately have "hs_sessions h = [(sid, hist)]"
        using 1(4) by (cases "hs_sessions h") auto
      then have "within_limits h"
        using 1(5-7) by (simp add: within_limits_def retained_bytes_def retained_batches_def)
      then show ?thesis using False by contradiction
    next
      case (Cons k ks')
      let ?h = "h\<lparr>hs_order := ks' @ [sid], hs_sessions := AList.delete k (hs_sessions h)\<rparr>"
      have order: "hs_order h = k # ks' @ [sid]" using 1(3) Cons by simp
      have "k \<noteq> sid" using 1(2) order by (auto simp: queued_def)
      moreover have "queued ?h" by (rule queued_drop [OF 1(2)]) (use 1(2) order in \<open>auto simp: queued_def\<close>)
      moreover have "enforce_limits h = enforce_limits ?h" using False order by (subst enforce_limits.simps) simp
      ultimately show ?thesis using 1(1) [OF False order, of ks'] 1(4-7) by simp
    qed
  qed
qed

section \<open>A client in time\<close>

text \<open>Publications of one session, each from the revision before: new revision, events and time.\<close>

fun publish_ops :: "ustring \<Rightarrow> nat \<Rightarrow> (nat \<times> 'e list \<times> nat) list \<Rightarrow> 'e sync_op list" where
  "publish_ops sid r [] = []"
| "publish_ops sid r ((new, events, now) # us) = Sync_record sid (Some r) new events now # publish_ops sid new us"

fun ascending :: "nat \<Rightarrow> (nat \<times> 'e list \<times> nat) list \<Rightarrow> bool" where
  "ascending r [] \<longleftrightarrow> True"
| "ascending r ((new, events, now) # us) \<longleftrightarrow> r < new \<and> ascending new us"

definition log_of :: "'e codec \<Rightarrow> ustring \<Rightarrow> nat \<Rightarrow> (nat \<times> 'e list \<times> nat) list \<Rightarrow> stored_batch list" where
  "log_of C sid r us = logged C sid (publish_ops sid r us)"

text \<open>A session whose history is all of the log, newest in the queue.\<close>

definition holds_log :: "sync_cursor \<Rightarrow> ustring \<Rightarrow> nat \<Rightarrow> stored_batch list \<Rightarrow> histories \<Rightarrow> bool" where
  "holds_log c sid r log h \<longleftrightarrow> queued h \<and> (\<exists>ks. hs_order h = ks @ [sid]) \<and>
     (\<exists>hist. map_of (hs_sessions h) sid = Some hist \<and> hi_cursor hist = c\<lparr>sc_revision := r\<rparr> \<and>
        hi_batches hist = log)"

lemma aged_young:
  assumes "\<forall>b \<in> set (hi_batches hist). now - hb_at b < n"
  shows "aged now n hist = hist"
proof -
  have "dropWhile (\<lambda>b. n \<le> now - hb_at b) (hi_batches hist) = hi_batches hist"
    using assms by (cases "hi_batches hist") auto
  then show ?thesis by (simp add: aged_def)
qed

lemma holds_log_record:
  assumes "holds_log c sid r log h" "r < new"
    and "\<forall>b \<in> set log. now - hb_at b < hs_max_age h"
    and "sum_list (map (\<lambda>b. length (hb_encoded b)) log) + length (encode_events C events) \<le> hs_max_bytes h"
    and "length log < hs_max_batches h" "1 \<le> hs_max_sessions h"
  shows "holds_log c sid new (log @ [\<lparr>hb_base = r, hb_next = new, hb_at = now, hb_encoded = encode_events C events\<rparr>])
    (record_changes C sid (Some r) new events now h)"
proof -
  let ?h = "expire now h" and ?b = "\<lparr>hb_base = r, hb_next = new, hb_at = now, hb_encoded = encode_events C events\<rparr>"
  obtain hist where hist: "map_of (hs_sessions h) sid = Some hist" "hi_cursor hist = c\<lparr>sc_revision := r\<rparr>"
    "hi_batches hist = log" and q: "queued h" using assms(1) unfolding holds_log_def by blast
  have look: "map_of (hs_sessions ?h) sid = Some hist"
    using hist(1) aged_young [of hist now "hs_max_age h"] assms(3) hist(3) by simp
  have keys: "map fst (hs_sessions ?h) = map fst (hs_sessions h)" by (simp add: expire_def case_prod_unfold)
  have q': "queued ?h" using q unfolding queued_def keys by simp
  let ?hist = "append_batch new now (encode_events C events) hist"
  let ?w = "?h\<lparr>hs_sessions := AList.update sid ?hist (hs_sessions ?h),
      hs_order := filter (\<lambda>i. i \<noteq> sid) (hs_order ?h) @ [sid]\<rparr>"
  have w: "queued ?w" by (rule queued_enqueue [OF q'])
  have batches: "hi_batches ?hist = log @ [?b]" "hi_cursor ?hist = c\<lparr>sc_revision := new\<rparr>"
    using hist(2,3) by (simp_all add: append_batch_def)
  have "record_changes C sid (Some r) new events now h = enforce_limits ?w"
    using look hist(2) assms(2,4) by (simp add: record_changes_def Let_def del: lookup_expire)
  moreover have "map_of (hs_sessions (enforce_limits ?w)) sid = Some ?hist \<and> (\<exists>ks. hs_order (enforce_limits ?w) = ks @ [sid])"
    by (rule enforce_keeps_newest [OF w]) (use assms(4-6) batches in \<open>simp_all add: history_bytes_def\<close>)
  moreover have "queued (enforce_limits ?w)" using enforce_limits_spec [OF w] by blast
  ultimately show ?thesis using batches unfolding holds_log_def by simp
qed

lemma holds_log_run:
  assumes "holds_log c sid r log h" "ascending r us"
    and "\<forall>b \<in> set log. hb_at b \<le> now \<and> now - hb_at b < hs_max_age h"
    and "\<forall>(new, events, at) \<in> set us. at \<le> now \<and> now - at < hs_max_age h"
    and "sum_list (map (\<lambda>b. length (hb_encoded b)) log) +
      sum_list (map (\<lambda>(new, events, at). length (encode_events C events)) us) \<le> hs_max_bytes h"
    and "length log + length us \<le> hs_max_batches h" "1 \<le> hs_max_sessions h"
  shows "\<exists>r'. holds_log c sid r' (log @ log_of C sid r us) (run_sync C (publish_ops sid r us) h) \<and>
    (\<forall>b \<in> set (log @ log_of C sid r us). now - hb_at b < hs_max_age h)"
  using assms
proof (induction us arbitrary: r log h)
  case Nil
  then show ?case by (auto simp: log_of_def logged_def run_sync_def)
next
  case (Cons u us)
  obtain new events at where u: "u = (new, events, at)" by (cases u)
  let ?b = "\<lparr>hb_base = r, hb_next = new, hb_at = at, hb_encoded = encode_events C events\<rparr>"
  let ?h = "record_changes C sid (Some r) new events at h"
  have lim: "same_limits h ?h"
    using step_limits [where h = h and C = C and op = "Sync_record sid (Some r) new events at"] by simp
  have at: "at \<le> now" "now - at < hs_max_age h" using Cons.prems(4) u by auto
  have "\<forall>b \<in> set log. at - hb_at b < hs_max_age h"
    using Cons.prems(3) at(1) by (metis diff_le_mono le_less_trans)
  then have "holds_log c sid new (log @ [?b]) ?h"
    using Cons.prems u by (intro holds_log_record) simp_all
  from Cons.IH [OF this] Cons.prems u lim at
  have "\<exists>r'. holds_log c sid r' ((log @ [?b]) @ log_of C sid new us) (run_sync C (publish_ops sid new us) ?h) \<and>
      (\<forall>b \<in> set ((log @ [?b]) @ log_of C sid new us). now - hb_at b < hs_max_age ?h)"
    by simp
  then show ?case using lim by (simp add: u log_of_def logged_def run_sync_def)
qed

lemma publish_ops_events: "recorded_events sid (publish_ops sid r us) = map (\<lambda>(new, events, at). events) us"
  by (induction us arbitrary: r) (auto simp: recorded_events_def)

section \<open>The guarantees\<close>

text \<open>C6: A client that established a cursor and later reads the changes since it, whatever was
  established, published, read or removed for any session in between, is either sent back to a snapshot
  or given every batch of events published for its session since, in order: the batches start at its
  cursor, each starts where the one before ended, and the last one ends at the cursor it is given.\<close>

theorem replay_complete:
  assumes "\<And>es. decode_events C (encode_events C es) = Some es"
    and "establish uuid sid revision (run_sync C earlier default_histories) = (c, h)"
    and "\<forall>s r. Sync_establish (sc_incarnation c) s r \<notin> set later"
    and "changes_since C c now (run_sync C later h) = (Changes cursor batches, h')"
  shows "map cb_events batches = recorded_events sid later \<and>
    successively (\<lambda>b b'. cb_next b = cb_base b') batches \<and>
    (if batches = [] then cursor = c else cb_base (hd batches) = c \<and> cb_next (last batches) = cursor)"
proof -
  have c: "follows c [] h" "sc_session c = sid" "histories_ok h"
    using establish_follows [OF sync_run_ok [OF sync_default_ok] assms(2)] by blast+
  have "follows c (logged C sid later) (run_sync C later h)"
    using follows_run [OF c(1,3) assms(3), of C] c(2) by simp
  from read_follows [OF assms(1) this logged_published assms(4)]
  have r: "map cb_events batches = recorded_events sid later"
    "map cb_base batches = map (\<lambda>b. c\<lparr>sc_revision := hb_base b\<rparr>) (logged C sid later)"
    "map cb_next batches = map (\<lambda>b. c\<lparr>sc_revision := hb_next b\<rparr>) (logged C sid later)"
    "gapless (sc_revision c) (logged C sid later) (sc_revision cursor)"
    "cursor = c\<lparr>sc_revision := sc_revision cursor\<rparr>"
    by blast+
  have "c\<lparr>sc_revision := sc_revision c\<rparr> = c" by simp
  then show ?thesis using r(1,5) gapless_linked [OF r(4,2,3)] by metis
qed

text \<open>C30: Whatever is established, published, read or removed, the retained histories hold at most eight
  megabytes of events in at most 256 batches, of at most 64 sessions.\<close>

theorem histories_bounded:
  "retained_bytes (run_sync C ops default_histories) \<le> 8 * 1024 * 1024 \<and>
   retained_batches (run_sync C ops default_histories) \<le> 256 \<and>
   length (hs_sessions (run_sync C ops default_histories)) \<le> 64"
  using sync_run_ok [OF sync_default_ok, of C ops] run_limits [where h = default_histories and C = C and ops = ops]
  by (simp add: histories_ok_def within_limits_def default_histories_def)

text \<open>A history established for a session that had none is the newest one, and empty.\<close>

lemma establish_holds_log:
  assumes ok: "histories_ok h0" and lim: "same_limits default_histories h0"
    and none: "lookup_history h0 sid = None" and est: "establish uuid sid revision h0 = (c, h)"
  shows "c = \<lparr>sc_session = sid, sc_incarnation = uuid, sc_revision = revision\<rparr> \<and>
    holds_log c sid revision [] h \<and> same_limits default_histories h"
proof -
  let ?w = "(forget_session sid h0)\<lparr>hs_sessions := AList.update sid \<lparr>hi_cursor = c, hi_batches = []\<rparr>
      (hs_sessions (forget_session sid h0)), hs_order := hs_order (forget_session sid h0) @ [sid]\<rparr>"
  have "start_history uuid sid revision h0 = (c, h)"
    using none est by (simp add: establish_def lookup_history_def)
  then have c: "c = \<lparr>sc_session = sid, sc_incarnation = uuid, sc_revision = revision\<rparr>" and h: "h = enforce_limits ?w"
    by (auto simp: start_history_def Let_def)
  have "queued h0" using ok by (simp add: histories_ok_def)
  then have q: "queued ?w"
    using queued_enqueue [OF queued_forget, of h0 sid sid "\<lparr>hi_cursor = c, hi_batches = []\<rparr>"]
    by (simp add: forget_session_def)
  have limw: "same_limits h0 ?w" by (simp add: forget_session_def)
  have "map_of (hs_sessions h) sid = Some \<lparr>hi_cursor = c, hi_batches = []\<rparr> \<and> (\<exists>ks. hs_order h = ks @ [sid])"
    unfolding h
    by (rule enforce_keeps_newest [OF q]) (use lim limw in \<open>simp_all add: history_bytes_def default_histories_def\<close>)
  moreover have "queued h" using enforce_limits_spec [OF q] unfolding h by blast
  moreover have "same_limits default_histories h" using enforce_same_limits [of ?w] lim limw unfolding h by simp
  ultimately show ?thesis using c by (auto simp: holds_log_def)
qed

text \<open>A read of a history that still holds the whole log since the cursor.\<close>

lemma read_held_log:
  assumes roundtrip: "\<And>es. decode_events C (encode_events C es) = Some es"
    and c: "sc_session c = sid" "sc_revision c = revision"
    and held: "holds_log c sid r' log h" and gap: "gapless revision log r'"
    and young: "\<forall>b \<in> set log. now - hb_at b < hs_max_age h"
    and events: "map hb_encoded log = map (encode_events C) eventss"
  shows "\<exists>cursor batches h'. changes_since C c now h = (Changes cursor batches, h') \<and> map cb_events batches = eventss"
proof -
  obtain hist where hist: "map_of (hs_sessions h) sid = Some hist" "hi_cursor hist = c\<lparr>sc_revision := r'\<rparr>"
    "hi_batches hist = log" using held unfolding holds_log_def by blast
  obtain batches where batches: "replay C c revision log = Some (batches, r')" "map cb_events batches = eventss"
    using replay_all [OF roundtrip gap events, of c] by blast
  have look: "map_of (hs_sessions (expire now h)) sid = Some hist"
    using hist(1,3) aged_young [of hist now "hs_max_age h"] young by simp
  have late: "filter (\<lambda>b. hb_next b > revision) (hi_batches hist) = hi_batches hist"
    using gapless_next [OF gap] hist(3) by (simp add: filter_id_conv)
  have "changes_since C c now h = (Changes (hi_cursor hist) batches, expire now h)"
    using c look late hist(2,3) batches(1) gapless_next [OF gap]
    by (simp add: changes_since_def Let_def del: lookup_expire)
  then show ?thesis using batches(2) by blast
qed

text \<open>C29: A client that established a cursor for a session that had no history, and reads after
  publications of that session that together keep to the limits, before any of them has aged, is given
  all of them and not sent back to a snapshot.\<close>

theorem replay_served:
  assumes "\<And>es. decode_events C (encode_events C es) = Some es"
    and "lookup_history (run_sync C earlier default_histories) sid = None"
    and "establish uuid sid revision (run_sync C earlier default_histories) = (c, h)"
    and "ascending revision us"
    and "\<forall>(new, events, at) \<in> set us. at \<le> now \<and> now - at < 120000"
    and "sum_list (map (\<lambda>(new, events, at). length (encode_events C events)) us) \<le> 8 * 1024 * 1024"
    and "length us \<le> 256"
  shows "\<exists>cursor batches h'.
    changes_since C c now (run_sync C (publish_ops sid revision us) h) = (Changes cursor batches, h') \<and>
    map cb_events batches = map (\<lambda>(new, events, at). events) us"
proof -
  let ?h1 = "run_sync C (publish_ops sid revision us) h"
  have ok: "histories_ok (run_sync C earlier default_histories)" by (rule sync_run_ok [OF sync_default_ok])
  have "same_limits default_histories (run_sync C earlier default_histories)"
    using run_limits [where h = default_histories and C = C and ops = earlier] by simp
  from establish_holds_log [OF ok this assms(2,3)]
  have c: "c = \<lparr>sc_session = sid, sc_incarnation = uuid, sc_revision = revision\<rparr>"
    and empty: "holds_log c sid revision [] h" and lim: "same_limits default_histories h" by blast+
  from holds_log_run [OF empty assms(4), of now C] assms(5-7) lim
  obtain r' where held: "holds_log c sid r' (log_of C sid revision us) ?h1"
    and young: "\<forall>b \<in> set (log_of C sid revision us). now - hb_at b < 120000"
    by (auto simp: default_histories_def)
  have "Sync_establish u s r \<notin> set (publish_ops sid revision us)" for u s r
    by (induction sid revision us rule: publish_ops.induct) auto
  then have "follows c (log_of C sid revision us) ?h1"
    using follows_run [of c "[]" h "publish_ops sid revision us" C] establish_follows [OF ok assms(3)]
    by (simp add: log_of_def)
  then have gap: "gapless revision (log_of C sid revision us) r'"
    using held unfolding follows_def holds_log_def lookup_history_def by (auto simp: c)
  have "hs_max_age ?h1 = 120000"
    using run_limits [where h = h and C = C and ops = "publish_ops sid revision us"] lim
    by (simp add: default_histories_def)
  then show ?thesis
    using read_held_log [OF assms(1) _ _ held gap, of now "map (\<lambda>(new, events, at). events) us"] young
    by (simp add: c log_of_def logged_published publish_ops_events)
qed

text \<open>A codec over natural numbers as events, a byte each.\<close>

definition sample_codec :: "nat codec" where
  "sample_codec = \<lparr>encode_events = (\<lambda>es. es), decode_events = (\<lambda>bs. Some bs)\<rparr>"

theorem replay_served_witness:
  "\<exists>cursor batches h'.
    changes_since sample_codec (fst (establish [1] [7] 3 default_histories)) 2000
      (run_sync sample_codec (publish_ops [7] 3 [(4, [10], 500), (6, [11, 12], 1000)])
        (snd (establish [1] [7] 3 default_histories))) = (Changes cursor batches, h') \<and>
    map cb_events batches = [[10], [11, 12]]"
proof -
  have "\<exists>cursor batches h'.
    changes_since sample_codec (fst (establish [1] [7] 3 default_histories)) 2000
      (run_sync sample_codec (publish_ops [7] 3 [(4, [10], 500), (6, [11, 12], 1000)])
        (snd (establish [1] [7] 3 default_histories))) = (Changes cursor batches, h') \<and>
    map cb_events batches = map (\<lambda>(new, events, at). events) [(4::nat, [10], 500::nat), (6, [11, 12], 1000)]"
    by (rule replay_served [where C = sample_codec and earlier = "[]" and uuid = "[1]" and sid = "[7]" and revision = 3])
      (simp_all add: sample_codec_def run_sync_def lookup_history_def default_histories_def)
  then show ?thesis by simp
qed

text \<open>Another client establishes the same cursor, another session is published and removed.\<close>

definition sample_later :: "nat sync_op list" where
  "sample_later =
     [Sync_record [7] (Some 3) 4 [10] 500, Sync_establish [2] [8] 1, Sync_record [8] (Some 1) 2 [20] 600,
      Sync_establish [3] [7] 4, Sync_record [7] (Some 4) 6 [11] 1000, Sync_remove [8]]"

lemma sample_read:
  "\<exists>batches h'. changes_since sample_codec \<lparr>sc_session = [7], sc_incarnation = [1], sc_revision = 3\<rparr> 2000
      (run_sync sample_codec sample_later (snd (establish [1] [7] 3 default_histories))) =
    (Changes \<lparr>sc_session = [7], sc_incarnation = [1], sc_revision = 6\<rparr> batches, h')"
  by (simp add: sample_later_def run_sync_def establish_def start_history_def default_histories_def forget_session_def
      enforce_limits.simps within_limits_def retained_bytes_def retained_batches_def history_bytes_def
      record_changes_def expire_def append_batch_def changes_since_def sample_codec_def Let_def)

theorem replay_complete_witness:
  "\<exists>batches h'. changes_since sample_codec \<lparr>sc_session = [7], sc_incarnation = [1], sc_revision = 3\<rparr> 2000
      (run_sync sample_codec sample_later (snd (establish [1] [7] 3 default_histories))) =
    (Changes \<lparr>sc_session = [7], sc_incarnation = [1], sc_revision = 6\<rparr> batches, h') \<and>
    map cb_events batches = [[10], [11]]"
proof -
  let ?c = "\<lparr>sc_session = [7], sc_incarnation = [1], sc_revision = 3\<rparr>"
  obtain batches h' where read: "changes_since sample_codec ?c 2000
      (run_sync sample_codec sample_later (snd (establish [1] [7] 3 default_histories))) =
    (Changes \<lparr>sc_session = [7], sc_incarnation = [1], sc_revision = 6\<rparr> batches, h')"
    using sample_read by blast
  have "map cb_events batches = recorded_events [7] sample_later \<and>
    successively (\<lambda>b b'. cb_next b = cb_base b') batches \<and>
    (if batches = [] then \<lparr>sc_session = [7], sc_incarnation = [1], sc_revision = 6\<rparr> = ?c
     else cb_base (hd batches) = ?c \<and> cb_next (last batches) = \<lparr>sc_session = [7], sc_incarnation = [1], sc_revision = 6\<rparr>)"
  proof (rule replay_complete [OF _ _ _ read])
    show "establish [1] [7] 3 (run_sync sample_codec [] default_histories) =
        (?c, snd (establish [1] [7] 3 default_histories))"
      by (simp add: run_sync_def establish_def start_history_def default_histories_def Let_def)
  qed (simp_all add: sample_codec_def sample_later_def)
  then show ?thesis using read by (auto simp: recorded_events_def sample_later_def)
qed

end
