(* ===== verification/View_Events.thy ===== *)
theory View_Events
  imports Transcript_Pages
begin

text \<open>
  What the server publishes when a session changed: the events of \<open>session_publications\<close> and
  \<open>transcript_events\<close> in \<open>src/src/server.rs\<close>, over the views of
  \<open>src/crates/nakode-protocol/src/view.rs\<close>.

  The fields of a view that this code only copies and compares have the type \<open>'o\<close>.  Slices panic
  off a character boundary, so what slices is an \<open>option\<close> with the panic as \<open>None\<close>.  Scopes and
  events that only the workspace's own publications use are left out.
\<close>

definition MAX_TRANSCRIPT_DELTA_BYTES :: nat where "MAX_TRANSCRIPT_DELTA_BYTES = 64 * 1024"

section \<open>Views and events\<close>

record 'o run_view =
  rv_id :: ustring
  rv_metadata :: 'o
  rv_transcript :: page_view
  rv_rest :: 'o

record 'o session_view =
  sv_id :: ustring
  sv_revision :: nat
  sv_metadata :: 'o
  sv_transcript :: page_view
  sv_queue :: "'o list"
  sv_interactions :: "'o list"
  sv_todos :: "'o list"
  sv_runs :: "'o run_view list"
  sv_runs_has_earlier :: bool
  sv_rest :: 'o

record window_view =
  wv_entry_ids :: "ustring list"
  wv_has_earlier :: bool
  wv_stream_active :: bool
  wv_stream_label :: ustring

datatype 'o view_event =
  SessionChanged "'o session_view"
| SessionMetadataChanged ustring nat 'o
| TranscriptEntryCreated ustring nat entry_view
| TranscriptEntryPatched ustring nat entry_view
| TranscriptEntryDelta ustring nat ustring nat ustring entry_status
| TranscriptWindowChanged ustring nat window_view
| QueueChanged ustring nat "'o list"
| InteractionsChanged ustring nat "'o list"
| TodosChanged ustring nat "'o list"
| RunChanged ustring nat "'o run_view"
| RunRemoved ustring nat ustring
| RunWindowChanged ustring nat "ustring list" bool
| RunMetadataChanged ustring nat "ustring \<times> 'o"
| RunTranscriptEntryCreated ustring nat ustring entry_view
| RunTranscriptEntryPatched ustring nat ustring entry_view
| RunTranscriptEntryDelta ustring nat ustring ustring nat ustring entry_status
| RunTranscriptWindowChanged ustring nat ustring window_view

datatype scope = SessionScope ustring | RunScope ustring

record 'o publication =
  pb_scopes :: "scope list"
  pb_event :: "'o view_event"

datatype transcript_target = SessionTarget ustring nat | RunTarget ustring nat ustring

definition target_run_id :: "transcript_target \<Rightarrow> ustring option" where
  "target_run_id target = (case target of SessionTarget _ _ \<Rightarrow> None | RunTarget _ _ run \<Rightarrow> Some run)"

definition created :: "transcript_target \<Rightarrow> entry_view \<Rightarrow> 'o view_event" where
  "created target entry =
     (case target of SessionTarget sid revision \<Rightarrow> TranscriptEntryCreated sid revision entry
      | RunTarget sid revision run \<Rightarrow> RunTranscriptEntryCreated sid revision run entry)"

definition patched :: "transcript_target \<Rightarrow> entry_view \<Rightarrow> 'o view_event" where
  "patched target entry =
     (case target of SessionTarget sid revision \<Rightarrow> TranscriptEntryPatched sid revision entry
      | RunTarget sid revision run \<Rightarrow> RunTranscriptEntryPatched sid revision run entry)"

definition delta_event ::
  "transcript_target \<Rightarrow> ustring \<Rightarrow> nat \<Rightarrow> ustring \<Rightarrow> entry_status \<Rightarrow> 'o view_event" where
  "delta_event target entry_id append_at delta status =
     (case target of
        SessionTarget sid revision \<Rightarrow> TranscriptEntryDelta sid revision entry_id append_at delta status
      | RunTarget sid revision run \<Rightarrow> RunTranscriptEntryDelta sid revision run entry_id append_at delta status)"

definition window_event :: "transcript_target \<Rightarrow> window_view \<Rightarrow> 'o view_event" where
  "window_event target window =
     (case target of SessionTarget sid revision \<Rightarrow> TranscriptWindowChanged sid revision window
      | RunTarget sid revision run \<Rightarrow> RunTranscriptWindowChanged sid revision run window)"

definition transcript_window :: "page_view \<Rightarrow> window_view" where
  "transcript_window page =
     \<lparr>wv_entry_ids = map ev_id (pg_entries page), wv_has_earlier = pg_has_earlier page,
      wv_stream_active = pg_stream_active page, wv_stream_label = pg_stream_label page\<rparr>"

section \<open>Deltas\<close>

text \<open>\<open>str::get(start..stop)\<close>.\<close>

definition str_get :: "ustring \<Rightarrow> nat \<Rightarrow> nat \<Rightarrow> ustring option" where
  "str_get s start stop =
     (if start \<le> stop \<and> is_char_boundary s start \<and> is_char_boundary s stop
      then Some (str_from (str_to s stop) start) else None)"

definition appended_transcript_delta ::
  "transcripts \<Rightarrow> ustring option \<Rightarrow> entry_view \<Rightarrow> nat option \<Rightarrow> nat option \<Rightarrow> ustring option" where
  "appended_transcript_delta st run_id previous previous_length current_length =
     (case (previous_length, current_length) of
        (Some old, Some new) \<Rightarrow>
          if new < old \<or> byte_len (ev_body previous) > old then None
          else (case transcript_entry_body st run_id (ev_id previous) of
             None \<Rightarrow> None
           | Some body \<Rightarrow>
               if str_get body (old - byte_len (ev_body previous)) old \<noteq> Some (ev_body previous) then None
               else str_get body old new)
      | _ \<Rightarrow> None)"

text \<open>A chunk ends at the last boundary within the limit, or after one character.\<close>

function floor_boundary :: "ustring \<Rightarrow> nat \<Rightarrow> nat \<Rightarrow> nat" where
  "floor_boundary s start stop =
     (if stop > start \<and> \<not> is_char_boundary s stop then floor_boundary s start (stop - 1) else stop)"
  by pat_completeness auto
termination by (relation "measure (\<lambda>(s, start, stop). stop)") auto

declare floor_boundary.simps [simp del]

lemma floor_boundary_range: "start \<le> stop \<Longrightarrow> start \<le> floor_boundary s start stop \<and> floor_boundary s start stop \<le> stop"
proof (induction s start stop rule: floor_boundary.induct)
  case (1 s start stop)
  show ?case
  proof (cases "stop > start \<and> \<not> is_char_boundary s stop")
    case True
    then have "floor_boundary s start stop = floor_boundary s start (stop - 1)"
      by (subst floor_boundary.simps) simp
    then show ?thesis using 1 True by simp linarith
  next
    case False
    then have "floor_boundary s start stop = stop" by (subst floor_boundary.simps) auto
    then show ?thesis using 1 by simp
  qed
qed

definition chunk_end :: "ustring \<Rightarrow> nat \<Rightarrow> nat \<Rightarrow> nat" where
  "chunk_end s limit start =
     (let stop = floor_boundary s start (min (start + limit) (byte_len s)) in
      if stop = start
      then (case str_from s start of c # _ # _ \<Rightarrow> start + len_utf8 c | _ \<Rightarrow> byte_len s)
      else stop)"

lemma chunk_end_grows: "start < byte_len s \<Longrightarrow> start < chunk_end s limit start"
  using floor_boundary_range [of start "min (start + limit) (byte_len s)" s]
  by (auto simp: chunk_end_def Let_def split: list.splits)

function chunks_from :: "ustring \<Rightarrow> nat \<Rightarrow> nat \<Rightarrow> ustring list option" where
  "chunks_from s limit start =
     (if start < byte_len s
      then (case str_get s start (chunk_end s limit start) of
              None \<Rightarrow> None
            | Some chunk \<Rightarrow> map_option ((#) chunk) (chunks_from s limit (chunk_end s limit start)))
      else Some [])"
  by pat_completeness auto
termination
  by (relation "measure (\<lambda>(s, limit, start). byte_len s - start)")
    (auto intro: diff_less_mono2 chunk_end_grows)

declare chunks_from.simps [simp del]

definition utf8_chunks :: "ustring \<Rightarrow> nat \<Rightarrow> ustring list option" where
  "utf8_chunks s limit = chunks_from s limit 0"

primrec delta_events ::
  "transcript_target \<Rightarrow> entry_view \<Rightarrow> nat \<Rightarrow> ustring list \<Rightarrow> 'o view_event list" where
  "delta_events target entry append_at [] = []"
| "delta_events target entry append_at (chunk # chunks) =
     delta_event target (ev_id entry) append_at chunk (ev_status entry) #
     delta_events target entry (append_at + byte_len chunk) chunks"

section \<open>The events of a transcript\<close>

text \<open>What one entry of the current page publishes.\<close>

definition entry_events ::
  "transcripts \<Rightarrow> transcript_target \<Rightarrow> entry_view list \<Rightarrow> (ustring \<Rightarrow> nat option) \<Rightarrow>
   (ustring \<Rightarrow> nat option) \<Rightarrow> entry_view \<Rightarrow> 'o view_event list option" where
  "entry_events st target previous previous_lengths current_lengths entry =
     (case List.find (\<lambda>candidate. ev_id candidate = ev_id entry) previous of
        None \<Rightarrow> Some [created target entry]
      | Some old \<Rightarrow>
          if old = entry then Some []
          else case appended_transcript_delta st (target_run_id target) old
                  (previous_lengths (ev_id entry)) (current_lengths (ev_id entry)) of
            None \<Rightarrow> Some [patched target entry]
          | Some delta \<Rightarrow>
              if ev_kind old = ev_kind entry \<and> ev_title old = ev_title entry \<and>
                 ev_artifacts old = ev_artifacts entry \<and> delta \<noteq> []
              then map_option (delta_events target entry
                     (case previous_lengths (ev_id entry) of Some n \<Rightarrow> n | None \<Rightarrow> 0))
                     (utf8_chunks delta MAX_TRANSCRIPT_DELTA_BYTES)
              else Some [patched target entry])"

primrec concat_options :: "'a list option list \<Rightarrow> 'a list option" where
  "concat_options [] = Some []"
| "concat_options (x # xs) = Option.bind x (\<lambda>a. map_option ((@) a) (concat_options xs))"

definition transcript_events ::
  "transcripts \<Rightarrow> transcript_target \<Rightarrow> page_view \<Rightarrow> (ustring \<Rightarrow> nat option) \<Rightarrow> page_view \<Rightarrow>
   (ustring \<Rightarrow> nat option) \<Rightarrow> 'o view_event list option" where
  "transcript_events st target previous previous_lengths current current_lengths =
     map_option (\<lambda>events. events @
         (if transcript_window previous \<noteq> transcript_window current
          then [window_event target (transcript_window current)] else []))
       (concat_options (map (entry_events st target (pg_entries previous) previous_lengths current_lengths)
         (pg_entries current)))"

end
