(* ===== verification/View_Tracking.thy ===== *)
theory View_Tracking
  imports View_Events Session_Sync
begin

text \<open>
  Publishing sessions and serving their changes: the published projections of \<open>src/src/server.rs\<close>
  with the generations each entry last changed in (\<open>track_changes\<close>), what a watch reads since a
  generation (\<open>session_changes_view\<close>), what the client makes of it (\<open>apply_transcript_changes\<close> of
  \<open>src/crates/nakode-sdk/src/lib.rs\<close>), and the snapshot and changes of the incremental history.

  A session's engine is its revision, its transcripts, and the fields of the session view that are
  projected from the rest of its state (\<open>en_view\<close>).  Reading a page fills the caches of the
  transcript, so what projects a view returns the state it leaves; \<open>None\<close> is a panic.  Generations
  are naturals.  The conversion to the transport's messages and back is the identity on fields.
\<close>

record 'o engine =
  en_revision :: nat
  en_transcripts :: transcripts
  en_view :: "'o session_view"

record 'o published =
  pu_view :: "'o session_view"
  pu_transcript_lengths :: "ustring \<Rightarrow> nat option"
  pu_run_transcript_lengths :: "ustring \<Rightarrow> (ustring \<Rightarrow> nat option) option"
  pu_generation :: nat
  pu_entry_generations :: "nat list"
  pu_order_generation :: nat
  pu_tracked_since :: nat

record 'o server_core =
  co_sessions :: "ustring \<Rightarrow> 'o engine option"
  co_published :: "ustring \<Rightarrow> 'o published option"
  co_generation :: nat
  co_histories :: histories
  co_inventory_complete :: bool

text \<open>Third-party code: the transcript's, the serializer of events, and \<open>Debug\<close> of a string.\<close>

record 'o publisher =
  px_proofs :: proof_ext
  px_codec :: "'o view_event codec"
  px_debug :: "ustring \<Rightarrow> ustring"

section \<open>Projecting a session\<close>

definition unobserved_resource ::
  "'o publisher \<Rightarrow> 'o server_core \<Rightarrow> ustring \<Rightarrow> ustring \<Rightarrow> service_error" where
  "unobserved_resource X core kind i =
     (if co_inventory_complete core
      then \<lparr>code = NotFound, message = kind @ lit '' '' @ px_debug X i @ lit '' was not found'', retryable = False\<rparr>
      else \<lparr>code = Internal, message = lit ''Session inventory is unavailable; resource absence cannot be established. Retry after the service recovers.'',
            retryable = True\<rparr>)"

definition engine_view :: "'o publisher \<Rightarrow> 'o engine \<Rightarrow> ('o session_view \<times> 'o engine) option" where
  "engine_view X e =
     (case transcript_page (px_proofs X) (session_transcript (en_transcripts e)) of
        (None, _) \<Rightarrow> None
      | (Some page, t) \<Rightarrow>
          Some ((en_view e)\<lparr>sv_revision := en_revision e, sv_transcript := page\<rparr>,
                e\<lparr>en_transcripts := (en_transcripts e)\<lparr>session_transcript := t\<rparr>\<rparr>))"

definition view_of_session ::
  "'o publisher \<Rightarrow> ustring \<Rightarrow> 'o server_core \<Rightarrow> ((service_error + 'o session_view) \<times> 'o server_core) option" where
  "view_of_session X sid core =
     (case co_sessions core sid of
        None \<Rightarrow> Some (Inl (unobserved_resource X core (lit ''session'') sid), core)
      | Some e \<Rightarrow> map_option (\<lambda>(view, e). (Inr view, core\<lparr>co_sessions := (co_sessions core)(sid \<mapsto> e)\<rparr>))
          (engine_view X e))"

primrec lengths_loop ::
  "ustring set \<Rightarrow> transcript_entry list \<Rightarrow> (ustring \<times> nat) list \<Rightarrow> (ustring \<times> nat) list" where
  "lengths_loop wanted [] lengths = lengths"
| "lengths_loop wanted (e # es) lengths =
     (if length lengths = card wanted then lengths
      else lengths_loop wanted es
        (if te_id e \<in> wanted then AList.update (te_id e) (byte_len (te_body e)) lengths else lengths))"

definition transcript_lengths :: "transcripts \<Rightarrow> ustring option \<Rightarrow> page_view \<Rightarrow> ustring \<Rightarrow> nat option" where
  "transcript_lengths st run_id page =
     (case owner_transcript st run_id of None \<Rightarrow> Map.empty
      | Some t \<Rightarrow> map_of (lengths_loop (set (map ev_id (pg_entries page))) (rev (entries t)) []))"

definition published_session ::
  "'o publisher \<Rightarrow> ustring \<Rightarrow> 'o server_core \<Rightarrow> ('o published option \<times> 'o server_core) option" where
  "published_session X sid core =
     (case co_sessions core sid of None \<Rightarrow> Some (None, core)
      | Some e \<Rightarrow> map_option (\<lambda>(view, e).
          (Some \<lparr>pu_view = view,
             pu_transcript_lengths = transcript_lengths (en_transcripts e) None (sv_transcript view),
             pu_run_transcript_lengths = map_of (rev (map (\<lambda>run. (rv_id run,
               transcript_lengths (en_transcripts e) (Some (rv_id run)) (rv_transcript run))) (sv_runs view))),
             pu_generation = 0, pu_entry_generations = [], pu_order_generation = 0, pu_tracked_since = 0\<rparr>,
           core\<lparr>co_sessions := (co_sessions core)(sid \<mapsto> e)\<rparr>)) (engine_view X e))"

section \<open>What a publication consists of\<close>

definition lengths_of_run :: "'o published \<Rightarrow> ustring \<Rightarrow> ustring \<Rightarrow> nat option" where
  "lengths_of_run p run_id = (case pu_run_transcript_lengths p run_id of None \<Rightarrow> Map.empty | Some m \<Rightarrow> m)"

definition one_run_publications ::
  "'o engine \<Rightarrow> 'o published \<Rightarrow> 'o published \<Rightarrow> 'o run_view \<Rightarrow> 'o publication list option" where
  "one_run_publications e previous current run =
     (let sid = sv_id (pu_view current); revision = sv_revision (pu_view current);
          scopes = [SessionScope sid, RunScope (rv_id run)];
          publish = (\<lambda>event. \<lparr>pb_scopes = scopes, pb_event = event\<rparr>) in
      case List.find (\<lambda>candidate. rv_id candidate = rv_id run) (sv_runs (pu_view previous)) of
        None \<Rightarrow> Some [publish (RunChanged sid revision run)]
      | Some old \<Rightarrow>
          map_option (\<lambda>events.
              (if (rv_id old, rv_metadata old) \<noteq> (rv_id run, rv_metadata run)
               then [publish (RunMetadataChanged sid revision (rv_id run, rv_metadata run))] else []) @
              map publish events)
            (transcript_events (en_transcripts e) (RunTarget sid revision (rv_id run))
              (rv_transcript old) (lengths_of_run previous (rv_id run))
              (rv_transcript run) (lengths_of_run current (rv_id run))))"

definition run_publications ::
  "'o engine \<Rightarrow> 'o published \<Rightarrow> 'o published \<Rightarrow> 'o publication list option" where
  "run_publications e previous current =
     (let old = pu_view previous; new = pu_view current; sid = sv_id new; revision = sv_revision new;
          publish = (\<lambda>event. \<lparr>pb_scopes = [SessionScope sid], pb_event = event\<rparr>) in
      map_option (\<lambda>pubs. pubs @
          map (\<lambda>run. publish (RunRemoved sid revision (rv_id run)))
            (filter (\<lambda>run. \<not> list_ex (\<lambda>candidate. rv_id candidate = rv_id run) (sv_runs new)) (sv_runs old)) @
          (if map rv_id (sv_runs old) \<noteq> map rv_id (sv_runs new) \<or> sv_runs_has_earlier old \<noteq> sv_runs_has_earlier new
           then [publish (RunWindowChanged sid revision (map rv_id (sv_runs new)) (sv_runs_has_earlier new))] else []))
        (concat_options (map (one_run_publications e previous current) (sv_runs new))))"

definition session_publications ::
  "'o server_core \<Rightarrow> 'o published option \<Rightarrow> 'o published \<Rightarrow> 'o publication list option" where
  "session_publications core previous current =
     (let new = pu_view current; sid = sv_id new; revision = sv_revision new;
          publish = (\<lambda>event. \<lparr>pb_scopes = [SessionScope sid], pb_event = event\<rparr>) in
      case previous of
        None \<Rightarrow> Some [\<lparr>pb_scopes = SessionScope sid # map (\<lambda>run. RunScope (rv_id run)) (sv_runs new),
                      pb_event = SessionChanged new\<rparr>]
      | Some p \<Rightarrow>
          (case co_sessions core sid of None \<Rightarrow> Some []
           | Some e \<Rightarrow>
               let old = pu_view p in
               Option.bind (transcript_events (en_transcripts e) (SessionTarget sid revision)
                   (sv_transcript old) (pu_transcript_lengths p)
                   (sv_transcript new) (pu_transcript_lengths current)) (\<lambda>events.
               map_option (\<lambda>runs.
                   let pubs =
                     (if sv_metadata old \<noteq> sv_metadata new
                      then [publish (SessionMetadataChanged sid revision (sv_metadata new))] else []) @
                     map publish events @
                     (if sv_queue old \<noteq> sv_queue new then [publish (QueueChanged sid revision (sv_queue new))] else []) @
                     (if sv_interactions old \<noteq> sv_interactions new
                      then [publish (InteractionsChanged sid revision (sv_interactions new))] else []) @
                     (if sv_todos old \<noteq> sv_todos new then [publish (TodosChanged sid revision (sv_todos new))] else []) @
                     runs in
                   if pubs = [] then [publish (SessionMetadataChanged sid revision (sv_metadata new))] else pubs)
                 (run_publications e p current))))"

section \<open>Which entries changed when\<close>

text \<open>\<open>Iterator::rposition\<close>.\<close>

definition last_index :: "('a \<Rightarrow> bool) \<Rightarrow> 'a list \<Rightarrow> nat option" where
  "last_index P xs = map_option (\<lambda>i. length xs - 1 - i) (position P (rev xs))"

definition carried_generations :: "'o published \<Rightarrow> entry_view list \<Rightarrow> nat \<Rightarrow> nat list option" where
  "carried_generations previous es generation =
     (let generations = replicate (length es) generation;
          previous_entries = pg_entries (sv_transcript (pu_view previous)) in
      case es of [] \<Rightarrow> Some generations
      | first # _ \<Rightarrow>
          (case position (\<lambda>e. ev_id e = ev_id first) previous_entries of
             None \<Rightarrow> Some generations
           | Some offset \<Rightarrow>
               let kept = length previous_entries - offset in
               if kept \<le> length es \<and>
                  list_all (\<lambda>(before, after). ev_id before = ev_id after) (zip (drop offset previous_entries) es)
               then (if offset \<le> length (pu_entry_generations previous) \<and>
                        length (drop offset (pu_entry_generations previous)) = kept
                     then Some (drop offset (pu_entry_generations previous) @ drop kept generations) else None)
               else Some generations))"

definition changed_entry_id :: "'o view_event \<Rightarrow> ustring option" where
  "changed_entry_id event =
     (case event of
        TranscriptEntryCreated _ _ entry \<Rightarrow> Some (ev_id entry)
      | TranscriptEntryPatched _ _ entry \<Rightarrow> Some (ev_id entry)
      | TranscriptEntryDelta _ _ entry_id _ _ _ \<Rightarrow> Some entry_id
      | _ \<Rightarrow> None)"

definition window_changed :: "'o view_event \<Rightarrow> bool" where
  "window_changed event = (case event of TranscriptWindowChanged _ _ _ \<Rightarrow> True | _ \<Rightarrow> False)"

primrec mark_entries ::
  "entry_view list \<Rightarrow> nat \<Rightarrow> 'o publication list \<Rightarrow> nat list \<Rightarrow> nat list option" where
  "mark_entries es generation [] generations = Some generations"
| "mark_entries es generation (pub # pubs) generations =
     (case changed_entry_id (pb_event pub) of
        None \<Rightarrow> mark_entries es generation pubs generations
      | Some changed \<Rightarrow>
          (case last_index (\<lambda>e. ev_id e = changed) es of
             None \<Rightarrow> mark_entries es generation pubs generations
           | Some i \<Rightarrow>
               if i < length generations
               then mark_entries es generation pubs (generations[i := generation]) else None))"

definition track_changes ::
  "'o published \<Rightarrow> 'o published option \<Rightarrow> 'o publication list \<Rightarrow> nat \<Rightarrow> 'o published option" where
  "track_changes current previous publications generation =
     (let current = current\<lparr>pu_generation := generation\<rparr>; es = pg_entries (sv_transcript (pu_view current));
          fresh = current\<lparr>pu_tracked_since := generation, pu_order_generation := generation,
                    pu_entry_generations := replicate (length es) generation\<rparr> in
      case previous of None \<Rightarrow> Some fresh
      | Some p \<Rightarrow>
          if pu_generation p = 0 then Some fresh
          else
            let current = current\<lparr>pu_tracked_since := pu_tracked_since p\<rparr>;
                moved = (list_ex (\<lambda>pub. window_changed (pb_event pub)) publications \<or>
                  length (pu_entry_generations p) \<noteq> length es) in
            Option.bind (if moved then carried_generations p es generation else Some (pu_entry_generations p))
              (\<lambda>generations. map_option (\<lambda>marked.
                 current\<lparr>pu_order_generation := (if moved then generation else pu_order_generation p),
                   pu_entry_generations := marked\<rparr>)
                 (mark_entries es generation publications generations)))"

section \<open>The server's operations\<close>

definition publish_session_state ::
  "'o publisher \<Rightarrow> ustring \<Rightarrow> nat \<Rightarrow> 'o server_core \<Rightarrow> ('o publication list \<times> 'o server_core) option" where
  "publish_session_state X sid now core =
     Option.bind (published_session X sid core) (\<lambda>(session, core).
       case session of None \<Rightarrow> Some ([], core)
       | Some current \<Rightarrow>
           let previous = co_published core sid; generation = co_generation core + 1 in
           Option.bind (session_publications core previous current) (\<lambda>publications.
           map_option (\<lambda>tracked.
               let changed = (case previous of None \<Rightarrow> True | Some p \<Rightarrow> pu_view p \<noteq> pu_view tracked);
                   histories =
                     (if observes (co_histories core) sid \<and> changed
                      then record_changes (px_codec X) sid (map_option (sv_revision \<circ> pu_view) previous)
                        (sv_revision (pu_view tracked)) (map pb_event publications) now (co_histories core)
                      else co_histories core) in
               (publications, core\<lparr>co_generation := generation, co_histories := histories,
                  co_published := (co_published core)(sid \<mapsto> tracked)\<rparr>))
             (track_changes current previous publications generation)))"

definition release_session :: "ustring \<Rightarrow> 'o server_core \<Rightarrow> 'o server_core" where
  "release_session sid core =
     core\<lparr>co_sessions := (co_sessions core)(sid := None), co_published := (co_published core)(sid := None),
       co_histories := forget_session sid (co_histories core)\<rparr>"

record 'o changes_view =
  cv_generation :: nat
  cv_changes :: "ustring list option option"
  cv_session :: "'o session_view"

abbreviation view_entries :: "'o session_view \<Rightarrow> entry_view list" where
  "view_entries view \<equiv> pg_entries (sv_transcript view)"

definition with_entries :: "entry_view list \<Rightarrow> 'o session_view \<Rightarrow> 'o session_view" where
  "with_entries es view = view\<lparr>sv_transcript := (sv_transcript view)\<lparr>pg_entries := es\<rparr>\<rparr>"

text \<open>The published projection a read may use, and what it makes of it.\<close>

definition current_publication :: "'o server_core \<Rightarrow> ustring \<Rightarrow> 'o published option" where
  "current_publication core sid =
     (case co_published core sid of None \<Rightarrow> None
      | Some p \<Rightarrow>
          if pu_generation p \<noteq> 0 \<and> Some (sv_revision (pu_view p)) = map_option en_revision (co_sessions core sid)
          then Some p else None)"

definition published_changes :: "'o published \<Rightarrow> nat \<Rightarrow> 'o changes_view" where
  "published_changes p since =
     (if since \<noteq> 0 \<and> since \<ge> pu_tracked_since p
      then \<lparr>cv_generation = pu_generation p,
             cv_changes = Some (if pu_order_generation p > since
               then Some (map ev_id (view_entries (pu_view p))) else None),
             cv_session = with_entries
               (map fst (filter (\<lambda>(entry, generation). generation > since)
                 (zip (view_entries (pu_view p)) (pu_entry_generations p)))) (pu_view p)\<rparr>
      else \<lparr>cv_generation = pu_generation p, cv_changes = None, cv_session = pu_view p\<rparr>)"

definition session_changes_view ::
  "'o publisher \<Rightarrow> ustring \<Rightarrow> nat \<Rightarrow> 'o server_core \<Rightarrow> ((service_error + 'o changes_view) \<times> 'o server_core) option" where
  "session_changes_view X sid since core =
     (case current_publication core sid of
        Some p \<Rightarrow> Some (Inr (published_changes p since), core)
      | None \<Rightarrow> map_option (\<lambda>(r, core).
          (map_sum id (\<lambda>view. \<lparr>cv_generation = 0, cv_changes = None, cv_session = view\<rparr>) r, core))
          (view_of_session X sid core))"

text \<open>The snapshot and the changes of the incremental history.\<close>

definition session_sync_snapshot ::
  "'o publisher \<Rightarrow> ustring \<Rightarrow> ustring \<Rightarrow> 'o server_core \<Rightarrow>
   ((service_error + sync_cursor \<times> 'o session_view) \<times> 'o server_core) option" where
  "session_sync_snapshot X uuid sid core =
     map_option (\<lambda>(r, core).
       case r of Inl e \<Rightarrow> (Inl e, core)
       | Inr session \<Rightarrow>
           if (case co_published core sid of None \<Rightarrow> True | Some p \<Rightarrow> pu_view p \<noteq> session)
           then (Inl \<lparr>code = Conflict,
                   message = lit ''the incremental snapshot is awaiting session publication'', retryable = True\<rparr>, core)
           else
             let (cursor, histories) = establish uuid sid (sv_revision session) (co_histories core) in
             (Inr (cursor, session), core\<lparr>co_histories := histories\<rparr>))
       (view_of_session X sid core)"

definition session_sync_changes ::
  "'o publisher \<Rightarrow> sync_cursor \<Rightarrow> nat \<Rightarrow> 'o server_core \<Rightarrow>
   (service_error + 'o view_event session_changes) \<times> 'o server_core" where
  "session_sync_changes X cursor now core =
     (if co_sessions core (sc_session cursor) = None
      then (Inl \<lparr>code = NotFound, message = lit ''resource was not found: '' @ sc_session cursor, retryable = False\<rparr>, core)
      else let (changes, histories) = changes_since (px_codec X) cursor now (co_histories core) in
        (Inr changes, core\<lparr>co_histories := histories\<rparr>))"

section \<open>The client\<close>

record 'o session_state =
  ss_id :: ustring
  ss_transcript :: "page_view option"
  ss_rest :: "'o session_view"

text \<open>Every other field of the view, with the transcript's place blanked.\<close>

definition empty_page :: page_view where
  "empty_page =
     \<lparr>pg_prefix_before = [], pg_prefix_through = [], pg_next_before_entry_id = None, pg_entries = [],
      pg_has_earlier = False, pg_stream_active = False, pg_stream_label = [],
      pg_current_owner_entry = None, pg_current_owner_omitted_tool_calls = 0\<rparr>"

definition session_projection :: "'o session_view \<Rightarrow> 'o session_state" where
  "session_projection view =
     \<lparr>ss_id = sv_id view, ss_transcript = Some (sv_transcript view), ss_rest = view\<lparr>sv_transcript := empty_page\<rparr>\<rparr>"

text \<open>Replacing the held entries by the sent ones, or reordering both.\<close>

primrec replace_entries :: "entry_view list \<Rightarrow> entry_view list \<Rightarrow> entry_view list option" where
  "replace_entries held [] = Some held"
| "replace_entries held (entry # sent) =
     (case last_index (\<lambda>e. ev_id e = ev_id entry) held of
        None \<Rightarrow> None
      | Some i \<Rightarrow> replace_entries (held[i := entry]) sent)"

primrec ordered_entries ::
  "(ustring \<Rightarrow> entry_view option) \<Rightarrow> (ustring \<Rightarrow> entry_view option) \<Rightarrow> ustring list \<Rightarrow> entry_view list option" where
  "ordered_entries sent held [] = Some []"
| "ordered_entries sent held (i # ids) =
     (case sent i of
        Some entry \<Rightarrow> map_option ((#) entry) (ordered_entries (sent(i := None)) held ids)
      | None \<Rightarrow>
          (case held i of None \<Rightarrow> None
           | Some entry \<Rightarrow> map_option ((#) entry) (ordered_entries sent held ids)))"

definition by_id :: "entry_view list \<Rightarrow> ustring \<Rightarrow> entry_view option" where
  "by_id es = map_of (rev (map (\<lambda>e. (ev_id e, e)) es))"

definition apply_transcript_changes ::
  "'o session_state option \<Rightarrow> 'o session_state \<Rightarrow> ustring list option option \<Rightarrow> 'o session_state option" where
  "apply_transcript_changes previous state changes =
     (case changes of None \<Rightarrow> Some state
      | Some order \<Rightarrow>
          (case (Option.bind previous ss_transcript, ss_transcript state) of
             (Some held, Some page) \<Rightarrow>
               map_option (\<lambda>es. state\<lparr>ss_transcript := Some (page\<lparr>pg_entries := es\<rparr>)\<rparr>)
                 (case order of
                    None \<Rightarrow> replace_entries (pg_entries held) (pg_entries page)
                  | Some ids \<Rightarrow> ordered_entries (by_id (pg_entries page)) (by_id (pg_entries held)) ids)
           | _ \<Rightarrow> None))"

text \<open>One turn of a watch: the read of the generation it has, and what the client yields.  A read that
  changed nothing sends nothing; an error, or changes that do not apply, ends the stream.\<close>

record 'o watch =
  wa_generation :: nat
  wa_previous :: "'o session_state option"

definition new_watch :: "'o watch" where
  "new_watch = \<lparr>wa_generation = 0, wa_previous = None\<rparr>"

datatype 'o watch_reply =
  Failed service_error
| Unchanged
| Yielded "'o watch" "'o session_state"
| Reconnect
| Foreign

definition watch_read ::
  "'o publisher \<Rightarrow> ustring \<Rightarrow> 'o watch \<Rightarrow> 'o server_core \<Rightarrow> ('o watch_reply \<times> 'o server_core) option" where
  "watch_read X sid w core =
     map_option (\<lambda>(r, core).
       (case r of Inl e \<Rightarrow> Failed e
        | Inr v \<Rightarrow>
            if cv_generation v \<noteq> 0 \<and> cv_generation v = wa_generation w then Unchanged
            else case apply_transcript_changes (wa_previous w) (session_projection (cv_session v)) (cv_changes v) of
              None \<Rightarrow> Reconnect
            | Some state \<Rightarrow>
                if ss_id state \<noteq> sid then Foreign
                else Yielded \<lparr>wa_generation = cv_generation v, wa_previous = Some state\<rparr> state, core))
       (session_changes_view X sid (wa_generation w) core)"

end
