(* ===== verification/View_Watch.thy ===== *)
theory View_Watch
  imports View_Tracking Transcript_Guarantees
begin

text \<open>
  Why the changes a watch is sent rebuild the published view: which entries a publication marks
  (\<open>tracked_from\<close>), what the generations of a published projection say about a view a client holds
  (\<open>synced\<close>), and that every operation of the server keeps it.
\<close>

section \<open>Chunks of a delta\<close>

lemma boundary_beyond:
  assumes "is_char_boundary (a @ b) r" "byte_len a \<le> r"
  obtains c d where "b = c @ d" "r = byte_len (a @ c)"
proof -
  obtain p q where p: "a @ b = p @ q" "byte_len p = r" using assms(1) by (auto simp: boundary_iff)
  then consider us where "p = a @ us" "b = us @ q" | us where "a = p @ us" "q = us @ b"
    by (auto simp: append_eq_append_conv2)
  then show ?thesis
  proof cases
    case 1
    then show ?thesis using that [of us q] p(2) by simp
  next
    case 2
    then have "byte_len us = 0" using assms(2) p(2) by simp
    then have "us = []"
    proof (cases us)
      case (Cons x xs)
      then show ?thesis using \<open>byte_len us = 0\<close> len_utf8_pos [of x] by simp
    qed simp
    then show ?thesis using that [of "[]" b] 2 p(2) by simp
  qed
qed

lemma floor_boundary_boundary:
  "is_char_boundary s start \<Longrightarrow> start \<le> stop \<Longrightarrow> is_char_boundary s (floor_boundary s start stop)"
proof (induction s start stop rule: floor_boundary.induct)
  case (1 s start stop)
  then show ?case
    by (subst floor_boundary.simps) (cases "stop > start \<and> \<not> is_char_boundary s stop", auto simp: not_less le_antisym)
qed

lemma str_get_piece: "str_get (a @ c @ d) (byte_len a) (byte_len (a @ c)) = Some c"
proof -
  have "is_char_boundary (a @ c @ d) (byte_len (a @ c))"
    using boundary_append [of "a @ c" d] by simp
  moreover have "str_to (a @ c @ d) (byte_len (a @ c)) = a @ c"
    using str_to_append [of "a @ c" d] by simp
  ultimately show ?thesis by (simp add: str_get_def)
qed

lemma chunk_end_piece:
  assumes "b \<noteq> []"
  obtains c d where "b = c @ d" "c \<noteq> []" "chunk_end (a @ b) limit (byte_len a) = byte_len (a @ c)"
    "byte_len c \<le> limit \<or> length c = 1"
proof -
  let ?top = "min (byte_len a + limit) (byte_len (a @ b))"
  let ?stop = "floor_boundary (a @ b) (byte_len a) ?top"
  have top: "byte_len a \<le> ?top" by simp
  note range = floor_boundary_range [OF top, of "a @ b"]
  have "is_char_boundary (a @ b) ?stop" by (rule floor_boundary_boundary [OF boundary_append top])
  then obtain c d where cd: "b = c @ d" "?stop = byte_len (a @ c)"
    by (rule boundary_beyond) (use range in simp)
  show ?thesis
  proof (cases "c = []")
    case False
    then have "?stop \<noteq> byte_len a" using cd(2) by (cases c) (simp_all add: not_le)
    then have "chunk_end (a @ b) limit (byte_len a) = byte_len (a @ c)"
      using cd(2) by (simp add: chunk_end_def Let_def)
    moreover have "byte_len c \<le> limit" using range cd(2) by simp
    ultimately show ?thesis using that cd(1) False by blast
  next
    case True
    then have "?stop = byte_len a" using cd(2) by simp
    then have stop: "chunk_end (a @ b) limit (byte_len a) =
        (case b of x # _ # _ \<Rightarrow> byte_len a + len_utf8 x | _ \<Rightarrow> byte_len (a @ b))"
      by (simp add: chunk_end_def Let_def)
    obtain x b' where b: "b = x # b'" using assms by (cases b) auto
    then have "chunk_end (a @ b) limit (byte_len a) = byte_len (a @ [x])" using stop by (cases b') simp_all
    then show ?thesis using that [of "[x]" b'] b by simp
  qed
qed

lemma chunks_exact:
  "\<exists>cs. chunks_from (a @ b) limit (byte_len a) = Some cs \<and> concat cs = b \<and>
    (\<forall>c \<in> set cs. c \<noteq> [] \<and> (byte_len c \<le> limit \<or> length c = 1))"
proof (induction "length b" arbitrary: a b rule: less_induct)
  case less
  show ?case
  proof (cases "b = []")
    case True
    then show ?thesis by (subst chunks_from.simps) simp
  next
    case False
    then obtain c d where cd: "b = c @ d" "c \<noteq> []" "chunk_end (a @ b) limit (byte_len a) = byte_len (a @ c)"
      "byte_len c \<le> limit \<or> length c = 1" by (rule chunk_end_piece)
    have lt: "byte_len a < byte_len (a @ b)" using False by (cases b) (simp_all add: add_pos_nonneg)
    have "length d < length b" using cd(1,2) by simp
    from less [OF this, of "a @ c"] obtain cs where cs: "chunks_from (a @ b) limit (byte_len (a @ c)) = Some cs"
      "concat cs = d" "\<forall>c \<in> set cs. c \<noteq> [] \<and> (byte_len c \<le> limit \<or> length c = 1)"
      unfolding cd(1) append_assoc by blast
    have "str_get (a @ b) (byte_len a) (byte_len (a @ c)) = Some c" unfolding cd(1) by (rule str_get_piece)
    then have "chunks_from (a @ b) limit (byte_len a) = Some (c # cs)"
      using lt cs(1) cd(3) by (subst chunks_from.simps) simp
    then show ?thesis using cs(2,3) cd by auto
  qed
qed

lemma utf8_chunks_exact:
  obtains cs where "utf8_chunks s limit = Some cs" "concat cs = s"
    "\<forall>c \<in> set cs. c \<noteq> [] \<and> (byte_len c \<le> limit \<or> length c = 1)"
  using chunks_exact [of "[]" s limit] by (auto simp: utf8_chunks_def)

section \<open>Events cover every difference\<close>

lemma concat_options_all: "\<forall>x \<in> set xs. x \<noteq> None \<Longrightarrow> concat_options xs = Some (concat (map the xs))"
  by (induction xs) auto

lemma changed_ids [simp]:
  "changed_entry_id (created (SessionTarget sid r) e) = Some (ev_id e)"
  "changed_entry_id (patched (SessionTarget sid r) e) = Some (ev_id e)"
  "changed_entry_id (delta_event (SessionTarget sid r) i n d st) = Some i"
  "window_changed (window_event (SessionTarget sid r) w)"
  by (simp_all add: created_def patched_def delta_event_def window_event_def changed_entry_id_def window_changed_def)

lemma entry_events_total:
  obtains es :: "'o view_event list" where "entry_events st target previous old new e = Some es"
    "(\<forall>p \<in> set previous. ev_id p = ev_id e \<longrightarrow> p \<noteq> e) \<longrightarrow> es \<noteq> []"
    "\<And>sid r. target = SessionTarget sid r \<Longrightarrow> \<forall>x \<in> set es. changed_entry_id x = Some (ev_id e)"
proof (cases "List.find (\<lambda>c. ev_id c = ev_id e) previous")
  case None
  then show ?thesis using that [of "[created target e]"] by (simp add: entry_events_def)
next
  case (Some p)
  then have p: "p \<in> set previous" "ev_id p = ev_id e" by (auto simp: find_Some_iff)
  show ?thesis
  proof (cases "p = e")
    case True
    then show ?thesis using that [of "[]"] Some p by (auto simp: entry_events_def)
  next
    case False
    let ?delta = "appended_transcript_delta st (target_run_id target) p (old (ev_id e)) (new (ev_id e))"
    show ?thesis
    proof (cases "\<exists>d. ?delta = Some d \<and> ev_kind p = ev_kind e \<and> ev_title p = ev_title e \<and>
        ev_artifacts p = ev_artifacts e \<and> d \<noteq> []")
      case True
      then obtain d where d: "?delta = Some d" "ev_kind p = ev_kind e" "ev_title p = ev_title e"
        "ev_artifacts p = ev_artifacts e" "d \<noteq> []" by blast
      obtain cs where cs: "utf8_chunks d MAX_TRANSCRIPT_DELTA_BYTES = Some cs" "concat cs = d"
        by (rule utf8_chunks_exact)
      let ?es = "delta_events target e (case old (ev_id e) of Some n \<Rightarrow> n | None \<Rightarrow> 0) cs :: 'o view_event list"
      have "entry_events st target previous old new e = Some ?es"
        using Some False d cs(1) by (simp add: entry_events_def)
      moreover have "cs \<noteq> []" using cs(2) d(5) by auto
      then have "?es \<noteq> []" by (cases cs) auto
      moreover have "\<forall>x \<in> set (delta_events (SessionTarget sid r) e n cs :: 'o view_event list). changed_entry_id x = Some (ev_id e)" for sid r n
        by (induction cs arbitrary: n) auto
      ultimately show ?thesis by (intro that [of ?es]) simp_all
    next
      case no: False
      then have "entry_events st target previous old new e = Some [patched target e]"
        using Some False by (cases ?delta) (auto simp: entry_events_def)
      then show ?thesis by (rule that) (simp_all)
    qed
  qed
qed

lemma entry_events_not_None: "entry_events st target previous old new e \<noteq> None"
  by (rule entry_events_total) auto

lemma transcript_events_eq:
  "transcript_events st target p old c new =
     Some (concat (map (the \<circ> entry_events st target (pg_entries p) old new) (pg_entries c)) @
       (if transcript_window p \<noteq> transcript_window c then [window_event target (transcript_window c)] else []))"
proof -
  have "concat_options (map (entry_events st target (pg_entries p) old new) (pg_entries c)) =
      Some (concat (map the (map (entry_events st target (pg_entries p) old new) (pg_entries c))))"
    by (rule concat_options_all) (simp add: entry_events_not_None del: not_None_eq)
  then show ?thesis by (simp add: transcript_events_def)
qed

lemma transcript_events_cover:
  fixes events :: "'o view_event list"
  assumes "transcript_events st (SessionTarget sid r) p old c new = Some events"
  shows "\<forall>e \<in> set (pg_entries c). Some (ev_id e) \<in> changed_entry_id ` set events \<or> e \<in> set (pg_entries p)"
    and "\<not> list_ex window_changed events \<Longrightarrow> map ev_id (pg_entries c) = map ev_id (pg_entries p)"
proof -
  let ?f = "entry_events st (SessionTarget sid r) (pg_entries p) old new"
  have events: "events = concat (map (the \<circ> ?f) (pg_entries c)) @
      (if transcript_window p \<noteq> transcript_window c then [window_event (SessionTarget sid r) (transcript_window c)] else [])"
    using assms unfolding transcript_events_eq by simp
  show "\<forall>e \<in> set (pg_entries c). Some (ev_id e) \<in> changed_entry_id ` set events \<or> e \<in> set (pg_entries p)"
  proof
    fix e assume e: "e \<in> set (pg_entries c)"
    obtain es :: "'o view_event list" where es: "?f e = Some es" "(\<forall>q \<in> set (pg_entries p). ev_id q = ev_id e \<longrightarrow> q \<noteq> e) \<longrightarrow> es \<noteq> []"
      "\<forall>x \<in> set es. changed_entry_id x = Some (ev_id e)" using entry_events_total by metis
    show "Some (ev_id e) \<in> changed_entry_id ` set events \<or> e \<in> set (pg_entries p)"
    proof (cases "es = []")
      case True
      then show ?thesis using es(2) by auto
    next
      case False
      then have "hd es \<in> set es" by simp
      moreover from this have "hd es \<in> set events" using e es(1) by (auto simp: events intro!: bexI [of _ e])
      ultimately show ?thesis using es(3) by force
    qed
  qed
  show "map ev_id (pg_entries c) = map ev_id (pg_entries p)" if "\<not> list_ex window_changed events"
  proof (rule ccontr)
    assume "map ev_id (pg_entries c) \<noteq> map ev_id (pg_entries p)"
    then have "transcript_window p \<noteq> transcript_window c" by (auto simp: transcript_window_def)
    then show False using that by (simp add: events)
  qed
qed

section \<open>Marking changed entries\<close>

lemma last_index_unique:
  assumes "distinct (map f es)" "i < length es"
  shows "last_index (\<lambda>e. f e = f (es ! i)) es = Some i"
proof -
  have "distinct (map f (rev es))" using assms(1) by (simp add: rev_map [symmetric])
  from position_unique [OF this, of "length es - 1 - i"] assms(2)
  show ?thesis by (simp add: last_index_def rev_nth)
qed

lemma last_index_None: "last_index P es = None \<longleftrightarrow> (\<forall>e \<in> set es. \<not> P e)"
  by (auto simp: last_index_def position_def list_ex_iff)

lemma mark_entries_spec:
  fixes pubs :: "'o publication list"
  assumes "distinct (map ev_id es)" "length gens = length es"
  shows "\<exists>marked. mark_entries es G pubs gens = Some marked \<and> length marked = length es \<and>
    (\<forall>i < length es. marked ! i =
      (if Some (ev_id (es ! i)) \<in> (changed_entry_id \<circ> pb_event) ` set pubs then G else gens ! i))"
  using assms(2)
proof (induction pubs arbitrary: gens)
  case (Cons pub pubs)
  show ?case
  proof (cases "changed_entry_id (pb_event pub)")
    case None
    then show ?thesis using Cons.IH [OF Cons.prems] by (auto simp: image_iff)
  next
    case (Some k)
    show ?thesis
    proof (cases "\<exists>i < length es. ev_id (es ! i) = k")
      case False
      then have "last_index (\<lambda>e. ev_id e = k) es = None" by (auto simp: last_index_None in_set_conv_nth)
      then show ?thesis using Cons.IH [OF Cons.prems] Some False by (auto simp: image_iff)
    next
      case True
      then obtain i where i: "i < length es" "ev_id (es ! i) = k" by blast
      have r: "last_index (\<lambda>e. ev_id e = k) es = Some i"
        using last_index_unique [OF assms(1) i(1)] i(2) by simp
      have "length (gens[i := G]) = length es" using Cons.prems by simp
      from Cons.IH [OF this] obtain marked where m: "mark_entries es G pubs (gens[i := G]) = Some marked"
        "length marked = length es" "\<forall>j < length es. marked ! j =
          (if Some (ev_id (es ! j)) \<in> (changed_entry_id \<circ> pb_event) ` set pubs then G else gens[i := G] ! j)"
        by blast
      have "ev_id (es ! j) = k \<longleftrightarrow> j = i" if "j < length es" for j
        using that i assms(1) by (auto simp: distinct_conv_nth)
      then have "\<forall>j < length es. marked ! j =
          (if Some (ev_id (es ! j)) \<in> (changed_entry_id \<circ> pb_event) ` set (pub # pubs) then G else gens ! j)"
        using m(3) Some Cons.prems by (auto simp: nth_list_update)
      then show ?thesis using m(1,2) r Some i(1) Cons.prems by simp
    qed
  qed
qed simp

text \<open>An entry's carried generation is the new one, or that of the entry with its id before.\<close>

definition carried_from :: "'o published \<Rightarrow> entry_view list \<Rightarrow> nat \<Rightarrow> nat list \<Rightarrow> bool" where
  "carried_from p es G gens \<longleftrightarrow> length gens = length es \<and>
     (\<forall>i < length es. gens ! i = G \<or>
        (\<exists>j < length (view_entries (pu_view p)). gens ! i = pu_entry_generations p ! j \<and>
           ev_id (view_entries (pu_view p) ! j) = ev_id (es ! i)))"

lemma carried_generations_spec:
  assumes "length (pu_entry_generations p) = length (view_entries (pu_view p))"
  shows "\<exists>gens. carried_generations p es G = Some gens \<and> carried_from p es G gens"
proof -
  let ?old = "view_entries (pu_view p)"
  have fresh: "carried_from p es G (replicate (length es) G)" by (simp add: carried_from_def)
  show ?thesis
  proof (cases es)
    case Nil
    then show ?thesis by (simp add: carried_generations_def carried_from_def)
  next
    case (Cons first rest)
    show ?thesis
    proof (cases "position (\<lambda>e. ev_id e = ev_id first) ?old")
      case None
      then show ?thesis using fresh by (simp add: carried_generations_def Cons)
    next
      case (Some offset)
      let ?kept = "length ?old - offset"
      have "length (takeWhile (\<lambda>x. ev_id x \<noteq> ev_id first) ?old) \<le> length ?old" by (rule length_takeWhile_le)
      then have offset: "offset \<le> length ?old" using Some by (auto simp: position_def split: if_splits)
      show ?thesis
      proof (cases "?kept \<le> length es \<and> list_all (\<lambda>(before, after). ev_id before = ev_id after) (zip (drop offset ?old) es)")
        case False
        then show ?thesis using Some fresh by (auto simp: carried_generations_def Cons)
      next
        case True
        let ?gens = "drop offset (pu_entry_generations p) @ drop ?kept (replicate (length es) G)"
        have same: "ev_id (?old ! (offset + i)) = ev_id (es ! i)" if "i < ?kept" for i
          using True that offset by (auto simp: list_all_length)
        have "carried_from p es G ?gens"
          unfolding carried_from_def
        proof (intro conjI allI impI)
          show "length ?gens = length es" using assms offset True by auto
        next
          fix i assume i: "i < length es"
          show "?gens ! i = G \<or> (\<exists>j < length ?old. ?gens ! i = pu_entry_generations p ! j \<and> ev_id (?old ! j) = ev_id (es ! i))"
          proof (cases "i < ?kept")
            case True
            then show ?thesis using assms same [OF True] by (intro disjI2 exI [of _ "offset + i"]) (auto simp: nth_append)
          next
            case False
            then show ?thesis using i assms offset by (auto simp: nth_append)
          qed
        qed
        moreover have "carried_generations p es G = Some ?gens"
          using Some True assms offset by (simp add: carried_generations_def Cons)
        ultimately show ?thesis by blast
      qed
    qed
  qed
qed

section \<open>Generations\<close>

abbreviation view_ids :: "'o session_view \<Rightarrow> ustring list" where
  "view_ids view \<equiv> map ev_id (view_entries view)"

definition tracked :: "'o published \<Rightarrow> bool" where
  "tracked p \<longleftrightarrow> pu_generation p \<noteq> 0 \<longrightarrow>
     length (pu_entry_generations p) = length (view_entries (pu_view p)) \<and> pu_tracked_since p \<le> pu_generation p"

text \<open>What the generations of a projection say about a view that was complete at generation \<open>g\<close>.\<close>

definition synced :: "nat \<Rightarrow> 'o session_view \<Rightarrow> 'o published \<Rightarrow> bool" where
  "synced g held p \<longleftrightarrow> g \<le> pu_generation p \<and>
     (\<forall>i < length (view_entries (pu_view p)). pu_entry_generations p ! i \<le> g \<longrightarrow>
        view_entries (pu_view p) ! i \<in> set (view_entries held)) \<and>
     (pu_order_generation p \<le> g \<longrightarrow> view_ids (pu_view p) = view_ids held) \<and>
     (pu_generation p = g \<longrightarrow> held = pu_view p)"

lemma synced_self: "synced (pu_generation p) (pu_view p) p"
  by (simp add: synced_def)

text \<open>A publication that covers every difference to the projection before.\<close>

definition covers :: "'o publication list \<Rightarrow> 'o session_view \<Rightarrow> 'o session_view \<Rightarrow> bool" where
  "covers pubs old new \<longleftrightarrow>
     (\<forall>e \<in> set (view_entries new). Some (ev_id e) \<in> (changed_entry_id \<circ> pb_event) ` set pubs \<or>
        e \<in> set (view_entries old)) \<and>
     (list_ex (\<lambda>pub. window_changed (pb_event pub)) pubs \<or> view_ids new = view_ids old)"

lemma track_fresh:
  assumes "case previous of None \<Rightarrow> True | Some p \<Rightarrow> pu_generation p = 0"
  shows "\<exists>p'. track_changes current previous pubs G = Some p' \<and> pu_view p' = pu_view current \<and>
    pu_generation p' = G \<and> pu_tracked_since p' = G \<and> tracked p'"
  using assms by (auto simp: track_changes_def tracked_def Let_def split: option.splits)

lemma track_covered:
  assumes p: "tracked p" "pu_generation p \<noteq> 0" "pu_generation p < G"
    and ids: "distinct (view_ids (pu_view p))" "distinct (view_ids (pu_view current))"
    and c: "covers pubs (pu_view p) (pu_view current)"
  obtains p' where "track_changes current (Some p) pubs G = Some p'" "pu_view p' = pu_view current"
    "pu_generation p' = G" "pu_tracked_since p' = pu_tracked_since p" "tracked p'"
    "\<And>g held. synced g held p \<Longrightarrow> synced g held p'"
proof -
  let ?es = "view_entries (pu_view current)" and ?old = "view_entries (pu_view p)"
  let ?moved = "list_ex (\<lambda>pub. window_changed (pb_event pub)) pubs \<or> length (pu_entry_generations p) \<noteq> length ?es"
  have len: "length (pu_entry_generations p) = length ?old" using p(1,2) by (simp add: tracked_def)
  have same: "view_ids (pu_view current) = view_ids (pu_view p)" if "\<not> ?moved"
    using that c by (auto simp: covers_def)
  obtain gens where gens: "(if ?moved then carried_generations p ?es G else Some (pu_entry_generations p)) = Some gens"
    "carried_from p ?es G gens"
  proof (cases ?moved)
    case True
    then show ?thesis using carried_generations_spec [OF len, of ?es G] that by auto
  next
    case False
    then have "ev_id (?old ! i) = ev_id (?es ! i)" if "i < length ?es" for i
      using same that by (metis length_map nth_map)
    moreover have "length ?es = length ?old" using same [OF False] by (metis length_map)
    ultimately have "carried_from p ?es G (pu_entry_generations p)" using len by (auto simp: carried_from_def)
    then show ?thesis using False that by simp
  qed
  have "length gens = length ?es" using gens(2) by (simp add: carried_from_def)
  from mark_entries_spec [OF ids(2) this, of G pubs]
  obtain marked where m: "mark_entries ?es G pubs gens = Some marked" "length marked = length ?es"
    "\<forall>i < length ?es. marked ! i =
      (if Some (ev_id (?es ! i)) \<in> (changed_entry_id \<circ> pb_event) ` set pubs then G else gens ! i)" by blast
  let ?p' = "current\<lparr>pu_generation := G, pu_tracked_since := pu_tracked_since p,
      pu_order_generation := (if ?moved then G else pu_order_generation p), pu_entry_generations := marked\<rparr>"
  show ?thesis
  proof (rule that)
    show "track_changes current (Some p) pubs G = Some ?p'"
      using p(2) gens(1) m(1) unfolding track_changes_def Let_def by (cases ?moved) simp_all
    show "tracked ?p'" using m(2) p by (simp add: tracked_def)
    show "synced g held ?p'" if s: "synced g held p" for g held
      unfolding synced_def
    proof (intro conjI allI impI)
      show "g \<le> pu_generation ?p'" using s p(3) by (simp add: synced_def)
    next
      fix i assume "i < length (view_entries (pu_view ?p'))" and young: "pu_entry_generations ?p' ! i \<le> g"
      then have i: "i < length ?es" by simp
      have g: "g < G" using s p(3) by (simp add: synced_def)
      have unmarked: "Some (ev_id (?es ! i)) \<notin> (changed_entry_id \<circ> pb_event) ` set pubs" "gens ! i \<le> g"
        using m(3) i young g by (auto split: if_splits)
      then have old: "?es ! i \<in> set ?old" using c i by (auto simp: covers_def)
      obtain j where j: "j < length ?old" "gens ! i = pu_entry_generations p ! j" "ev_id (?old ! j) = ev_id (?es ! i)"
        using gens(2) i unmarked(2) g unfolding carried_from_def by fastforce
      obtain k where k: "k < length ?old" "?old ! k = ?es ! i" using old by (auto simp: in_set_conv_nth)
      then have "k = j" using j ids(1) by (metis length_map nth_eq_iff_index_eq nth_map)
      then show "view_entries (pu_view ?p') ! i \<in> set (view_entries held)"
        using s j k unmarked(2) by (auto simp: synced_def)
    next
      assume "pu_order_generation ?p' \<le> g"
      moreover have "g < G" using s p(3) by (simp add: synced_def)
      ultimately show "view_ids (pu_view ?p') = view_ids held"
        using s same by (auto simp: synced_def split: if_splits)
    next
      assume "pu_generation ?p' = g"
      then show "held = pu_view ?p'" using s p(3) by (simp add: synced_def)
    qed
  qed simp_all
qed

section \<open>Applying the changes\<close>

lemma by_id_unique:
  assumes "distinct (map ev_id es)"
  shows "by_id es i = Some e \<longleftrightarrow> e \<in> set es \<and> ev_id e = i"
proof -
  have "distinct (map fst (rev (map (\<lambda>e. (ev_id e, e)) es)))"
    using assms by (simp add: rev_map [symmetric] comp_def)
  then show ?thesis by (auto simp: by_id_def)
qed

lemma ordered_entries_spec:
  assumes "distinct (map ev_id es)"
    and "\<forall>e \<in> set es. sent (ev_id e) = Some e \<or> sent (ev_id e) = None \<and> held (ev_id e) = Some e"
  shows "ordered_entries sent held (map ev_id es) = Some es"
  using assms
proof (induction es arbitrary: sent)
  case (Cons e es)
  show ?case
  proof (cases "sent (ev_id e)")
    case None
    then have "held (ev_id e) = Some e" using Cons.prems(2) by simp
    moreover have "ordered_entries sent held (map ev_id es) = Some es"
      using Cons.prems by (intro Cons.IH) simp_all
    ultimately show ?thesis using None by simp
  next
    case (Some f)
    then have "f = e" using Cons.prems(2) by simp
    moreover have "ordered_entries (sent(ev_id e := None)) held (map ev_id es) = Some es"
    proof (rule Cons.IH)
      have "ev_id x \<noteq> ev_id e" if "x \<in> set es" for x
        using Cons.prems(1) imageI [OF that, of ev_id] by auto
      then show "\<forall>x \<in> set es. (sent(ev_id e := None)) (ev_id x) = Some x \<or>
          (sent(ev_id e := None)) (ev_id x) = None \<and> held (ev_id x) = Some x"
        using Cons.prems(2) by simp
    qed (use Cons.prems(1) in simp)
    ultimately show ?thesis using Some by simp
  qed
qed simp

lemma replace_entries_spec:
  assumes "distinct (map ev_id es)" "map ev_id held = map ev_id es" "set sent \<subseteq> set es"
    and "\<forall>i < length es. es ! i \<in> set sent \<or> held ! i = es ! i"
  shows "replace_entries held sent = Some es"
  using assms(2-4)
proof (induction sent arbitrary: held)
  case Nil
  then have "length held = length es" by (metis length_map)
  then show ?case using Nil by (auto intro: nth_equalityI)
next
  case (Cons e sent)
  then obtain i where i: "i < length es" "es ! i = e" by (auto simp: in_set_conv_nth)
  have len: "length held = length es" using Cons.prems(1) by (metis length_map)
  have "ev_id (held ! i) = ev_id e" using Cons.prems(1) i len by (metis nth_map)
  then have "last_index (\<lambda>x. ev_id x = ev_id e) held = Some i"
    using last_index_unique [of ev_id held i] assms(1) Cons.prems(1) i(1) len by simp
  moreover have "replace_entries (held[i := e]) sent = Some es"
  proof (rule Cons.IH)
    show "map ev_id (held[i := e]) = map ev_id es"
      using Cons.prems(1) i by (simp add: map_update list_update_same_conv)
    show "set sent \<subseteq> set es" using Cons.prems(2) by simp
    show "\<forall>j < length es. es ! j \<in> set sent \<or> held[i := e] ! j = es ! j"
    proof (intro allI impI)
      fix j assume j: "j < length es"
      show "es ! j \<in> set sent \<or> held[i := e] ! j = es ! j"
      proof (cases "j = i")
        case True
        then show ?thesis using i len by simp
      next
        case False
        have "distinct es" using assms(1) by (simp add: distinct_map)
        then have "es ! j \<noteq> e" using i j False by (metis nth_eq_iff_index_eq)
        then show ?thesis using Cons.prems(3) j False by auto
      qed
    qed
  qed
  ultimately show ?case by simp
qed

text \<open>The client's rebuilt entries are those of the projection.\<close>

lemma apply_published_changes:
  assumes ids: "distinct (view_ids (pu_view p))" "distinct (view_ids held)"
    and t: "tracked p" "pu_generation p \<noteq> 0"
    and s: "g \<noteq> 0 \<Longrightarrow> pu_tracked_since p \<le> g \<Longrightarrow> synced g held p \<and> previous = Some (session_projection held)"
    and v: "v = published_changes p g"
  shows "apply_transcript_changes previous (session_projection (cv_session v)) (cv_changes v) =
    Some (session_projection (pu_view p))"
proof (cases "g \<noteq> 0 \<and> pu_tracked_since p \<le> g")
  case False
  then show ?thesis by (auto simp: v published_changes_def apply_transcript_changes_def)
next
  case True
  let ?es = "view_entries (pu_view p)" and ?gens = "pu_entry_generations p"
  let ?sent = "map fst (filter (\<lambda>(entry, generation). generation > g) (zip ?es ?gens))"
  have sync: "synced g held p" and previous: "previous = Some (session_projection held)" using s True by blast+
  have len: "length ?gens = length ?es" using t by (simp add: tracked_def)
  have sent: "set ?sent \<subseteq> set ?es" by (auto dest: set_zip_leftD)
  have new: "?es ! i \<in> set ?sent" if "i < length ?es" "?gens ! i > g" for i
  proof -
    have "(?es ! i, ?gens ! i) \<in> set (zip ?es ?gens)" using that(1) len by (auto simp: in_set_zip)
    then show ?thesis using that(2) by force
  qed
  have either: "?es ! i \<in> set ?sent \<or> ?es ! i \<in> set (view_entries held)" if "i < length ?es" for i
    using new [OF that] sync that unfolding synced_def by (meson not_le)
  have distinct_sent: "distinct (map ev_id ?sent)"
  proof -
    have "distinct (map ev_id (map fst (zip ?es ?gens)))" using ids(1) len by simp
    then show ?thesis unfolding map_map by (rule distinct_map_filter)
  qed
  have replaced: "replace_entries (view_entries held) ?sent = Some ?es" if "pu_order_generation p \<le> g"
  proof (rule replace_entries_spec [OF ids(1)])
    show same: "view_ids held = view_ids (pu_view p)" using sync that by (simp add: synced_def)
    show "\<forall>i < length ?es. ?es ! i \<in> set ?sent \<or> view_entries held ! i = ?es ! i"
    proof (intro allI impI)
      fix i assume i: "i < length ?es"
      have len': "length (view_entries held) = length ?es" using same by (metis length_map)
      have "view_entries held ! i = ?es ! i" if mem: "?es ! i \<in> set (view_entries held)"
      proof -
        obtain k where k: "k < length (view_entries held)" "view_entries held ! k = ?es ! i"
          using mem by (auto simp: in_set_conv_nth)
        moreover have "ev_id (view_entries held ! i) = ev_id (?es ! i)" using same i len' by (metis nth_map)
        ultimately have "k = i" using ids(2) i len' by (metis length_map nth_eq_iff_index_eq nth_map)
        then show ?thesis using k(2) by simp
      qed
      then show "?es ! i \<in> set ?sent \<or> view_entries held ! i = ?es ! i" using either [OF i] by blast
    qed
  qed (rule sent)
  have ordered: "ordered_entries (by_id ?sent) (by_id (view_entries held)) (view_ids (pu_view p)) = Some ?es"
  proof (rule ordered_entries_spec [OF ids(1)], rule ballI)
    fix e assume e: "e \<in> set ?es"
    then obtain i where i: "i < length ?es" "?es ! i = e" by (auto simp: in_set_conv_nth)
    show "by_id ?sent (ev_id e) = Some e \<or> by_id ?sent (ev_id e) = None \<and> by_id (view_entries held) (ev_id e) = Some e"
    proof (cases "e \<in> set ?sent")
      case True
      then show ?thesis using by_id_unique [OF distinct_sent] by blast
    next
      case False
      then have "e \<in> set (view_entries held)" using either [OF i(1)] i(2) by simp
      then have "by_id (view_entries held) (ev_id e) = Some e" using by_id_unique [OF ids(2)] by blast
      moreover have "by_id ?sent (ev_id e) = None"
      proof (rule ccontr)
        assume "by_id ?sent (ev_id e) \<noteq> None"
        then obtain x where "by_id ?sent (ev_id e) = Some x" by blast
        then have "x \<in> set ?sent" "ev_id x = ev_id e" using by_id_unique [OF distinct_sent] by blast+
        moreover from this have "x \<in> set ?es" using sent by blast
        ultimately show False using False e ids(1) by (metis distinct_map inj_onD)
      qed
      ultimately show ?thesis by blast
    qed
  qed
  show ?thesis
    using True replaced ordered previous
    by (auto simp: v published_changes_def apply_transcript_changes_def session_projection_def with_entries_def)
qed

end
