(* ===== verification/View_Guarantees.thy ===== *)
theory View_Guarantees
  imports View_Watch
begin

text \<open>
  What the server's publications promise to the clients that watch a session: along every history of
  the server a watch that is sent changes holds exactly the view a new watch would be sent, and a
  publication wakes every watch of its session.
\<close>

section \<open>The server's state\<close>

definition engine_ok :: "'o publisher \<Rightarrow> ustring \<Rightarrow> 'o engine \<Rightarrow> bool" where
  "engine_ok X sid e \<longleftrightarrow>
     transcript_history (px_proofs X) (session_transcript (en_transcripts e)) \<and>
     distinct (map te_id (visible_entries (session_transcript (en_transcripts e)))) \<and> sv_id (en_view e) = sid"

definition published_ok :: "ustring \<Rightarrow> nat \<Rightarrow> 'o published \<Rightarrow> bool" where
  "published_ok sid generation p \<longleftrightarrow> pu_generation p \<le> generation \<and> tracked p \<and>
     distinct (view_ids (pu_view p)) \<and> sv_id (pu_view p) = sid"

definition core_ok :: "'o publisher \<Rightarrow> 'o server_core \<Rightarrow> bool" where
  "core_ok X core \<longleftrightarrow> (\<forall>sid e. co_sessions core sid = Some e \<longrightarrow> engine_ok X sid e) \<and>
     (\<forall>sid p. co_published core sid = Some p \<longrightarrow> published_ok sid (co_generation core) p)"

lemma core_okD:
  "core_ok X core \<Longrightarrow> co_sessions core sid = Some e \<Longrightarrow> engine_ok X sid e"
  "core_ok X core \<Longrightarrow> co_published core sid = Some p \<Longrightarrow> published_ok sid (co_generation core) p"
  by (auto simp: core_ok_def)

lemma engine_view_ok:
  assumes "engine_ok X sid e"
  obtains view e' where "engine_view X e = Some (view, e')" "engine_ok X sid e'" "en_revision e' = en_revision e"
    "sv_id view = sid" "sv_revision view = en_revision e" "distinct (view_ids view)"
proof -
  let ?t = "session_transcript (en_transcripts e)" and ?X = "px_proofs X"
  have hist: "transcript_history ?X ?t" and dist: "distinct (map te_id (visible_entries ?t))"
    and sid: "sv_id (en_view e) = sid" using assms by (simp_all add: engine_ok_def)
  let ?n = "aligned_newest_window (length (visible_entries ?t)) MAX_TRANSCRIPT_SNAPSHOT_ENTRIES"
  have "page_stop (visible_entries ?t) None = Some (length (visible_entries ?t))" by (simp add: page_stop_def)
  then obtain page t' start where p: "projected_transcript_page ?X ?t None ?n MAX_TRANSCRIPT_SNAPSHOT_BODY_BYTES = (Some page, t')"
    "same_content ?t t'"
    "list_all2 (row_view ?X ?t (page_bytes_left ?t None (length (visible_entries ?t)) ?n MAX_TRANSCRIPT_SNAPSHOT_BODY_BYTES))
       (drop start (take (length (visible_entries ?t)) (visible_entries ?t))) (pg_entries page)"
    by (rule page_outcome [OF history_proofs_ok [OF hist] _ order_refl]) blast
  have ids: "map ev_id (pg_entries page) = map te_id (drop start (visible_entries ?t))"
    using p(3) unfolding take_all_iff [THEN iffD2, OF order_refl]
    by (induction rule: list_all2_induct) (auto dest: row_view_id)
  have "transcript_history ?X t'"
    using history_projected_page [OF hist, of None ?n MAX_TRANSCRIPT_SNAPSHOT_BODY_BYTES] p(1) by simp
  moreover have "visible_entries t' = visible_entries ?t" using same_contentD(4) [OF p(2)] .
  moreover have "distinct (map ev_id (pg_entries page))" unfolding ids drop_map [symmetric] using dist by simp
  ultimately show ?thesis
    using p(1) sid dist
    by (intro that [of "(en_view e)\<lparr>sv_revision := en_revision e, sv_transcript := page\<rparr>"
          "e\<lparr>en_transcripts := (en_transcripts e)\<lparr>session_transcript := t'\<rparr>\<rparr>"])
      (simp_all add: engine_view_def transcript_page_def engine_ok_def)
qed

section \<open>Publishing\<close>

lemma run_publications_total:
  obtains pubs where "run_publications e p c = Some pubs"
    "\<forall>pub \<in> set pubs. SessionScope (sv_id (pu_view c)) \<in> set (pb_scopes pub)"
proof -
  have one: "\<exists>pubs. one_run_publications e p c run = Some pubs \<and>
      (\<forall>pub \<in> set pubs. SessionScope (sv_id (pu_view c)) \<in> set (pb_scopes pub))" for run
    by (auto simp: one_run_publications_def transcript_events_eq Let_def split: option.splits)
  let ?f = "one_run_publications e p c"
  have "\<forall>x \<in> set (map ?f (sv_runs (pu_view c))). x \<noteq> None" using one by fastforce
  from concat_options_all [OF this] have total: "concat_options (map ?f (sv_runs (pu_view c))) =
      Some (concat (map the (map ?f (sv_runs (pu_view c)))))" .
  have "\<forall>pub \<in> set (the (?f run)). SessionScope (sv_id (pu_view c)) \<in> set (pb_scopes pub)" for run
    using one [of run] by auto
  then have all: "\<forall>pub \<in> set (concat (map the (map ?f (sv_runs (pu_view c))))). SessionScope (sv_id (pu_view c)) \<in> set (pb_scopes pub)"
    by auto
  show ?thesis
    by (rule that [unfolded run_publications_def Let_def total option.map, OF refl]) (use all in auto)
qed

lemma covers_events:
  fixes events :: "'o view_event list"
  assumes ev: "transcript_events st (SessionTarget sid r) (sv_transcript old) lengths (sv_transcript new) lengths' = Some events"
    and "\<forall>x \<in> set events. \<exists>pub \<in> set pubs. pb_event pub = x"
  shows "covers pubs old new"
  unfolding covers_def
proof (intro conjI ballI)
  fix x assume "x \<in> set (view_entries new)"
  then consider "Some (ev_id x) \<in> changed_entry_id ` set events" | "x \<in> set (view_entries old)"
    using transcript_events_cover(1) [OF ev] by blast
  then show "Some (ev_id x) \<in> (changed_entry_id \<circ> pb_event) ` set pubs \<or> x \<in> set (view_entries old)"
  proof cases
    case 1
    then obtain y where "y \<in> set events" "changed_entry_id y = Some (ev_id x)" by auto
    then obtain pub where "pub \<in> set pubs" "(changed_entry_id \<circ> pb_event) pub = Some (ev_id x)" using assms(2) by force
    then show ?thesis by (metis image_eqI)
  qed blast
next
  show "list_ex (\<lambda>pub. window_changed (pb_event pub)) pubs \<or> view_ids new = view_ids old"
  proof (cases "list_ex window_changed events")
    case True
    then obtain y where "y \<in> set events" "window_changed y" by (auto simp: list_ex_iff)
    then show ?thesis using assms(2) unfolding list_ex_iff by metis
  next
    case False
    then show ?thesis using transcript_events_cover(2) [OF ev] by simp
  qed
qed

lemma session_publications_spec:
  fixes current :: "'o published"
  assumes "co_sessions core (sv_id (pu_view current)) = Some e"
  shows "\<exists>pubs. session_publications core previous current = Some pubs \<and> pubs \<noteq> [] \<and>
    (\<forall>pub \<in> set pubs. SessionScope (sv_id (pu_view current)) \<in> set (pb_scopes pub)) \<and>
    (\<forall>p. previous = Some p \<longrightarrow> covers pubs (pu_view p) (pu_view current))"
proof (cases previous)
  case None
  then show ?thesis by (simp add: session_publications_def Let_def)
next
  case (Some p)
  let ?old = "pu_view p" and ?new = "pu_view current"
  let ?sid = "sv_id ?new" and ?rev = "sv_revision ?new"
  let ?publish = "\<lambda>event. \<lparr>pb_scopes = [SessionScope ?sid], pb_event = event\<rparr>"
  obtain events :: "'o view_event list" where
    ev: "transcript_events (en_transcripts e) (SessionTarget ?sid ?rev) (sv_transcript ?old)
      (pu_transcript_lengths p) (sv_transcript ?new) (pu_transcript_lengths current) = Some events"
    unfolding transcript_events_eq by blast
  obtain runs where runs: "run_publications e p current = Some runs"
    "\<forall>pub \<in> set runs. SessionScope ?sid \<in> set (pb_scopes pub)" by (rule run_publications_total)
  define before where "before = (if sv_metadata ?old \<noteq> sv_metadata ?new
        then [?publish (SessionMetadataChanged ?sid ?rev (sv_metadata ?new))] else [])"
  define after where "after =
      (if sv_queue ?old \<noteq> sv_queue ?new then [?publish (QueueChanged ?sid ?rev (sv_queue ?new))] else []) @
      (if sv_interactions ?old \<noteq> sv_interactions ?new
       then [?publish (InteractionsChanged ?sid ?rev (sv_interactions ?new))] else []) @
      (if sv_todos ?old \<noteq> sv_todos ?new then [?publish (TodosChanged ?sid ?rev (sv_todos ?new))] else []) @ runs"
  define pubs where "pubs = before @ map ?publish events @ after"
  define all where "all = (if pubs = [] then [?publish (SessionMetadataChanged ?sid ?rev (sv_metadata ?new))] else pubs)"
  have eq: "session_publications core previous current = Some all"
    using assms ev runs(1)
    by (simp add: session_publications_def Some Let_def all_def pubs_def before_def after_def)
  have "\<forall>pub \<in> set before \<union> set after. SessionScope ?sid \<in> set (pb_scopes pub)"
    using runs(2) by (auto simp: before_def after_def)
  then have scopes: "\<forall>pub \<in> set all. SessionScope ?sid \<in> set (pb_scopes pub)" by (auto simp: all_def pubs_def)
  have "covers all ?old ?new"
  proof (rule covers_events [OF ev], rule ballI)
    fix x assume "x \<in> set events"
    then have "?publish x \<in> set all" by (auto simp: all_def pubs_def)
    then show "\<exists>pub \<in> set all. pb_event pub = x" by force
  qed
  then show ?thesis using eq scopes Some by (auto simp: all_def)
qed

lemma publish_unobserved:
  "co_sessions core sid = None \<Longrightarrow> publish_session_state X sid now core = Some ([], core)"
  by (simp add: publish_session_state_def published_session_def)

lemma publish_observed:
  assumes ok: "core_ok X core" and e: "co_sessions core sid = Some e"
  obtains pubs core' p' where "publish_session_state X sid now core = Some (pubs, core')" "core_ok X core'"
    "pubs \<noteq> []" "\<forall>pub \<in> set pubs. SessionScope sid \<in> set (pb_scopes pub)"
    "co_generation core' = co_generation core + 1" "co_published core' = (co_published core)(sid \<mapsto> p')"
    "pu_generation p' = co_generation core + 1" "current_publication core' sid = Some p'"
    "(case co_published core sid of None \<Rightarrow> True | Some p \<Rightarrow> pu_generation p = 0) \<and>
        pu_tracked_since p' = co_generation core + 1 \<or>
      (\<exists>p. co_published core sid = Some p \<and> pu_generation p \<noteq> 0 \<and> pu_tracked_since p' = pu_tracked_since p \<and>
        (\<forall>g held. synced g held p \<longrightarrow> synced g held p'))"
proof -
  obtain view e' where v: "engine_view X e = Some (view, e')" "engine_ok X sid e'" "sv_id view = sid"
    "distinct (view_ids view)" "en_revision e' = sv_revision view"
    using engine_view_ok [OF core_okD(1) [OF ok e]] by metis
  let ?core = "core\<lparr>co_sessions := (co_sessions core)(sid \<mapsto> e')\<rparr>" and ?previous = "co_published core sid"
  let ?G = "co_generation core + 1"
  obtain current where c: "published_session X sid core = Some (Some current, ?core)" "pu_view current = view"
    using e v(1) by (simp add: published_session_def)
  have look: "co_sessions ?core (sv_id (pu_view current)) = Some e'" using v(3) c(2) by simp
  obtain pubs where pubs: "session_publications ?core ?previous current = Some pubs" "pubs \<noteq> []"
    "\<forall>pub \<in> set pubs. SessionScope (sv_id (pu_view current)) \<in> set (pb_scopes pub)"
    "\<And>p. ?previous = Some p \<Longrightarrow> covers pubs (pu_view p) (pu_view current)"
    using session_publications_spec [OF look, of ?previous] by blast
  have "\<exists>p'. track_changes current ?previous pubs ?G = Some p' \<and> pu_view p' = view \<and> pu_generation p' = ?G \<and>
      tracked p' \<and> ((case ?previous of None \<Rightarrow> True | Some p \<Rightarrow> pu_generation p = 0) \<and> pu_tracked_since p' = ?G \<or> (\<exists>p. ?previous = Some p \<and> pu_generation p \<noteq> 0 \<and>
        pu_tracked_since p' = pu_tracked_since p \<and> (\<forall>g held. synced g held p \<longrightarrow> synced g held p')))"
  proof (cases "case ?previous of None \<Rightarrow> True | Some p \<Rightarrow> pu_generation p = 0")
    case True
    from track_fresh [OF this, of current pubs ?G] show ?thesis using c(2) True by blast
  next
    case False
    then obtain p where p: "?previous = Some p" "pu_generation p \<noteq> 0" by (auto split: option.splits)
    have pok: "published_ok sid (co_generation core) p" by (rule core_okD(2) [OF ok p(1)])
    then have t: "tracked p" "pu_generation p < ?G" "distinct (view_ids (pu_view p))"
      by (auto simp: published_ok_def)
    have "distinct (view_ids (pu_view current))" using v(4) c(2) by simp
    from track_covered [OF t(1) p(2) t(2,3) this pubs(4) [OF p(1)]]
    obtain p' where "track_changes current (Some p) pubs ?G = Some p'" "pu_view p' = pu_view current"
      "pu_generation p' = ?G" "pu_tracked_since p' = pu_tracked_since p" "tracked p'"
      "\<And>g held. synced g held p \<Longrightarrow> synced g held p'" by blast
    then show ?thesis using c(2) p by auto
  qed
  then obtain p' where p': "track_changes current ?previous pubs ?G = Some p'" "pu_view p' = view" "pu_generation p' = ?G"
    "tracked p'" "(case ?previous of None \<Rightarrow> True | Some p \<Rightarrow> pu_generation p = 0) \<and> pu_tracked_since p' = ?G \<or> (\<exists>p. ?previous = Some p \<and> pu_generation p \<noteq> 0 \<and>
        pu_tracked_since p' = pu_tracked_since p \<and> (\<forall>g held. synced g held p \<longrightarrow> synced g held p'))" by blast
  obtain histories where r: "publish_session_state X sid now core = Some (pubs, ?core\<lparr>co_generation := ?G,
      co_histories := histories, co_published := (co_published core)(sid \<mapsto> p')\<rparr>)"
    using c(1) pubs(1) p'(1) by (simp add: publish_session_state_def Let_def)
  let ?core' = "?core\<lparr>co_generation := ?G, co_histories := histories, co_published := (co_published core)(sid \<mapsto> p')\<rparr>"
  have "core_ok X ?core'"
    unfolding core_ok_def
  proof (intro conjI allI impI)
    fix s f assume "co_sessions ?core' s = Some f"
    then show "engine_ok X s f" using v(2) core_okD(1) [OF ok] by (auto split: if_splits)
  next
    fix s q assume q: "co_published ?core' s = Some q"
    show "published_ok s (co_generation ?core') q"
    proof (cases "s = sid")
      case True
      then show ?thesis using q p' v(3,4) by (simp add: published_ok_def)
    next
      case False
      then have "published_ok s (co_generation core) q" using q core_okD(2) [OF ok] by simp
      then show ?thesis by (simp add: published_ok_def)
    qed
  qed
  moreover have "\<forall>pub \<in> set pubs. SessionScope sid \<in> set (pb_scopes pub)" using pubs(3) c(2) v(3) by simp
  moreover have "current_publication ?core' sid = Some p'"
    using p'(2,3) v(5) by (simp add: current_publication_def)
  ultimately show ?thesis by (intro that [OF r _ pubs(2)]) (use p' in simp_all)
qed

section \<open>Histories of the server and of a watch\<close>

text \<open>The engines may change in any way, sessions may appear; each publishes and is read in any order,
  and the incremental history is established and read.\<close>

inductive server_step :: "'o publisher \<Rightarrow> 'o server_core \<Rightarrow> 'o server_core \<Rightarrow> bool" for X where
  engine: "engine_ok X sid e \<Longrightarrow> server_step X core (core\<lparr>co_sessions := (co_sessions core)(sid \<mapsto> e)\<rparr>)"
| publish: "publish_session_state X sid now core = Some (pubs, core') \<Longrightarrow> server_step X core core'"
| release: "server_step X core (release_session sid core)"
| changes: "session_changes_view X sid since core = Some (r, core') \<Longrightarrow> server_step X core core'"
| snapshot: "session_sync_snapshot X uuid sid core = Some (r, core') \<Longrightarrow> server_step X core core'"
| replay: "server_step X core (snd (session_sync_changes X cursor now core))"
| inventory: "server_step X core (core\<lparr>co_inventory_complete := b\<rparr>)"

definition watch_ok :: "'o server_core \<Rightarrow> ustring \<Rightarrow> 'o watch \<Rightarrow> bool" where
  "watch_ok core sid w \<longleftrightarrow> wa_generation w \<noteq> 0 \<longrightarrow>
     (\<exists>held. wa_previous w = Some (session_projection held) \<and> distinct (view_ids held) \<and>
        wa_generation w \<le> co_generation core \<and>
        (\<forall>p. co_published core sid = Some p \<longrightarrow> pu_generation p \<noteq> 0 \<longrightarrow>
           pu_tracked_since p \<le> wa_generation w \<longrightarrow> synced (wa_generation w) held p))"

lemma watch_ok_same:
  "watch_ok core sid w \<Longrightarrow> co_generation core' = co_generation core \<Longrightarrow>
   co_published core' sid = co_published core sid \<or> co_published core' sid = None \<Longrightarrow> watch_ok core' sid w"
  by (auto simp: watch_ok_def)

text \<open>Reading a view changes caches only.\<close>

lemma session_view_ok:
  assumes "core_ok X core"
  shows "co_sessions core sid = None \<Longrightarrow>
      view_of_session X sid core = Some (Inl (unobserved_resource X core (lit ''session'') sid), core)"
    and "co_sessions core sid = Some e \<Longrightarrow> \<exists>view e'. view_of_session X sid core =
      Some (Inr view, core\<lparr>co_sessions := (co_sessions core)(sid \<mapsto> e')\<rparr>) \<and> engine_ok X sid e' \<and>
      sv_id view = sid \<and> distinct (view_ids view)"
proof -
  show "view_of_session X sid core = Some (Inl (unobserved_resource X core (lit ''session'') sid), core)"
    if "co_sessions core sid = None" using that by (simp add: view_of_session_def)
  show "\<exists>view e'. view_of_session X sid core = Some (Inr view, core\<lparr>co_sessions := (co_sessions core)(sid \<mapsto> e')\<rparr>) \<and>
      engine_ok X sid e' \<and> sv_id view = sid \<and> distinct (view_ids view)" if e: "co_sessions core sid = Some e"
  proof (rule engine_view_ok [OF core_okD(1) [OF assms e]])
    fix view e'
    assume "engine_view X e = Some (view, e')" "engine_ok X sid e'" "sv_id view = sid" "distinct (view_ids view)"
    then show ?thesis using e by (auto simp: view_of_session_def)
  qed
qed

lemma core_ok_engine:
  "core_ok X core \<Longrightarrow> engine_ok X sid e \<Longrightarrow> core_ok X (core\<lparr>co_sessions := (co_sessions core)(sid \<mapsto> e)\<rparr>)"
  by (auto simp: core_ok_def)

lemma session_view_keeps:
  assumes "core_ok X core" "view_of_session X sid core = Some (r, core')"
  shows "core_ok X core' \<and> co_generation core' = co_generation core \<and> co_published core' = co_published core \<and>
    co_inventory_complete core' = co_inventory_complete core"
proof (cases "co_sessions core sid")
  case None
  then show ?thesis using session_view_ok(1) [OF assms(1)] assms by auto
next
  case (Some e)
  then show ?thesis using session_view_ok(2) [OF assms(1) Some] assms core_ok_engine by fastforce
qed

lemma changes_view_ok:
  assumes ok: "core_ok X core"
  shows "co_sessions core sid = None \<Longrightarrow>
      session_changes_view X sid since core = Some (Inl (unobserved_resource X core (lit ''session'') sid), core)"
    and "co_sessions core sid = Some e \<Longrightarrow> current_publication core sid = None \<Longrightarrow> \<exists>view e'. \<forall>since.
      session_changes_view X sid since core = Some (Inr \<lparr>cv_generation = 0, cv_changes = None, cv_session = view\<rparr>,
        core\<lparr>co_sessions := (co_sessions core)(sid \<mapsto> e')\<rparr>) \<and> sv_id view = sid \<and> distinct (view_ids view)"
    and "current_publication core sid = Some p \<Longrightarrow>
      session_changes_view X sid since core = Some (Inr (published_changes p since), core)"
proof -
  show "session_changes_view X sid since core = Some (Inl (unobserved_resource X core (lit ''session'') sid), core)"
    if "co_sessions core sid = None"
    using session_view_ok(1) [OF ok that] that
    by (simp add: session_changes_view_def current_publication_def split: option.splits)
  show "\<exists>view e'. \<forall>since. session_changes_view X sid since core =
        Some (Inr \<lparr>cv_generation = 0, cv_changes = None, cv_session = view\<rparr>,
          core\<lparr>co_sessions := (co_sessions core)(sid \<mapsto> e')\<rparr>) \<and> sv_id view = sid \<and> distinct (view_ids view)"
    if "co_sessions core sid = Some e" "current_publication core sid = None"
    using session_view_ok(2) [OF ok that(1)] that(2) by (fastforce simp: session_changes_view_def)
  show "session_changes_view X sid since core = Some (Inr (published_changes p since), core)"
    if "current_publication core sid = Some p" using that by (simp add: session_changes_view_def)
qed

lemma changes_view_keeps:
  assumes "core_ok X core" "session_changes_view X sid since core = Some (r, core')"
  shows "core_ok X core' \<and> co_generation core' = co_generation core \<and> co_published core' = co_published core"
  using assms session_view_keeps [OF assms(1)]
  by (auto simp: session_changes_view_def split: option.splits)

lemma step_keeps:
  assumes "core_ok X core" "watch_ok core sid w" "server_step X core core'"
  shows "core_ok X core' \<and> watch_ok core' sid w"
  using assms(3)
proof cases
  case (engine t e)
  then show ?thesis using assms(1,2) core_ok_engine by (auto simp: watch_ok_def)
next
  case (publish t now pubs)
  show ?thesis
  proof (cases "co_sessions core t")
    case None
    then have "core' = core" using publish publish_unobserved [OF None, of X now] by simp
    then show ?thesis using assms(1,2) by simp
  next
    case (Some e)
    obtain pubs' core1 p' where r: "publish_session_state X t now core = Some (pubs', core1)" "core_ok X core1"
      "co_generation core1 = co_generation core + 1" "co_published core1 = (co_published core)(t \<mapsto> p')"
      "pu_tracked_since p' = co_generation core + 1 \<or>
        (\<exists>p. co_published core t = Some p \<and> pu_generation p \<noteq> 0 \<and> pu_tracked_since p' = pu_tracked_since p \<and>
          (\<forall>g held. synced g held p \<longrightarrow> synced g held p'))"
      by (rule publish_observed [OF assms(1) Some, where now = now]) (blast intro: that)
    have "core1 = core'" using r(1) publish by simp
    moreover have "watch_ok core1 sid w"
      using assms(2) r(3-5) unfolding watch_ok_def by (cases "t = sid") fastforce+
    ultimately show ?thesis using r(2) by simp
  qed
next
  case (release t)
  then show ?thesis
    using assms(1) watch_ok_same [OF assms(2), of core'] by (auto simp: release_session_def core_ok_def)
next
  case (changes t since r)
  then show ?thesis using changes_view_keeps [OF assms(1)] watch_ok_same [OF assms(2)] by metis
next
  case (snapshot uuid t r)
  obtain r' core1 where v: "view_of_session X t core = Some (r', core1)"
    using snapshot by (auto simp: session_sync_snapshot_def)
  note keeps = session_view_keeps [OF assms(1) v]
  have "\<exists>h. core' = core1\<lparr>co_histories := h\<rparr>"
    using snapshot v
    by (auto simp: session_sync_snapshot_def split: sum.splits if_splits prod.splits intro: exI [of _ "co_histories core1"])
  then show ?thesis using keeps watch_ok_same [OF assms(2)] by (auto simp: core_ok_def)
next
  case (replay cursor now)
  then have "\<exists>h. core' = core\<lparr>co_histories := h\<rparr>"
    by (auto simp: session_sync_changes_def split: prod.splits intro: exI [of _ "co_histories core"])
  then show ?thesis using assms(1) watch_ok_same [OF assms(2)] by (auto simp: core_ok_def)
next
  case (inventory b)
  then show ?thesis using assms(1) watch_ok_same [OF assms(2)] by (auto simp: core_ok_def)
qed

text \<open>\<open>ServerCore::new\<close>: one session, projected but not yet published.\<close>

definition new_core :: "'o publisher \<Rightarrow> 'o engine \<Rightarrow> 'o server_core option" where
  "new_core X e =
     (let sid = sv_id (en_view e);
          core = \<lparr>co_sessions = [sid \<mapsto> e], co_published = Map.empty, co_generation = 0,
                  co_histories = default_histories, co_inventory_complete = True\<rparr> in
      map_option (\<lambda>(projection, core).
          case projection of None \<Rightarrow> core | Some p \<Rightarrow> core\<lparr>co_published := [sid \<mapsto> p]\<rparr>)
        (published_session X sid core))"

lemma new_core_ok:
  assumes "engine_ok X sid e" "new_core X e = Some core"
  shows "core_ok X core"
proof -
  have sid: "sv_id (en_view e) = sid" using assms(1) by (simp add: engine_ok_def)
  obtain view e' where v: "engine_view X e = Some (view, e')" "engine_ok X sid e'" "sv_id view = sid"
    "distinct (view_ids view)" using engine_view_ok [OF assms(1)] by metis
  then show ?thesis
    using assms(2) by (auto simp: new_core_def published_session_def sid core_ok_def published_ok_def tracked_def Let_def
        split: if_splits)
qed

inductive server_history :: "'o publisher \<Rightarrow> 'o server_core \<Rightarrow> bool" for X where
  new: "engine_ok X sid e \<Longrightarrow> new_core X e = Some core \<Longrightarrow> server_history X core"
| step: "server_history X core \<Longrightarrow> server_step X core core' \<Longrightarrow> server_history X core'"

inductive watch_reachable :: "'o publisher \<Rightarrow> ustring \<Rightarrow> 'o server_core \<Rightarrow> 'o watch \<Rightarrow> bool" for X sid where
  open_watch: "server_history X core \<Longrightarrow> watch_reachable X sid core new_watch"
| server: "watch_reachable X sid core w \<Longrightarrow> server_step X core core' \<Longrightarrow> watch_reachable X sid core' w"
| read: "watch_reachable X sid core w \<Longrightarrow> watch_read X sid w core = Some (Yielded w' state, core') \<Longrightarrow>
    watch_reachable X sid core' w'"

lemma server_history_ok: "server_history X core \<Longrightarrow> core_ok X core"
proof (induction rule: server_history.induct)
  case (step core core')
  have "watch_ok core [] new_watch" by (simp add: watch_ok_def new_watch_def)
  then show ?case using step_keeps step.IH step.hyps(2) by blast
qed (rule new_core_ok)

text \<open>What one read of a watch answers.\<close>

definition rebuilt :: "'o publisher \<Rightarrow> ustring \<Rightarrow> 'o server_core \<Rightarrow> 'o watch \<Rightarrow> bool" where
  "rebuilt X sid core w \<longleftrightarrow>
     (case session_changes_view X sid 0 core of
        None \<Rightarrow> False
      | Some (Inl error, _) \<Rightarrow> (\<exists>core'. watch_read X sid w core = Some (Failed error, core'))
      | Some (Inr v, _) \<Rightarrow> cv_changes v = None \<and>
          (let complete = session_projection (cv_session v) in
           \<exists>reply core'. watch_read X sid w core = Some (reply, core') \<and>
             (reply = Unchanged \<and> wa_previous w = Some complete \<or>
              reply = Yielded \<lparr>wa_generation = cv_generation v, wa_previous = Some complete\<rparr> complete)))"

lemma rebuilt_ok:
  assumes ok: "core_ok X core" and w: "watch_ok core sid w"
  shows "rebuilt X sid core w \<and>
    (\<forall>w' state core'. watch_read X sid w core = Some (Yielded w' state, core') \<longrightarrow> core_ok X core' \<and> watch_ok core' sid w')"
proof (cases "current_publication core sid")
  case (Some p)
  then have p: "co_published core sid = Some p" "pu_generation p \<noteq> 0"
    by (auto simp: current_publication_def split: option.splits if_splits)
  have pok: "pu_generation p \<le> co_generation core" "tracked p" "distinct (view_ids (pu_view p))" "sv_id (pu_view p) = sid"
    using core_okD(2) [OF ok p(1)] by (simp_all add: published_ok_def)
  note read = changes_view_ok(3) [OF ok Some]
  let ?g = "wa_generation w" and ?P = "session_projection (pu_view p)"
  let ?v = "published_changes p ?g"
  have gen: "cv_generation ?v = pu_generation p" by (simp add: published_changes_def)
  obtain held where held: "?g \<noteq> 0 \<longrightarrow> wa_previous w = Some (session_projection held) \<and> distinct (view_ids held)"
    "?g \<noteq> 0 \<longrightarrow> pu_tracked_since p \<le> ?g \<longrightarrow> synced ?g held p"
    using w p(1,2) unfolding watch_ok_def by blast
  have apply_ok: "apply_transcript_changes (wa_previous w) (session_projection (cv_session ?v)) (cv_changes ?v) = Some ?P"
  proof (cases "?g = 0")
    case True
    then show ?thesis by (simp add: published_changes_def apply_transcript_changes_def)
  next
    case False
    then show ?thesis
      using held by (intro apply_published_changes [OF pok(3) _ pok(2) p(2) _ refl]) auto
  qed
  have unchanged: "wa_previous w = Some ?P" if "pu_generation p = ?g"
  proof -
    have g: "?g \<noteq> 0" "pu_tracked_since p \<le> ?g" using that p(2) pok(2) by (auto simp: tracked_def)
    then have "held = pu_view p" using held(2) that by (simp add: synced_def)
    then show ?thesis using held(1) g(1) by simp
  qed
  have id: "ss_id ?P = sid" using pok(4) by (simp add: session_projection_def)
  have reply: "watch_read X sid w core = Some (if pu_generation p = ?g then Unchanged
      else Yielded \<lparr>wa_generation = pu_generation p, wa_previous = Some ?P\<rparr> ?P, core)"
    using p(2) by (simp add: watch_read_def read gen apply_ok id)
  have "rebuilt X sid core w"
    unfolding rebuilt_def read reply using unchanged by (simp add: published_changes_def Let_def)
  moreover have "watch_ok core sid \<lparr>wa_generation = pu_generation p, wa_previous = Some ?P\<rparr>"
    unfolding watch_ok_def using pok p(1) synced_self [of p] by auto
  ultimately show ?thesis using ok by (simp add: reply)
next
  case None
  show ?thesis
  proof (cases "co_sessions core sid")
    case nosession: None
    then show ?thesis
      using changes_view_ok(1) [OF ok nosession] by (auto simp: rebuilt_def watch_read_def)
  next
    case (Some e)
    obtain view e' where v: "\<And>since. session_changes_view X sid since core =
        Some (Inr \<lparr>cv_generation = 0, cv_changes = None, cv_session = view\<rparr>,
          core\<lparr>co_sessions := (co_sessions core)(sid \<mapsto> e')\<rparr>)" "sv_id view = sid"
      using changes_view_ok(2) [OF ok Some None] by blast
    have reply: "watch_read X sid w core = Some (Yielded \<lparr>wa_generation = 0, wa_previous = Some (session_projection view)\<rparr>
        (session_projection view), core\<lparr>co_sessions := (co_sessions core)(sid \<mapsto> e')\<rparr>)"
      using v(2) by (simp add: watch_read_def v(1) apply_transcript_changes_def session_projection_def)
    have "rebuilt X sid core w" by (simp add: rebuilt_def v(1) reply Let_def)
    then show ?thesis
      using changes_view_keeps [OF ok v(1)] by (simp add: reply watch_ok_def)
  qed
qed

lemma watch_reachable_ok: "watch_reachable X sid core w \<Longrightarrow> core_ok X core \<and> watch_ok core sid w"
proof (induction rule: watch_reachable.induct)
  case (open_watch core)
  then show ?case using server_history_ok by (simp add: watch_ok_def new_watch_def)
next
  case (server core w core')
  then show ?case using step_keeps by blast
next
  case (read core w w' state core')
  then show ?case using rebuilt_ok by blast
qed

section \<open>The guarantees\<close>

text \<open>C5: Whatever happens to the server's sessions (engines changing in any way, sessions created,
  published and released, other clients reading) and whenever a watch reads, a read that is sent only
  the entries changed since its generation leaves the client with exactly the complete view a new watch
  would be sent at that moment: the changes always apply, and a read that sends nothing means the client
  already holds that view.  A session that does not exist is refused as it is for a new watch.\<close>

theorem watch_rebuilds_exactly:
  assumes "watch_reachable X sid core w"
  shows "case session_changes_view X sid 0 core of
        None \<Rightarrow> False
      | Some (Inl error, _) \<Rightarrow> (\<exists>core'. watch_read X sid w core = Some (Failed error, core'))
      | Some (Inr v, _) \<Rightarrow> cv_changes v = None \<and>
          (let complete = session_projection (cv_session v) in
           \<exists>reply core'. watch_read X sid w core = Some (reply, core') \<and>
             (reply = Unchanged \<and> wa_previous w = Some complete \<or>
              reply = Yielded \<lparr>wa_generation = cv_generation v, wa_previous = Some complete\<rparr> complete))"
  using rebuilt_ok watch_reachable_ok [OF assms] unfolding rebuilt_def by blast

text \<open>A session of the sample transcript, published, read, given another entry and published again.\<close>

definition sample_publisher :: "nat publisher" where
  "sample_publisher = \<lparr>px_proofs = sample_proof_ext,
     px_codec = \<lparr>encode_events = (\<lambda>_. []), decode_events = (\<lambda>_. None)\<rparr>, px_debug = id\<rparr>"

definition sample_engine :: "nat \<Rightarrow> mutation list \<Rightarrow> nat engine" where
  "sample_engine revision ms =
     \<lparr>en_revision = revision,
      en_transcripts = \<lparr>session_transcript = run_mutations ms sample_transcript, run_transcripts = Map.empty\<rparr>,
      en_view = \<lparr>sv_id = [9], sv_revision = 0, sv_metadata = 0, sv_transcript = empty_page, sv_queue = [],
        sv_interactions = [], sv_todos = [], sv_runs = [], sv_runs_has_earlier = False, sv_rest = 0\<rparr>\<rparr>"

lemma sample_engines:
  "engine_ok sample_publisher [9] (sample_engine 1 [])"
  "engine_ok sample_publisher [9] (sample_engine 2 [Push [6] 10 Warning [] [68] Complete])"
  using history_run [OF sample_history, of sample_proof_ext "[]"] sample_history
    history_run [OF sample_history, of sample_proof_ext "[Push [6] 10 Warning [] [68] Complete]"]
    entries_run [OF sample_history, of "[Push [6] 10 Warning [] [68] Complete]"]
  by (simp_all add: engine_ok_def sample_publisher_def sample_engine_def run_mutations_def [of "[]"] sample_visible
      visible_entries_def sample_entries visible_transcript_entry_def fresh_entry_def)

lemma sample_core:
  obtains core where "new_core sample_publisher (sample_engine 1 []) = Some core"
    "\<exists>e. co_sessions core [9] = Some e" "co_generation core = 0"
    "\<exists>p. co_published core [9] = Some p \<and> pu_generation p = 0"
proof (rule engine_view_ok [OF sample_engines(1)])
  fix view e'
  assume "engine_view sample_publisher (sample_engine 1 []) = Some (view, e')"
  then show ?thesis
    by (intro that) (auto simp: new_core_def published_session_def sample_engine_def Let_def)
qed

lemma sample_watch:
  obtains core w p where "watch_reachable sample_publisher [9] core w" "wa_generation w = 1"
    "current_publication core [9] = Some p" "pu_generation p = 2" "pu_tracked_since p = 1"
proof -
  let ?X = sample_publisher and ?e = "sample_engine 2 [Push [6] 10 Warning [] [68] Complete]"
  obtain core e where new: "new_core ?X (sample_engine 1 []) = Some core"
    and core: "co_sessions core [9] = Some e" "co_generation core = 0"
      "\<exists>p. co_published core [9] = Some p \<and> pu_generation p = 0"
    by (rule sample_core) auto
  note h = server_history.new [OF sample_engines(1) new]
  obtain pubs core1 p1 where r1: "publish_session_state ?X [9] 0 core = Some (pubs, core1)" "core_ok ?X core1"
    "co_published core1 [9] = Some p1" "pu_generation p1 = 1" "co_generation core1 = 1"
    "current_publication core1 [9] = Some p1" "pu_tracked_since p1 = 1"
    by (rule publish_observed [OF server_history_ok [OF h] core(1), where now = 0]) (use core(2,3) in \<open>auto intro: that\<close>)
  note h1 = server_history.step [OF h server_step.publish [OF r1(1)]]
  let ?w = "\<lparr>wa_generation = 1, wa_previous = Some (session_projection (pu_view p1))\<rparr>"
  have "sv_id (pu_view p1) = [9]" using core_okD(2) [OF r1(2,3)] by (simp add: published_ok_def)
  then have "watch_read ?X [9] new_watch core1 = Some (Yielded ?w (session_projection (pu_view p1)), core1)"
    using r1(4) changes_view_ok(3) [OF r1(2,6)]
    by (simp add: watch_read_def new_watch_def published_changes_def apply_transcript_changes_def session_projection_def)
  from watch_reachable.read [OF watch_reachable.open_watch [OF h1] this] have w1: "watch_reachable ?X [9] core1 ?w" .
  let ?core2 = "core1\<lparr>co_sessions := (co_sessions core1)([9] \<mapsto> ?e)\<rparr>"
  have w2: "watch_reachable ?X [9] ?core2 ?w"
    by (rule watch_reachable.server [OF w1 server_step.engine [OF sample_engines(2)]])
  have ok2: "core_ok ?X ?core2" by (rule core_ok_engine [OF r1(2) sample_engines(2)])
  obtain pubs core3 p3 where r3: "publish_session_state ?X [9] 1 ?core2 = Some (pubs, core3)"
    "pu_generation p3 = 2" "current_publication core3 [9] = Some p3" "pu_tracked_since p3 = 1"
    by (rule publish_observed [OF ok2, of "[9]" ?e, where now = 1]) (use r1(3-5,7) in \<open>auto intro: that simp: numeral_2_eq_2\<close>)
  from that [OF watch_reachable.server [OF w2 server_step.publish [OF r3(1)]] _ r3(3,2,4)] show ?thesis by simp
qed

theorem watch_rebuilds_exactly_witness:
  "\<exists>core w v core' reply core''.
     wa_generation w = 1 \<and> co_sessions core [9] \<noteq> None \<and>
     (\<exists>sent. session_changes_view sample_publisher [9] 1 core = Some (Inr sent, core) \<and> cv_changes sent \<noteq> None) \<and>
     session_changes_view sample_publisher [9] 0 core = Some (Inr v, core') \<and> cv_generation v = 2 \<and>
     watch_read sample_publisher [9] w core = Some (reply, core'') \<and>
     (reply = Unchanged \<and> wa_previous w = Some (session_projection (cv_session v)) \<or>
      reply = Yielded \<lparr>wa_generation = 2, wa_previous = Some (session_projection (cv_session v))\<rparr>
        (session_projection (cv_session v)))"
proof -
  obtain core w p where w: "watch_reachable sample_publisher [9] core w" "wa_generation w = 1"
    and p: "current_publication core [9] = Some p" "pu_generation p = 2" "pu_tracked_since p = 1"
    by (rule sample_watch)
  have read: "session_changes_view sample_publisher [9] since core = Some (Inr (published_changes p since), core)" for since
    using p(1) by (simp add: session_changes_view_def)
  have "cv_generation (published_changes p 0) = 2" "cv_changes (published_changes p 1) \<noteq> None"
    using p by (simp_all add: published_changes_def)
  moreover have "co_sessions core [9] \<noteq> None"
    using p(1) by (cases "co_sessions core [9]") (auto simp: current_publication_def split: option.splits if_splits)
  ultimately show ?thesis
    using watch_rebuilds_exactly [OF w(1)] w(2) read [of 0] read [of 1] by (simp add: Let_def) blast
qed

text \<open>C17: Publishing a session that has an engine never panics, whatever its transcript and its delegated
  runs became: at least one event is sent, every one to the watches of that session, and the published
  projection carries a generation no publication had before and is what the next reads use.\<close>

theorem publication_wakes_watches:
  assumes "server_history X core" "co_sessions core sid = Some e"
  shows "\<exists>pubs core' p. publish_session_state X sid now core = Some (pubs, core') \<and> pubs \<noteq> [] \<and>
    (\<forall>pub \<in> set pubs. SessionScope sid \<in> set (pb_scopes pub)) \<and>
    current_publication core' sid = Some p \<and> pu_generation p = co_generation core' \<and>
    (\<forall>s q. co_published core s = Some q \<longrightarrow> pu_generation q < pu_generation p)"
proof -
  note ok = server_history_ok [OF assms(1)]
  obtain pubs core' p' where r: "publish_session_state X sid now core = Some (pubs, core')"
    "pubs \<noteq> []" "\<forall>pub \<in> set pubs. SessionScope sid \<in> set (pb_scopes pub)"
    "co_generation core' = co_generation core + 1" "pu_generation p' = co_generation core + 1"
    "current_publication core' sid = Some p'"
    by (rule publish_observed [OF ok assms(2)])
  have "pu_generation q < pu_generation p'" if "co_published core s = Some q" for s q
    using core_okD(2) [OF ok that] r(5) by (simp add: published_ok_def)
  then show ?thesis using r by auto
qed

theorem publication_wakes_watches_witness:
  "\<exists>core pubs core' p. new_core sample_publisher (sample_engine 1 []) = Some core \<and>
     publish_session_state sample_publisher [9] 5 core = Some (pubs, core') \<and> pubs \<noteq> [] \<and>
     current_publication core' [9] = Some p \<and> pu_generation p = co_generation core'"
proof -
  obtain core e where core: "new_core sample_publisher (sample_engine 1 []) = Some core" "co_sessions core [9] = Some e"
    by (rule sample_core) auto
  show ?thesis
    using publication_wakes_watches [OF server_history.new [OF sample_engines(1) core(1)] core(2), of 5] core(1) by blast
qed

end
